(* ===== verification/Prelude.thy ===== *)
theory Prelude
  imports Main "HOL-Library.Word"
begin

text \<open>
  Shared vocabulary of the development: the machine types of \<^verbatim>\<open>src/kernel/types.h\<close>, the
  outcome of a kernel call (a value, a panic, a sleep that nobody can end, or undefined behaviour of C),
  little-endian storage of integers in byte lists and byte memories, the ``first index'' loop
  that xv6 uses to search every one of its tables, and the rounding macros of
  \<^verbatim>\<open>src/kernel/riscv.h\<close>.
\<close>

unbundle bit_operations_syntax

section \<open>Machine types\<close>

type_synonym u8 = "8 word"
type_synonym u16 = "16 word"
type_synonym u32 = "32 word"
type_synonym u64 = "64 word"

text \<open>A \<^verbatim>\<open>uint\<close> below \<open>2\<^sup>3\<^sup>1\<close> keeps its value when it is read as an \<^verbatim>\<open>int\<close>.\<close>

lemma sint_small:
  assumes "unat (n :: u32) < 2 ^ 31"
  shows "sint n = int (unat n)"
proof -
  have "int (unat n) < int (2 ^ 31)" using assms by (subst of_nat_less_iff)
  then have "signed_take_bit 31 (uint n) = uint n"
    using order_trans [of "- (2 ^ 31)" 0 "uint n"] by (intro signed_take_bit_int_eq_self) simp_all
  then show ?thesis by (simp add: sint_uint)
qed

named_theorems layout_defs \<open>numeric constants of the kernel headers\<close>
named_theorems res_simps \<open>evaluation of sequenced kernel calls\<close>

section \<open>Outcomes of kernel calls\<close>

text \<open>
  \<open>Panic msg\<close> is a call of \<^verbatim>\<open>panic(msg)\<close>; \<open>Blocked\<close> is a sleep that a single thread of
  execution cannot leave (a sleep lock already taken, a full log); \<open>Undef\<close> is behaviour
  that C leaves undefined (an access outside an array, a null dereference); \<open>Diverges\<close> is a
  loop that never ends.
\<close>

datatype fault = Panic string | Blocked | Undef | Diverges

type_synonym 'a res = "fault + 'a"

definition rbind :: "'a res \<Rightarrow> ('a \<Rightarrow> 'b res) \<Rightarrow> 'b res" where
  "rbind r f = (case r of Inl e \<Rightarrow> Inl e | Inr x \<Rightarrow> f x)"

lemma rbind_simps [simp, res_simps]:
  "rbind (Inl e) f = Inl e"
  "rbind (Inr x) f = f x"
  by (simp_all add: rbind_def)

lemma rbind_Inr_iff: "rbind r f = Inr y \<longleftrightarrow> (\<exists>x. r = Inr x \<and> f x = Inr y)"
  by (cases r) simp_all

lemma rbind_assoc: "rbind (rbind r f) g = rbind r (\<lambda>x. rbind (f x) g)"
  by (cases r) simp_all

lemma rbind_cong [fundef_cong]:
  "r = r' \<Longrightarrow> (\<And>x. r' = Inr x \<Longrightarrow> f x = f' x) \<Longrightarrow> rbind r f = rbind r' f'"
  by (cases r') simp_all

text \<open>A counted loop whose body may fault: \<open>rfold f is s\<close> runs \<open>f\<close> for each index in turn.\<close>

fun rfold :: "('i \<Rightarrow> 's \<Rightarrow> 's res) \<Rightarrow> 'i list \<Rightarrow> 's \<Rightarrow> 's res" where
  "rfold f [] s = Inr s"
| "rfold f (i # is) s = rbind (f i s) (rfold f is)"

lemma rfold_append: "rfold f (is @ js) s = rbind (rfold f is s) (rfold f js)"
  by (induction "is" arbitrary: s) (simp_all add: rbind_assoc rbind_def split: sum.split)

section \<open>Searching a table from its first entry\<close>

text \<open>\<open>first_index P xs\<close> is the loop \<^verbatim>\<open>for(i = 0; i < N; i++) if(P(x[i])) return i;\<close>.\<close>

fun first_index :: "('a \<Rightarrow> bool) \<Rightarrow> 'a list \<Rightarrow> nat option" where
  "first_index P [] = None"
| "first_index P (x # xs) = (if P x then Some 0 else map_option Suc (first_index P xs))"

lemma first_index_None_iff: "first_index P xs = None \<longleftrightarrow> (\<forall>x \<in> set xs. \<not> P x)"
  by (induction xs) auto

lemma first_index_SomeD:
  "first_index P xs = Some i \<Longrightarrow>
     i < length xs \<and> P (xs ! i) \<and> (\<forall>j < i. \<not> P (xs ! j))"
proof (induction xs arbitrary: i)
  case (Cons x xs)
  then show ?case
    by (auto split: if_splits simp: nth_Cons split: nat.splits)
qed simp

lemma first_index_ex: "x \<in> set xs \<Longrightarrow> P x \<Longrightarrow> \<exists>i. first_index P xs = Some i"
  by (induction xs) auto

lemma first_index_Some_iff:
  "first_index P xs = Some i \<longleftrightarrow>
     i < length xs \<and> P (xs ! i) \<and> (\<forall>j < i. \<not> P (xs ! j))"
proof
  assume r: "i < length xs \<and> P (xs ! i) \<and> (\<forall>j < i. \<not> P (xs ! j))"
  then have "xs ! i \<in> set xs" and "P (xs ! i)" by simp_all
  then obtain k where k: "first_index P xs = Some k"
    using first_index_ex by metis
  from first_index_SomeD [OF k] r have "k = i"
    by (metis linorder_neqE_nat)
  with k show "first_index P xs = Some i" by simp
qed (rule first_index_SomeD)

lemma find_SomeD: "find P xs = Some x \<Longrightarrow> x \<in> set xs \<and> P x"
  by (induction xs) (auto split: if_splits)

lemma first_index_cong:
  "(\<And>x. x \<in> set xs \<Longrightarrow> P x = Q x) \<Longrightarrow> first_index P xs = first_index Q xs"
  by (induction xs) auto

section \<open>Little-endian integers in byte lists\<close>

definition byte_of :: "nat \<Rightarrow> 'a::len word \<Rightarrow> u8" where
  "byte_of i w = ucast (drop_bit (8 * i) w)"

definition le_bytes :: "nat \<Rightarrow> 'a::len word \<Rightarrow> u8 list" where
  "le_bytes k w = map (\<lambda>i. byte_of i w) [0..<k]"

fun le_word :: "u8 list \<Rightarrow> 'a::len word" where
  "le_word [] = 0"
| "le_word (b # bs) = ucast b OR push_bit 8 (le_word bs)"

lemma length_le_bytes [simp]: "length (le_bytes k w) = k"
  by (simp add: le_bytes_def)

lemma bit_le_word:
  "bit (le_word bs :: 'a::len word) n \<longleftrightarrow>
     n < LENGTH('a) \<and> n div 8 < length bs \<and> bit (bs ! (n div 8)) (n mod 8)"
proof (induction bs arbitrary: n)
  case (Cons b bs)
  show ?case
  proof (cases "n < 8")
    case True
    then show ?thesis
      by (auto simp: bit_or_iff bit_push_bit_iff bit_ucast_iff dest: bit_imp_le_length)
  next
    case False
    then obtain m where m: "n = m + 8" by (metis add.commute le_Suc_ex not_less)
    have "\<not> bit b n" using False bit_imp_le_length [of b n] by auto
    moreover have "(m + 8) div 8 = Suc (m div 8)" and "(m + 8) mod 8 = m mod 8" by simp_all
    ultimately show ?thesis using m Cons.IH [of m]
      by (auto simp: bit_or_iff bit_push_bit_iff bit_ucast_iff)
  qed
qed simp

lemma bit_byte_of: "bit (byte_of i w) n \<longleftrightarrow> n < 8 \<and> bit w (8 * i + n)"
  by (auto simp: byte_of_def bit_ucast_iff bit_drop_bit_eq dest: bit_imp_le_length)

lemma le_word_le_bytes:
  "LENGTH('a) \<le> 8 * k \<Longrightarrow> le_word (le_bytes k w) = (w :: 'a::len word)"
  by (rule bit_word_eqI) (auto simp: bit_le_word bit_byte_of le_bytes_def)

lemma le_bytes_le_word:
  assumes "length bs = k" and "8 * k \<le> LENGTH('a)"
  shows "le_bytes k (le_word bs :: 'a::len word) = bs"
proof (rule nth_equalityI)
  fix i assume i: "i < length (le_bytes k (le_word bs :: 'a word))"
  show "le_bytes k (le_word bs :: 'a word) ! i = bs ! i"
  proof (rule bit_word_eqI)
    fix n assume "n < LENGTH(8)"
    with i assms show "bit (le_bytes k (le_word bs :: 'a word) ! i) n = bit (bs ! i) n"
      by (simp add: le_bytes_def bit_byte_of bit_le_word)
  qed
qed (use assms in simp)

text \<open>Reading and writing a field of a C structure that lies at byte offset \<open>off\<close> of a buffer.\<close>

definition get_field :: "nat \<Rightarrow> nat \<Rightarrow> u8 list \<Rightarrow> 'a::len word" where
  "get_field k off bs = le_word (take k (drop off bs))"

definition put_bytes :: "nat \<Rightarrow> u8 list \<Rightarrow> u8 list \<Rightarrow> u8 list" where
  "put_bytes off xs bs = take off bs @ xs @ drop (off + length xs) bs"

definition put_field :: "nat \<Rightarrow> nat \<Rightarrow> 'a::len word \<Rightarrow> u8 list \<Rightarrow> u8 list" where
  "put_field k off w bs = put_bytes off (le_bytes k w) bs"

lemma length_put_bytes [simp]:
  "off + length xs \<le> length bs \<Longrightarrow> length (put_bytes off xs bs) = length bs"
  by (simp add: put_bytes_def)

lemma length_put_field [simp]:
  "off + k \<le> length bs \<Longrightarrow> length (put_field k off w bs) = length bs"
  by (simp add: put_field_def)

lemma nth_put_bytes:
  "off + length xs \<le> length bs \<Longrightarrow> i < length bs \<Longrightarrow>
     put_bytes off xs bs ! i = (if off \<le> i \<and> i < off + length xs then xs ! (i - off) else bs ! i)"
  by (auto simp: put_bytes_def nth_append not_less min_def)

lemma get_put_bytes_same:
  "off + length xs \<le> length bs \<Longrightarrow> take (length xs) (drop off (put_bytes off xs bs)) = xs"
  by (simp add: put_bytes_def)

lemma take_drop_put_bytes_other:
  assumes "off + length xs \<le> length bs" and "off' + k \<le> off \<or> off + length xs \<le> off'"
  shows "take k (drop off' (put_bytes off xs bs)) = take k (drop off' bs)"
proof (rule nth_equalityI)
  fix i assume "i < length (take k (drop off' (put_bytes off xs bs)))"
  then have "i < k" and "off' + i < length bs" using assms(1) by auto
  with assms show "take k (drop off' (put_bytes off xs bs)) ! i = take k (drop off' bs) ! i"
    by (auto simp: nth_put_bytes)
qed (use assms in simp)

lemma get_put_field_same [simp]:
  "off + k \<le> length bs \<Longrightarrow> LENGTH('a) \<le> 8 * k \<Longrightarrow>
     get_field k off (put_field k off w bs) = (w :: 'a::len word)"
  using get_put_bytes_same [of off "le_bytes k w" bs]
  by (simp add: get_field_def put_field_def le_word_le_bytes)

lemma get_put_field_other:
  "off + k \<le> length bs \<Longrightarrow> off' + k' \<le> off \<or> off + k \<le> off' \<Longrightarrow>
     get_field k' off' (put_field k off w bs) = get_field k' off' bs"
  by (simp add: get_field_def put_field_def take_drop_put_bytes_other)

lemma put_bytes_put_bytes_same:
  "off + length xs \<le> length bs \<Longrightarrow> length ys = length xs \<Longrightarrow>
     put_bytes off ys (put_bytes off xs bs) = put_bytes off ys bs"
  by (rule nth_equalityI) (auto simp: nth_put_bytes)

lemma unat_of_nat32: "n < 2 ^ 32 \<Longrightarrow> unat (of_nat n :: 32 word) = n"
  by (simp add: unat_of_nat take_bit_nat_eq_self)

end
