(* ===== verification/Memory.thy ===== *)
theory Memory
  imports Prelude
begin

text \<open>
  Byte-addressed memory. A memory is a function from 64-bit addresses to bytes; the region
  of \<open>n\<close> bytes at \<open>a\<close> is described by the distance \<open>x - a\<close>, so that no side condition
  about wrap-around is needed to talk about one region. The lemmas relate stores and loads of
  byte runs and of 64-bit words, and describe a 4096-byte page as a region.
\<close>

type_synonym memory = "u64 \<Rightarrow> u8"

definition in_region :: "u64 \<Rightarrow> nat \<Rightarrow> u64 \<Rightarrow> bool" where
  "in_region a n x \<longleftrightarrow> unat (x - a) < n"

definition load_bytes :: "u64 \<Rightarrow> nat \<Rightarrow> memory \<Rightarrow> u8 list" where
  "load_bytes a n m = map (\<lambda>i. m (a + of_nat i)) [0..<n]"

definition store_bytes :: "u64 \<Rightarrow> u8 list \<Rightarrow> memory \<Rightarrow> memory" where
  "store_bytes a xs m = (\<lambda>x. if in_region a (length xs) x then xs ! unat (x - a) else m x)"

definition load64 :: "memory \<Rightarrow> u64 \<Rightarrow> u64" where
  "load64 m a = le_word (load_bytes a 8 m)"

definition store64 :: "u64 \<Rightarrow> u64 \<Rightarrow> memory \<Rightarrow> memory" where
  "store64 a w = store_bytes a (le_bytes 8 w)"

definition disjoint_regions :: "u64 \<Rightarrow> nat \<Rightarrow> u64 \<Rightarrow> nat \<Rightarrow> bool" where
  "disjoint_regions a n b k \<longleftrightarrow> (\<forall>x. \<not> (in_region a n x \<and> in_region b k x))"

lemma length_load_bytes [simp]: "length (load_bytes a n m) = n"
  by (simp add: load_bytes_def)

lemma unat_of_nat64: "i < 2 ^ 64 \<Longrightarrow> unat (of_nat i :: u64) = i"
  by (simp add: unat_of_nat take_bit_nat_eq_self)

lemma unat64_less: "unat (a :: u64) < 2 ^ 64"
  using unsigned_less [of a, where ?'a = nat] by simp

lemma in_region_offset:
  "i < n \<Longrightarrow> n \<le> 2 ^ 64 \<Longrightarrow> in_region a n (a + of_nat i)"
  by (simp add: in_region_def unat_of_nat64)

lemma in_region_0 [simp]: "\<not> in_region a 0 x"
  by (simp add: in_region_def)

lemma in_region_self: "0 < n \<Longrightarrow> in_region a n a"
  by (simp add: in_region_def)

lemma in_region_mono: "in_region a n x \<Longrightarrow> n \<le> k \<Longrightarrow> in_region a k x"
  by (simp add: in_region_def)

lemma disjoint_regions_sym: "disjoint_regions a n b k \<Longrightarrow> disjoint_regions b k a n"
  by (auto simp: disjoint_regions_def)

lemma load_store_bytes_same:
  "length xs \<le> 2 ^ 64 \<Longrightarrow> load_bytes a (length xs) (store_bytes a xs m) = xs"
  by (rule nth_equalityI)
    (auto simp: load_bytes_def store_bytes_def in_region_def unat_of_nat64)

lemma load_bytes_cong:
  "(\<And>x. in_region a n x \<Longrightarrow> m x = m' x) \<Longrightarrow> n \<le> 2 ^ 64 \<Longrightarrow>
     load_bytes a n m = load_bytes a n m'"
  by (simp add: load_bytes_def in_region_offset)

lemma load_bytes_store_other:
  assumes "disjoint_regions a n b (length xs)" and "n \<le> 2 ^ 64"
  shows "load_bytes a n (store_bytes b xs m) = load_bytes a n m"
  using assms
  by (intro load_bytes_cong) (auto simp: store_bytes_def disjoint_regions_def)

lemma load64_store64_same [simp]: "load64 (store64 a w m) a = w"
  using load_store_bytes_same [of "le_bytes 8 w" a m]
  by (simp add: load64_def store64_def le_word_le_bytes)

lemma load64_store64_other:
  "disjoint_regions a 8 b 8 \<Longrightarrow> load64 (store64 b w m) a = load64 m a"
  by (simp add: load64_def store64_def load_bytes_store_other)

lemma load64_cong: "(\<And>x. in_region a 8 x \<Longrightarrow> m x = m' x) \<Longrightarrow> load64 m a = load64 m' a"
  unfolding load64_def by (rule arg_cong [OF load_bytes_cong]) auto

lemma store_bytes_outside: "\<not> in_region a (length xs) x \<Longrightarrow> store_bytes a xs m x = m x"
  by (simp add: store_bytes_def)

lemma store64_outside: "\<not> in_region a 8 x \<Longrightarrow> store64 a w m x = m x"
  by (simp add: store64_def store_bytes_outside)

section \<open>Pages\<close>

abbreviation PGSIZE :: nat where "PGSIZE \<equiv> 4096"

definition PGROUNDDOWN :: "u64 \<Rightarrow> u64" where
  "PGROUNDDOWN a = a AND NOT 4095"

definition PGROUNDUP :: "u64 \<Rightarrow> u64" where
  "PGROUNDUP sz = (sz + 4096 - 1) AND NOT 4095"

definition page_aligned :: "u64 \<Rightarrow> bool" where
  "page_aligned a \<longleftrightarrow> a mod 4096 = 0"

lemma unat_PGROUNDDOWN: "unat (PGROUNDDOWN a) = 4096 * (unat a div 4096)"
proof -
  have "a AND NOT (mask 12) = push_bit 12 (drop_bit 12 a)"
    by (rule bit_word_eqI) (auto simp: bit_simps)
  then have "PGROUNDDOWN a = push_bit 12 (drop_bit 12 a)"
    by (simp add: PGROUNDDOWN_def mask_eq_exp_minus_1)
  then have "unat (PGROUNDDOWN a) = (unat a div 4096 * 4096) mod 2 ^ 64"
    by (simp add: push_bit_eq_mult drop_bit_eq_div unat_word_ariths unat_div mod_mult_left_eq)
  moreover have "unat a div 4096 * 4096 < 2 ^ 64"
    using unat64_less [of a] by (simp add: div_times_less_eq_dividend le_less_trans)
  ultimately show ?thesis
    by (simp add: mult.commute)
qed

lemma page_aligned_unat: "page_aligned a \<longleftrightarrow> unat a mod 4096 = 0"
proof -
  have "unat (a mod 4096) = unat a mod 4096" by (simp add: unat_mod)
  then show ?thesis unfolding page_aligned_def by (metis unat_eq_zero)
qed

lemma page_aligned_PGROUNDDOWN [simp]: "page_aligned (PGROUNDDOWN a)"
  by (simp add: page_aligned_unat unat_PGROUNDDOWN)

lemma PGROUNDDOWN_aligned: "page_aligned a \<Longrightarrow> PGROUNDDOWN a = a"
  by (rule word_unat_eq_iff [THEN iffD2]) (auto simp: unat_PGROUNDDOWN page_aligned_unat)

lemma PGROUNDUP_alt: "PGROUNDUP a = PGROUNDDOWN (a + 4095)"
  by (simp add: PGROUNDUP_def PGROUNDDOWN_def add.commute)

lemma page_aligned_PGROUNDUP [simp]: "page_aligned (PGROUNDUP a)"
  by (simp add: PGROUNDUP_alt)

lemma unat_PGROUNDUP:
  assumes "unat a + 4095 < 2 ^ 64"
  shows "unat (PGROUNDUP a) = 4096 * ((unat a + 4095) div 4096)"
proof -
  have "unat (a + 4095) = unat a + 4095"
    using assms by (simp add: unat_word_ariths)
  then show ?thesis by (simp add: PGROUNDUP_alt unat_PGROUNDDOWN)
qed

lemma div_eq_iff_diff:
  assumes "a = 4096 * q" and "a \<le> (x::nat)"
  shows "x div 4096 = q \<longleftrightarrow> x - a < 4096"
proof -
  obtain d where "x = a + d" using assms(2) le_Suc_ex by blast
  with assms(1) show ?thesis by auto
qed

lemma in_page_iff:
  assumes "page_aligned a"
  shows "in_region a PGSIZE x \<longleftrightarrow> PGROUNDDOWN x = a"
proof -
  have a: "unat a = 4096 * (unat a div 4096)"
    using assms by (auto simp: page_aligned_unat)
  have "PGROUNDDOWN x = a \<longleftrightarrow> unat x div 4096 = unat a div 4096"
    using a by (auto simp: word_unat_eq_iff unat_PGROUNDDOWN)
  also have "\<dots> \<longleftrightarrow> unat (x - a) < 4096"
  proof (cases "a \<le> x")
    case True
    then have "unat (x - a) = unat x - unat a" and "unat a \<le> unat x"
      by (simp_all add: unat_sub word_le_nat_alt)
    with a show ?thesis using div_eq_iff_diff [of "unat a" "unat a div 4096" "unat x"] by simp
  next
    case False
    then have lt: "unat x < unat a" by (simp add: word_le_nat_alt)
    have e: "unat (x - a) = 2 ^ 64 + unat x - unat a"
      using lt by (simp add: unat_sub_if')
    have "unat a div 4096 < 4503599627370496"
      using unat64_less [of a] by (simp add: less_mult_imp_div_less)
    then have "unat a + 4096 \<le> 2 ^ 64" using a by simp
    then have "4096 \<le> unat (x - a)" using e by simp
    moreover have "unat x div 4096 \<noteq> unat a div 4096"
      using lt a div_times_less_eq_dividend [of "unat x" 4096]
      by (metis not_less mult.commute times_div_less_eq_dividend)
    ultimately show ?thesis by simp
  qed
  finally show ?thesis by (simp add: in_region_def)
qed

lemma disjoint_pages:
  "page_aligned a \<Longrightarrow> page_aligned b \<Longrightarrow> a \<noteq> b \<Longrightarrow> disjoint_regions a PGSIZE b PGSIZE"
  by (auto simp: disjoint_regions_def in_page_iff)

end
