(* ===== verification/Kstring.thy ===== *)
theory Kstring
  imports Memory
begin

text \<open>
  The kernel string library, \<^verbatim>\<open>src/kernel/string.c\<close>: the call counters, the null and bounds
  validation that every routine performs first, and the byte loops over memory. The
  diagnostic \<^verbatim>\<open>printf\<close> calls are not modelled; everything else each routine does is.
  Pointers are 64-bit addresses, lengths are the 32-bit \<^verbatim>\<open>uint\<close> (or signed
  \<^verbatim>\<open>int\<close>) of the source, and \<^verbatim>\<open>char\<close> is unsigned, as on RISC-V.
\<close>

section \<open>State\<close>

record string_stats =
  memset_calls :: u64
  memcmp_calls :: u64
  memmove_calls :: u64
  memcpy_calls :: u64
  strncmp_calls :: u64
  strncpy_calls :: u64
  safestrcpy_calls :: u64
  strlen_calls :: u64
  null_pointer_errors :: u64
  bounds_errors :: u64

text \<open>The machine state that every layer of the kernel extends: memory and the counters.\<close>

record mach =
  mem :: memory
  string_stats_of :: string_stats

definition zero_string_stats :: string_stats where
  "zero_string_stats = \<lparr>memset_calls = 0, memcmp_calls = 0, memmove_calls = 0, memcpy_calls = 0,
     strncmp_calls = 0, strncpy_calls = 0, safestrcpy_calls = 0, strlen_calls = 0,
     null_pointer_errors = 0, bounds_errors = 0\<rparr>"

definition upd_stats :: "(string_stats \<Rightarrow> string_stats) \<Rightarrow> 'a mach_scheme \<Rightarrow> 'a mach_scheme" where
  "upd_stats f s = s\<lparr>string_stats_of := f (string_stats_of s)\<rparr>"

definition upd_mem :: "(memory \<Rightarrow> memory) \<Rightarrow> 'a mach_scheme \<Rightarrow> 'a mach_scheme" where
  "upd_mem f s = s\<lparr>mem := f (mem s)\<rparr>"

definition reset_string_stats :: "'a mach_scheme \<Rightarrow> 'a mach_scheme" where
  "reset_string_stats = upd_stats (\<lambda>_. zero_string_stats)"

lemma mem_upd_stats [simp]: "mem (upd_stats f s) = mem s"
  by (simp add: upd_stats_def)

lemma mem_upd_mem [simp]: "mem (upd_mem f s) = f (mem s)"
  by (simp add: upd_mem_def)

lemma more_upd [simp]: "mach.more (upd_stats f s) = mach.more s" "mach.more (upd_mem g s) = mach.more s"
  by (simp_all add: upd_stats_def upd_mem_def)

lemma upd_mem_ident [simp]: "upd_mem (\<lambda>m x. m x) s = s"
  by (simp add: upd_mem_def)

section \<open>Validation\<close>

definition validate_ptr :: "u64 \<Rightarrow> 'a mach_scheme \<Rightarrow> bool \<times> 'a mach_scheme" where
  "validate_ptr ptr s =
     (if ptr = 0
      then (False, upd_stats (\<lambda>t. t\<lparr>null_pointer_errors := null_pointer_errors t + 1\<rparr>) s)
      else (True, s))"

definition validate_bounds :: "u32 \<Rightarrow> u32 \<Rightarrow> 'a mach_scheme \<Rightarrow> bool \<times> 'a mach_scheme" where
  "validate_bounds n max_size s =
     (if max_size < n
      then (False, upd_stats (\<lambda>t. t\<lparr>bounds_errors := bounds_errors t + 1\<rparr>) s)
      else (True, s))"

text \<open>\<^verbatim>\<open>!validate_ptr(p) || !validate_ptr(q)\<close>: the second pointer is looked at only when the
  first one is valid.\<close>

definition validate_ptr2 :: "u64 \<Rightarrow> u64 \<Rightarrow> 'a mach_scheme \<Rightarrow> bool \<times> 'a mach_scheme" where
  "validate_ptr2 p q s = (case validate_ptr p s of (ok, s1) \<Rightarrow> if ok then validate_ptr q s1 else (False, s1))"

lemma mem_validate [simp]:
  "mem (snd (validate_ptr p s)) = mem s"
  "mem (snd (validate_ptr2 p q s)) = mem s"
  "mem (snd (validate_bounds n b s)) = mem s"
  by (simp_all add: validate_ptr_def validate_ptr2_def validate_bounds_def)

lemma validate_ok [simp]:
  "p \<noteq> 0 \<Longrightarrow> validate_ptr p s = (True, s)"
  "p \<noteq> 0 \<Longrightarrow> q \<noteq> 0 \<Longrightarrow> validate_ptr2 p q s = (True, s)"
  "n \<le> b \<Longrightarrow> validate_bounds n b s = (True, s)"
  by (auto simp: validate_ptr_def validate_ptr2_def validate_bounds_def)

section \<open>Byte loops\<close>

fun fill_loop :: "u64 \<Rightarrow> u8 \<Rightarrow> nat \<Rightarrow> nat \<Rightarrow> memory \<Rightarrow> memory" where
  "fill_loop dst c i 0 m = m"
| "fill_loop dst c i (Suc k) m = fill_loop dst c (Suc i) k (m(dst + of_nat i := c))"

fun memcmp_loop :: "nat \<Rightarrow> u64 \<Rightarrow> u64 \<Rightarrow> memory \<Rightarrow> int" where
  "memcmp_loop 0 s1 s2 m = 0"
| "memcmp_loop (Suc n) s1 s2 m =
     (if m s1 \<noteq> m s2 then uint (m s1) - uint (m s2) else memcmp_loop n (s1 + 1) (s2 + 1) m)"

fun copy_fwd :: "nat \<Rightarrow> u64 \<Rightarrow> u64 \<Rightarrow> memory \<Rightarrow> memory" where
  "copy_fwd 0 d s m = m"
| "copy_fwd (Suc n) d s m = copy_fwd n (d + 1) (s + 1) (m(d := m s))"

fun copy_bwd :: "nat \<Rightarrow> u64 \<Rightarrow> u64 \<Rightarrow> memory \<Rightarrow> memory" where
  "copy_bwd 0 d s m = m"
| "copy_bwd (Suc n) d s m = copy_bwd n (d - 1) (s - 1) (m(d - 1 := m (s - 1)))"

fun strncmp_loop :: "nat \<Rightarrow> (nat \<Rightarrow> u8) \<Rightarrow> (nat \<Rightarrow> u8) \<Rightarrow> nat \<Rightarrow> int" where
  "strncmp_loop 0 p q i = 0"
| "strncmp_loop (Suc n) p q i =
     (if p i \<noteq> 0 \<and> p i = q i then strncmp_loop n p q (Suc i) else uint (p i) - uint (q i))"

fun pad_loop :: "nat \<Rightarrow> u64 \<Rightarrow> memory \<Rightarrow> memory" where
  "pad_loop 0 s m = m"
| "pad_loop (Suc n) s m = pad_loop n (s + 1) (m(s := 0))"

fun strncpy_loop :: "nat \<Rightarrow> u64 \<Rightarrow> u64 \<Rightarrow> memory \<Rightarrow> memory" where
  "strncpy_loop 0 s t m = m"
| "strncpy_loop (Suc n) s t m =
     (let c = m t; m1 = m(s := c)
      in if c \<noteq> 0 then strncpy_loop n (s + 1) (t + 1) m1 else pad_loop n (s + 1) m1)"

text \<open>The argument of \<open>safestrcpy_loop\<close> is the value of \<^verbatim>\<open>--n\<close>.\<close>

fun safestrcpy_loop :: "nat \<Rightarrow> u64 \<Rightarrow> u64 \<Rightarrow> memory \<Rightarrow> memory" where
  "safestrcpy_loop 0 s t m = m(s := 0)"
| "safestrcpy_loop (Suc n) s t m =
     (let c = m t; m1 = m(s := c)
      in if c \<noteq> 0 then safestrcpy_loop n (s + 1) (t + 1) m1 else m1(s + 1 := 0))"

function strlen_loop :: "(nat \<Rightarrow> u8) \<Rightarrow> nat \<Rightarrow> nat" where
  "strlen_loop p n = (if p n = 0 then n else if 4096 < n then n else strlen_loop p (Suc n))"
  by pat_completeness auto
termination
  by (relation "measure (\<lambda>(p, n). 4097 - n)") auto

declare strlen_loop.simps [simp del]

partial_function (option) safe_strcmp_loop :: "memory \<Rightarrow> u64 \<Rightarrow> u64 \<Rightarrow> int option" where
  "safe_strcmp_loop m s1 s2 =
     (if m s1 \<noteq> 0 \<and> m s2 \<noteq> 0 \<and> m s1 = m s2 then safe_strcmp_loop m (s1 + 1) (s2 + 1)
      else Some (uint (m s1) - uint (m s2)))"

section \<open>The routines\<close>

definition memset :: "u64 \<Rightarrow> u32 \<Rightarrow> u32 \<Rightarrow> 'a mach_scheme \<Rightarrow> u64 \<times> 'a mach_scheme" where
  "memset dst c n s =
     (let s1 = upd_stats (\<lambda>t. t\<lparr>memset_calls := memset_calls t + 1\<rparr>) s in
      case validate_ptr dst s1 of (ok, s2) \<Rightarrow> if \<not> ok then (dst, s2) else
      case validate_bounds n (1024 * 1024) s2 of (ok, s3) \<Rightarrow> if \<not> ok then (dst, s3) else
      (dst, upd_mem (fill_loop dst (ucast c) 0 (unat n)) s3))"

definition memcmp :: "u64 \<Rightarrow> u64 \<Rightarrow> u32 \<Rightarrow> 'a mach_scheme \<Rightarrow> int \<times> 'a mach_scheme" where
  "memcmp v1 v2 n s =
     (let s1 = upd_stats (\<lambda>t. t\<lparr>memcmp_calls := memcmp_calls t + 1\<rparr>) s in
      case validate_ptr2 v1 v2 s1 of (ok, s2) \<Rightarrow> if \<not> ok then (0, s2) else
      case validate_bounds n (1024 * 1024) s2 of (ok, s3) \<Rightarrow> if \<not> ok then (0, s3) else
      (memcmp_loop (unat n) v1 v2 (mem s3), s3))"

definition memmove :: "u64 \<Rightarrow> u64 \<Rightarrow> u32 \<Rightarrow> 'a mach_scheme \<Rightarrow> u64 \<times> 'a mach_scheme" where
  "memmove dst src n s =
     (let s1 = upd_stats (\<lambda>t. t\<lparr>memmove_calls := memmove_calls t + 1\<rparr>) s in
      case validate_ptr2 dst src s1 of (ok, s2) \<Rightarrow> if \<not> ok then (dst, s2) else
      case validate_bounds n (1024 * 1024) s2 of (ok, s3) \<Rightarrow> if \<not> ok then (dst, s3) else
      if n = 0 then (dst, s3) else
      if src < dst \<and> src + ucast n > dst
      then (dst, upd_mem (copy_bwd (unat n) (dst + ucast n) (src + ucast n)) s3)
      else (dst, upd_mem (copy_fwd (unat n) dst src) s3))"

definition memcpy :: "u64 \<Rightarrow> u64 \<Rightarrow> u32 \<Rightarrow> 'a mach_scheme \<Rightarrow> u64 \<times> 'a mach_scheme" where
  "memcpy dst src n s =
     memmove dst src n (upd_stats (\<lambda>t. t\<lparr>memcpy_calls := memcpy_calls t + 1\<rparr>) s)"

definition strncmp :: "u64 \<Rightarrow> u64 \<Rightarrow> u32 \<Rightarrow> 'a mach_scheme \<Rightarrow> int \<times> 'a mach_scheme" where
  "strncmp p q n s =
     (let s1 = upd_stats (\<lambda>t. t\<lparr>strncmp_calls := strncmp_calls t + 1\<rparr>) s in
      case validate_ptr2 p q s1 of (ok, s2) \<Rightarrow> if \<not> ok then (0, s2) else
      case validate_bounds n 1024 s2 of (ok, s3) \<Rightarrow> if \<not> ok then (0, s3) else
      (strncmp_loop (unat n) (\<lambda>i. mem s3 (p + of_nat i)) (\<lambda>i. mem s3 (q + of_nat i)) 0, s3))"

definition strncpy :: "u64 \<Rightarrow> u64 \<Rightarrow> u32 \<Rightarrow> 'a mach_scheme \<Rightarrow> u64 \<times> 'a mach_scheme" where
  "strncpy d t n s =
     (let s1 = upd_stats (\<lambda>t. t\<lparr>strncpy_calls := strncpy_calls t + 1\<rparr>) s in
      case validate_ptr2 d t s1 of (ok, s2) \<Rightarrow> if \<not> ok then (d, s2) else
      if sint n < 0 then (d, s2) else
      case validate_bounds n 1024 s2 of (ok, s3) \<Rightarrow> if \<not> ok then (d, s3) else
      (d, upd_mem (strncpy_loop (unat n) d t) s3))"

definition safestrcpy :: "u64 \<Rightarrow> u64 \<Rightarrow> u32 \<Rightarrow> 'a mach_scheme \<Rightarrow> u64 \<times> 'a mach_scheme" where
  "safestrcpy d t n s =
     (let s1 = upd_stats (\<lambda>t. t\<lparr>safestrcpy_calls := safestrcpy_calls t + 1\<rparr>) s in
      case validate_ptr2 d t s1 of (ok, s2) \<Rightarrow> if \<not> ok then (d, s2) else
      if sint n \<le> 0 then (d, s2) else
      case validate_bounds n 1024 s2 of (ok, s3) \<Rightarrow> if \<not> ok then (d, s3) else
      (d, upd_mem (safestrcpy_loop (unat n - 1) d t) s3))"

definition strlen :: "u64 \<Rightarrow> 'a mach_scheme \<Rightarrow> nat \<times> 'a mach_scheme" where
  "strlen p s =
     (let s1 = upd_stats (\<lambda>t. t\<lparr>strlen_calls := strlen_calls t + 1\<rparr>) s in
      case validate_ptr p s1 of (ok, s2) \<Rightarrow> if \<not> ok then (0, s2) else
      (strlen_loop (\<lambda>i. mem s2 (p + of_nat i)) 0, s2))"

definition safe_strcmp :: "u64 \<Rightarrow> u64 \<Rightarrow> 'a mach_scheme \<Rightarrow> int option" where
  "safe_strcmp s1 s2 s =
     (if s1 = 0 \<and> s2 = 0 then Some 0 else if s1 = 0 then Some (-1) else if s2 = 0 then Some 1
      else safe_strcmp_loop (mem s) s1 s2)"

section \<open>What the loops compute\<close>

lemma fill_loop_spec:
  "i + k \<le> 2 ^ 64 \<Longrightarrow>
     fill_loop dst c i k m =
       (\<lambda>x. if i \<le> unat (x - dst) \<and> unat (x - dst) < i + k then c else m x)"
proof (induction k arbitrary: i m)
  case (Suc k)
  have at: "unat (x - dst) = i \<longleftrightarrow> x = dst + of_nat i" for x
    using Suc.prems by (auto simp: unat_of_nat64)
  from Suc have "fill_loop dst c i (Suc k) m =
      (\<lambda>x. if Suc i \<le> unat (x - dst) \<and> unat (x - dst) < Suc i + k then c
            else (m(dst + of_nat i := c)) x)"
    by simp
  also have "\<dots> = (\<lambda>x. if i \<le> unat (x - dst) \<and> unat (x - dst) < i + Suc k then c else m x)"
    using at Suc.prems by (intro ext) (auto simp: Suc_le_eq le_less unat_of_nat64)
  finally show ?case .
qed (auto simp: fun_eq_iff)

lemma fill_loop_region:
  "n \<le> 2 ^ 64 \<Longrightarrow> fill_loop dst c 0 n m = (\<lambda>x. if in_region dst n x then c else m x)"
  by (simp add: fill_loop_spec in_region_def)

lemma shift_region:
  "in_region d (Suc n) x \<longleftrightarrow> x = d \<or> in_region (d + 1) n x" if "n < 2 ^ 64" for d x :: u64
proof (cases "x = d")
  case False
  then have "unat (x - d) \<noteq> 0" by (simp add: unat_eq_zero)
  then have "unat (x - (d + 1)) = unat (x - d) - 1"
    by (metis diff_diff_eq unat_eq_zero unat_minus_one)
  with False \<open>unat (x - d) \<noteq> 0\<close> show ?thesis by (auto simp: in_region_def)
qed (simp add: in_region_def)

lemma copy_fwd_spec:
  assumes "n \<le> 2 ^ 64"
    and "\<And>i j. i < j \<Longrightarrow> j < n \<Longrightarrow> d + of_nat i \<noteq> s + of_nat j"
  shows "copy_fwd n d s m = (\<lambda>x. if in_region d n x then m (s + (x - d)) else m x)"
  using assms
proof (induction n arbitrary: d s m)
  case (Suc n)
  have step: "d + 1 + of_nat i \<noteq> s + 1 + of_nat j" if "i < j" "j < n" for i j
    using Suc.prems(2) [of "Suc i" "Suc j"] that by (simp add: ac_simps)
  have rd: "s + (x - d) \<noteq> d" if "in_region (d + 1) n x" "x \<noteq> d" for x
  proof -
    have r: "in_region d (Suc n) x" using that Suc.prems(1) by (simp add: shift_region)
    moreover have "unat (x - d) \<noteq> 0" using that(2) by (simp add: unat_eq_zero)
    ultimately show ?thesis
      using Suc.prems(2) [of 0 "unat (x - d)"] by (simp add: in_region_def)
  qed
  have self: "\<not> in_region (d + 1) n d"
    using Suc.prems(1) by (simp add: in_region_def unsigned_minus_1_eq_mask mask_eq_exp_minus_1)
  have "copy_fwd (Suc n) d s m =
      (\<lambda>x. if in_region (d + 1) n x then (m(d := m s)) (s + 1 + (x - (d + 1))) else (m(d := m s)) x)"
    unfolding copy_fwd.simps by (rule Suc.IH) (use Suc.prems(1) step in auto)
  also have "\<dots> = (\<lambda>x. if in_region d (Suc n) x then m (s + (x - d)) else m x)"
    using Suc.prems(1) rd self by (intro ext) (auto simp: shift_region algebra_simps)
  finally show ?case .
qed (simp add: in_region_def)

lemma last_region:
  "in_region d (Suc n) x \<longleftrightarrow> x = d + of_nat n \<or> in_region d n x" if "n < 2 ^ 64" for d x :: u64
  using that by (auto simp: in_region_def less_Suc_eq unat_of_nat64)

lemma copy_bwd_spec:
  assumes "n \<le> 2 ^ 64"
    and "\<And>i j. i < j \<Longrightarrow> j < n \<Longrightarrow> d + of_nat j \<noteq> s + of_nat i"
  shows "copy_bwd n (d + of_nat n) (s + of_nat n) m =
      (\<lambda>x. if in_region d n x then m (s + (x - d)) else m x)"
  using assms
proof (induction n arbitrary: m)
  case (Suc n)
  have rd: "s + (x - d) \<noteq> d + of_nat n" if "in_region d n x" for x
    using Suc.prems(2) [of "unat (x - d)" n] that by (auto simp: in_region_def)
  have self: "\<not> in_region d n (d + of_nat n)"
    using Suc.prems(1) by (simp add: in_region_def unat_of_nat64)
  have "copy_bwd (Suc n) (d + of_nat (Suc n)) (s + of_nat (Suc n)) m =
      copy_bwd n (d + of_nat n) (s + of_nat n) (m(d + of_nat n := m (s + of_nat n)))"
    by (simp add: algebra_simps)
  also have "\<dots> = (\<lambda>x. if in_region d n x then (m(d + of_nat n := m (s + of_nat n))) (s + (x - d))
                   else (m(d + of_nat n := m (s + of_nat n))) x)"
    by (rule Suc.IH) (use Suc.prems in auto)
  also have "\<dots> = (\<lambda>x. if in_region d (Suc n) x then m (s + (x - d)) else m x)"
    using Suc.prems(1) rd self by (intro ext) (auto simp: last_region)
  finally show ?case .
qed (simp add: in_region_def)

lemma unat_plus_nat:
  "unat a + i < 2 ^ 64 \<Longrightarrow> unat (a + of_nat i :: u64) = unat a + i"
  by (simp add: unat_word_ariths unat_of_nat64)

text \<open>Both copy directions of \<^verbatim>\<open>memmove\<close> are chosen so that no byte is read after it was overwritten.\<close>

lemma memmove_memory:
  assumes "dst \<noteq> 0" "src \<noteq> 0" "n \<le> 1024 * 1024"
    and "unat dst + unat n < 2 ^ 64" "unat src + unat n < 2 ^ 64"
  shows "memmove dst src n s =
      (dst, upd_mem (\<lambda>m x. if in_region dst (unat n) x then m (src + (x - dst)) else m x)
              (upd_stats (\<lambda>t. t\<lparr>memmove_calls := memmove_calls t + 1\<rparr>) s))"
proof -
  have le: "unat n \<le> 2 ^ 64" using assms(4) by simp
  have off: "unat (dst + of_nat i) = unat dst + i" "unat (src + of_nat i) = unat src + i"
    if "i < unat n" for i using assms(4,5) that by (simp_all add: unat_plus_nat)
  have top: "unat (src + ucast n) = unat src + unat n"
    using unat_plus_nat [of src "unat n"] assms(5) by simp
  show ?thesis
  proof (cases "src < dst \<and> src + ucast n > dst")
    case True
    then have "n \<noteq> 0" by auto
    have "copy_bwd (unat n) (dst + ucast n) (src + ucast n) =
        (\<lambda>m x. if in_region dst (unat n) x then m (src + (x - dst)) else m x)"
    proof
      fix m
      have "dst + of_nat j \<noteq> src + of_nat i" if "i < j" "j < unat n" for i j
      proof
        assume "dst + of_nat j = src + of_nat i"
        then have "unat dst + j = unat src + i" using off [of j] off [of i] that by simp
        with True that show False by (simp add: word_less_nat_alt)
      qed
      from copy_bwd_spec [OF le, of dst src m, OF this]
      show "copy_bwd (unat n) (dst + ucast n) (src + ucast n) m =
          (\<lambda>x. if in_region dst (unat n) x then m (src + (x - dst)) else m x)" by simp
    qed
    with True assms \<open>n \<noteq> 0\<close> show ?thesis by (simp add: memmove_def)
  next
    case False
    have "copy_fwd (unat n) dst src =
        (\<lambda>m x. if in_region dst (unat n) x then m (src + (x - dst)) else m x)"
    proof
      fix m
      have "dst + of_nat i \<noteq> src + of_nat j" if "i < j" "j < unat n" for i j
      proof
        assume "dst + of_nat i = src + of_nat j"
        then have "unat dst + i = unat src + j" using off [of j] off [of i] that by simp
        with False that top show False by (auto simp: word_less_nat_alt)
      qed
      from copy_fwd_spec [OF le, of dst src m, OF this]
      show "copy_fwd (unat n) dst src m =
          (\<lambda>x. if in_region dst (unat n) x then m (src + (x - dst)) else m x)" by simp
    qed
    with False assms show ?thesis
      by (cases "n = 0") (auto simp: memmove_def Let_def)
  qed
qed

lemma memset_memory:
  assumes "dst \<noteq> 0" "n \<le> 1024 * 1024"
  shows "memset dst c n s =
      (dst, upd_mem (\<lambda>m x. if in_region dst (unat n) x then ucast c else m x)
              (upd_stats (\<lambda>t. t\<lparr>memset_calls := memset_calls t + 1\<rparr>) s))"
proof -
  have "unat n \<le> unat (1024 * 1024 :: u32)" using assms(2) by (simp add: word_le_nat_alt)
  then have "unat n \<le> 2 ^ 64" by simp
  then have "fill_loop dst (ucast c) 0 (unat n) =
      (\<lambda>m x. if in_region dst (unat n) x then ucast c else m x)"
    by (intro ext) (simp add: fill_loop_region)
  with assms show ?thesis by (simp add: memset_def)
qed

section \<open>C strings\<close>

text \<open>\<open>cstr p n\<close> is the C string at \<open>p\<close>, cut at \<open>n\<close> bytes.\<close>

definition cstr :: "(nat \<Rightarrow> u8) \<Rightarrow> nat \<Rightarrow> u8 list" where
  "cstr p n = takeWhile (\<lambda>c. c \<noteq> 0) (map p [0..<n])"

lemma upt_shift: "map f [0..<Suc n] = f 0 # map (\<lambda>i. f (Suc i)) [0..<n]"
  by (simp add: map_upt_Suc del: upt_Suc)

lemma cstr_Suc: "cstr p (Suc n) = (if p 0 = 0 then [] else p 0 # cstr (\<lambda>i. p (Suc i)) n)"
  by (simp add: cstr_def upt_shift del: upt_Suc)

lemma cstr_0 [simp]: "cstr p 0 = []"
  by (simp add: cstr_def)

lemma strncmp_loop_shift: "strncmp_loop n p q (Suc i) = strncmp_loop n (\<lambda>j. p (Suc j)) (\<lambda>j. q (Suc j)) i"
  by (induction n arbitrary: i) simp_all

lemma strncmp_loop_zero: "strncmp_loop n p q 0 = 0 \<longleftrightarrow> cstr p n = cstr q n"
proof (induction n arbitrary: p q)
  case (Suc n)
  show ?case
    using Suc.IH [of "\<lambda>i. p (Suc i)" "\<lambda>i. q (Suc i)"]
    by (auto simp: cstr_Suc strncmp_loop_shift word_uint_eq_iff)
qed simp

lemma length_cstr: "length (cstr p n) \<le> n"
  using length_takeWhile_le [of _ "map p [0..<n]"] by (simp add: cstr_def)

lemma cstr_nonzero: "c \<in> set (cstr p n) \<Longrightarrow> c \<noteq> 0"
  by (auto simp: cstr_def dest: set_takeWhileD)

lemma pad_loop_spec:
  "n \<le> 2 ^ 64 \<Longrightarrow> pad_loop n d m = (\<lambda>x. if in_region d n x then 0 else m x)"
proof (induction n arbitrary: d m)
  case (Suc n)
  then show ?case by (auto simp: fun_eq_iff shift_region)
qed simp

text \<open>Two regions of \<open>n\<close> bytes without a common byte.\<close>

definition apart :: "u64 \<Rightarrow> u64 \<Rightarrow> nat \<Rightarrow> bool" where
  "apart d t n \<longleftrightarrow> (\<forall>i < n. \<forall>j < n. d + of_nat i \<noteq> t + of_nat j)"

lemma apart_Suc: "apart d t (Suc n) \<Longrightarrow> apart (d + 1) (t + 1) n"
  unfolding apart_def
proof (intro allI impI)
  fix i j
  assume *: "\<forall>i < Suc n. \<forall>j < Suc n. d + of_nat i \<noteq> t + of_nat j" and "i < n" "j < n"
  then show "d + 1 + of_nat i \<noteq> t + 1 + of_nat j"
    using * [rule_format, of "Suc i" "Suc j"] by (simp add: add.assoc)
qed

lemma apart_src: "apart d t n \<Longrightarrow> 0 < n \<Longrightarrow> i < n \<Longrightarrow> t + of_nat i \<noteq> d"
  using spec [of "\<lambda>k. k < n \<longrightarrow> (\<forall>j < n. d + of_nat k \<noteq> t + of_nat j)" 0] unfolding apart_def by auto

lemma apartI:
  assumes "unat d + n \<le> unat t" and "unat t + n < 2 ^ 64"
  shows "apart d t n"
proof -
  have "d + of_nat i \<noteq> t + of_nat j" if "i < n" "j < n" for i j
  proof
    assume "d + of_nat i = t + of_nat j"
    then have "unat d + i = unat t + j"
      using assms that unat_plus_nat [of d i] unat_plus_nat [of t j] by simp
    with assms that show False by simp
  qed
  then show ?thesis by (simp add: apart_def)
qed

lemma cstr_upd_shift:
  assumes "apart d t (Suc n)"
  shows "cstr (\<lambda>i. (m(d := c)) (t + 1 + of_nat i)) n = cstr (\<lambda>i. m (t + of_nat (Suc i))) n"
proof -
  have "t + 1 + of_nat i \<noteq> d" if "i < n" for i
    using apart_src [OF assms, of "Suc i"] that by (simp add: ac_simps)
  then have "map (\<lambda>i. (m(d := c)) (t + 1 + of_nat i)) [0..<n] = map (\<lambda>i. m (t + of_nat (Suc i))) [0..<n]"
    by (simp add: ac_simps)
  then show ?thesis unfolding cstr_def by (rule arg_cong)
qed

lemma unat_diff_shift: "x \<noteq> (d :: u64) \<Longrightarrow> unat (x - d) = Suc (unat (x - (d + 1)))"
  using unat_minus_one [of "x - d"] unat_eq_zero [of "x - d"] by (simp add: diff_diff_eq)

definition padded :: "nat \<Rightarrow> u8 list \<Rightarrow> u8 list" where
  "padded n xs = xs @ replicate (n - length xs) 0"

lemma length_padded [simp]: "length xs \<le> n \<Longrightarrow> length (padded n xs) = n"
  by (simp add: padded_def)

lemma strncpy_loop_spec:
  assumes "n \<le> 2 ^ 64" and "apart d t n"
  shows "strncpy_loop n d t m = store_bytes d (padded n (cstr (\<lambda>i. m (t + of_nat i)) n)) m"
  using assms
proof (induction n arbitrary: d t m)
  case 0
  then show ?case by (simp add: store_bytes_def padded_def)
next
  case (Suc n)
  let ?m = "m(d := m t)" and ?rest = "cstr (\<lambda>i. m (t + of_nat (Suc i))) n"
  have step: "store_bytes (d + 1) ys (m(d := c)) = store_bytes d (c # ys) m" if "length ys = n" for ys c
    using that Suc.prems(1)
    by (auto simp: fun_eq_iff store_bytes_def shift_region unat_diff_shift in_region_def
          unsigned_minus_1_eq_mask mask_eq_exp_minus_1)
  show ?case
  proof (cases "m t = 0")
    case True
    have "strncpy_loop (Suc n) d t m = pad_loop n (d + 1) ?m" using True by simp
    also have "\<dots> = store_bytes (d + 1) (replicate n 0) ?m"
      using Suc.prems(1) by (auto simp: pad_loop_spec store_bytes_def fun_eq_iff in_region_def)
    finally show ?thesis using True step [of "replicate n 0"] by (simp add: padded_def cstr_Suc)
  next
    case False
    have "strncpy_loop (Suc n) d t m = strncpy_loop n (d + 1) (t + 1) ?m" using False by simp
    also have "\<dots> = store_bytes (d + 1) (padded n (cstr (\<lambda>i. ?m (t + 1 + of_nat i)) n)) ?m"
      by (rule Suc.IH) (use Suc.prems apart_Suc in auto)
    also have "\<dots> = store_bytes (d + 1) (padded n ?rest) ?m"
      by (simp only: cstr_upd_shift [OF Suc.prems(2)])
    also have "\<dots> = store_bytes d (m t # padded n ?rest) m"
      by (rule step) (simp add: length_cstr)
    finally show ?thesis using False by (simp add: padded_def cstr_Suc)
  qed
qed

lemma safestrcpy_loop_spec:
  fixes m :: memory
  assumes "k < 2 ^ 63" and "apart d t (Suc k)"
  defines "xs \<equiv> cstr (\<lambda>i. m (t + of_nat i)) k"
  shows "(\<forall>i < length xs. safestrcpy_loop k d t m (d + of_nat i) = xs ! i) \<and>
         safestrcpy_loop k d t m (d + of_nat (length xs)) = 0 \<and>
         (\<forall>x. \<not> in_region d (Suc k) x \<longrightarrow> safestrcpy_loop k d t m x = m x)"
  using assms(1,2) unfolding xs_def
proof (induction k arbitrary: d t m)
  case 0
  then show ?case by (auto simp: in_region_def)
next
  case (Suc k)
  define m' where "m' = m(d := m t)"
  let ?rest = "cstr (\<lambda>i. m (t + of_nat (Suc i))) k"
  show ?case
  proof (cases "m t = 0")
    case True
    have "in_region d (Suc (Suc k)) d" and "in_region d (Suc (Suc k)) (d + 1)"
      using in_region_offset [of 0 "Suc (Suc k)" d] in_region_offset [of 1 "Suc (Suc k)" d]
        Suc.prems(1) by simp_all
    with True show ?thesis by (auto simp: cstr_Suc)
  next
    case False
    have ap: "apart (d + 1) (t + 1) (Suc k)" using Suc.prems(2) by (rule apart_Suc)
    have "apart d t (Suc k)" using Suc.prems(2) by (simp add: apart_def)
    from cstr_upd_shift [OF this] have eq: "cstr (\<lambda>i. m' (t + 1 + of_nat i)) k = ?rest"
      unfolding m'_def .
    have self: "\<not> in_region (d + 1) (Suc k) d"
      using Suc.prems(1) by (simp add: in_region_def unsigned_minus_1_eq_mask mask_eq_exp_minus_1)
    let ?r = "safestrcpy_loop k (d + 1) (t + 1) m'"
    have IH: "\<forall>i < length ?rest. ?r (d + 1 + of_nat i) = ?rest ! i"
      "?r (d + 1 + of_nat (length ?rest)) = 0"
      "\<forall>x. \<not> in_region (d + 1) (Suc k) x \<longrightarrow> ?r x = m' x"
      using Suc.IH [of "d + 1" "t + 1" m'] Suc.prems(1) ap unfolding eq by auto
    have r: "safestrcpy_loop (Suc k) d t m = ?r" using False by (simp add: m'_def)
    have "safestrcpy_loop (Suc k) d t m (d + of_nat i) = (m t # ?rest) ! i"
      if "i < Suc (length ?rest)" for i
    proof (cases i)
      case 0
      then show ?thesis using IH(3) self unfolding r by (simp add: m'_def)
    next
      case (Suc j)
      then show ?thesis using IH(1) that unfolding r by (simp add: add.assoc)
    qed
    moreover have "safestrcpy_loop (Suc k) d t m (d + of_nat (Suc (length ?rest))) = 0"
      using IH(2) unfolding r by (simp add: add.assoc)
    moreover have "safestrcpy_loop (Suc k) d t m x = m x" if "\<not> in_region d (Suc (Suc k)) x" for x
    proof -
      have "x \<noteq> d" and "\<not> in_region (d + 1) (Suc k) x"
        using that shift_region [of "Suc k" d x] Suc.prems(1) by auto
      then show ?thesis using IH(3) unfolding r by (simp add: m'_def)
    qed
    ultimately show ?thesis using False by (simp add: cstr_Suc del: safestrcpy_loop.simps)
  qed
qed

section \<open>Properties\<close>

lemma nonneg_1024: "n \<le> (1024 :: u32) \<Longrightarrow> unat n \<le> 1024 \<and> 0 \<le> sint n \<and> sint n = int (unat n)"
  by (auto simp: word_le_nat_alt sint_small)

text \<open>C17. memmove copies n bytes correctly whether or not the regions overlap: afterwards the destination
  holds the bytes the source held before the call, and no byte outside the destination has
  changed. (Non-null pointers, at most 1 MB, no region wraps around the address space.)\<close>

theorem memmove_overlap_correct:
  assumes "dst \<noteq> 0" and "src \<noteq> 0" and "n \<le> 1024 * 1024"
    and "unat dst + unat n < 2 ^ 64" and "unat src + unat n < 2 ^ 64"
  shows "load_bytes dst (unat n) (mem (snd (memmove dst src n s))) = load_bytes src (unat n) (mem s)
       \<and> (\<forall>x. \<not> in_region dst (unat n) x \<longrightarrow> mem (snd (memmove dst src n s)) x = mem s x)"
proof -
  have "load_bytes dst (unat n) (\<lambda>x. if in_region dst (unat n) x then mem s (src + (x - dst)) else mem s x)
      = load_bytes src (unat n) (mem s)"
    using assms(4) by (auto simp: load_bytes_def in_region_offset)
  then show ?thesis using memmove_memory [OF assms, of s] by (simp cong: if_cong)
qed

definition demo_mach :: mach where
  "demo_mach = \<lparr>mem = (\<lambda>x. ucast x), string_stats_of = zero_string_stats\<rparr>"

theorem memmove_overlap_correct_witness:
  "load_bytes 4100 8 (mem (snd (memmove 4100 4096 8 demo_mach))) = load_bytes 4096 8 (mem demo_mach)
   \<and> mem (snd (memmove 4100 4096 8 demo_mach)) 4096 = mem demo_mach 4096"
proof -
  have u: "unat (8 :: u32) = 8" by simp
  have a: "(4100 :: u64) \<noteq> 0" "(4096 :: u64) \<noteq> 0" "(8 :: u32) \<le> 1024 * 1024"
    "unat (4100 :: u64) + unat (8 :: u32) < 2 ^ 64" "unat (4096 :: u64) + unat (8 :: u32) < 2 ^ 64"
    by simp_all
  have "\<not> in_region 4100 8 4096" by (simp add: in_region_def)
  then show ?thesis using memmove_overlap_correct [OF a, of demo_mach] unfolding u by blast
qed

text \<open>C18. strncpy and strncmp agree: copying at most n bytes of a C string fills the field with the
  string cut at n and padded with NUL bytes, leaves every other byte alone, and the field then
  compares equal to the original (directory entries rely on this).\<close>

theorem strncpy_then_strncmp:
  assumes "d \<noteq> 0" and "t \<noteq> 0" and "n \<le> 1024" and "apart d t (unat n)"
  shows "load_bytes d (unat n) (mem (snd (strncpy d t n s))) =
           padded (unat n) (cstr (\<lambda>i. mem s (t + of_nat i)) (unat n))
       \<and> (\<forall>x. \<not> in_region d (unat n) x \<longrightarrow> mem (snd (strncpy d t n s)) x = mem s x)
       \<and> fst (strncmp d t n (snd (strncpy d t n s))) = 0"
proof -
  define k where "k = unat n"
  define xs where "xs = padded k (cstr (\<lambda>i. mem s (t + of_nat i)) k)"
  have k: "k \<le> 1024" and sn: "0 \<le> sint n" using nonneg_1024 [OF assms(3)] by (simp_all add: k_def)
  have len: "length xs = k" by (simp add: xs_def length_cstr)
  have m: "mem (snd (strncpy d t n s)) = store_bytes d xs (mem s)"
    using assms sn k strncpy_loop_spec [of k d t "mem s"]
    by (simp add: strncpy_def Let_def k_def xs_def)
  have dst: "store_bytes d xs (mem s) (d + of_nat i) = xs ! i" if "i < k" for i
    using that len k by (simp add: store_bytes_def in_region_def unat_of_nat64)
  have src: "store_bytes d xs (mem s) (t + of_nat i) = mem s (t + of_nat i)" if i: "i < k" for i
  proof -
    have "\<not> in_region d k (t + of_nat i)"
    proof
      assume "in_region d k (t + of_nat i)"
      then have "unat (t + of_nat i - d) < k" by (simp add: in_region_def)
      then have "d + of_nat (unat (t + of_nat i - d)) \<noteq> t + of_nat i"
        using assms(4) i unfolding apart_def k_def by blast
      then show False by simp
    qed
    then show ?thesis by (simp add: store_bytes_outside len)
  qed
  have "cstr (\<lambda>i. store_bytes d xs (mem s) (d + of_nat i)) k = takeWhile (\<lambda>c. c \<noteq> 0) (map ((!) xs) [0..<k])"
    using dst by (auto simp: cstr_def intro!: arg_cong [where f = "takeWhile _"])
  also have "\<dots> = takeWhile (\<lambda>c. c \<noteq> 0) xs" using len map_nth [of xs] by simp
  also have "\<dots> = cstr (\<lambda>i. mem s (t + of_nat i)) k"
    by (auto simp: xs_def padded_def cstr_def takeWhile_append takeWhile_replicate dest: set_takeWhileD)
  also have "\<dots> = cstr (\<lambda>i. store_bytes d xs (mem s) (t + of_nat i)) k"
    using src by (auto simp: cstr_def intro!: arg_cong [where f = "takeWhile _"])
  finally have eq: "cstr (\<lambda>i. store_bytes d xs (mem s) (d + of_nat i)) k =
      cstr (\<lambda>i. store_bytes d xs (mem s) (t + of_nat i)) k" .
  have "fst (strncmp d t n (snd (strncpy d t n s))) = 0"
    using assms(1-3) eq by (simp add: strncmp_def Let_def m strncmp_loop_zero flip: k_def)
  moreover have "load_bytes d k (store_bytes d xs (mem s)) = xs"
    using load_store_bytes_same [of xs d "mem s"] len k by simp
  ultimately show ?thesis by (simp add: m len store_bytes_outside flip: k_def xs_def)
qed

theorem strncpy_then_strncmp_witness:
  "load_bytes 64 4 (mem (snd (strncpy 64 254 4 demo_mach))) = [254, 255, 0, 0]
   \<and> mem (snd (strncpy 64 254 4 demo_mach)) 68 = mem demo_mach 68
   \<and> fst (strncmp 64 254 4 (snd (strncpy 64 254 4 demo_mach))) = 0"
proof -
  have u: "unat (4 :: u32) = 4" by simp
  have a: "(64 :: u64) \<noteq> 0" "(254 :: u64) \<noteq> 0" "(4 :: u32) \<le> 1024" "apart 64 254 (unat (4 :: u32))"
    by (simp_all add: apartI)
  have r: "replicate 2 0 = [0, 0 :: u8]" by (simp add: numeral_2_eq_2)
  have p: "padded 4 (cstr (\<lambda>i. mem demo_mach (254 + of_nat i)) 4) = [254, 255, 0, 0]"
    by (simp add: padded_def cstr_def demo_mach_def upt_rec r)
  have "\<not> in_region 64 4 68" by (simp add: in_region_def)
  then show ?thesis using strncpy_then_strncmp [OF a, of demo_mach] unfolding u p by blast
qed

end
