(* ===== verification/Kalloc.thy ===== *)
theory Kalloc
  imports Kstring
begin

text \<open>
  The physical page allocator, \<^verbatim>\<open>src/kernel/kalloc.c\<close>. The free list lives where the code
  keeps it: in the first eight bytes of every free page, as a \<^verbatim>\<open>struct run\<close> pointer in
  memory. The linker symbol \<^verbatim>\<open>end\<close> is the parameter \<open>kend\<close>. The lemmas show that the pointer
  chain implements a list of distinct pages, that it satisfies the interface of a page
  allocator, and that any client that frees only what it holds never sees a page twice.
\<close>

section \<open>State and operations\<close>

record kmem = mach +
  freelist :: u64
  free_pages :: u64
  total_allocated :: u64
  total_freed :: u64
  current_allocated :: u64

definition KERNBASE :: u64 where [layout_defs]: "KERNBASE = 0x80000000"
definition PHYSTOP :: u64 where [layout_defs]: "PHYSTOP = 0x80000000 + 128 * 1024 * 1024"

definition kfree :: "u64 \<Rightarrow> u64 \<Rightarrow> 'a kmem_scheme \<Rightarrow> 'a kmem_scheme res" where
  "kfree kend pa s =
     (if pa = 0 then Inr s
      else if pa mod 4096 \<noteq> 0 \<or> pa < kend \<or> PHYSTOP \<le> pa then Inl (Panic ''kfree'')
      else let s1 = snd (memset pa 1 4096 s);
               s2 = upd_mem (store64 pa (freelist s1)) s1;
               s3 = s2\<lparr>freelist := pa, free_pages := free_pages s2 + 1, total_freed := total_freed s2 + 1\<rparr>
           in Inr (if 0 < current_allocated s3
                   then s3\<lparr>current_allocated := current_allocated s3 - 1\<rparr> else s3))"

definition kalloc :: "'a kmem_scheme \<Rightarrow> u64 \<times> 'a kmem_scheme" where
  "kalloc s =
     (let r = freelist s;
          s1 = (if r \<noteq> 0
                then s\<lparr>freelist := load64 (mem s) r, free_pages := free_pages s - 1,
                       total_allocated := total_allocated s + 1,
                       current_allocated := current_allocated s + 1\<rparr>
                else s);
          s2 = (if r \<noteq> 0 then snd (memset r 5 4096 s1) else s1)
      in (r, s2))"

function freerange_loop :: "u64 \<Rightarrow> u64 \<Rightarrow> u64 \<Rightarrow> 'a kmem_scheme \<Rightarrow> 'a kmem_scheme res" where
  "freerange_loop kend pa_end p s =
     (if p + 4096 \<le> pa_end
      then case kfree kend p s of Inl e \<Rightarrow> Inl e | Inr s' \<Rightarrow> freerange_loop kend pa_end (p + 4096) s'
      else Inr s)"
  by pat_completeness auto
termination
proof (relation "measure (\<lambda>(kend, pa_end, p, s). unat PHYSTOP - unat p)")
  fix kend pa_end p :: u64 and s s' :: "'a kmem_scheme"
  assume "kfree kend p s = Inr s'"
  then have "p < PHYSTOP" by (auto simp: kfree_def PHYSTOP_def split: if_splits)
  then have lt: "unat p < unat PHYSTOP" by (simp add: word_less_nat_alt)
  then have "unat (p + 4096) = unat p + 4096" by (simp add: unat_word_ariths PHYSTOP_def)
  with lt show "((kend, pa_end, p + 4096, s'), kend, pa_end, p, s)
      \<in> measure (\<lambda>(kend, pa_end, p, s). unat PHYSTOP - unat p)" by simp
qed simp

declare freerange_loop.simps [simp del]

definition freerange :: "u64 \<Rightarrow> u64 \<Rightarrow> u64 \<Rightarrow> 'a kmem_scheme \<Rightarrow> 'a kmem_scheme res" where
  "freerange kend pa_start pa_end s =
     (if pa_start = 0 \<or> pa_end = 0 then Inr s
      else if pa_end \<le> pa_start then Inr s
      else freerange_loop kend pa_end (PGROUNDUP pa_start) s)"

definition kinit :: "u64 \<Rightarrow> 'a kmem_scheme \<Rightarrow> 'a kmem_scheme res" where
  "kinit kend s = freerange kend kend PHYSTOP
     (s\<lparr>freelist := 0, free_pages := 0, total_allocated := 0, total_freed := 0, current_allocated := 0\<rparr>)"

definition get_free_memory :: "'a kmem_scheme \<Rightarrow> u64" where
  "get_free_memory s = free_pages s * 4096"

definition low_memory :: "'a kmem_scheme \<Rightarrow> bool" where
  "low_memory s \<longleftrightarrow> free_pages s < 10"

definition valid_kalloc_ptr :: "u64 \<Rightarrow> u64 \<Rightarrow> bool" where
  "valid_kalloc_ptr kend pa \<longleftrightarrow> \<not> (pa = 0) \<and> \<not> (pa mod 4096 \<noteq> 0) \<and> \<not> pa < kend \<and> \<not> PHYSTOP \<le> pa"

section \<open>Framing\<close>

lemma kmem_upd_mem [simp]:
  "freelist (upd_mem f s) = freelist s" "free_pages (upd_mem f s) = free_pages s"
  "total_allocated (upd_mem f s) = total_allocated s" "total_freed (upd_mem f s) = total_freed s"
  "current_allocated (upd_mem f s) = current_allocated s" "kmem.more (upd_mem f s) = kmem.more s"
  by (simp_all add: upd_mem_def)

lemma kmem_upd_stats [simp]:
  "freelist (upd_stats f s) = freelist s" "free_pages (upd_stats f s) = free_pages s"
  "total_allocated (upd_stats f s) = total_allocated s" "total_freed (upd_stats f s) = total_freed s"
  "current_allocated (upd_stats f s) = current_allocated s" "kmem.more (upd_stats f s) = kmem.more s"
  by (simp_all add: upd_stats_def)

lemma memset_page [simp]:
  assumes "p \<noteq> 0"
  shows "snd (memset p c 4096 s) =
    upd_mem (\<lambda>m x. if in_region p 4096 x then ucast c else m x)
      (upd_stats (\<lambda>t. t\<lparr>memset_calls := memset_calls t + 1\<rparr>) s)"
  using assms by (simp add: memset_def Let_def upd_mem_def fill_loop_region)

lemma valid_kalloc_ptrD:
  "valid_kalloc_ptr kend p \<Longrightarrow> p \<noteq> 0 \<and> page_aligned p"
  by (simp add: valid_kalloc_ptr_def page_aligned_def)

section \<open>The pointer chain is a list\<close>

primrec free_chain :: "memory \<Rightarrow> u64 \<Rightarrow> u64 list \<Rightarrow> bool" where
  "free_chain m a [] \<longleftrightarrow> a = 0"
| "free_chain m a (x # xs) \<longleftrightarrow> a = x \<and> a \<noteq> 0 \<and> free_chain m (load64 m x) xs"

definition free_list :: "u64 \<Rightarrow> 'a kmem_scheme \<Rightarrow> u64 list \<Rightarrow> bool" where
  "free_list kend s xs \<longleftrightarrow>
     free_chain (mem s) (freelist s) xs \<and> distinct xs \<and> (\<forall>p \<in> set xs. valid_kalloc_ptr kend p)
     \<and> free_pages s = of_nat (length xs)"

lemma free_chain_unique: "free_chain m a xs \<Longrightarrow> free_chain m a ys \<Longrightarrow> xs = ys"
proof (induction xs arbitrary: a ys)
  case Nil then show ?case by (cases ys) auto
next
  case (Cons x xs) then show ?case by (cases ys) auto
qed

lemma free_chain_cong:
  "(\<And>x. x \<in> set xs \<Longrightarrow> load64 m x = load64 m' x) \<Longrightarrow> free_chain m a xs = free_chain m' a xs"
  by (induction xs arbitrary: a) auto

lemma free_list_unique: "free_list kend s xs \<Longrightarrow> free_list kend s ys \<Longrightarrow> xs = ys"
  by (auto simp: free_list_def dest: free_chain_unique)

text \<open>Changing one page does not disturb a chain that runs through other pages.\<close>

lemma load64_other_page:
  assumes "page_aligned p" and "page_aligned x" and "x \<noteq> p"
    and "\<And>y. \<not> in_region p PGSIZE y \<Longrightarrow> m' y = m y"
  shows "load64 m' x = load64 m x"
proof (rule load64_cong)
  fix y assume "in_region x 8 y"
  then have "in_region x PGSIZE y" by (rule in_region_mono) simp
  then have "\<not> in_region p PGSIZE y"
    using disjoint_pages [of x p] assms(1-3) by (auto simp: disjoint_regions_def)
  then show "m' y = m y" by (rule assms(4))
qed

lemma free_chain_other_page:
  assumes "page_aligned p" and "\<forall>x \<in> set xs. page_aligned x" and "p \<notin> set xs"
    and "\<And>y. \<not> in_region p PGSIZE y \<Longrightarrow> m' y = m y"
  shows "free_chain m' a xs = free_chain m a xs"
  using assms by (intro free_chain_cong load64_other_page) auto

section \<open>Effect of each operation\<close>

definition page_update :: "u64 \<Rightarrow> 'a mach_scheme \<Rightarrow> 'a mach_scheme \<Rightarrow> bool" where
  "page_update p s s' \<longleftrightarrow> (\<forall>x. \<not> in_region p PGSIZE x \<longrightarrow> mem s' x = mem s x)"

lemma kfree_invalid:
  "pa \<noteq> 0 \<Longrightarrow> kfree kend pa s = Inl (Panic ''kfree'') \<longleftrightarrow> \<not> valid_kalloc_ptr kend pa"
  by (auto simp: kfree_def valid_kalloc_ptr_def Let_def)

lemma kfree_valid:
  assumes "valid_kalloc_ptr kend pa"
  obtains s' where "kfree kend pa s = Inr s'"
    and "freelist s' = pa" and "load64 (mem s') pa = freelist s"
    and "free_pages s' = free_pages s + 1" and "total_freed s' = total_freed s + 1"
    and "total_allocated s' = total_allocated s"
    and "current_allocated s' = (if 0 < current_allocated s then current_allocated s - 1 else 0)"
    and "page_update pa s s'" and "kmem.more s' = kmem.more s"
proof -
  have nz: "pa \<noteq> 0" using assms by (simp add: valid_kalloc_ptr_def)
  have out: "\<not> in_region pa 8 x" if "\<not> in_region pa 4096 x" for x
    using that in_region_mono [of pa 8 x 4096] by auto
  let ?s2 = "upd_mem (store64 pa (freelist s)) (snd (memset pa 1 4096 s))"
  let ?s3 = "?s2\<lparr>freelist := pa, free_pages := free_pages s + 1, total_freed := total_freed s + 1\<rparr>"
  let ?s' = "if 0 < current_allocated s
    then ?s3\<lparr>current_allocated := current_allocated s - 1\<rparr> else ?s3"
  have "kfree kend pa s = Inr ?s'"
    using assms nz by (simp add: kfree_def valid_kalloc_ptr_def Let_def)
  then show thesis
    by (rule that) (use nz out in \<open>simp_all add: page_update_def store64_outside word_gt_0\<close>)
qed

lemma kalloc_none: "freelist s = 0 \<Longrightarrow> kalloc s = (0, s)"
  by (simp add: kalloc_def)

lemma kalloc_some:
  assumes "freelist s = p" and "p \<noteq> 0"
  obtains s' where "kalloc s = (p, s')" and "freelist s' = load64 (mem s) p"
    and "free_pages s' = free_pages s - 1" and "total_freed s' = total_freed s"
    and "total_allocated s' = total_allocated s + 1"
    and "current_allocated s' = current_allocated s + 1"
    and "page_update p s s'" and "kmem.more s' = kmem.more s"
    and "\<forall>x. in_region p PGSIZE x \<longrightarrow> mem s' x = 5"
  using assms that by (simp add: kalloc_def Let_def page_update_def)

lemma free_list_kalloc:
  assumes "free_list kend s (p # xs)"
  obtains s' where "kalloc s = (p, s')" and "free_list kend s' xs"
    and "current_allocated s' = current_allocated s + 1" and "page_update p s s'"
    and "total_allocated s' = total_allocated s + 1" and "kmem.more s' = kmem.more s"
    and "\<forall>x. in_region p PGSIZE x \<longrightarrow> mem s' x = 5"
proof -
  have p: "freelist s = p" "p \<noteq> 0" "page_aligned p" "p \<notin> set xs" "\<forall>x \<in> set xs. page_aligned x"
    using assms by (auto simp: free_list_def dest: valid_kalloc_ptrD)
  obtain s' where s': "kalloc s = (p, s')" "freelist s' = load64 (mem s) p"
    "free_pages s' = free_pages s - 1" "total_allocated s' = total_allocated s + 1"
    "current_allocated s' = current_allocated s + 1"
    "page_update p s s'" "kmem.more s' = kmem.more s" "\<forall>x. in_region p PGSIZE x \<longrightarrow> mem s' x = 5"
    by (rule kalloc_some [OF p(1,2)])
  have "free_chain (mem s') (freelist s') xs"
    using assms s'(2,6) free_chain_other_page [OF p(3,5,4), of "mem s'" "mem s"]
    by (simp add: free_list_def page_update_def)
  then have "free_list kend s' xs" using assms s'(3) by (simp add: free_list_def)
  with s' that show thesis by blast
qed

lemma free_list_kfree:
  assumes "free_list kend s xs" and "valid_kalloc_ptr kend p" and "p \<notin> set xs"
  obtains s' where "kfree kend p s = Inr s'" and "free_list kend s' (p # xs)"
    and "current_allocated s' = (if 0 < current_allocated s then current_allocated s - 1 else 0)"
    and "total_allocated s' = total_allocated s" and "page_update p s s'" and "kmem.more s' = kmem.more s"
proof -
  have p: "p \<noteq> 0" "page_aligned p" "\<forall>x \<in> set xs. page_aligned x"
    using assms by (auto simp: free_list_def dest: valid_kalloc_ptrD)
  obtain s' where s': "kfree kend p s = Inr s'" "freelist s' = p" "load64 (mem s') p = freelist s"
    "free_pages s' = free_pages s + 1" "total_allocated s' = total_allocated s"
    "current_allocated s' = (if 0 < current_allocated s then current_allocated s - 1 else 0)"
    "page_update p s s'" "kmem.more s' = kmem.more s"
    using kfree_valid [OF assms(2), of s] .
  have "free_chain (mem s') (freelist s) xs"
    using assms s'(7) free_chain_other_page [OF p(2,3) assms(3), of "mem s'" "mem s"]
    by (simp add: free_list_def page_update_def)
  then have "free_list kend s' (p # xs)"
    using assms s' p(1) by (simp add: free_list_def add.commute)
  with s' that show thesis by blast
qed

section \<open>Boot: the initial free list\<close>

lemma aligned_next:
  assumes "page_aligned p" and "page_aligned q" and "p < PHYSTOP"
  shows "q < p + 4096 \<longleftrightarrow> q < p \<or> q = p" and "p + 4096 \<le> PHYSTOP" and "p < p + 4096"
    and "page_aligned (p + 4096)"
proof -
  obtain i j where ij: "unat p = 4096 * i" "unat q = 4096 * j"
    using assms(1,2) by (auto simp: page_aligned_unat elim!: dvdE)
  have lt: "unat p < 2281701376" using assms(3) by (simp add: word_less_nat_alt PHYSTOP_def)
  then have n: "unat (p + 4096) = unat p + 4096" by (simp add: unat_word_ariths)
  show "q < p + 4096 \<longleftrightarrow> q < p \<or> q = p"
    using ij by (simp add: word_less_nat_alt word_unat_eq_iff n) arith
  have "i < 557056" using lt ij(1) by simp
  then show "p + 4096 \<le> PHYSTOP" using ij by (simp add: word_le_nat_alt n PHYSTOP_def)
  show "p < p + 4096" by (simp add: word_less_nat_alt n)
  show "page_aligned (p + 4096)" using ij by (simp add: page_aligned_unat n)
qed

lemma freerange_loop_spec:
  assumes "page_aligned p" and "kend \<le> p" and "p \<noteq> 0" and "p \<le> PHYSTOP"
    and "free_list kend s xs" and "set xs = {q. valid_kalloc_ptr kend q \<and> q < p}"
    and "current_allocated s = 0" and "total_allocated s = 0"
  shows "\<exists>s' ys. freerange_loop kend PHYSTOP p s = Inr s' \<and> free_list kend s' ys
      \<and> set ys = Collect (valid_kalloc_ptr kend) \<and> current_allocated s' = 0 \<and> total_allocated s' = 0"
  using assms
proof (induction kend PHYSTOP p s arbitrary: xs rule: freerange_loop.induct)
  case (1 kend p s)
  show ?case
  proof (cases "p < PHYSTOP")
    case True
    note next_page = aligned_next [OF 1(2) _ True]
    have step: "p + 4096 \<le> PHYSTOP" "p < p + 4096" "page_aligned (p + 4096)"
      using next_page 1(2) by blast+
    have up: "kend \<le> p + 4096" "p + 4096 \<noteq> 0" using 1(3) step(2) by auto
    have v: "valid_kalloc_ptr kend p"
      using 1(2-4) True by (simp add: valid_kalloc_ptr_def page_aligned_def leD not_le)
    have "p \<notin> set xs" using 1(7) by simp
    then obtain s' where s': "kfree kend p s = Inr s'" "free_list kend s' (p # xs)"
      "current_allocated s' = 0" "total_allocated s' = 0"
      using free_list_kfree [OF 1(6) v] 1(8,9) by auto
    have "set (p # xs) = {q. valid_kalloc_ptr kend q \<and> q < p + 4096}"
      using 1(7) v next_page(1) valid_kalloc_ptrD by auto
    then show ?thesis
      using 1(1) [OF step(1) s'(1) step(3) _ _ step(1) s'(2)] s' step(1) up
      by (subst freerange_loop.simps) simp
  next
    case False
    then have p: "p = PHYSTOP" using 1(5) by simp
    have "q < PHYSTOP" if "valid_kalloc_ptr kend q" for q
      using that by (simp add: valid_kalloc_ptr_def not_le)
    then have "set xs = Collect (valid_kalloc_ptr kend)" unfolding 1(7) p by blast
    moreover have "\<not> p + 4096 \<le> PHYSTOP" using p by (simp add: PHYSTOP_def)
    ultimately show ?thesis using 1(6,8,9) by (subst freerange_loop.simps) auto
  qed
qed

lemma PGROUNDUP_bounds:
  assumes "kend < PHYSTOP" and "kend \<noteq> 0"
  shows "kend \<le> PGROUNDUP kend" and "PGROUNDUP kend \<le> PHYSTOP"
    and "page_aligned q \<Longrightarrow> q < PGROUNDUP kend \<Longrightarrow> q < kend"
proof -
  have k: "unat kend < 4096 * 557056" using assms(1) by (simp add: word_less_nat_alt PHYSTOP_def)
  then have u: "unat (PGROUNDUP kend) = 4096 * ((unat kend + 4095) div 4096)"
    by (intro unat_PGROUNDUP) simp
  obtain r where r: "r < 4096" "4096 * ((unat kend + 4095) div 4096) + r = unat kend + 4095"
    by (rule that [of "(unat kend + 4095) mod 4096"]) simp_all
  then have "unat kend \<le> 4096 * ((unat kend + 4095) div 4096)" by linarith
  then show "kend \<le> PGROUNDUP kend" by (simp add: word_le_nat_alt u)
  have "4096 * ((unat kend + 4095) div 4096) < 4096 * 557057" using k r by linarith
  then have "4096 * ((unat kend + 4095) div 4096) \<le> 4096 * 557056" by (simp only: mult_less_cancel1 mult_le_cancel1) simp
  then show "PGROUNDUP kend \<le> PHYSTOP" by (simp add: word_le_nat_alt u PHYSTOP_def)
  assume "page_aligned q" and "q < PGROUNDUP kend"
  then obtain j where j: "unat q = 4096 * j" "4096 * j < 4096 * ((unat kend + 4095) div 4096)"
    by (auto simp: page_aligned_unat word_less_nat_alt u elim!: dvdE)
  then have "4096 * j + 4096 \<le> 4096 * ((unat kend + 4095) div 4096)" by simp
  then have "4096 * j < unat kend" using r by linarith
  then show "q < kend" by (simp add: word_less_nat_alt j(1))
qed

lemma kinit_free_list:
  assumes "kend \<noteq> 0"
  shows "\<exists>s' xs. kinit kend s = Inr s' \<and> free_list kend s' xs
      \<and> set xs = Collect (valid_kalloc_ptr kend) \<and> current_allocated s' = 0 \<and> total_allocated s' = 0"
proof -
  let ?s = "s\<lparr>freelist := 0, free_pages := 0, total_allocated := 0, total_freed := 0, current_allocated := 0\<rparr>"
  have e: "free_list kend ?s []" by (simp add: free_list_def)
  show ?thesis
  proof (cases "kend < PHYSTOP")
    case True
    note b = PGROUNDUP_bounds [OF True assms]
    have nz: "PGROUNDUP kend \<noteq> 0" using b(1) assms by auto
    have "\<not> q < PGROUNDUP kend" if "valid_kalloc_ptr kend q" for q
      using b(3) [of q] valid_kalloc_ptrD [OF that] that by (auto simp: valid_kalloc_ptr_def)
    then have "set [] = {q. valid_kalloc_ptr kend q \<and> q < PGROUNDUP kend}" by auto
    note * = freerange_loop_spec [OF page_aligned_PGROUNDUP b(1) nz b(2) e this]
    have "freerange kend kend PHYSTOP ?s = freerange_loop kend PHYSTOP (PGROUNDUP kend) ?s"
      using True assms by (auto simp: freerange_def)
    with * show ?thesis by (simp add: kinit_def)
  next
    case False
    then have "Collect (valid_kalloc_ptr kend) = {}" by (auto simp: valid_kalloc_ptr_def)
    then show ?thesis using False e assms by (auto simp: kinit_def freerange_def intro!: exI [of _ "[]"])
  qed
qed

section \<open>The interface of a page allocator\<close>

datatype 'p page_op = Take | Give 'p

text \<open>A client that holds the pages \<open>A\<close> takes pages, and gives back pages it holds; giving back
  anything else is not something the client does.\<close>

fun run_client :: "('s \<Rightarrow> 'p \<times> 's) \<Rightarrow> ('p \<Rightarrow> 's \<Rightarrow> 's res) \<Rightarrow> 'p \<Rightarrow> 'p page_op list \<Rightarrow> 'p set \<Rightarrow> 's \<Rightarrow>
    ('p set \<times> 's) res" where
  "run_client alloc free null [] A s = Inr (A, s)"
| "run_client alloc free null (Take # ops) A s =
     (case alloc s of (p, s') \<Rightarrow> run_client alloc free null ops (if p = null then A else insert p A) s')"
| "run_client alloc free null (Give p # ops) A s =
     (if p \<in> A
      then case free p s of Inl e \<Rightarrow> Inl e | Inr s' \<Rightarrow> run_client alloc free null ops (A - {p}) s'
      else run_client alloc free null ops A s)"

primrec given :: "'p page_op \<Rightarrow> 'p set" where
  "given Take = {}"
| "given (Give p) = {p}"

locale page_allocator =
  fixes alloc :: "'s \<Rightarrow> 'p \<times> 's"
    and free :: "'p \<Rightarrow> 's \<Rightarrow> 's res"
    and null :: 'p
    and valid :: "'p \<Rightarrow> bool"
    and free_of :: "'s \<Rightarrow> 'p list \<Rightarrow> bool"
    and used :: "'s \<Rightarrow> nat"
    and contents :: "'p \<Rightarrow> 's \<Rightarrow> 'c"
  assumes null_invalid: "\<not> valid null"
    and finite_valid: "finite (Collect valid)"
    and free_of: "free_of s xs \<Longrightarrow> distinct xs \<and> set xs \<subseteq> Collect valid"
    and alloc_empty: "free_of s [] \<Longrightarrow> alloc s = (null, s)"
    and alloc_Cons: "free_of s (p # xs) \<Longrightarrow> used s < card (Collect valid) \<Longrightarrow>
      \<exists>s'. alloc s = (p, s') \<and> free_of s' xs \<and> used s' = Suc (used s)
        \<and> (\<forall>q. valid q \<longrightarrow> q \<noteq> p \<longrightarrow> contents q s' = contents q s)"
    and free_Cons: "free_of s xs \<Longrightarrow> valid p \<Longrightarrow> p \<notin> set xs \<Longrightarrow> 0 < used s \<Longrightarrow>
      \<exists>s'. free p s = Inr s' \<and> free_of s' (p # xs) \<and> Suc (used s') = used s
        \<and> (\<forall>q. valid q \<longrightarrow> q \<noteq> p \<longrightarrow> contents q s' = contents q s)"
begin

definition split_pages :: "'p set \<Rightarrow> 's \<Rightarrow> 'p list \<Rightarrow> bool" where
  "split_pages A s xs \<longleftrightarrow>
     free_of s xs \<and> A \<inter> set xs = {} \<and> A \<union> set xs = Collect valid \<and> used s = card A"

lemma split_finite: "split_pages A s xs \<Longrightarrow> finite A"
  using finite_valid by (auto simp: split_pages_def intro: finite_subset [of _ "Collect valid"])

lemma split_take:
  assumes "split_pages A s (p # xs)"
  shows "\<exists>s'. alloc s = (p, s') \<and> p \<noteq> null \<and> p \<notin> A \<and> split_pages (insert p A) s' xs
    \<and> (\<forall>q \<in> A. contents q s' = contents q s)"
proof -
  have p: "valid p" "p \<notin> A" "p \<notin> set xs" "finite A"
    using assms split_finite [OF assms] free_of [of s "p # xs"] by (auto simp: split_pages_def)
  have "A \<subset> Collect valid" using assms p by (auto simp: split_pages_def)
  then have "used s < card (Collect valid)"
    using assms finite_valid by (simp add: split_pages_def psubset_card_mono)
  then obtain s' where "alloc s = (p, s')" "free_of s' xs" "used s' = Suc (used s)"
    "\<forall>q. valid q \<longrightarrow> q \<noteq> p \<longrightarrow> contents q s' = contents q s"
    using alloc_Cons [of s p xs] assms by (auto simp: split_pages_def)
  then show ?thesis using assms p null_invalid by (auto simp: split_pages_def)
qed

lemma split_give:
  assumes "split_pages A s xs" and "p \<in> A"
  shows "\<exists>s'. free p s = Inr s' \<and> split_pages (A - {p}) s' (p # xs)
    \<and> (\<forall>q \<in> A - {p}. contents q s' = contents q s)"
proof -
  have p: "valid p" "p \<notin> set xs" "finite A"
    using assms split_finite [OF assms(1)] by (auto simp: split_pages_def)
  then have "0 < used s" using assms by (auto simp: split_pages_def card_gt_0_iff)
  then obtain s' where "free p s = Inr s'" "free_of s' (p # xs)" "Suc (used s') = used s"
    "\<forall>q. valid q \<longrightarrow> q \<noteq> p \<longrightarrow> contents q s' = contents q s"
    using free_Cons [of s xs p] assms p by (auto simp: split_pages_def)
  then show ?thesis using assms p by (auto simp: split_pages_def)
qed

lemma client_safe:
  "split_pages A s xs \<Longrightarrow>
   \<exists>A' s' ys. run_client alloc free null ops A s = Inr (A', s') \<and> split_pages A' s' ys
     \<and> (\<forall>q \<in> A - \<Union> (given ` set ops). q \<in> A' \<and> contents q s' = contents q s)"
proof (induction ops arbitrary: A s xs)
  case (Cons op ops)
  show ?case
  proof (cases op)
    case Take
    show ?thesis
    proof (cases xs)
      case Nil
      then have "alloc s = (null, s)" using Cons.prems alloc_empty by (simp add: split_pages_def)
      then show ?thesis using Cons.IH [OF Cons.prems] Take by simp
    next
      case (Cons p ps)
      then obtain s' where s': "alloc s = (p, s')" "p \<noteq> null" "split_pages (insert p A) s' ps"
        "\<forall>q \<in> A. contents q s' = contents q s"
        using split_take Cons.prems by blast
      show ?thesis using Cons.IH [OF s'(3)] s' Take by fastforce
    qed
  next
    case (Give p)
    show ?thesis
    proof (cases "p \<in> A")
      case True
      then obtain s' where s': "free p s = Inr s'" "split_pages (A - {p}) s' (p # xs)"
        "\<forall>q \<in> A - {p}. contents q s' = contents q s"
        using split_give Cons.prems by blast
      show ?thesis using Cons.IH [OF s'(2)] s' True Give by fastforce
    next
      case False
      then show ?thesis using Cons.IH [OF Cons.prems] Give by fastforce
    qed
  qed
qed auto

end

section \<open>kalloc and kfree satisfy it\<close>

lemma card_valid_pages: "card (Collect (valid_kalloc_ptr kend)) < 2 ^ 64"
proof -
  have "Collect (valid_kalloc_ptr kend) \<subset> (UNIV :: u64 set)"
    by (auto simp: valid_kalloc_ptr_def)
  then have "card (Collect (valid_kalloc_ptr kend)) < card (UNIV :: u64 set)"
    by (intro psubset_card_mono) simp_all
  then show ?thesis by (simp add: card_word)
qed

lemma load_bytes_other_page:
  assumes "page_update p s s'" and "page_aligned p" and "page_aligned q" and "q \<noteq> p"
  shows "load_bytes q PGSIZE (mem s') = load_bytes q PGSIZE (mem s)"
  using assms disjoint_pages [of q p]
  by (intro load_bytes_cong) (auto simp: page_update_def disjoint_regions_def)

lemma unat_inc: "unat (c :: u64) < k \<Longrightarrow> k < 2 ^ 64 \<Longrightarrow> unat (c + 1) = Suc (unat c)"
  using unat_plus_nat [of c 1] by simp

interpretation kpages: page_allocator kalloc "kfree kend" 0 "valid_kalloc_ptr kend" "free_list kend"
  "\<lambda>s. unat (current_allocated s)" "\<lambda>q s. load_bytes q PGSIZE (mem s)" for kend :: u64
proof unfold_locales
  show "\<not> valid_kalloc_ptr kend 0" by (simp add: valid_kalloc_ptr_def)
  show "finite (Collect (valid_kalloc_ptr kend))" by (rule finite)
  fix s :: "'a kmem_scheme" and xs
  show "free_list kend s xs \<Longrightarrow> distinct xs \<and> set xs \<subseteq> Collect (valid_kalloc_ptr kend)"
    by (auto simp: free_list_def)
  show "free_list kend s [] \<Longrightarrow> kalloc s = (0, s)" by (simp add: free_list_def kalloc_none)
next
  fix s :: "'a kmem_scheme" and p xs
  assume l: "free_list kend s (p # xs)"
    and c: "unat (current_allocated s) < card (Collect (valid_kalloc_ptr kend))"
  have v: "valid_kalloc_ptr kend p" using l by (simp add: free_list_def)
  obtain s' where "kalloc s = (p, s')" "free_list kend s' xs"
    "current_allocated s' = current_allocated s + 1" "page_update p s s'"
    using free_list_kalloc [OF l] by blast
  then show "\<exists>s'. kalloc s = (p, s') \<and> free_list kend s' xs
      \<and> unat (current_allocated s') = Suc (unat (current_allocated s))
      \<and> (\<forall>q. valid_kalloc_ptr kend q \<longrightarrow> q \<noteq> p \<longrightarrow>
             load_bytes q PGSIZE (mem s') = load_bytes q PGSIZE (mem s))"
    using v c by (auto simp: unat_inc [OF c card_valid_pages] dest: valid_kalloc_ptrD
        intro!: load_bytes_other_page)
next
  fix s :: "'a kmem_scheme" and p xs
  assume l: "free_list kend s xs" and v: "valid_kalloc_ptr kend p" and "p \<notin> set xs"
    and pos: "0 < unat (current_allocated s)"
  then obtain s' where "kfree kend p s = Inr s'" "free_list kend s' (p # xs)"
    "current_allocated s' = (if 0 < current_allocated s then current_allocated s - 1 else 0)"
    "page_update p s s'"
    using free_list_kfree [OF l v] by blast
  then show "\<exists>s'. kfree kend p s = Inr s' \<and> free_list kend s' (p # xs)
      \<and> Suc (unat (current_allocated s')) = unat (current_allocated s)
      \<and> (\<forall>q. valid_kalloc_ptr kend q \<longrightarrow> q \<noteq> p \<longrightarrow>
             load_bytes q PGSIZE (mem s') = load_bytes q PGSIZE (mem s))"
    using v pos by (auto simp: unat_minus_one word_gt_0 unat_gt_0 dest: valid_kalloc_ptrD
        intro!: load_bytes_other_page)
qed

section \<open>Properties\<close>

text \<open>C2. Booting with \<^verbatim>\<open>kinit\<close> and then running any sequence of \<^verbatim>\<open>kalloc\<close> and \<^verbatim>\<open>kfree\<close> calls in
  which only held pages are freed never panics; at every point the held pages and the free
  list are disjoint and together are exactly the pages between \<^verbatim>\<open>end\<close> and \<^verbatim>\<open>PHYSTOP\<close>, the two counters
  are exact, and a page that stays held keeps every byte while other pages come and go.\<close>

theorem kalloc_client_safe:
  assumes "kend \<noteq> 0"
  shows "\<exists>s0 A s1 xs B s2 ys. kinit kend s = Inr s0
    \<and> run_client kalloc (kfree kend) 0 ops {} s0 = Inr (A, s1)
    \<and> run_client kalloc (kfree kend) 0 ops' A s1 = Inr (B, s2)
    \<and> free_list kend s1 xs \<and> A \<inter> set xs = {} \<and> A \<union> set xs = Collect (valid_kalloc_ptr kend)
    \<and> unat (current_allocated s1) = card A \<and> free_pages s1 = of_nat (length xs)
    \<and> free_list kend s2 ys
    \<and> (\<forall>q \<in> A - \<Union> (given ` set ops').
          q \<in> B \<and> q \<notin> set ys \<and> load_bytes q PGSIZE (mem s2) = load_bytes q PGSIZE (mem s1))"
proof -
  obtain s0 zs where s0: "kinit kend s = Inr s0" "free_list kend s0 zs"
    "set zs = Collect (valid_kalloc_ptr kend)" "current_allocated s0 = 0"
    using kinit_free_list [OF assms] by blast
  then have "kpages.split_pages kend {} s0 zs" by (simp add: kpages.split_pages_def)
  then obtain A s1 xs where A: "run_client kalloc (kfree kend) 0 ops {} s0 = Inr (A, s1)"
    "kpages.split_pages kend A s1 xs"
    using kpages.client_safe by blast
  obtain B s2 ys where B: "run_client kalloc (kfree kend) 0 ops' A s1 = Inr (B, s2)"
    "kpages.split_pages kend B s2 ys"
    "\<forall>q \<in> A - \<Union> (given ` set ops'). q \<in> B \<and> load_bytes q PGSIZE (mem s2) = load_bytes q PGSIZE (mem s1)"
    using kpages.client_safe [OF A(2)] by blast
  have "free_pages s1 = of_nat (length xs)" using A(2) by (simp add: kpages.split_pages_def free_list_def)
  moreover have "free_list kend s1 xs" "A \<inter> set xs = {}" "A \<union> set xs = Collect (valid_kalloc_ptr kend)"
    "unat (current_allocated s1) = card A" "free_list kend s2 ys" "B \<inter> set ys = {}"
    using A(2) B(2) by (simp_all add: kpages.split_pages_def)
  moreover from this(6) B(3) have "\<forall>q \<in> A - \<Union> (given ` set ops').
      q \<in> B \<and> q \<notin> set ys \<and> load_bytes q PGSIZE (mem s2) = load_bytes q PGSIZE (mem s1)" by blast
  ultimately show ?thesis
    by (intro exI [of _ s0] exI [of _ A] exI [of _ s1] exI [of _ xs] exI [of _ B] exI [of _ s2]
        exI [of _ ys] conjI s0(1) A(1) B(1))
qed

definition demo_kmem :: kmem where
  "demo_kmem = \<lparr>mem = (\<lambda>_. 0), string_stats_of = zero_string_stats, freelist = 0, free_pages = 0,
     total_allocated = 0, total_freed = 0, current_allocated = 0\<rparr>"

theorem kalloc_client_safe_witness:
  "\<exists>s0 A s1 xs B s2 ys. kinit 0x80021000 demo_kmem = Inr s0
    \<and> run_client kalloc (kfree 0x80021000) 0 [Take, Take] {} s0 = Inr (A, s1)
    \<and> run_client kalloc (kfree 0x80021000) 0 [Give 0x80022000, Take] A s1 = Inr (B, s2)
    \<and> free_list 0x80021000 s1 xs \<and> A \<inter> set xs = {}
    \<and> A \<union> set xs = Collect (valid_kalloc_ptr 0x80021000)
    \<and> unat (current_allocated s1) = card A \<and> free_pages s1 = of_nat (length xs)
    \<and> free_list 0x80021000 s2 ys
    \<and> (\<forall>q \<in> A - \<Union> (given ` set [Give 0x80022000, Take]).
          q \<in> B \<and> q \<notin> set ys \<and> load_bytes q PGSIZE (mem s2) = load_bytes q PGSIZE (mem s1))"
proof -
  have "(0x80021000 :: u64) \<noteq> 0" by simp
  then show ?thesis by (rule kalloc_client_safe)
qed

end
