(* ===== verification/Locks.thy ===== *)
theory Locks
  imports Prelude
begin

text \<open>
  Spin locks and sleep locks: \<^verbatim>\<open>src/kernel/spinlock.c\<close> and \<^verbatim>\<open>src/kernel/sleeplock.c\<close>. The spin lock
  is modelled at the grain of its atomic accesses, interleaved between CPUs: the begin of
  \<^verbatim>\<open>acquire\<close> (\<^verbatim>\<open>push_off\<close> and the \<^verbatim>\<open>holding\<close> check), one atomic swap of the spin loop, the store of
  \<^verbatim>\<open>lk->cpu\<close>, and the two halves of \<^verbatim>\<open>release\<close>. The other theories treat a section under a spin
  lock as one step, which the mutual exclusion theorem here justifies. A sleep lock that is
  already taken puts its caller to sleep, which is the outcome \<open>Blocked\<close>.
\<close>

section \<open>Interrupt nesting\<close>

record cpu =
  noff :: int
  intena :: bool
  sie :: bool

definition push_off :: "cpu \<Rightarrow> cpu" where
  "push_off c =
     (let old = sie c; c1 = c\<lparr>sie := False\<rparr>;
          c2 = (if noff c1 = 0 then c1\<lparr>intena := old\<rparr> else c1)
      in c2\<lparr>noff := noff c2 + 1\<rparr>)"

definition pop_off :: "cpu \<Rightarrow> cpu res" where
  "pop_off c =
     (if sie c then Inl (Panic ''pop_off - interruptible'')
      else if noff c < 1 then Inl (Panic ''pop_off'')
      else let c1 = c\<lparr>noff := noff c - 1\<rparr>
           in Inr (if noff c1 = 0 \<and> intena c1 then c1\<lparr>sie := True\<rparr> else c1))"

section \<open>Spin locks\<close>

record spinlock =
  locked :: bool
  lk_cpu :: "nat option"

definition initlock :: spinlock where
  "initlock = \<lparr>locked = False, lk_cpu = None\<rparr>"

definition holding :: "nat \<Rightarrow> spinlock \<Rightarrow> bool" where
  "holding c lk \<longleftrightarrow> locked lk \<and> lk_cpu lk = Some c"

text \<open>Where a CPU stands with respect to the lock.\<close>

datatype lock_pc = Outside | Spinning | Swapped | Inside | Leaving | Panicked

record spin_sys =
  lk :: spinlock
  cpus :: "nat \<Rightarrow> cpu"
  pc :: "nat \<Rightarrow> lock_pc"

definition acquire_begin :: "nat \<Rightarrow> spin_sys \<Rightarrow> spin_sys" where
  "acquire_begin c s =
     (let s1 = s\<lparr>cpus := (cpus s)(c := push_off (cpus s c))\<rparr>
      in s1\<lparr>pc := (pc s1)(c := if holding c (lk s1) then Panicked else Spinning)\<rparr>)"

definition acquire_swap :: "nat \<Rightarrow> spin_sys \<Rightarrow> spin_sys" where
  "acquire_swap c s =
     (if locked (lk s) then s
      else s\<lparr>lk := (lk s)\<lparr>locked := True\<rparr>, pc := (pc s)(c := Swapped)\<rparr>)"

definition acquire_end :: "nat \<Rightarrow> spin_sys \<Rightarrow> spin_sys" where
  "acquire_end c s = s\<lparr>lk := (lk s)\<lparr>lk_cpu := Some c\<rparr>, pc := (pc s)(c := Inside)\<rparr>"

definition release_begin :: "nat \<Rightarrow> spin_sys \<Rightarrow> spin_sys" where
  "release_begin c s =
     (if \<not> holding c (lk s) then s\<lparr>pc := (pc s)(c := Panicked)\<rparr>
      else s\<lparr>lk := (lk s)\<lparr>lk_cpu := None\<rparr>, pc := (pc s)(c := Leaving)\<rparr>)"

definition release_end :: "nat \<Rightarrow> spin_sys \<Rightarrow> spin_sys" where
  "release_end c s =
     (let s1 = s\<lparr>lk := (lk s)\<lparr>locked := False\<rparr>\<rparr>
      in case pop_off (cpus s1 c) of
           Inl _ \<Rightarrow> s1\<lparr>pc := (pc s1)(c := Panicked)\<rparr>
         | Inr k \<Rightarrow> s1\<lparr>cpus := (cpus s1)(c := k), pc := (pc s1)(c := Outside)\<rparr>)"

inductive spin_step :: "spin_sys \<Rightarrow> spin_sys \<Rightarrow> bool" where
  begin_acquire: "pc s c = Outside \<Longrightarrow> spin_step s (acquire_begin c s)"
| spin: "pc s c = Spinning \<Longrightarrow> spin_step s (acquire_swap c s)"
| end_acquire: "pc s c = Swapped \<Longrightarrow> spin_step s (acquire_end c s)"
| begin_release: "pc s c = Inside \<Longrightarrow> spin_step s (release_begin c s)"
| end_release: "pc s c = Leaving \<Longrightarrow> spin_step s (release_end c s)"

section \<open>Sleep locks\<close>

record sleeplock =
  sl_locked :: bool
  sl_pid :: u32

definition initsleeplock :: sleeplock where
  "initsleeplock = \<lparr>sl_locked = False, sl_pid = 0\<rparr>"

definition acquiresleep :: "u32 \<Rightarrow> sleeplock \<Rightarrow> sleeplock res" where
  "acquiresleep pid l = (if sl_locked l then Inl Blocked else Inr \<lparr>sl_locked = True, sl_pid = pid\<rparr>)"

definition releasesleep :: "sleeplock \<Rightarrow> sleeplock" where
  "releasesleep l = l\<lparr>sl_locked := False, sl_pid := 0\<rparr>"

definition holdingsleep :: "u32 \<Rightarrow> sleeplock \<Rightarrow> bool" where
  "holdingsleep pid l \<longleftrightarrow> sl_locked l \<and> sl_pid l = pid"

section \<open>The lock invariant\<close>

definition owns :: "lock_pc \<Rightarrow> bool" where
  "owns p \<longleftrightarrow> p \<in> {Swapped, Inside, Leaving}"

definition sane_cpu :: "cpu \<Rightarrow> bool" where
  "sane_cpu k \<longleftrightarrow> 0 \<le> noff k \<and> (noff k \<noteq> 0 \<longrightarrow> \<not> sie k)"

text \<open>How a CPU that is outside, or in between, relates to its interrupt state before.\<close>

definition cpu_rel :: "lock_pc \<Rightarrow> cpu \<Rightarrow> cpu \<Rightarrow> bool" where
  "cpu_rel p k0 k \<longleftrightarrow>
     (if p = Outside then noff k = noff k0 \<and> sie k = sie k0 \<and> (noff k0 \<noteq> 0 \<longrightarrow> intena k = intena k0)
      else \<not> sie k \<and> noff k = noff k0 + 1 \<and> intena k = (if noff k0 = 0 then sie k0 else intena k0))"

definition spin_inv :: "(nat \<Rightarrow> cpu) \<Rightarrow> spin_sys \<Rightarrow> bool" where
  "spin_inv k0 s \<longleftrightarrow>
     (\<forall>c. pc s c \<noteq> Panicked) \<and> (\<forall>c d. owns (pc s c) \<longrightarrow> owns (pc s d) \<longrightarrow> c = d)
     \<and> (locked (lk s) \<longleftrightarrow> (\<exists>c. owns (pc s c))) \<and> (\<forall>c. lk_cpu (lk s) = Some c \<longleftrightarrow> pc s c = Inside)
     \<and> (\<forall>c. cpu_rel (pc s c) (k0 c) (cpus s c))"

lemma push_rel: "sane_cpu k0 \<Longrightarrow> cpu_rel Outside k0 k \<Longrightarrow> p \<noteq> Outside \<Longrightarrow> cpu_rel p k0 (push_off k)"
  by (simp add: cpu_rel_def push_off_def Let_def sane_cpu_def)

lemma pop_rel:
  "sane_cpu k0 \<Longrightarrow> cpu_rel Leaving k0 k \<Longrightarrow> \<exists>k'. pop_off k = Inr k' \<and> cpu_rel Outside k0 k'"
  by (auto simp: cpu_rel_def pop_off_def Let_def sane_cpu_def)

lemma rel_inside: "cpu_rel p k0 k \<Longrightarrow> p \<noteq> Outside \<Longrightarrow> q \<noteq> Outside \<Longrightarrow> cpu_rel q k0 k"
  by (simp add: cpu_rel_def)

lemma spin_step_inv:
  assumes "spin_step s t" and "\<forall>c. sane_cpu (k0 c)" and "spin_inv k0 s"
  shows "spin_inv k0 t"
  using assms(1)
proof cases
  case (begin_acquire c)
  then have "\<not> holding c (lk s)" using assms(3) by (auto simp: spin_inv_def holding_def)
  then show ?thesis using begin_acquire assms(2,3) push_rel
    by (simp add: spin_inv_def acquire_begin_def Let_def owns_def) (metis lock_pc.distinct)
next
  case (spin c)
  then show ?thesis using assms(3) rel_inside
    by (simp add: spin_inv_def acquire_swap_def owns_def) (metis lock_pc.distinct)
next
  case (end_acquire c)
  then show ?thesis using assms(3) rel_inside
    by (simp add: spin_inv_def acquire_end_def owns_def) (metis lock_pc.distinct)
next
  case (begin_release c)
  then have "holding c (lk s)" using assms(3) by (auto simp: spin_inv_def holding_def owns_def)
  then show ?thesis using begin_release assms(3) rel_inside
    by (simp add: spin_inv_def release_begin_def owns_def) (metis lock_pc.distinct)
next
  case (end_release c)
  then obtain k where "pop_off (cpus s c) = Inr k" "cpu_rel Outside (k0 c) k"
    using assms(2,3) pop_rel [of "k0 c" "cpus s c"] unfolding spin_inv_def by metis
  then show ?thesis using end_release assms(3)
    by (simp add: spin_inv_def release_end_def owns_def) (metis lock_pc.distinct)
qed

lemma spin_reachable_inv:
  assumes "spin_step\<^sup>*\<^sup>* s0 s" and "\<forall>c. sane_cpu (k0 c)" and "spin_inv k0 s0"
  shows "spin_inv k0 s"
  using assms(1,3) by induction (use assms(2) spin_step_inv in blast)+

lemma spin_inv_init:
  "lk s0 = initlock \<Longrightarrow> (\<And>c. pc s0 c = Outside) \<Longrightarrow> spin_inv (cpus s0) s0"
  by (simp add: spin_inv_def initlock_def owns_def cpu_rel_def)

section \<open>Properties\<close>

text \<open>C6. Mutual exclusion: however the atomic steps of \<^verbatim>\<open>acquire\<close> and \<^verbatim>\<open>release\<close> on any number of CPUs
  interleave, at most one CPU is inside the critical section, it has interrupts off and
  \<^verbatim>\<open>holding\<close> is true for it, none of the panics of the two routines can fire, and a CPU that
  has left has its interrupt enable bit and its nesting depth back.\<close>

theorem spin_mutual_exclusion:
  assumes "spin_step\<^sup>*\<^sup>* s0 s" and "lk s0 = initlock" and "\<forall>c. pc s0 c = Outside"
    and "\<forall>c. sane_cpu (cpus s0 c)"
  shows "(\<forall>c. pc s c \<noteq> Panicked)
    \<and> (\<forall>c d. pc s c = Inside \<longrightarrow> pc s d = Inside \<longrightarrow> c = d)
    \<and> (\<forall>c. pc s c = Inside \<longrightarrow> holding c (lk s) \<and> \<not> sie (cpus s c))
    \<and> (\<forall>c. pc s c = Outside \<longrightarrow> sie (cpus s c) = sie (cpus s0 c) \<and> noff (cpus s c) = noff (cpus s0 c))"
proof -
  have inv: "spin_inv (cpus s0) s"
    using spin_reachable_inv [OF assms(1,4)] spin_inv_init assms(2,3) by simp
  then have c: "cpu_rel (pc s c) (cpus s0 c) (cpus s c)" for c by (simp add: spin_inv_def)
  show ?thesis
  proof (intro conjI allI impI)
    fix c assume "pc s c = Outside"
    then show "sie (cpus s c) = sie (cpus s0 c)" "noff (cpus s c) = noff (cpus s0 c)"
      using c [of c] by (simp_all add: cpu_rel_def)
  next
    fix c assume i: "pc s c = Inside"
    then show "\<not> sie (cpus s c)" using c [of c] by (simp add: cpu_rel_def)
    have "owns (pc s c)" using i by (simp add: owns_def)
    then show "holding c (lk s)" using inv i unfolding spin_inv_def holding_def by blast
  qed (use inv in \<open>auto simp: spin_inv_def owns_def\<close>)
qed

definition demo_spin :: spin_sys where
  "demo_spin = \<lparr>lk = initlock, cpus = (\<lambda>_. \<lparr>noff = 0, intena = False, sie = True\<rparr>), pc = (\<lambda>_. Outside)\<rparr>"

theorem spin_mutual_exclusion_witness:
  "let s = acquire_swap 1 (acquire_begin 1 (acquire_end 0 (acquire_swap 0 (acquire_begin 0 demo_spin))))
   in pc s 0 = Inside \<and> pc s 1 = Spinning \<and> holding 0 (lk s) \<and> \<not> sie (cpus s 0) \<and> sie (cpus s 2)"
proof -
  define s1 s2 s3 s4 s5 where "s1 = acquire_begin 0 demo_spin" and "s2 = acquire_swap 0 s1"
    and "s3 = acquire_end 0 s2" and "s4 = acquire_begin 1 s3" and "s5 = acquire_swap 1 s4"
  note defs = s1_def s2_def s3_def s4_def s5_def
  note ops = acquire_begin_def acquire_swap_def acquire_end_def demo_spin_def initlock_def
    holding_def push_off_def Let_def
  have st: "spin_step demo_spin s1" "spin_step s1 s2" "spin_step s2 s3" "spin_step s3 s4" "spin_step s4 s5"
    unfolding s1_def s2_def s3_def s4_def s5_def
    by (rule spin_step.intros; simp add: ops)+
  then have r: "spin_step\<^sup>*\<^sup>* demo_spin s5"
    using rtranclp_trans [OF rtranclp_trans [OF r_into_rtranclp r_into_rtranclp]
        rtranclp_trans [OF r_into_rtranclp rtranclp_trans [OF r_into_rtranclp r_into_rtranclp]],
        of spin_step demo_spin s1 s2 s3 s4 s5] by simp
  have pcs: "pc s5 0 = Inside" "pc s5 1 = Spinning" "pc s5 2 = Outside"
    by (simp_all add: defs ops)
  show ?thesis
    using spin_mutual_exclusion [OF r] pcs unfolding Let_def s1_def [symmetric] s2_def [symmetric]
      s3_def [symmetric] s4_def [symmetric] s5_def [symmetric]
    by (simp add: demo_spin_def sane_cpu_def)
qed

end
