(* ===== verification/Dll.thy ===== *)
theory Dll
  imports Prelude
begin

text \<open>
  Circular doubly linked lists with a head node, as the buffer cache uses them. Nodes are
  numbers and the two link fields are functions. \<open>ring nx pv h xs\<close> says that following \<open>nx\<close>
  from the head \<open>h\<close> visits \<open>xs\<close> and returns to \<open>h\<close>, and \<open>pv\<close> is the way back. The lemmas
  say what the unlink and insert-at-front pointer assignments do to the list and what the
  two scan loops find.
\<close>

primrec segment :: "(nat \<Rightarrow> nat) \<Rightarrow> (nat \<Rightarrow> nat) \<Rightarrow> nat \<Rightarrow> nat list \<Rightarrow> nat \<Rightarrow> bool" where
  "segment nx pv a [] z \<longleftrightarrow> nx a = z \<and> pv z = a"
| "segment nx pv a (x # xs) z \<longleftrightarrow> nx a = x \<and> pv x = a \<and> segment nx pv x xs z"

definition ring :: "(nat \<Rightarrow> nat) \<Rightarrow> (nat \<Rightarrow> nat) \<Rightarrow> nat \<Rightarrow> nat list \<Rightarrow> bool" where
  "ring nx pv h xs \<longleftrightarrow> segment nx pv h xs h \<and> distinct (h # xs)"

text \<open>\<^verbatim>\<open>for(b = start; b != &head; b = b->link) if(P(b)) return b;\<close>\<close>

partial_function (option) scan :: "(nat \<Rightarrow> nat) \<Rightarrow> nat \<Rightarrow> (nat \<Rightarrow> bool) \<Rightarrow> nat \<Rightarrow> nat option option" where
  "scan link h P b =
     (if b = h then Some None else if P b then Some (Some b) else scan link h P (link b))"

declare scan.simps [code]

lemma segment_append:
  "segment nx pv a (xs @ y # ys) z \<longleftrightarrow> segment nx pv a xs y \<and> segment nx pv y ys z"
  by (induction xs arbitrary: a) auto

lemma segment_cong:
  assumes "\<And>x. x \<in> insert a (set xs) \<Longrightarrow> nx' x = nx x" and "\<And>x. x \<in> insert z (set xs) \<Longrightarrow> pv' x = pv x"
  shows "segment nx' pv' a xs z = segment nx pv a xs z"
  using assms by (induction xs arbitrary: a) auto

lemma segment_last: "segment nx pv a xs z \<Longrightarrow> pv z = last (a # xs)"
  by (induction xs arbitrary: a) auto

lemma scan_forward:
  "segment nx pv a xs h \<Longrightarrow> h \<notin> set xs \<Longrightarrow> scan nx h P (nx a) = Some (find P xs)"
proof (induction xs arbitrary: a)
  case Nil then show ?case by (subst scan.simps) simp
next
  case (Cons x xs) then show ?case by (subst scan.simps) auto
qed

lemma segment_rev: "segment nx pv a xs z \<longleftrightarrow> segment pv nx z (rev xs) a"
proof (induction xs arbitrary: a)
  case (Cons x xs) then show ?case by (auto simp: segment_append)
qed auto

lemma scan_backward:
  "segment nx pv h xs h \<Longrightarrow> h \<notin> set xs \<Longrightarrow> scan pv h P (pv h) = Some (find P (rev xs))"
  using scan_forward [of pv nx h "rev xs" h P] segment_rev [of nx pv h xs h] by simp

text \<open>The two assignments that take \<open>b\<close> out of the list.\<close>

lemma segment_unlink:
  assumes "segment nx pv a (us @ b # vs) z" and "distinct (us @ b # vs)"
    and "a \<notin> set (us @ b # vs)" and "z \<notin> set (us @ b # vs)"
  shows "segment (nx(pv b := nx b)) (pv(nx b := pv b)) a (us @ vs) z"
  using assms
proof (induction us arbitrary: a)
  case Nil
  show ?case
  proof (cases vs)
    case Nil with \<open>segment nx pv a ([] @ b # vs) z\<close> show ?thesis by auto
  next
    case (Cons v vs')
    have "segment (nx(a := v)) (pv(v := a)) v vs' z = segment nx pv v vs' z"
      using Nil.prems Cons by (intro segment_cong) auto
    with Nil.prems Cons show ?thesis by (simp add: fun_upd_def)
  qed
next
  case (Cons u us)
  have IH: "segment (nx(pv b := nx b)) (pv(nx b := pv b)) u (us @ vs) z"
    using Cons.prems by (intro Cons.IH) auto
  have s: "segment nx pv u us b" "segment nx pv b vs z" "nx a = u" "pv u = a"
    using Cons.prems(1) by (simp_all add: segment_append)
  have "pv b = last (u # us)" using s(1) by (rule segment_last)
  then have "pv b \<in> set (u # us)" by (metis last_in_set list.distinct(1))
  then have "pv b \<noteq> a" using Cons.prems(3) by auto
  moreover have "nx b \<noteq> u" using s(2) Cons.prems(2,4) by (cases vs) auto
  ultimately show ?case using IH s by (simp add: fun_upd_def)
qed

text \<open>The four assignments that put \<open>b\<close> right behind the head.\<close>

lemma ring_push:
  assumes "ring nx pv h xs" and "b \<notin> insert h (set xs)"
  shows "ring (nx(b := nx h, h := b)) (pv(b := h, nx h := b)) h (b # xs)"
proof (cases xs)
  case Nil with assms show ?thesis by (auto simp: ring_def)
next
  case (Cons x ys)
  have "segment (nx(b := nx h, h := b)) (pv(b := h, nx h := b)) x ys h"
    using assms Cons by (subst segment_cong [of x ys _ nx h _ pv]) (auto simp: ring_def)
  with assms Cons show ?thesis by (auto simp: ring_def)
qed

lemma ring_unlink:
  assumes "ring nx pv h xs" and "b \<in> set xs"
  shows "ring (nx(pv b := nx b)) (pv(nx b := pv b)) h (remove1 b xs)"
proof -
  obtain us vs where xs: "xs = us @ b # vs" "b \<notin> set us" using assms(2) by (metis split_list_first)
  then have "remove1 b xs = us @ vs" by (simp add: remove1_append)
  then show ?thesis
    using assms(1) segment_unlink [of nx pv h us b vs h] xs unfolding ring_def by auto
qed

end
