(* ===== verification/Bio.thy ===== *)
theory Bio
  imports Kalloc Locks Dll
begin

text \<open>
  The buffer cache, \<^verbatim>\<open>src/kernel/bio.c\<close>. Buffers are numbered \<open>0..29\<close> and \<open>30\<close> is the list head
  \<^verbatim>\<open>bcache.head\<close>; the \<^verbatim>\<open>prev\<close> and \<^verbatim>\<open>next\<close> links are fields of the buffers as in the code and the
  two search loops follow them. The disk is a function from block numbers to blocks, with
  the sequence of completed writes; \<open>disk_rw\<close> is the transfer that \<^verbatim>\<open>virtio_disk_rw\<close> asks the
  device for. The second half abstracts a cache to what a client can rely on (\<open>cache\<close>) and
  shows that the operations implement that contract.
\<close>

section \<open>State\<close>

abbreviation NBUF :: nat where "NBUF \<equiv> 30"
abbreviation HEAD :: nat where "HEAD \<equiv> 30"

record buf =
  b_valid :: bool
  b_disk :: bool
  b_dev :: u32
  b_blockno :: u32
  b_lock :: sleeplock
  b_refcnt :: u32
  b_prev :: nat
  b_next :: nat
  b_data :: "u8 list"

record bio_stats =
  bread_calls :: u64
  bwrite_calls :: u64
  brelse_calls :: u64
  bget_hits :: u64
  bget_misses :: u64
  bget_evictions :: u64
  bpin_calls :: u64
  bunpin_calls :: u64
  cache_full_events :: u64
  validation_errors :: u64
  total_disk_reads :: u64
  total_disk_writes :: u64

record bcache = kmem +
  bufs :: "nat \<Rightarrow> buf"
  bio_stats_of :: bio_stats
  disk :: "u32 \<Rightarrow> u8 list"
  dtrace :: "(u32 \<times> u8 list) list"
  cur_pid :: u32

definition bstat :: "(bio_stats \<Rightarrow> bio_stats) \<Rightarrow> 'a bcache_scheme \<Rightarrow> 'a bcache_scheme" where
  "bstat f s = s\<lparr>bio_stats_of := f (bio_stats_of s)\<rparr>"

definition upd_buf :: "nat \<Rightarrow> (buf \<Rightarrow> buf) \<Rightarrow> 'a bcache_scheme \<Rightarrow> 'a bcache_scheme" where
  "upd_buf b f s = s\<lparr>bufs := (bufs s)(b := f (bufs s b))\<rparr>"

section \<open>Operations\<close>

definition validate_buffer :: "nat \<Rightarrow> 'a bcache_scheme \<Rightarrow> bool \<times> 'a bcache_scheme" where
  "validate_buffer b s =
     (let bad = bstat (\<lambda>t. t\<lparr>validation_errors := validation_errors t + 1\<rparr>) s
      in if \<not> b < NBUF then (False, bad)
         else if b_refcnt (bufs s b) < 0 then (False, bad) else (True, s))"

definition zero_bio_stats :: bio_stats where
  "zero_bio_stats = \<lparr>bread_calls = 0, bwrite_calls = 0, brelse_calls = 0, bget_hits = 0, bget_misses = 0,
     bget_evictions = 0, bpin_calls = 0, bunpin_calls = 0, cache_full_events = 0, validation_errors = 0,
     total_disk_reads = 0, total_disk_writes = 0\<rparr>"

text \<open>The four pointer assignments \<^verbatim>\<open>b->next = head.next; b->prev = &head; head.next->prev = b;
  head.next = b\<close>, shared by \<^verbatim>\<open>binit\<close> and \<^verbatim>\<open>brelse\<close>.\<close>

definition link_front :: "nat \<Rightarrow> 'a bcache_scheme \<Rightarrow> 'a bcache_scheme" where
  "link_front b s =
     (let s1 = upd_buf b (\<lambda>B. B\<lparr>b_next := b_next (bufs s HEAD)\<rparr>) s;
          s2 = upd_buf b (\<lambda>B. B\<lparr>b_prev := HEAD\<rparr>) s1;
          s3 = upd_buf (b_next (bufs s2 HEAD)) (\<lambda>B. B\<lparr>b_prev := b\<rparr>) s2
      in upd_buf HEAD (\<lambda>B. B\<lparr>b_next := b\<rparr>) s3)"

definition unlink :: "nat \<Rightarrow> 'a bcache_scheme \<Rightarrow> 'a bcache_scheme" where
  "unlink b s =
     (let s1 = upd_buf (b_next (bufs s b)) (\<lambda>B. B\<lparr>b_prev := b_prev (bufs s b)\<rparr>) s
      in upd_buf (b_prev (bufs s1 b)) (\<lambda>B. B\<lparr>b_next := b_next (bufs s1 b)\<rparr>) s1)"

definition binit_buf :: "nat \<Rightarrow> 'a bcache_scheme \<Rightarrow> 'a bcache_scheme" where
  "binit_buf b s =
     upd_buf b (\<lambda>B. B\<lparr>b_dev := 0, b_blockno := 0, b_valid := False, b_refcnt := 0\<rparr>)
       (link_front b (upd_buf b (\<lambda>B. B\<lparr>b_lock := initsleeplock\<rparr>) s))"

definition binit :: "'a bcache_scheme \<Rightarrow> 'a bcache_scheme" where
  "binit s =
     fold binit_buf [0..<NBUF]
       (upd_buf HEAD (\<lambda>B. B\<lparr>b_prev := HEAD, b_next := HEAD\<rparr>) (bstat (\<lambda>_. zero_bio_stats) s))"

definition lock_buf :: "nat \<Rightarrow> 'a bcache_scheme \<Rightarrow> 'a bcache_scheme res" where
  "lock_buf b s =
     rbind (acquiresleep (cur_pid s) (b_lock (bufs s b)))
       (\<lambda>l. Inr (upd_buf b (\<lambda>B. B\<lparr>b_lock := l\<rparr>) s))"

definition bget :: "u32 \<Rightarrow> u32 \<Rightarrow> 'a bcache_scheme \<Rightarrow> (nat \<times> 'a bcache_scheme) res" where
  "bget dev blockno s =
     (case scan (\<lambda>b. b_next (bufs s b)) HEAD
             (\<lambda>b. b_dev (bufs s b) = dev \<and> b_blockno (bufs s b) = blockno) (b_next (bufs s HEAD)) of
        None \<Rightarrow> Inl Diverges
      | Some (Some b) \<Rightarrow>
          rbind (lock_buf b (upd_buf b (\<lambda>B. B\<lparr>b_refcnt := b_refcnt B + 1\<rparr>) s)) (\<lambda>s1.
          Inr (b, bstat (\<lambda>t. t\<lparr>bget_hits := bget_hits t + 1\<rparr>) s1))
      | Some None \<Rightarrow>
          let s1 = bstat (\<lambda>t. t\<lparr>bget_misses := bget_misses t + 1\<rparr>) s in
          case scan (\<lambda>b. b_prev (bufs s1 b)) HEAD (\<lambda>b. b_refcnt (bufs s1 b) = 0) (b_prev (bufs s1 HEAD)) of
            None \<Rightarrow> Inl Diverges
          | Some (Some b) \<Rightarrow>
              let s2 = upd_buf b (\<lambda>B. B\<lparr>b_dev := dev, b_blockno := blockno, b_valid := False, b_refcnt := 1\<rparr>) s1;
                  s3 = bstat (\<lambda>t. t\<lparr>bget_evictions := bget_evictions t + 1\<rparr>) s2
              in rbind (lock_buf b s3) (\<lambda>s4. Inr (b, s4))
          | Some None \<Rightarrow> Inl (Panic ''bget: no buffers''))"

text \<open>The completed transfer of \<^verbatim>\<open>virtio_disk_rw(b, write)\<close>: the device moves one block between the
  buffer and the sectors of \<^verbatim>\<open>b->blockno\<close>.\<close>

definition disk_rw :: "nat \<Rightarrow> bool \<Rightarrow> 'a bcache_scheme \<Rightarrow> 'a bcache_scheme" where
  "disk_rw b wr s =
     (let B = bufs s b
      in if wr then s\<lparr>disk := (disk s)(b_blockno B := b_data B), dtrace := dtrace s @ [(b_blockno B, b_data B)]\<rparr>
         else upd_buf b (\<lambda>B. B\<lparr>b_data := disk s (b_blockno B)\<rparr>) s)"

definition bread :: "u32 \<Rightarrow> u32 \<Rightarrow> 'a bcache_scheme \<Rightarrow> (nat \<times> 'a bcache_scheme) res" where
  "bread dev blockno s =
     rbind (bget dev blockno (bstat (\<lambda>t. t\<lparr>bread_calls := bread_calls t + 1\<rparr>) s)) (\<lambda>(b, s1).
     case validate_buffer b s1 of (ok, s2) \<Rightarrow>
     if \<not> ok then Inl (Panic ''bread: invalid buffer'')
     else if \<not> b_valid (bufs s2 b)
     then let s3 = upd_buf b (\<lambda>B. B\<lparr>b_valid := True\<rparr>) (disk_rw b False s2)
          in Inr (b, bstat (\<lambda>t. t\<lparr>total_disk_reads := total_disk_reads t + 1\<rparr>) s3)
     else Inr (b, s2))"

definition bwrite :: "nat \<Rightarrow> 'a bcache_scheme \<Rightarrow> 'a bcache_scheme res" where
  "bwrite b s =
     (case validate_buffer b s of (ok, s1) \<Rightarrow>
      if \<not> ok then Inl (Panic ''bwrite: invalid buffer'')
      else if \<not> holdingsleep (cur_pid s1) (b_lock (bufs s1 b)) then Inl (Panic ''bwrite'')
      else Inr (disk_rw b True
             (bstat (\<lambda>t. t\<lparr>bwrite_calls := bwrite_calls t + 1, total_disk_writes := total_disk_writes t + 1\<rparr>) s1)))"

definition brelse :: "nat \<Rightarrow> 'a bcache_scheme \<Rightarrow> 'a bcache_scheme res" where
  "brelse b s =
     (case validate_buffer b s of (ok, s1) \<Rightarrow>
      if \<not> ok then Inl (Panic ''brelse: invalid buffer'')
      else if \<not> holdingsleep (cur_pid s1) (b_lock (bufs s1 b)) then Inl (Panic ''brelse'')
      else
        let s2 = bstat (\<lambda>t. t\<lparr>brelse_calls := brelse_calls t + 1\<rparr>) s1;
            s3 = upd_buf b (\<lambda>B. B\<lparr>b_lock := releasesleep (b_lock B)\<rparr>) s2;
            s4 = upd_buf b (\<lambda>B. B\<lparr>b_refcnt := b_refcnt B - 1\<rparr>) s3
        in if b_refcnt (bufs s4 b) < 0 then Inl (Panic ''brelse: negative refcnt'')
           else if b_refcnt (bufs s4 b) = 0 then Inr (link_front b (unlink b s4)) else Inr s4)"

definition bpin :: "nat \<Rightarrow> 'a bcache_scheme \<Rightarrow> 'a bcache_scheme res" where
  "bpin b s =
     (case validate_buffer b s of (ok, s1) \<Rightarrow>
      if \<not> ok then Inl (Panic ''bpin: invalid buffer'')
      else Inr (bstat (\<lambda>t. t\<lparr>bpin_calls := bpin_calls t + 1\<rparr>)
             (upd_buf b (\<lambda>B. B\<lparr>b_refcnt := b_refcnt B + 1\<rparr>) s1)))"

definition bunpin :: "nat \<Rightarrow> 'a bcache_scheme \<Rightarrow> 'a bcache_scheme res" where
  "bunpin b s =
     (case validate_buffer b s of (ok, s1) \<Rightarrow>
      if \<not> ok then Inl (Panic ''bunpin: invalid buffer'')
      else
        let s2 = upd_buf b (\<lambda>B. B\<lparr>b_refcnt := b_refcnt B - 1\<rparr>) s1
        in if b_refcnt (bufs s2 b) < 0 then Inl (Panic ''bunpin: negative refcnt'')
           else Inr (bstat (\<lambda>t. t\<lparr>bunpin_calls := bunpin_calls t + 1\<rparr>) s2))"

text \<open>What the holder of a buffer does with \<^verbatim>\<open>b->data\<close>.\<close>

definition get_data :: "nat \<Rightarrow> 'a bcache_scheme \<Rightarrow> u8 list" where
  "get_data b s = b_data (bufs s b)"

definition set_data :: "nat \<Rightarrow> u8 list \<Rightarrow> 'a bcache_scheme \<Rightarrow> 'a bcache_scheme" where
  "set_data b v = upd_buf b (\<lambda>B. B\<lparr>b_data := v\<rparr>)"

section \<open>Framing\<close>

lemma bufs_bstat [simp]: "bufs (bstat f s) = bufs s"
  and disk_bstat [simp]: "disk (bstat f s) = disk s"
  and dtrace_bstat [simp]: "dtrace (bstat f s) = dtrace s"
  and cur_pid_bstat [simp]: "cur_pid (bstat f s) = cur_pid s"
  and more_bstat [simp]: "bcache.more (bstat f s) = bcache.more s"
  by (simp_all add: bstat_def)

lemma bufs_upd_buf [simp]: "bufs (upd_buf b f s) = (bufs s)(b := f (bufs s b))"
  and disk_upd_buf [simp]: "disk (upd_buf b f s) = disk s"
  and dtrace_upd_buf [simp]: "dtrace (upd_buf b f s) = dtrace s"
  and cur_pid_upd_buf [simp]: "cur_pid (upd_buf b f s) = cur_pid s"
  and more_upd_buf [simp]: "bcache.more (upd_buf b f s) = bcache.more s"
  by (simp_all add: upd_buf_def)

lemma validate_buffer_ok [simp]: "b < NBUF \<Longrightarrow> validate_buffer b s = (True, s)"
  by (simp add: validate_buffer_def Let_def)

section \<open>Cache contents and invariant\<close>

definition key_is :: "u32 \<Rightarrow> u32 \<Rightarrow> buf \<Rightarrow> bool" where
  "key_is d k B \<longleftrightarrow> b_dev B = d \<and> b_blockno B = k"

definition lookup :: "u32 \<Rightarrow> (nat \<Rightarrow> buf) \<Rightarrow> u32 \<Rightarrow> nat option" where
  "lookup d bs k = first_index (\<lambda>b. key_is d k (bs b)) [0..<NBUF]"

definition entry :: "u32 \<Rightarrow> (nat \<Rightarrow> buf) \<Rightarrow> u32 \<Rightarrow> buf option" where
  "entry d bs k = map_option bs (lookup d bs k)"

text \<open>What must hold of one buffer: only the cached device is used, a referenced buffer is valid,
  a locked one is referenced and locked by the running process, and an unreferenced one may
  be dropped because the disk has its contents.\<close>

definition buf_ok :: "u32 \<Rightarrow> (u32 \<Rightarrow> u8 list) \<Rightarrow> u32 \<Rightarrow> buf \<Rightarrow> bool" where
  "buf_ok d dk pid B \<longleftrightarrow>
     (b_dev B = d \<or> b_dev B = 0 \<and> b_refcnt B = 0 \<and> \<not> b_valid B)
     \<and> (b_refcnt B \<noteq> 0 \<longrightarrow> b_valid B) \<and> (sl_locked (b_lock B) \<longrightarrow> b_refcnt B \<noteq> 0 \<and> sl_pid (b_lock B) = pid)
     \<and> (b_refcnt B = 0 \<longrightarrow> b_valid B \<longrightarrow> b_data B = dk (b_blockno B))"

definition lru_ok :: "(nat \<Rightarrow> buf) \<Rightarrow> bool" where
  "lru_ok bs \<longleftrightarrow> (\<exists>xs. ring (\<lambda>b. b_next (bs b)) (\<lambda>b. b_prev (bs b)) HEAD xs \<and> set xs = {..<NBUF})"

definition uniq :: "u32 \<Rightarrow> (nat \<Rightarrow> buf) \<Rightarrow> bool" where
  "uniq d bs \<longleftrightarrow> (\<forall>b < NBUF. \<forall>c < NBUF. \<forall>k. key_is d k (bs b) \<longrightarrow> key_is d k (bs c) \<longrightarrow> b = c)"

definition binv :: "u32 \<Rightarrow> 'a bcache_scheme \<Rightarrow> bool" where
  "binv d s \<longleftrightarrow> d \<noteq> 0 \<and> lru_ok (bufs s) \<and> uniq d (bufs s)
     \<and> (\<forall>b < NBUF. buf_ok d (disk s) (cur_pid s) (bufs s b))"

lemma lookup_SomeD: "lookup d bs k = Some b \<Longrightarrow> b < NBUF \<and> key_is d k (bs b)"
  unfolding lookup_def by (auto dest: first_index_SomeD)

lemma lookup_Some_iff: "uniq d bs \<Longrightarrow> lookup d bs k = Some b \<longleftrightarrow> b < NBUF \<and> key_is d k (bs b)"
proof
  assume u: "uniq d bs" and b: "b < NBUF \<and> key_is d k (bs b)"
  then have "lookup d bs k \<noteq> None" by (auto simp: lookup_def first_index_None_iff)
  then obtain c where "lookup d bs k = Some c" by auto
  with u b lookup_SomeD [of d bs k c] show "lookup d bs k = Some b" by (auto simp: uniq_def)
qed (rule lookup_SomeD)

lemma lookup_None_iff: "lookup d bs k = None \<longleftrightarrow> (\<forall>b < NBUF. \<not> key_is d k (bs b))"
  by (auto simp: lookup_def first_index_None_iff)

lemma lookup_cong: "(\<And>b. b < NBUF \<Longrightarrow> key_is d k (bs b) = key_is d k (bs' b)) \<Longrightarrow> lookup d bs k = lookup d bs' k"
  unfolding lookup_def by (rule first_index_cong) auto

text \<open>Changing a buffer without changing its key changes one entry.\<close>

lemma entry_upd:
  assumes "uniq d bs" and "b < NBUF" and "key_is d k (bs b)" and "key_is d k B"
  shows "entry d (bs(b := B)) = (entry d bs)(k \<mapsto> B)"
proof
  fix j
  have l: "lookup d (bs(b := B)) j = lookup d bs j"
    using assms(3,4) by (intro lookup_cong) (auto simp: key_is_def)
  show "entry d (bs(b := B)) j = ((entry d bs)(k \<mapsto> B)) j"
  proof (cases "j = k")
    case True
    with l have "lookup d (bs(b := B)) k = Some b"
      using assms lookup_Some_iff [OF assms(1), of k b] by simp
    with True show ?thesis by (simp add: entry_def)
  next
    case False
    have "lookup d bs j \<noteq> Some b"
      using assms(3) False lookup_SomeD [of d bs j b] by (auto simp: key_is_def)
    then show ?thesis using False by (cases "lookup d bs j") (auto simp: entry_def l)
  qed
qed

lemma uniq_upd:
  "uniq d bs \<Longrightarrow> key_is d k (bs b) \<Longrightarrow> key_is d k B \<Longrightarrow> uniq d (bs(b := B))"
  unfolding uniq_def key_is_def by (auto split: if_splits)

text \<open>Recycling a buffer replaces its old entry.\<close>

lemma entry_recycle:
  assumes "uniq d bs" and "b < NBUF" and "lookup d bs k = None" and "key_is d k B"
  shows "entry d (bs(b := B)) j =
      (if j = k then Some B else if key_is d j (bs b) then None else entry d bs j)"
    and "uniq d (bs(b := B))"
proof -
  show u: "uniq d (bs(b := B))"
    using assms unfolding uniq_def lookup_None_iff by (auto simp: key_is_def split: if_splits)
  show "entry d (bs(b := B)) j =
      (if j = k then Some B else if key_is d j (bs b) then None else entry d bs j)"
  proof (cases "j = k")
    case True
    have "lookup d (bs(b := B)) k = Some b" using assms(2,4) lookup_Some_iff [OF u] by simp
    with True show ?thesis by (simp add: entry_def)
  next
    case False
    then have n: "\<not> key_is d j B" using assms(4) by (simp add: key_is_def)
    show ?thesis
    proof (cases "key_is d j (bs b)")
      case True
      then have "lookup d (bs(b := B)) j = None"
        using n assms(1,2) by (auto simp: lookup_None_iff uniq_def)
      with True False show ?thesis by (simp add: entry_def)
    next
      case no: False
      have "lookup d (bs(b := B)) j = lookup d bs j" using n no by (intro lookup_cong) auto
      moreover have "lookup d bs j \<noteq> Some b" using no lookup_SomeD by blast
      ultimately show ?thesis using False no by (cases "lookup d bs j") (auto simp: entry_def)
    qed
  qed
qed

section \<open>The contract of a block cache\<close>

text \<open>What a client sees: the contents of every block, the contents on disk, how often each block
  is referenced, which blocks it holds locked, how many unreferenced buffers are left, and
  the writes the disk has completed.\<close>

record ('k, 'd) cache =
  c_view :: "'k \<Rightarrow> 'd"
  c_disk :: "'k \<Rightarrow> 'd"
  c_ref :: "'k \<Rightarrow> nat"
  c_held :: "'k set"
  c_room :: nat
  c_trace :: "('k \<times> 'd) list"

definition spec_bread :: "'k \<Rightarrow> ('k, 'd) cache \<Rightarrow> ('k, 'd) cache" where
  "spec_bread k c = c\<lparr>c_ref := (c_ref c)(k := c_ref c k + 1), c_held := insert k (c_held c),
     c_room := (if c_ref c k = 0 then c_room c - 1 else c_room c)\<rparr>"

definition spec_set :: "'k \<Rightarrow> 'd \<Rightarrow> ('k, 'd) cache \<Rightarrow> ('k, 'd) cache" where
  "spec_set k v c = c\<lparr>c_view := (c_view c)(k := v)\<rparr>"

definition spec_bwrite :: "'k \<Rightarrow> ('k, 'd) cache \<Rightarrow> ('k, 'd) cache" where
  "spec_bwrite k c = c\<lparr>c_disk := (c_disk c)(k := c_view c k), c_trace := c_trace c @ [(k, c_view c k)]\<rparr>"

definition spec_unref :: "'k \<Rightarrow> ('k, 'd) cache \<Rightarrow> ('k, 'd) cache" where
  "spec_unref k c = c\<lparr>c_ref := (c_ref c)(k := c_ref c k - 1),
     c_room := (if c_ref c k = 1 then c_room c + 1 else c_room c)\<rparr>"

definition spec_brelse :: "'k \<Rightarrow> ('k, 'd) cache \<Rightarrow> ('k, 'd) cache" where
  "spec_brelse k c = spec_unref k (c\<lparr>c_held := c_held c - {k}\<rparr>)"

definition spec_bpin :: "'k \<Rightarrow> ('k, 'd) cache \<Rightarrow> ('k, 'd) cache" where
  "spec_bpin k c = c\<lparr>c_ref := (c_ref c)(k := c_ref c k + 1)\<rparr>"

text \<open>When the calls are legal: a buffer must be available, the count must not overflow, and a
  block may lose its last reference only when the disk has its contents.\<close>

definition can_read :: "'k \<Rightarrow> ('k, 'd) cache \<Rightarrow> bool" where
  "can_read k c \<longleftrightarrow> k \<notin> c_held c \<and> (0 < c_ref c k \<or> 0 < c_room c) \<and> c_ref c k + 1 < 2 ^ 32"

definition can_unref :: "'k \<Rightarrow> ('k, 'd) cache \<Rightarrow> bool" where
  "can_unref k c \<longleftrightarrow> 1 < c_ref c k \<or> c_view c k = c_disk c k"

locale block_cache =
  fixes read :: "'k \<Rightarrow> 's \<Rightarrow> ('b \<times> 's) res"
    and "write" :: "'b \<Rightarrow> 's \<Rightarrow> 's res"
    and release :: "'b \<Rightarrow> 's \<Rightarrow> 's res"
    and pin :: "'b \<Rightarrow> 's \<Rightarrow> 's res"
    and unpin :: "'b \<Rightarrow> 's \<Rightarrow> 's res"
    and get :: "'b \<Rightarrow> 's \<Rightarrow> 'd"
    and put :: "'b \<Rightarrow> 'd \<Rightarrow> 's \<Rightarrow> 's"
    and inv :: "'s \<Rightarrow> bool"
    and abs :: "'s \<Rightarrow> ('k, 'd) cache"
    and at :: "'s \<Rightarrow> 'b \<Rightarrow> 'k \<Rightarrow> bool"
    and rest :: "'s \<Rightarrow> 'r"
  assumes read: "inv s \<Longrightarrow> can_read k (abs s) \<Longrightarrow>
      \<exists>b s'. read k s = Inr (b, s') \<and> inv s' \<and> abs s' = spec_bread k (abs s) \<and> at s' b k \<and> rest s' = rest s
        \<and> (\<forall>b' k'. at s b' k' \<longrightarrow> k' \<in> c_held (abs s) \<longrightarrow> at s' b' k')"
    and get: "inv s \<Longrightarrow> at s b k \<Longrightarrow> k \<in> c_held (abs s) \<Longrightarrow> get b s = c_view (abs s) k"
    and put: "inv s \<Longrightarrow> at s b k \<Longrightarrow> k \<in> c_held (abs s) \<Longrightarrow>
      inv (put b v s) \<and> abs (put b v s) = spec_set k v (abs s) \<and> rest (put b v s) = rest s
        \<and> at (put b v s) = at s"
    and "write": "inv s \<Longrightarrow> at s b k \<Longrightarrow> k \<in> c_held (abs s) \<Longrightarrow>
      \<exists>s'. write b s = Inr s' \<and> inv s' \<and> abs s' = spec_bwrite k (abs s) \<and> rest s' = rest s \<and> at s' = at s"
    and release: "inv s \<Longrightarrow> at s b k \<Longrightarrow> k \<in> c_held (abs s) \<Longrightarrow> can_unref k (abs s) \<Longrightarrow>
      \<exists>s'. release b s = Inr s' \<and> inv s' \<and> abs s' = spec_brelse k (abs s) \<and> rest s' = rest s \<and> at s' = at s"
    and pin: "inv s \<Longrightarrow> at s b k \<Longrightarrow> k \<in> c_held (abs s) \<Longrightarrow> c_ref (abs s) k + 1 < 2 ^ 32 \<Longrightarrow>
      \<exists>s'. pin b s = Inr s' \<and> inv s' \<and> abs s' = spec_bpin k (abs s) \<and> rest s' = rest s \<and> at s' = at s"
    and unpin: "inv s \<Longrightarrow> at s b k \<Longrightarrow> k \<in> c_held (abs s) \<Longrightarrow> 1 < c_ref (abs s) k \<Longrightarrow>
      \<exists>s'. unpin b s = Inr s' \<and> inv s' \<and> abs s' = spec_unref k (abs s) \<and> rest s' = rest s \<and> at s' = at s"

definition spec_update :: "'k \<Rightarrow> 'd \<Rightarrow> ('k, 'd) cache \<Rightarrow> ('k, 'd) cache" where
  "spec_update k v c = c\<lparr>c_view := (c_view c)(k := v), c_disk := (c_disk c)(k := v), c_trace := c_trace c @ [(k, v)]\<rparr>"

lemmas spec_defs = spec_bread_def spec_set_def spec_bwrite_def spec_unref_def spec_brelse_def spec_bpin_def
  spec_update_def

lemma spec_update_block:
  "can_read k c \<Longrightarrow> spec_brelse k (spec_bwrite k (spec_set k v (spec_bread k c))) = spec_update k v c"
  by (intro cache.equality) (auto simp: spec_defs can_read_def)

lemma spec_copy_block:
  assumes "dst \<noteq> src" and "can_read dst c" and "can_read src (spec_bread dst c)"
  shows "spec_brelse dst (spec_brelse src (spec_bwrite dst (spec_set dst v (spec_bread src (spec_bread dst c)))))
    = spec_update dst v c"
  using assms by (intro cache.equality; auto simp: spec_defs can_read_def)+

lemma spec_copy_unpin:
  assumes "dst \<noteq> src" and "can_read src c" and "can_read dst (spec_bread src c)"
  shows "spec_brelse dst (spec_brelse src (spec_bwrite dst (spec_set dst v (spec_bread dst (spec_bread src c)))))
    = spec_update dst v c"
    and "0 < c_ref c dst \<Longrightarrow> spec_brelse dst (spec_brelse src (spec_unref dst
      (spec_bwrite dst (spec_set dst v (spec_bread dst (spec_bread src c)))))) = spec_unref dst (spec_update dst v c)"
  using assms by (intro cache.equality; auto simp: spec_defs can_read_def)+

context block_cache
begin

text \<open>Read a block, change it, write it through, release it.\<close>

lemma update_block:
  assumes "inv s" and "can_read k (abs s)"
  shows "\<exists>s'. rbind (read k s) (\<lambda>(b, s1). rbind (write b (put b (f (get b s1)) s1)) (release b)) = Inr s'
    \<and> inv s' \<and> abs s' = spec_update k (f (c_view (abs s) k)) (abs s) \<and> rest s' = rest s"
proof -
  obtain b s1 where s1: "read k s = Inr (b, s1)" "inv s1" "abs s1 = spec_bread k (abs s)" "at s1 b k" "rest s1 = rest s"
    using read [OF assms] by blast
  have h1: "k \<in> c_held (abs s1)" by (simp add: s1(3) spec_bread_def)
  have g: "get b s1 = c_view (abs s) k" using get [OF s1(2,4) h1] by (simp add: s1(3) spec_bread_def)
  let ?v = "f (c_view (abs s) k)"
  note p = put [OF s1(2,4) h1, of ?v]
  have h2: "at (put b ?v s1) b k" "k \<in> c_held (abs (put b ?v s1))" using p s1(4) h1 by (simp_all add: spec_set_def)
  obtain s3 where s3: "write b (put b ?v s1) = Inr s3" "inv s3" "abs s3 = spec_bwrite k (abs (put b ?v s1))"
    "rest s3 = rest (put b ?v s1)" "at s3 = at (put b ?v s1)"
    using "write" [of "put b ?v s1" b k] p h2 by blast
  have h3: "at s3 b k" "k \<in> c_held (abs s3)" "can_unref k (abs s3)"
    using s3 h2 by (simp_all add: spec_bwrite_def can_unref_def)
  obtain s4 where s4: "release b s3 = Inr s4" "inv s4" "abs s4 = spec_brelse k (abs s3)" "rest s4 = rest s3"
    using release [OF s3(2) h3] by blast
  have "abs s4 = spec_update k ?v (abs s)"
    using spec_update_block [OF assms(2), of ?v] p by (simp add: s4(3) s3(3) s1(3))
  then show ?thesis using s1 s3 s4 g p by auto
qed

text \<open>Copy the block \<open>src\<close> to \<open>dst\<close> and write it: the two calls of \<^verbatim>\<open>bread\<close> come in either order.\<close>

lemma copy_second_to_first:
  assumes "inv s" and "dst \<noteq> src" and "can_read dst (abs s)" and "can_read src (spec_bread dst (abs s))"
    and "0 < c_ref (abs s) src \<or> c_view (abs s) src = c_disk (abs s) src"
  shows "\<exists>s'. rbind (read dst s) (\<lambda>(d, s1). rbind (read src s1) (\<lambda>(r, s2).
      rbind (write d (put d (get r s2) s2)) (\<lambda>s3. rbind (release r s3) (release d)))) = Inr s'
    \<and> inv s' \<and> abs s' = spec_update dst (c_view (abs s) src) (abs s) \<and> rest s' = rest s"
proof -
  obtain d s1 where s1: "read dst s = Inr (d, s1)" "inv s1" "abs s1 = spec_bread dst (abs s)" "at s1 d dst" "rest s1 = rest s"
    using read [OF assms(1,3)] by blast
  have h1: "dst \<in> c_held (abs s1)" by (simp add: s1(3) spec_bread_def)
  obtain r s2 where s2: "read src s1 = Inr (r, s2)" "inv s2" "abs s2 = spec_bread src (abs s1)" "at s2 r src"
    "rest s2 = rest s1" "at s2 d dst"
    using read [OF s1(2), of src] assms(4) s1 h1 by metis
  have h2: "dst \<in> c_held (abs s2)" "src \<in> c_held (abs s2)" using h1 by (simp_all add: s2(3) spec_bread_def)
  let ?v = "c_view (abs s) src"
  have g: "get r s2 = ?v" using get [OF s2(2,4) h2(2)] by (simp add: s2(3) s1(3) spec_bread_def)
  note p = put [OF s2(2,6) h2(1), of ?v]
  obtain s3 where s3: "write d (put d ?v s2) = Inr s3" "inv s3" "abs s3 = spec_bwrite dst (abs (put d ?v s2))"
    "rest s3 = rest (put d ?v s2)" "at s3 = at (put d ?v s2)"
    using "write" [of "put d ?v s2" d dst] p s2 h2 by (auto simp: spec_set_def)
  have h3: "at s3 r src" "src \<in> c_held (abs s3)" "can_unref src (abs s3)"
    using s3 p s2(4) h2 assms(2,5) s1(3) s2(3) by (auto simp: spec_defs can_unref_def)
  obtain s4 where s4: "release r s3 = Inr s4" "inv s4" "abs s4 = spec_brelse src (abs s3)" "rest s4 = rest s3" "at s4 = at s3"
    using release [OF s3(2) h3] by blast
  have h4: "at s4 d dst" "dst \<in> c_held (abs s4)" "can_unref dst (abs s4)"
    using s4 s3 p s2(6) h2 assms(2) by (auto simp: spec_defs can_unref_def)
  obtain s5 where s5: "release d s4 = Inr s5" "inv s5" "abs s5 = spec_brelse dst (abs s4)" "rest s5 = rest s4"
    using release [OF s4(2) h4] by blast
  have "abs s5 = spec_update dst ?v (abs s)"
    using spec_copy_block(1) [OF assms(2-4), of ?v] p by (simp add: s5(3) s4(3) s3(3) s2(3) s1(3))
  then show ?thesis using s1 s2 s3 s4 s5 g p by auto
qed

lemma copy_first_to_second:
  assumes "inv s" and "dst \<noteq> src" and "can_read src (abs s)" and "can_read dst (spec_bread src (abs s))"
    and "c_view (abs s) src = c_disk (abs s) src" and "u \<Longrightarrow> 0 < c_ref (abs s) dst"
  shows "\<exists>s'. rbind (read src s) (\<lambda>(r, s1). rbind (read dst s1) (\<lambda>(d, s2).
      rbind (write d (put d (get r s2) s2)) (\<lambda>s3. rbind (if u then unpin d s3 else Inr s3) (\<lambda>s4.
      rbind (release r s4) (release d))))) = Inr s'
    \<and> inv s' \<and> rest s' = rest s
    \<and> abs s' = (if u then spec_unref dst else id) (spec_update dst (c_view (abs s) src) (abs s))"
proof -
  obtain r s1 where s1: "read src s = Inr (r, s1)" "inv s1" "abs s1 = spec_bread src (abs s)" "at s1 r src" "rest s1 = rest s"
    using read [OF assms(1,3)] by blast
  have h1: "src \<in> c_held (abs s1)" by (simp add: s1(3) spec_bread_def)
  obtain d s2 where s2: "read dst s1 = Inr (d, s2)" "inv s2" "abs s2 = spec_bread dst (abs s1)" "at s2 d dst"
    "rest s2 = rest s1" "at s2 r src"
    using read [OF s1(2), of dst] assms(4) s1 h1 by metis
  have h2: "dst \<in> c_held (abs s2)" "src \<in> c_held (abs s2)" using h1 by (simp_all add: s2(3) spec_bread_def)
  let ?v = "c_view (abs s) src"
  have g: "get r s2 = ?v" using get [OF s2(2,6) h2(2)] by (simp add: s2(3) s1(3) spec_bread_def)
  note p = put [OF s2(2,4) h2(1), of ?v]
  obtain s3 where s3: "write d (put d ?v s2) = Inr s3" "inv s3" "abs s3 = spec_bwrite dst (abs (put d ?v s2))"
    "rest s3 = rest (put d ?v s2)" "at s3 = at (put d ?v s2)"
    using "write" [of "put d ?v s2" d dst] p s2 h2 by (auto simp: spec_set_def)
  have h3: "at s3 d dst" "dst \<in> c_held (abs s3)" "u \<Longrightarrow> 1 < c_ref (abs s3) dst"
    using s3 p s2(3,4) s1(3) h2 assms(2,6) by (simp_all add: spec_defs)
  obtain s4 where s4: "(if u then unpin d s3 else Inr s3) = Inr s4" "inv s4"
    "abs s4 = (if u then spec_unref dst (abs s3) else abs s3)" "rest s4 = rest s3" "at s4 = at s3"
    using unpin [OF s3(2) h3(1,2)] h3(3) s3(2) by (cases u) auto
  have h4: "at s4 r src" "src \<in> c_held (abs s4)" "can_unref src (abs s4)"
    using s4 s3 p s2(3,6) h2 assms(2,5) s1(3) by (auto simp: spec_defs can_unref_def)
  obtain s5 where s5: "release r s4 = Inr s5" "inv s5" "abs s5 = spec_brelse src (abs s4)" "rest s5 = rest s4" "at s5 = at s4"
    using release [OF s4(2) h4] by blast
  have h5: "at s5 d dst" "dst \<in> c_held (abs s5)" "can_unref dst (abs s5)"
    using s5 s4 s3 p s2(4) h2 assms(2) by (auto simp: spec_defs can_unref_def)
  obtain s6 where s6: "release d s5 = Inr s6" "inv s6" "abs s6 = spec_brelse dst (abs s5)" "rest s6 = rest s5"
    using release [OF s5(2) h5] by blast
  have "abs s6 = (if u then spec_unref dst else id) (spec_update dst ?v (abs s))"
    using spec_copy_unpin [OF assms(2-4), of ?v] p assms(6)
    by (simp add: s6(3) s5(3) s4(3) s3(3) s2(3) s1(3))
  then show ?thesis using s1 s2 s3 s4 s5 s6 g p by auto
qed

end

section \<open>The cache implements the contract\<close>

definition room :: "(nat \<Rightarrow> buf) \<Rightarrow> nat" where
  "room bs = card {b. b < NBUF \<and> b_refcnt (bs b) = 0}"

definition cache_of :: "u32 \<Rightarrow> 'a bcache_scheme \<Rightarrow> (u32, u8 list) cache" where
  "cache_of d s =
     \<lparr>c_view = (\<lambda>k. case entry d (bufs s) k of Some B \<Rightarrow> if b_valid B then b_data B else disk s k | None \<Rightarrow> disk s k),
      c_disk = disk s,
      c_ref = (\<lambda>k. case entry d (bufs s) k of Some B \<Rightarrow> unat (b_refcnt B) | None \<Rightarrow> 0),
      c_held = {k. \<exists>B. entry d (bufs s) k = Some B \<and> sl_locked (b_lock B)},
      c_room = room (bufs s),
      c_trace = dtrace s\<rparr>"

definition buf_at :: "u32 \<Rightarrow> 'a bcache_scheme \<Rightarrow> nat \<Rightarrow> u32 \<Rightarrow> bool" where
  "buf_at d s b k \<longleftrightarrow> b < NBUF \<and> key_is d k (bufs s b)"

definition bio_rest :: "'a bcache_scheme \<Rightarrow> kmem \<times> u32 \<times> 'a" where
  "bio_rest s = (kmem.truncate s, cur_pid s, bcache.more s)"

lemma cache_of_disk [simp]: "c_disk (cache_of d s) = disk s" "c_trace (cache_of d s) = dtrace s"
  by (simp_all add: cache_of_def)

lemma entry_at: "binv d s \<Longrightarrow> buf_at d s b k \<Longrightarrow> entry d (bufs s) k = Some (bufs s b)"
  using lookup_Some_iff [of d "bufs s" k b] by (simp add: binv_def buf_at_def entry_def)

lemma bio_rest_simps [simp]:
  "bio_rest (bstat f s) = bio_rest s" "bio_rest (upd_buf b g s) = bio_rest s"
  "bio_rest (s\<lparr>disk := x, dtrace := y\<rparr>) = bio_rest s"
  by (simp_all add: bio_rest_def bstat_def upd_buf_def kmem.truncate_def)

lemma room_upd:
  assumes "b < NBUF"
  shows "room (bs(b := B)) =
    (if b_refcnt (bs b) = 0 then room bs - 1 else room bs) + (if b_refcnt B = 0 then 1 else 0)"
proof -
  let ?R = "\<lambda>bs. {b. b < NBUF \<and> b_refcnt (bs b) = 0}"
  have f: "finite (?R bs)" for bs :: "nat \<Rightarrow> buf" by simp
  have "?R (bs(b := B)) = (if b_refcnt B = 0 then insert b (?R bs - {b}) else ?R bs - {b})"
    using assms by auto
  moreover have "card (?R bs - {b}) = (if b_refcnt (bs b) = 0 then room bs - 1 else room bs)"
    using assms f [of bs] unfolding room_def by simp
  moreover have "card (insert b (?R bs - {b})) = Suc (card (?R bs - {b}))"
    using f [of bs] by (intro card_insert_disjoint) auto
  ultimately show ?thesis by (simp add: room_def del: fun_upd_apply insert_Diff_single)
qed

lemma room_pos: "0 < room bs \<longleftrightarrow> (\<exists>b < NBUF. b_refcnt (bs b) = 0)"
  by (auto simp: room_def card_gt_0_iff)

text \<open>Assignments to \<^verbatim>\<open>prev\<close> and \<^verbatim>\<open>next\<close> do not show.\<close>

definition core :: "buf \<Rightarrow> buf" where
  "core B = B\<lparr>b_prev := 0, b_next := 0\<rparr>"

lemma core_fields:
  "b_valid (core B) = b_valid B" "b_dev (core B) = b_dev B" "b_blockno (core B) = b_blockno B"
  "b_lock (core B) = b_lock B" "b_refcnt (core B) = b_refcnt B" "b_data (core B) = b_data B"
  by (simp_all add: core_def)

lemma core_links [simp]: "core (B\<lparr>b_prev := p\<rparr>) = core B" "core (B\<lparr>b_next := n\<rparr>) = core B"
  by (simp_all add: core_def)

lemma links_invisible:
  assumes "\<And>b. core (bs' b) = core (bs b)"
  shows "key_is d k (bs' b) = key_is d k (bs b)" and "lookup d bs' k = lookup d bs k"
    and "uniq d bs' = uniq d bs" and "room bs' = room bs" and "buf_ok d dk pid (bs' b) = buf_ok d dk pid (bs b)"
proof -
  have f: "b_valid (bs' b) = b_valid (bs b)" "b_dev (bs' b) = b_dev (bs b)"
    "b_blockno (bs' b) = b_blockno (bs b)" "b_lock (bs' b) = b_lock (bs b)"
    "b_refcnt (bs' b) = b_refcnt (bs b)" "b_data (bs' b) = b_data (bs b)" for b
    using assms [of b] core_fields by metis+
  then have k: "key_is d k (bs' b) = key_is d k (bs b)" for k b by (simp add: key_is_def)
  show "key_is d k (bs' b) = key_is d k (bs b)" "lookup d bs' k = lookup d bs k"
    "uniq d bs' = uniq d bs" "room bs' = room bs" "buf_ok d dk pid (bs' b) = buf_ok d dk pid (bs b)"
    by (simp_all add: k lookup_def uniq_def room_def f buf_ok_def)
qed

lemma cache_of_links:
  assumes "\<And>b. core (bufs s' b) = core (bufs s b)" and "disk s' = disk s" and "dtrace s' = dtrace s"
  shows "cache_of d s' = cache_of d s"
proof -
  have e: "map_option core (entry d (bufs s') k) = map_option core (entry d (bufs s) k)" for k
    using links_invisible(2) [OF assms(1), where d = d and k = k] assms(1)
    by (cases "lookup d (bufs s) k") (simp_all add: entry_def)
  have "c_view (cache_of d s') k = c_view (cache_of d s) k"
    "c_ref (cache_of d s') k = c_ref (cache_of d s) k"
    "k \<in> c_held (cache_of d s') \<longleftrightarrow> k \<in> c_held (cache_of d s)" for k
    using e [of k] assms(2)
    by (cases "entry d (bufs s) k"; cases "entry d (bufs s') k"; simp add: cache_of_def; metis core_fields)+
  then show ?thesis
    using links_invisible(4) [OF assms(1)] assms(2,3)
    by (intro cache.equality) (auto simp: cache_of_def)
qed

lemma core_link_front [simp]: "core (bufs (link_front b s) c) = core (bufs s c)"
  by (simp add: link_front_def Let_def)

lemma core_unlink [simp]: "core (bufs (unlink b s) c) = core (bufs s c)"
  by (simp add: unlink_def Let_def)

lemma frame_links [simp]:
  "disk (link_front b s) = disk s" "dtrace (link_front b s) = dtrace s"
  "cur_pid (link_front b s) = cur_pid s" "bio_rest (link_front b s) = bio_rest s"
  "disk (unlink b s) = disk s" "dtrace (unlink b s) = dtrace s"
  "cur_pid (unlink b s) = cur_pid s" "bio_rest (unlink b s) = bio_rest s"
  by (simp_all add: link_front_def unlink_def Let_def)

lemma ring_links: "ring nx pv h xs \<Longrightarrow> b \<in> set xs \<Longrightarrow> nx b \<noteq> b \<and> pv b \<noteq> b"
proof -
  assume r: "ring nx pv h xs" and "b \<in> set xs"
  then obtain us vs where "xs = us @ b # vs" by (auto simp: in_set_conv_decomp)
  with r have s: "segment nx pv h us b" "segment nx pv b vs h" "distinct (h # us @ b # vs)"
    by (simp_all add: ring_def segment_append)
  have "nx b \<noteq> b" using s by (cases vs) auto
  moreover have "pv b = last (h # us)" using s(1) by (rule segment_last)
  then have "pv b \<in> set (h # us)" by (metis last_in_set list.distinct(1))
  then have "pv b \<noteq> b" using s(3) by auto
  ultimately show ?thesis by simp
qed

lemma ring_link_front:
  assumes "ring (\<lambda>c. b_next (bufs s c)) (\<lambda>c. b_prev (bufs s c)) HEAD xs" and "b \<notin> insert HEAD (set xs)"
  shows "ring (\<lambda>c. b_next (bufs (link_front b s) c)) (\<lambda>c. b_prev (bufs (link_front b s) c)) HEAD (b # xs)"
proof -
  have "(\<lambda>c. b_next (bufs (link_front b s) c)) =
      (\<lambda>c. b_next (bufs s c))(b := b_next (bufs s HEAD), HEAD := b)"
    "(\<lambda>c. b_prev (bufs (link_front b s) c)) =
      (\<lambda>c. b_prev (bufs s c))(b := HEAD, b_next (bufs s HEAD) := b)"
    using assms(2) by (auto simp: link_front_def Let_def)
  then show ?thesis using ring_push [OF assms] by simp
qed

lemma ring_unlink_buf:
  assumes "ring (\<lambda>c. b_next (bufs s c)) (\<lambda>c. b_prev (bufs s c)) HEAD xs" and "b \<in> set xs"
  shows "ring (\<lambda>c. b_next (bufs (unlink b s) c)) (\<lambda>c. b_prev (bufs (unlink b s) c)) HEAD (remove1 b xs)"
proof -
  have "(\<lambda>c. b_next (bufs (unlink b s) c)) = (\<lambda>c. b_next (bufs s c))(b_prev (bufs s b) := b_next (bufs s b))"
    "(\<lambda>c. b_prev (bufs (unlink b s) c)) = (\<lambda>c. b_prev (bufs s c))(b_next (bufs s b) := b_prev (bufs s b))"
    using ring_links [OF assms] by (auto simp: unlink_def Let_def)
  then show ?thesis using ring_unlink [OF assms] by simp
qed

text \<open>One buffer changed in place.\<close>

definition buf_change :: "nat \<Rightarrow> buf \<Rightarrow> 'a bcache_scheme \<Rightarrow> 'a bcache_scheme \<Rightarrow> bool" where
  "buf_change b B s s' \<longleftrightarrow> bufs s' = (bufs s)(b := B) \<and> disk s' = disk s \<and> dtrace s' = dtrace s
     \<and> cur_pid s' = cur_pid s \<and> bio_rest s' = bio_rest s"

definition same_links :: "buf \<Rightarrow> buf \<Rightarrow> bool" where
  "same_links B B' \<longleftrightarrow> b_next B' = b_next B \<and> b_prev B' = b_prev B"

lemma lru_ok_upd: "same_links (bs b) B \<Longrightarrow> lru_ok (bs(b := B)) = lru_ok bs"
proof -
  assume "same_links (bs b) B"
  then have "(\<lambda>c. b_next ((bs(b := B)) c)) = (\<lambda>c. b_next (bs c))"
    "(\<lambda>c. b_prev ((bs(b := B)) c)) = (\<lambda>c. b_prev (bs c))" by (auto simp: same_links_def)
  then show ?thesis unfolding lru_ok_def by simp
qed

lemma binv_change:
  assumes "binv d s" and "buf_at d s b k" and "buf_change b B s s'" and "key_is d k B"
    and "same_links (bufs s b) B" and "buf_ok d (disk s) (cur_pid s) B"
  shows "binv d s'" and "buf_at d s' = buf_at d s"
proof -
  show "binv d s'"
    using assms uniq_upd [of d "bufs s" k b B] lru_ok_upd [of "bufs s" b B]
    by (simp add: binv_def buf_change_def buf_at_def)
  show "buf_at d s' = buf_at d s"
    using assms(2-4) by (intro ext) (auto simp: buf_at_def buf_change_def key_is_def)
qed

lemma cache_change:
  assumes "binv d s" and "buf_at d s b k" and "buf_change b B s s'" and "key_is d k B" and "b_valid B"
  shows "cache_of d s' = (cache_of d s)
    \<lparr>c_view := (c_view (cache_of d s))(k := b_data B),
     c_ref := (c_ref (cache_of d s))(k := unat (b_refcnt B)),
     c_held := (if sl_locked (b_lock B) then insert k (c_held (cache_of d s)) else c_held (cache_of d s) - {k}),
     c_room := (if b_refcnt (bufs s b) = 0 then c_room (cache_of d s) - 1 else c_room (cache_of d s))
       + (if b_refcnt B = 0 then 1 else 0)\<rparr>"
proof -
  have b: "b < NBUF" "key_is d k (bufs s b)" "uniq d (bufs s)"
    using assms(1,2) by (simp_all add: buf_at_def binv_def)
  have e: "entry d (bufs s') = (entry d (bufs s))(k \<mapsto> B)"
    using assms(3,4) entry_upd [OF b(3,1,2) assms(4)] by (simp add: buf_change_def)
  have r: "room (bufs s') = (if b_refcnt (bufs s b) = 0 then room (bufs s) - 1 else room (bufs s))
       + (if b_refcnt B = 0 then 1 else 0)"
    using assms(3) room_upd [OF b(1), of "bufs s" B] unfolding buf_change_def by simp
  show ?thesis
    using assms(3,5) r unfolding cache_of_def e
    by (intro cache.equality) (auto simp: buf_change_def fun_eq_iff split: option.split)
qed

lemma cache_at:
  assumes "binv d s" and "buf_at d s b k"
  shows "c_ref (cache_of d s) k = unat (b_refcnt (bufs s b))"
    and "k \<in> c_held (cache_of d s) \<longleftrightarrow> sl_locked (b_lock (bufs s b))"
    and "b_valid (bufs s b) \<Longrightarrow> c_view (cache_of d s) k = b_data (bufs s b)"
    and "\<not> b_valid (bufs s b) \<Longrightarrow> c_view (cache_of d s) k = disk s k"
    and "c_disk (cache_of d s) = disk s"
  using entry_at [OF assms] by (simp_all add: cache_of_def)

lemma buf_ok_at: "binv d s \<Longrightarrow> buf_at d s b k \<Longrightarrow> buf_ok d (disk s) (cur_pid s) (bufs s b)"
  by (simp add: binv_def buf_at_def)

lemma held_buf:
  assumes "binv d s" and "buf_at d s b k" and "k \<in> c_held (cache_of d s)"
  shows "b < NBUF" and "b_valid (bufs s b)" and "b_refcnt (bufs s b) \<noteq> 0" and "b_dev (bufs s b) = d"
    and "b_blockno (bufs s b) = k" and "sl_locked (b_lock (bufs s b))"
    and "sl_pid (b_lock (bufs s b)) = cur_pid s"
  using assms cache_at(2) [OF assms(1,2)] buf_ok_at [OF assms(1,2)]
  by (auto simp: buf_ok_def buf_at_def key_is_def)

lemmas buf_change_simps = buf_change_def same_links_def key_is_def buf_ok_def

lemma unat32_less: "unat (a :: u32) < 2 ^ 32"
  using unsigned_less [of a, where ?'a = nat] by simp

lemma unat_inc32: "unat (a :: u32) + 1 < 2 ^ 32 \<Longrightarrow> unat (a + 1) = unat a + 1 \<and> a + 1 \<noteq> 0"
  by (auto simp: unat_word_ariths word_unat_eq_iff)

lemma bpin_refines:
  assumes "binv d s" and "buf_at d s b k" and "k \<in> c_held (cache_of d s)"
    and "c_ref (cache_of d s) k + 1 < 2 ^ 32"
  shows "\<exists>s'. bpin b s = Inr s' \<and> binv d s' \<and> cache_of d s' = spec_bpin k (cache_of d s)
    \<and> bio_rest s' = bio_rest s \<and> buf_at d s' = buf_at d s"
proof -
  note h = held_buf [OF assms(1-3)] and a = cache_at [OF assms(1,2)]
  let ?B = "(bufs s b)\<lparr>b_refcnt := b_refcnt (bufs s b) + 1\<rparr>"
  have n: "unat (b_refcnt (bufs s b) + 1) = unat (b_refcnt (bufs s b)) + 1" "b_refcnt (bufs s b) + 1 \<noteq> 0"
    using assms(4) a(1) unat_inc32 by auto
  obtain s' where s': "bpin b s = Inr s'" "buf_change b ?B s s'"
    using h(1) by (simp add: bpin_def buf_change_def)
  have k: "key_is d k ?B" "b_valid ?B" "same_links (bufs s b) ?B" "buf_ok d (disk s) (cur_pid s) ?B"
    using h n(2) buf_ok_at [OF assms(1,2)] by (simp_all add: buf_change_simps)
  note i = binv_change [OF assms(1,2) s'(2) k(1,3,4)] and c = cache_change [OF assms(1,2) s'(2) k(1,2)]
  show ?thesis
    using s' i c h a n assms(3) by (auto simp: spec_bpin_def buf_change_def intro!: cache.equality)
qed

lemma unat_dec32: "(a :: u32) \<noteq> 0 \<Longrightarrow> unat (a - 1) = unat a - 1"
  by (rule unat_minus_one)

lemma bunpin_refines:
  assumes "binv d s" and "buf_at d s b k" and "k \<in> c_held (cache_of d s)" and "1 < c_ref (cache_of d s) k"
  shows "\<exists>s'. bunpin b s = Inr s' \<and> binv d s' \<and> cache_of d s' = spec_unref k (cache_of d s)
    \<and> bio_rest s' = bio_rest s \<and> buf_at d s' = buf_at d s"
proof -
  note h = held_buf [OF assms(1-3)] and a = cache_at [OF assms(1,2)]
  let ?B = "(bufs s b)\<lparr>b_refcnt := b_refcnt (bufs s b) - 1\<rparr>"
  have n: "unat (b_refcnt (bufs s b) - 1) = unat (b_refcnt (bufs s b)) - 1" "b_refcnt (bufs s b) - 1 \<noteq> 0"
    using assms(4) a(1) unat_dec32 [OF h(3)] by auto
  obtain s' where s': "bunpin b s = Inr s'" "buf_change b ?B s s'"
    using h(1) by (simp add: bunpin_def buf_change_def Let_def)
  have k: "key_is d k ?B" "b_valid ?B" "same_links (bufs s b) ?B" "buf_ok d (disk s) (cur_pid s) ?B"
    using h n(2) buf_ok_at [OF assms(1,2)] by (simp_all add: buf_change_simps)
  note i = binv_change [OF assms(1,2) s'(2) k(1,3,4)] and c = cache_change [OF assms(1,2) s'(2) k(1,2)]
  show ?thesis
    using s' i c h a n assms(3,4) by (auto simp: spec_unref_def buf_change_def intro!: cache.equality)
qed

lemma set_data_refines:
  assumes "binv d s" and "buf_at d s b k" and "k \<in> c_held (cache_of d s)"
  shows "binv d (set_data b v s) \<and> cache_of d (set_data b v s) = spec_set k v (cache_of d s)
    \<and> bio_rest (set_data b v s) = bio_rest s \<and> buf_at d (set_data b v s) = buf_at d s"
proof -
  note h = held_buf [OF assms] and a = cache_at [OF assms(1,2)]
  let ?B = "(bufs s b)\<lparr>b_data := v\<rparr>"
  have s': "buf_change b ?B s (set_data b v s)" by (simp add: set_data_def buf_change_def)
  have k: "key_is d k ?B" "b_valid ?B" "same_links (bufs s b) ?B" "buf_ok d (disk s) (cur_pid s) ?B"
    using h buf_ok_at [OF assms(1,2)] by (simp_all add: buf_change_simps)
  note i = binv_change [OF assms(1,2) s' k(1,3,4)] and c = cache_change [OF assms(1,2) s' k(1,2)]
  show ?thesis
    using s' i c h a assms(3) by (auto simp: spec_set_def buf_change_def intro!: cache.equality)
qed

lemma binv_disk_upd:
  assumes "binv d s" and "buf_at d s b k" and "b_refcnt (bufs s b) \<noteq> 0"
  shows "binv d (s\<lparr>disk := (disk s)(k := v), dtrace := t\<rparr>)"
proof -
  have "buf_ok d ((disk s)(k := v)) (cur_pid s) (bufs s c)" if c: "c < NBUF" for c
  proof (cases "c = b")
    case True
    with assms buf_ok_at show ?thesis by (auto simp: buf_ok_def)
  next
    case False
    then have "\<not> key_is d k (bufs s c)"
      using assms(1,2) c by (auto simp: binv_def uniq_def buf_at_def)
    moreover have "buf_ok d (disk s) (cur_pid s) (bufs s c)" using assms(1) c by (simp add: binv_def)
    ultimately show ?thesis by (auto simp: buf_ok_def key_is_def)
  qed
  with assms(1) show ?thesis by (simp add: binv_def)
qed

lemma bwrite_refines:
  assumes "binv d s" and "buf_at d s b k" and "k \<in> c_held (cache_of d s)"
  shows "\<exists>s'. bwrite b s = Inr s' \<and> binv d s' \<and> cache_of d s' = spec_bwrite k (cache_of d s)
    \<and> bio_rest s' = bio_rest s \<and> buf_at d s' = buf_at d s"
proof -
  note h = held_buf [OF assms] and a = cache_at [OF assms(1,2)]
  let ?t = "bstat (\<lambda>t. t\<lparr>bwrite_calls := bwrite_calls t + 1, total_disk_writes := total_disk_writes t + 1\<rparr>) s"
  let ?v = "b_data (bufs s b)"
  let ?s' = "?t\<lparr>disk := (disk ?t)(k := ?v), dtrace := dtrace s @ [(k, ?v)]\<rparr>"
  have w: "bwrite b s = Inr ?s'"
    using h by (simp add: bwrite_def holdingsleep_def disk_rw_def Let_def)
  have t: "binv d ?t" "buf_at d ?t b k" "b_refcnt (bufs ?t b) \<noteq> 0"
    using assms h(3) by (simp_all add: binv_def buf_at_def)
  have "cache_of d ?s' = spec_bwrite k (cache_of d s)"
    using entry_at [OF assms(1,2)] h(2)
    by (intro cache.equality) (auto simp: cache_of_def spec_bwrite_def fun_eq_iff split: option.split)
  moreover have "buf_at d ?s' = buf_at d s" by (intro ext) (simp add: buf_at_def)
  moreover have "bio_rest ?s' = bio_rest s" by simp
  ultimately show ?thesis using w binv_disk_upd [OF t] by blast
qed

text \<open>Moving a buffer to the front of the list changes nothing a client sees.\<close>

lemma move_front:
  assumes "binv d s" and "b < NBUF"
  shows "binv d (link_front b (unlink b s))" and "cache_of d (link_front b (unlink b s)) = cache_of d s"
    and "buf_at d (link_front b (unlink b s)) = buf_at d s"
proof -
  let ?s = "link_front b (unlink b s)"
  have c: "core (bufs ?s c) = core (bufs s c)" for c by simp
  obtain xs where xs: "ring (\<lambda>c. b_next (bufs s c)) (\<lambda>c. b_prev (bufs s c)) HEAD xs" "set xs = {..<NBUF}"
    using assms(1) by (auto simp: binv_def lru_ok_def)
  then have b: "b \<in> set xs" "distinct xs" using assms(2) by (auto simp: ring_def)
  then have "b \<notin> insert HEAD (set (remove1 b xs))" using assms(2) by simp
  from ring_link_front [OF ring_unlink_buf [OF xs(1) b(1)] this] have "lru_ok (bufs ?s)"
    using b xs(2) unfolding lru_ok_def by (intro exI [of _ "b # remove1 b xs"]) auto
  then show "binv d ?s"
    using assms(1) links_invisible(3,5) [of "bufs ?s" "bufs s", OF c] by (simp add: binv_def)
  show "cache_of d ?s = cache_of d s" by (rule cache_of_links) simp_all
  show "buf_at d ?s = buf_at d s" using links_invisible(1) [of "bufs ?s" "bufs s", OF c] by (intro ext) (simp add: buf_at_def)
qed

lemma brelse_refines:
  assumes "binv d s" and "buf_at d s b k" and "k \<in> c_held (cache_of d s)" and "can_unref k (cache_of d s)"
  shows "\<exists>s'. brelse b s = Inr s' \<and> binv d s' \<and> cache_of d s' = spec_brelse k (cache_of d s)
    \<and> bio_rest s' = bio_rest s \<and> buf_at d s' = buf_at d s"
proof -
  note h = held_buf [OF assms(1-3)] and a = cache_at [OF assms(1,2)]
  let ?r = "b_refcnt (bufs s b)"
  let ?B = "(bufs s b)\<lparr>b_lock := releasesleep (b_lock (bufs s b)), b_refcnt := ?r - 1\<rparr>"
  let ?s4 = "upd_buf b (\<lambda>B. B\<lparr>b_refcnt := b_refcnt B - 1\<rparr>)
    (upd_buf b (\<lambda>B. B\<lparr>b_lock := releasesleep (b_lock B)\<rparr>)
      (bstat (\<lambda>t. t\<lparr>brelse_calls := brelse_calls t + 1\<rparr>) s))"
  have n: "unat (?r - 1) = unat ?r - 1" using unat_dec32 [OF h(3)] .
  have one: "?r - 1 = 0 \<longleftrightarrow> unat ?r = 1" by (auto simp: word_unat_eq_iff [of ?r])
  have br: "brelse b s = Inr (if ?r - 1 = 0 then link_front b (unlink b ?s4) else ?s4)"
    using h by (simp add: brelse_def holdingsleep_def Let_def)
  have ch: "buf_change b ?B s ?s4" by (simp add: buf_change_def)
  have clean: "b_data (bufs s b) = disk s k" if "?r - 1 = 0"
    using that assms(4) one a h(2) by (simp add: can_unref_def)
  have k: "key_is d k ?B" "b_valid ?B" "same_links (bufs s b) ?B" "buf_ok d (disk s) (cur_pid s) ?B"
    using h clean buf_ok_at [OF assms(1,2)] by (simp_all add: buf_change_simps releasesleep_def)
  note i = binv_change [OF assms(1,2) ch k(1,3,4)] and c = cache_change [OF assms(1,2) ch k(1,2)]
  have c4: "cache_of d ?s4 = spec_brelse k (cache_of d s)"
    using c h a n one
    by (auto simp: spec_brelse_def spec_unref_def releasesleep_def intro!: cache.equality)
  show ?thesis
    using br i c4 move_front [OF i(1) h(1)] by (cases "?r - 1 = 0") simp_all
qed

text \<open>The two searches of \<^verbatim>\<open>bget\<close>.\<close>

lemma find_uniq:
  assumes "set xs = {..<NBUF}" and "uniq d bs"
  shows "find (\<lambda>b. b_dev (bs b) = d \<and> b_blockno (bs b) = k) xs = lookup d bs k"
proof (cases "lookup d bs k")
  case None
  then have "find (\<lambda>b. b_dev (bs b) = d \<and> b_blockno (bs b) = k) xs = None"
    using assms(1) by (auto simp: lookup_None_iff key_is_def find_None_iff)
  with None show ?thesis by simp
next
  case (Some b)
  then have b: "b < NBUF" "key_is d k (bs b)" using lookup_SomeD by auto
  then have "find (\<lambda>b. b_dev (bs b) = d \<and> b_blockno (bs b) = k) xs \<noteq> None"
    using assms(1) by (auto simp: find_None_iff key_is_def)
  then obtain c where c: "find (\<lambda>b. b_dev (bs b) = d \<and> b_blockno (bs b) = k) xs = Some c" by auto
  then have "c < NBUF \<and> key_is d k (bs c)"
    using assms(1) find_SomeD [OF c] by (auto simp: key_is_def)
  with b assms(2) have "c = b" by (auto simp: uniq_def)
  with c Some show ?thesis by simp
qed

lemma bget_search:
  assumes "binv d s"
  obtains xs where "set xs = {..<NBUF}"
    and "scan (\<lambda>b. b_next (bufs s b)) HEAD (\<lambda>b. b_dev (bufs s b) = d \<and> b_blockno (bufs s b) = k)
           (b_next (bufs s HEAD)) = Some (lookup d (bufs s) k)"
    and "scan (\<lambda>b. b_prev (bufs s b)) HEAD (\<lambda>b. b_refcnt (bufs s b) = 0) (b_prev (bufs s HEAD)) =
           Some (find (\<lambda>b. b_refcnt (bufs s b) = 0) (rev xs))"
proof -
  obtain xs where xs: "ring (\<lambda>b. b_next (bufs s b)) (\<lambda>b. b_prev (bufs s b)) HEAD xs" "set xs = {..<NBUF}"
    using assms by (auto simp: binv_def lru_ok_def)
  moreover have "uniq d (bufs s)" using assms by (simp add: binv_def)
  ultimately show thesis
    using scan_forward [of "\<lambda>b. b_next (bufs s b)" "\<lambda>b. b_prev (bufs s b)" HEAD xs HEAD]
      scan_backward [of "\<lambda>b. b_next (bufs s b)" "\<lambda>b. b_prev (bufs s b)" HEAD xs]
      find_uniq [OF xs(2), of d "bufs s" k]
    by (intro that [of xs]) (simp_all add: ring_def)
qed

lemma bread_hit:
  assumes "binv d s" and "lookup d (bufs s) k = Some b" and "k \<notin> c_held (cache_of d s)"
  obtains s' B where "bread d k s = Inr (b, s')" and "buf_change b B s s'"
    and "B = (bufs s b)\<lparr>b_refcnt := b_refcnt (bufs s b) + 1, b_lock := \<lparr>sl_locked = True, sl_pid = cur_pid s\<rparr>,
      b_data := c_view (cache_of d s) k, b_valid := True\<rparr>"
proof -
  have at: "buf_at d s b k" using lookup_SomeD [OF assms(2)] by (simp add: buf_at_def)
  note a = cache_at [OF assms(1) at]
  let ?s = "bstat (\<lambda>t. t\<lparr>bread_calls := bread_calls t + 1\<rparr>) s"
  have nl: "\<not> sl_locked (b_lock (bufs s b))" using assms(3) a(2) by simp
  have b: "b < NBUF" "b_blockno (bufs s b) = k" using at by (simp_all add: buf_at_def key_is_def)
  have "binv d ?s" using assms(1) by (simp add: binv_def)
  from bget_search [OF this, of k] have
    sc: "scan (\<lambda>b. b_next (bufs s b)) HEAD (\<lambda>b. b_dev (bufs s b) = d \<and> b_blockno (bufs s b) = k)
      (b_next (bufs s HEAD)) = Some (Some b)" using assms(2) by simp metis
  let ?B = "(bufs s b)\<lparr>b_refcnt := b_refcnt (bufs s b) + 1, b_lock := \<lparr>sl_locked = True, sl_pid = cur_pid s\<rparr>,
    b_data := c_view (cache_of d s) k, b_valid := True\<rparr>"
  have "\<exists>s'. bread d k s = Inr (b, s') \<and> buf_change b ?B s s'"
  proof (cases "b_valid (bufs s b)")
    case True
    then have "?B = (bufs s b)\<lparr>b_refcnt := b_refcnt (bufs s b) + 1,
      b_lock := \<lparr>sl_locked = True, sl_pid = cur_pid s\<rparr>\<rparr>" using a(3) by simp
    then show ?thesis using sc nl b True
      by (simp add: bread_def bget_def lock_buf_def acquiresleep_def buf_change_def)
  next
    case False
    then show ?thesis using sc nl b a(4)
      by (simp add: bread_def bget_def lock_buf_def acquiresleep_def buf_change_def disk_rw_def Let_def)
  qed
  then show thesis using that by blast
qed

lemma bread_miss:
  assumes "binv d s" and "lookup d (bufs s) k = None" and "0 < room (bufs s)"
  obtains b s' B where "bread d k s = Inr (b, s')" and "buf_change b B s s'" and "b < NBUF"
    and "b_refcnt (bufs s b) = 0"
    and "B = (bufs s b)\<lparr>b_dev := d, b_blockno := k, b_refcnt := 1,
      b_lock := \<lparr>sl_locked = True, sl_pid = cur_pid s\<rparr>, b_data := disk s k, b_valid := True\<rparr>"
proof -
  let ?s = "bstat (\<lambda>t. t\<lparr>bread_calls := bread_calls t + 1\<rparr>) s"
  have "binv d ?s" using assms(1) by (simp add: binv_def)
  from bget_search [OF this, of k] obtain xs where xs: "set xs = {..<NBUF}"
    "scan (\<lambda>b. b_next (bufs s b)) HEAD (\<lambda>b. b_dev (bufs s b) = d \<and> b_blockno (bufs s b) = k)
      (b_next (bufs s HEAD)) = Some None"
    "scan (\<lambda>b. b_prev (bufs s b)) HEAD (\<lambda>b. b_refcnt (bufs s b) = 0) (b_prev (bufs s HEAD)) =
      Some (find (\<lambda>b. b_refcnt (bufs s b) = 0) (rev xs))" using assms(2) by auto
  have "find (\<lambda>b. b_refcnt (bufs s b) = 0) (rev xs) \<noteq> None"
    using assms(3) xs(1) by (auto simp: room_pos find_None_iff)
  then obtain b where f: "find (\<lambda>b. b_refcnt (bufs s b) = 0) (rev xs) = Some b" by auto
  then have "b \<in> set (rev xs) \<and> b_refcnt (bufs s b) = 0"
    by (rule find_SomeD)
  then have b: "b < NBUF" "b_refcnt (bufs s b) = 0" using xs(1) by auto
  then have "buf_ok d (disk s) (cur_pid s) (bufs s b)" using assms(1) by (simp add: binv_def)
  then have nl: "\<not> sl_locked (b_lock (bufs s b))" using b(2) by (simp add: buf_ok_def)
  let ?B = "(bufs s b)\<lparr>b_dev := d, b_blockno := k, b_refcnt := 1,
      b_lock := \<lparr>sl_locked = True, sl_pid = cur_pid s\<rparr>, b_data := disk s k, b_valid := True\<rparr>"
  have "\<exists>s'. bread d k s = Inr (b, s') \<and> buf_change b ?B s s'"
    using xs(2,3) f nl b
    by (simp add: bread_def bget_def lock_buf_def acquiresleep_def buf_change_def disk_rw_def Let_def)
  then show thesis using that b by blast
qed

lemma bread_refines_hit:
  assumes "binv d s" and "lookup d (bufs s) k = Some b" and "can_read k (cache_of d s)"
  shows "\<exists>s'. bread d k s = Inr (b, s') \<and> binv d s' \<and> cache_of d s' = spec_bread k (cache_of d s)
    \<and> buf_at d s' b k \<and> bio_rest s' = bio_rest s \<and> buf_at d s' = buf_at d s"
proof -
  have at: "buf_at d s b k" using lookup_SomeD [OF assms(2)] by (simp add: buf_at_def)
  note a = cache_at [OF assms(1) at]
  have nh: "k \<notin> c_held (cache_of d s)" using assms(3) by (simp add: can_read_def)
  obtain s' B where s': "bread d k s = Inr (b, s')" "buf_change b B s s'"
    and B: "B = (bufs s b)\<lparr>b_refcnt := b_refcnt (bufs s b) + 1, b_lock := \<lparr>sl_locked = True, sl_pid = cur_pid s\<rparr>,
      b_data := c_view (cache_of d s) k, b_valid := True\<rparr>"
    using bread_hit [OF assms(1,2) nh] by blast
  have n: "unat (b_refcnt (bufs s b) + 1) = unat (b_refcnt (bufs s b)) + 1" "b_refcnt (bufs s b) + 1 \<noteq> 0"
    using assms(3) a(1) unat_inc32 by (auto simp: can_read_def)
  have k: "key_is d k B" "b_valid B" "same_links (bufs s b) B" "buf_ok d (disk s) (cur_pid s) B"
    using at n(2) by (simp_all add: buf_at_def buf_change_simps B)
  note i = binv_change [OF assms(1) at s'(2) k(1,3,4)] and c = cache_change [OF assms(1) at s'(2) k(1,2)]
  have "cache_of d s' = spec_bread k (cache_of d s)"
    using c n a by (auto simp: spec_bread_def B unat_eq_zero intro!: cache.equality)
  then show ?thesis using s' i at by (auto simp: buf_change_def)
qed

lemma bread_refines_miss:
  assumes "binv d s" and "lookup d (bufs s) k = None" and "can_read k (cache_of d s)"
  shows "\<exists>b s'. bread d k s = Inr (b, s') \<and> binv d s' \<and> cache_of d s' = spec_bread k (cache_of d s)
    \<and> buf_at d s' b k \<and> bio_rest s' = bio_rest s
    \<and> (\<forall>b' k'. buf_at d s b' k' \<longrightarrow> k' \<in> c_held (cache_of d s) \<longrightarrow> buf_at d s' b' k')"
proof -
  have e: "entry d (bufs s) k = None" using assms(2) by (simp add: entry_def)
  then have "0 < room (bufs s)" using assms(3) by (simp add: can_read_def cache_of_def)
  then obtain b s' B where s': "bread d k s = Inr (b, s')" "buf_change b B s s'" "b < NBUF"
    and r: "b_refcnt (bufs s b) = 0"
    and B: "B = (bufs s b)\<lparr>b_dev := d, b_blockno := k, b_refcnt := 1,
      b_lock := \<lparr>sl_locked = True, sl_pid = cur_pid s\<rparr>, b_data := disk s k, b_valid := True\<rparr>"
    using bread_miss [OF assms(1,2)] by blast
  have u: "uniq d (bufs s)" and ok: "buf_ok d (disk s) (cur_pid s) (bufs s b)"
    using assms(1) s'(3) by (simp_all add: binv_def)
  have kB: "key_is d k B" by (simp add: B key_is_def)
  note er = entry_recycle [OF u s'(3) assms(2) kB]
  have bs: "bufs s' = (bufs s)(b := B)" "disk s' = disk s" "dtrace s' = dtrace s" "cur_pid s' = cur_pid s"
    using s'(2) by (simp_all add: buf_change_def)
  have "lru_ok (bufs s')"
    using assms(1) lru_ok_upd [of "bufs s" b B] unfolding bs by (simp add: binv_def same_links_def B)
  then have inv: "binv d s'"
    using assms(1) er(2) by (auto simp: binv_def bs B buf_ok_def)
  have old: "entry d (bufs s) j = Some (bufs s b)" if "key_is d j (bufs s b)" for j
    using that s'(3) lookup_Some_iff [OF u] by (auto simp: entry_def)
  have room: "room (bufs s') = room (bufs s) - 1"
    unfolding bs using room_upd [OF s'(3), of "bufs s" B] r by (simp add: B)
  have "cache_of d s' = spec_bread k (cache_of d s)"
    using er(1) old ok r e room
    by (intro cache.equality)
      (auto simp: cache_of_def spec_bread_def bs B fun_eq_iff buf_ok_def key_is_def split: option.split)
  moreover have "buf_at d s' b' k'" if "buf_at d s b' k'" and "k' \<in> c_held (cache_of d s)" for b' k'
  proof -
    have "b' \<noteq> b" using held_buf(3) [OF assms(1) that] r by auto
    then show ?thesis using that(1) by (simp add: buf_at_def bs)
  qed
  moreover have "buf_at d s' b k" using s'(3) kB by (simp add: buf_at_def bs)
  ultimately show ?thesis using s'(1,2) inv by (auto simp: buf_change_def)
qed

interpretation bc: block_cache "bread d" bwrite brelse bpin bunpin get_data set_data
  "binv d" "cache_of d" "buf_at d" bio_rest for d :: u32
proof unfold_locales
  fix s :: "'a bcache_scheme" and k
  assume "binv d s" and "can_read k (cache_of d s)"
  then show "\<exists>b s'. bread d k s = Inr (b, s') \<and> binv d s' \<and> cache_of d s' = spec_bread k (cache_of d s)
      \<and> buf_at d s' b k \<and> bio_rest s' = bio_rest s
      \<and> (\<forall>b' k'. buf_at d s b' k' \<longrightarrow> k' \<in> c_held (cache_of d s) \<longrightarrow> buf_at d s' b' k')"
    using bread_refines_miss bread_refines_hit by (cases "lookup d (bufs s) k") fastforce+
next
  fix s :: "'a bcache_scheme" and b k
  assume a: "binv d s" "buf_at d s b k" "k \<in> c_held (cache_of d s)"
  show "get_data b s = c_view (cache_of d s) k"
    using cache_at(3) [OF a(1,2) held_buf(2) [OF a]] by (simp add: get_data_def)
qed (rule set_data_refines bwrite_refines brelse_refines bpin_refines bunpin_refines; assumption)+

section \<open>Boot\<close>

definition fresh_buf :: "buf \<Rightarrow> bool" where
  "fresh_buf B \<longleftrightarrow> b_dev B = 0 \<and> b_refcnt B = 0 \<and> \<not> b_valid B \<and> b_lock B = initsleeplock"

lemma fresh_core: "core B = core B' \<Longrightarrow> fresh_buf B = fresh_buf B'"
  unfolding fresh_buf_def by (metis core_fields)

lemma binit_buf_frame:
  "disk (binit_buf b s) = disk s" "dtrace (binit_buf b s) = dtrace s" "cur_pid (binit_buf b s) = cur_pid s"
  "bio_rest (binit_buf b s) = bio_rest s"
  by (simp_all add: binit_buf_def)

lemma binit_buf_ring:
  assumes "ring (\<lambda>c. b_next (bufs s c)) (\<lambda>c. b_prev (bufs s c)) HEAD xs" and "b \<notin> insert HEAD (set xs)"
  shows "ring (\<lambda>c. b_next (bufs (binit_buf b s) c)) (\<lambda>c. b_prev (bufs (binit_buf b s) c)) HEAD (b # xs)"
proof -
  let ?t = "upd_buf b (\<lambda>B. B\<lparr>b_lock := initsleeplock\<rparr>) s"
  have "(\<lambda>c. b_next (bufs ?t c)) = (\<lambda>c. b_next (bufs s c))"
    "(\<lambda>c. b_prev (bufs ?t c)) = (\<lambda>c. b_prev (bufs s c))" by auto
  then have r: "ring (\<lambda>c. b_next (bufs (link_front b ?t) c)) (\<lambda>c. b_prev (bufs (link_front b ?t) c)) HEAD (b # xs)"
    using ring_link_front [of ?t xs b] assms by simp
  have "(\<lambda>c. b_next (bufs (binit_buf b s) c)) = (\<lambda>c. b_next (bufs (link_front b ?t) c))"
    "(\<lambda>c. b_prev (bufs (binit_buf b s) c)) = (\<lambda>c. b_prev (bufs (link_front b ?t) c))"
    by (auto simp: binit_buf_def)
  with r show ?thesis by simp
qed

lemma binit_buf_fresh:
  "fresh_buf (bufs (binit_buf b s) b)" "fresh_buf (bufs s c) \<Longrightarrow> fresh_buf (bufs (binit_buf b s) c)"
proof -
  let ?t = "upd_buf b (\<lambda>B. B\<lparr>b_lock := initsleeplock\<rparr>) s"
  have "b_lock (bufs (link_front b ?t) b) = b_lock (bufs ?t b)"
    using core_link_front [of b ?t b] core_fields(4) by metis
  then have "b_lock (bufs (link_front b ?t) b) = initsleeplock" by simp
  then show "fresh_buf (bufs (binit_buf b s) b)" by (simp add: binit_buf_def fresh_buf_def)
  then show "fresh_buf (bufs s c) \<Longrightarrow> fresh_buf (bufs (binit_buf b s) c)"
    using fresh_core [OF core_link_front [of b ?t c]] by (cases "c = b") (simp_all add: binit_buf_def)
qed

lemma binit_loop:
  fixes s :: "'a bcache_scheme"
  assumes "ring (\<lambda>c. b_next (bufs s c)) (\<lambda>c. b_prev (bufs s c)) HEAD []" and "n \<le> NBUF"
  shows "let s' = fold binit_buf [0..<n] s in
    ring (\<lambda>c. b_next (bufs s' c)) (\<lambda>c. b_prev (bufs s' c)) HEAD (rev [0..<n])
    \<and> (\<forall>b < n. fresh_buf (bufs s' b)) \<and> disk s' = disk s \<and> dtrace s' = dtrace s \<and> cur_pid s' = cur_pid s
    \<and> bio_rest s' = bio_rest s"
  using assms(2)
proof (induction n)
  case (Suc n)
  define t where "t = fold binit_buf [0..<n] s"
  have IH: "ring (\<lambda>c. b_next (bufs t c)) (\<lambda>c. b_prev (bufs t c)) HEAD (rev [0..<n])"
    "\<forall>b < n. fresh_buf (bufs t b)" "disk t = disk s" "dtrace t = dtrace s" "cur_pid t = cur_pid s"
    "bio_rest t = bio_rest s"
    using Suc by (simp_all add: t_def Let_def)
  have e: "fold binit_buf [0..<Suc n] s = binit_buf n t" by (simp add: t_def)
  have "n \<notin> insert HEAD (set (rev [0..<n]))" using Suc.prems by simp
  note r = binit_buf_ring [OF IH(1) this]
  have "\<forall>b < Suc n. fresh_buf (bufs (binit_buf n t) b)"
    using IH(2) binit_buf_fresh less_Suc_eq by metis
  with r show ?case unfolding e Let_def using IH by (simp add: binit_buf_frame)
qed (simp add: assms(1))

lemma binit_ok:
  assumes "d \<noteq> 0"
  shows "binv d (binit s)" and "bio_rest (binit s) = bio_rest s"
    and "cache_of d (binit s) = \<lparr>c_view = disk s, c_disk = disk s, c_ref = (\<lambda>_. 0), c_held = {},
      c_room = NBUF, c_trace = dtrace s\<rparr>"
proof -
  define s0 where "s0 = upd_buf HEAD (\<lambda>B. B\<lparr>b_prev := HEAD, b_next := HEAD\<rparr>) (bstat (\<lambda>_. zero_bio_stats) s)"
  define s' where "s' = fold binit_buf [0..<NBUF] s0"
  have "ring (\<lambda>c. b_next (bufs s0 c)) (\<lambda>c. b_prev (bufs s0 c)) HEAD []" by (simp add: ring_def s0_def)
  from binit_loop [OF this, of NBUF] have l:
    "ring (\<lambda>c. b_next (bufs s' c)) (\<lambda>c. b_prev (bufs s' c)) HEAD (rev [0..<NBUF])"
    "\<forall>b < NBUF. fresh_buf (bufs s' b)" "disk s' = disk s" "dtrace s' = dtrace s" "bio_rest s' = bio_rest s"
    unfolding s'_def [symmetric] Let_def by (simp_all add: s0_def)
  have b: "binit s = s'" by (simp add: binit_def s'_def s0_def)
  have "lru_ok (bufs s')" unfolding lru_ok_def using l(1) by (intro exI [of _ "rev [0..<NBUF]"]) auto
  moreover have k: "\<not> key_is d k (bufs s' b)" if "b < NBUF" for b k
    using l(2) that assms by (auto simp: key_is_def fresh_buf_def)
  ultimately show "binv d (binit s)"
    using l(2) assms by (auto simp: b binv_def uniq_def buf_ok_def fresh_buf_def initsleeplock_def)
  show "bio_rest (binit s) = bio_rest s" by (simp add: b l(5))
  have "lookup d (bufs s') k = None" for k using k by (simp add: lookup_None_iff)
  moreover have "{c. c < NBUF \<and> b_refcnt (bufs s' c) = 0} = {..<NBUF}"
    using l(2) by (auto simp: fresh_buf_def)
  ultimately show "cache_of d (binit s) = \<lparr>c_view = disk s, c_disk = disk s, c_ref = (\<lambda>_. 0), c_held = {},
      c_room = NBUF, c_trace = dtrace s\<rparr>"
    by (simp add: b cache_of_def entry_def room_def l(3,4))
qed

section \<open>Properties\<close>

text \<open>A run of the interface comment of \<^verbatim>\<open>bio.c\<close>: \<^verbatim>\<open>bread\<close>, change the data, \<^verbatim>\<open>bwrite\<close>, \<^verbatim>\<open>brelse\<close>.\<close>

fun cache_run :: "u32 \<Rightarrow> (u32 \<times> (u8 list \<Rightarrow> u8 list)) list \<Rightarrow> 'a bcache_scheme \<Rightarrow> 'a bcache_scheme res" where
  "cache_run d [] s = Inr s"
| "cache_run d ((k, f) # us) s =
     rbind (rbind (bread d k s) (\<lambda>(b, s1). rbind (bwrite b (set_data b (f (get_data b s1)) s1)) (brelse b)))
       (cache_run d us)"

definition disk_run :: "('k \<times> ('d \<Rightarrow> 'd)) list \<Rightarrow> ('k \<Rightarrow> 'd) \<Rightarrow> 'k \<Rightarrow> 'd" where
  "disk_run us D = fold (\<lambda>(k, f) D. D(k := f (D k))) us D"

definition idle_cache :: "('k, 'd) cache \<Rightarrow> bool" where
  "idle_cache c \<longleftrightarrow> c_view c = c_disk c \<and> c_ref c = (\<lambda>_. 0) \<and> c_held c = {} \<and> c_room c = NBUF"

lemma idle_update: "idle_cache c \<Longrightarrow> idle_cache (spec_update k v c) \<and> can_read k c"
  by (simp add: idle_cache_def spec_update_def can_read_def)

lemma cache_run_spec:
  "binv d s \<Longrightarrow> idle_cache (cache_of d s) \<Longrightarrow>
   \<exists>s'. cache_run d us s = Inr s' \<and> binv d s' \<and> idle_cache (cache_of d s') \<and> disk s' = disk_run us (disk s)"
proof (induction us arbitrary: s)
  case (Cons u us)
  obtain k f where u: "u = (k, f)" by fastforce
  obtain s1 where s1: "rbind (bread d k s) (\<lambda>(b, s1). rbind (bwrite b (set_data b (f (get_data b s1)) s1)) (brelse b)) = Inr s1"
    "binv d s1" "cache_of d s1 = spec_update k (f (c_view (cache_of d s) k)) (cache_of d s)"
    using bc.update_block [OF Cons.prems(1)] idle_update [OF Cons.prems(2)] by blast
  have "c_disk (cache_of d s1) = (c_disk (cache_of d s))(k := f (c_view (cache_of d s) k))"
    by (simp add: s1(3) spec_update_def)
  then have "disk s1 = (disk s)(k := f (disk s k))"
    using Cons.prems(2) by (simp add: idle_cache_def)
  then show ?case
    using Cons.IH [OF s1(2)] s1 idle_update [OF Cons.prems(2)]
    by (simp add: u disk_run_def del: fun_upd_apply)
qed (simp add: disk_run_def)

text \<open>C3. The cache is transparent: after \<^verbatim>\<open>binit\<close>, any sequence of read-modify-write accesses through
  its thirty buffers, with whatever hits, misses and LRU evictions it causes, never panics or
  blocks, leaves the disk exactly as if each block had been changed in place, leaves no
  buffer referenced, and a later read sees what the disk has.\<close>

theorem cache_transparent:
  assumes "d \<noteq> 0"
  shows "\<exists>s'. cache_run d us (binit s) = Inr s' \<and> binv d s' \<and> disk s' = disk_run us (disk s)
    \<and> c_ref (cache_of d s') = (\<lambda>_. 0) \<and> c_room (cache_of d s') = NBUF
    \<and> (\<forall>k. \<exists>b s''. bread d k s' = Inr (b, s'') \<and> get_data b s'' = disk_run us (disk s) k)"
proof -
  have "idle_cache (cache_of d (binit s))" by (simp add: binit_ok(3) [OF assms] idle_cache_def)
  moreover have "disk (binit s) = disk s"
    using arg_cong [OF binit_ok(3) [OF assms], of c_disk] by simp
  ultimately obtain s' where s': "cache_run d us (binit s) = Inr s'" "binv d s'" "idle_cache (cache_of d s')"
    "disk s' = disk_run us (disk s)"
    using cache_run_spec [OF binit_ok(1) [OF assms]] by force
  have "\<exists>b s''. bread d k s' = Inr (b, s'') \<and> get_data b s'' = disk_run us (disk s) k" for k
  proof -
    obtain b s'' where b: "bread d k s' = Inr (b, s'')" "binv d s''" "buf_at d s'' b k"
      "cache_of d s'' = spec_bread k (cache_of d s')"
      using bc.read [OF s'(2)] idle_update [OF s'(3)] by blast
    then have "get_data b s'' = c_view (cache_of d s') k"
      using bc.get [OF b(2,3)] by (simp add: spec_bread_def)
    with b(1) s'(3,4) show ?thesis by (auto simp: idle_cache_def)
  qed
  with s' show ?thesis by (auto simp: idle_cache_def)
qed

definition demo_bcache :: bcache where
  "demo_bcache = \<lparr>mem = (\<lambda>_. 0), string_stats_of = zero_string_stats, freelist = 0, free_pages = 0,
     total_allocated = 0, total_freed = 0, current_allocated = 0,
     bufs = (\<lambda>_. \<lparr>b_valid = False, b_disk = False, b_dev = 0, b_blockno = 0, b_lock = initsleeplock,
       b_refcnt = 0, b_prev = 0, b_next = 0, b_data = []\<rparr>),
     bio_stats_of = zero_bio_stats, disk = (\<lambda>_. replicate 1024 0), dtrace = [], cur_pid = 1\<rparr>"

theorem cache_transparent_witness:
  "\<exists>s'. cache_run 1 [(7, map (\<lambda>x. x + 1)), (7, map (\<lambda>x. x + 2))] (binit demo_bcache) = Inr s'
    \<and> disk s' 7 = replicate 1024 3
    \<and> (\<exists>b s''. bread 1 7 s' = Inr (b, s'') \<and> get_data b s'' = replicate 1024 3)"
proof -
  have r: "disk_run [(7, map (\<lambda>x. x + 1)), (7, map (\<lambda>x. x + 2))] (disk demo_bcache) 7 = replicate 1024 3"
    by (simp add: disk_run_def demo_bcache_def)
  have "(1 :: u32) \<noteq> 0" by simp
  from cache_transparent [OF this, of "[(7, map (\<lambda>x. x + 1)), (7, map (\<lambda>x. x + 2))]" demo_bcache]
  obtain s' where s': "cache_run 1 [(7, map (\<lambda>x. x + 1)), (7, map (\<lambda>x. x + 2))] (binit demo_bcache) = Inr s'"
    "disk s' = disk_run [(7, map (\<lambda>x. x + 1)), (7, map (\<lambda>x. x + 2))] (disk demo_bcache)"
    "\<forall>k. \<exists>b s''. bread 1 k s' = Inr (b, s'')
       \<and> get_data b s'' = disk_run [(7, map (\<lambda>x. x + 1)), (7, map (\<lambda>x. x + 2))] (disk demo_bcache) k"
    by blast
  from s'(1,2) spec [OF s'(3), of 7] show ?thesis unfolding r by (intro exI [of _ s']) (simp add: r)
qed

end
