(* ===== verification/Log.thy ===== *)
theory Log
  imports Bio
begin

text \<open>
  The write-ahead log, \<^verbatim>\<open>src/kernel/log.c\<close>: transactions, commit and recovery over the buffer
  cache. \<^verbatim>\<open>begin_op\<close> that would sleep is the outcome \<open>Blocked\<close>; \<^verbatim>\<open>wakeup\<close> has no effect in a single
  thread of execution. A header that claims more than \<^verbatim>\<open>LOGBLOCKS\<close> entries makes \<^verbatim>\<open>read_head\<close> run
  past its array, the outcome \<open>Undef\<close>. The main results are that a crash at any point of
  \<^verbatim>\<open>commit\<close>, and again at any point of recovery, leaves all of the transaction or none of it.
  Single-block writes are atomic, and the device completes them in order.
\<close>

section \<open>State and operations\<close>

abbreviation LOGBLOCKS :: nat where "LOGBLOCKS \<equiv> 30"
abbreviation MAXOPBLOCKS :: int where "MAXOPBLOCKS \<equiv> 10"
abbreviation BSIZE :: nat where "BSIZE \<equiv> 1024"

record log_state = bcache +
  log_start :: u32
  outstanding :: int
  committing :: bool
  log_dev :: u32
  lh_n :: int
  lh_block :: "u32 list"

text \<open>\<^verbatim>\<open>struct logheader\<close> inside a block.\<close>

definition hdr_n :: "u8 list \<Rightarrow> int" where
  "hdr_n bs = sint (get_field 4 0 bs :: u32)"

definition hdr_block :: "u8 list \<Rightarrow> nat \<Rightarrow> u32" where
  "hdr_block bs i = get_field 4 (4 + 4 * i) bs"

definition hdr_write :: "int \<Rightarrow> u32 list \<Rightarrow> u8 list \<Rightarrow> u8 list" where
  "hdr_write n bl bs =
     fold (\<lambda>i bs. put_field 4 (4 + 4 * i) (bl ! i) bs) [0..<nat n] (put_field 4 0 (word_of_int n :: u32) bs)"

definition install_one :: "bool \<Rightarrow> nat \<Rightarrow> 'a log_state_scheme \<Rightarrow> 'a log_state_scheme res" where
  "install_one recovering tail s =
     rbind (bread (log_dev s) (log_start s + of_nat tail + 1) s) (\<lambda>(lbuf, s1).
     rbind (bread (log_dev s) (lh_block s ! tail) s1) (\<lambda>(dbuf, s2).
     rbind (bwrite dbuf (set_data dbuf (get_data lbuf s2) s2)) (\<lambda>s3.
     rbind (if \<not> recovering then bunpin dbuf s3 else Inr s3) (\<lambda>s4.
     rbind (brelse lbuf s4) (brelse dbuf)))))"

definition install_trans :: "bool \<Rightarrow> 'a log_state_scheme \<Rightarrow> 'a log_state_scheme res" where
  "install_trans recovering s = rfold (install_one recovering) [0..<nat (lh_n s)] s"

definition read_head :: "'a log_state_scheme \<Rightarrow> 'a log_state_scheme res" where
  "read_head s =
     rbind (bread (log_dev s) (log_start s) s) (\<lambda>(b, s1).
     let lh = get_data b s1; n = hdr_n lh
     in if int LOGBLOCKS < n then Inl Undef
        else brelse b (s1\<lparr>lh_n := n,
               lh_block := map (\<lambda>i. if int i < n then hdr_block lh i else lh_block s1 ! i) [0..<LOGBLOCKS]\<rparr>))"

definition write_head :: "'a log_state_scheme \<Rightarrow> 'a log_state_scheme res" where
  "write_head s =
     rbind (bread (log_dev s) (log_start s) s) (\<lambda>(b, s1).
     rbind (bwrite b (set_data b (hdr_write (lh_n s) (lh_block s) (get_data b s1)) s1)) (brelse b))"

definition recover_from_log :: "'a log_state_scheme \<Rightarrow> 'a log_state_scheme res" where
  "recover_from_log s =
     rbind (read_head s) (\<lambda>s1. rbind (install_trans True s1) (\<lambda>s2. write_head (s2\<lparr>lh_n := 0\<rparr>)))"

definition initlog :: "u32 \<Rightarrow> u32 \<Rightarrow> 'a log_state_scheme \<Rightarrow> 'a log_state_scheme res" where
  "initlog dev logstart s =
     (if BSIZE \<le> 4 + 4 * LOGBLOCKS then Inl (Panic ''initlog: too big logheader'')
      else recover_from_log (s\<lparr>log_start := logstart, log_dev := dev\<rparr>))"

definition begin_op :: "'a log_state_scheme \<Rightarrow> 'a log_state_scheme res" where
  "begin_op s =
     (if committing s then Inl Blocked
      else if lh_n s + (outstanding s + 1) * MAXOPBLOCKS > int LOGBLOCKS then Inl Blocked
      else Inr (s\<lparr>outstanding := outstanding s + 1\<rparr>))"

definition write_log_one :: "nat \<Rightarrow> 'a log_state_scheme \<Rightarrow> 'a log_state_scheme res" where
  "write_log_one tail s =
     rbind (bread (log_dev s) (log_start s + of_nat tail + 1) s) (\<lambda>(to, s1).
     rbind (bread (log_dev s) (lh_block s ! tail) s1) (\<lambda>(from, s2).
     rbind (bwrite to (set_data to (get_data from s2) s2)) (\<lambda>s3.
     rbind (brelse from s3) (brelse to))))"

definition write_log :: "'a log_state_scheme \<Rightarrow> 'a log_state_scheme res" where
  "write_log s = rfold write_log_one [0..<nat (lh_n s)] s"

definition commit :: "'a log_state_scheme \<Rightarrow> 'a log_state_scheme res" where
  "commit s =
     (if 0 < lh_n s
      then rbind (write_log s) (\<lambda>s1. rbind (write_head s1) (\<lambda>s2.
           rbind (install_trans False s2) (\<lambda>s3. write_head (s3\<lparr>lh_n := 0\<rparr>))))
      else Inr s)"

definition end_op :: "'a log_state_scheme \<Rightarrow> 'a log_state_scheme res" where
  "end_op s =
     (let s1 = s\<lparr>outstanding := outstanding s - 1\<rparr>
      in if committing s1 then Inl (Panic ''log.committing'')
         else if outstanding s1 = 0
         then rbind (commit (s1\<lparr>committing := True\<rparr>)) (\<lambda>s2. Inr (s2\<lparr>committing := False\<rparr>))
         else Inr s1)"

definition log_write :: "nat \<Rightarrow> 'a log_state_scheme \<Rightarrow> 'a log_state_scheme res" where
  "log_write b s =
     (if lh_n s \<ge> int LOGBLOCKS then Inl (Panic ''too big a transaction'')
      else if outstanding s < 1 then Inl (Panic ''log_write outside of trans'')
      else
        let n = nat (lh_n s); k = b_blockno (bufs s b);
            i = (case first_index (\<lambda>x. x = k) (take n (lh_block s)) of Some i \<Rightarrow> i | None \<Rightarrow> n);
            s1 = s\<lparr>lh_block := (lh_block s)[i := k]\<rparr>
        in if i = n then rbind (bpin b s1) (\<lambda>s2. Inr (s2\<lparr>lh_n := lh_n s2 + 1\<rparr>)) else Inr s1)"

section \<open>Header encoding\<close>

lemma length_hdr_fold:
  "4 + 4 * m \<le> length bs \<Longrightarrow>
   length (fold (\<lambda>i bs. put_field 4 (4 + 4 * i) (bl ! i :: u32) bs) [0..<m] bs) = length bs"
  by (induction m) auto

lemma hdr_fold_block:
  "4 + 4 * m \<le> length bs \<Longrightarrow> j < m \<Longrightarrow>
   get_field 4 (4 + 4 * j) (fold (\<lambda>i bs. put_field 4 (4 + 4 * i) (bl ! i :: u32) bs) [0..<m] bs) = bl ! j"
proof (induction m)
  case (Suc m)
  let ?f = "fold (\<lambda>i bs. put_field 4 (4 + 4 * i) (bl ! i :: u32) bs) [0..<m] bs"
  have l: "length ?f = length bs" using Suc.prems by (intro length_hdr_fold) simp
  show ?case
  proof (cases "j = m")
    case True
    then show ?thesis using Suc.prems l get_put_field_same [of "4 + 4 * m" 4 ?f "bl ! m"] by simp
  next
    case False
    then show ?thesis
      using Suc l by (simp add: get_put_field_other)
  qed
qed simp

lemma hdr_fold_n:
  "4 + 4 * m \<le> length bs \<Longrightarrow>
   get_field 4 0 (fold (\<lambda>i bs. put_field 4 (4 + 4 * i) (bl ! i :: u32) bs) [0..<m] bs) = (get_field 4 0 bs :: u32)"
proof (induction m)
  case (Suc m)
  let ?f = "fold (\<lambda>i bs. put_field 4 (4 + 4 * i) (bl ! i :: u32) bs) [0..<m] bs"
  have "length ?f = length bs" using Suc.prems by (intro length_hdr_fold) simp
  then show ?case using Suc by (simp add: get_put_field_other)
qed simp

lemma hdr_write_read:
  assumes "length bs = BSIZE" and "n \<le> LOGBLOCKS"
  shows "hdr_n (hdr_write (int n) bl bs) = int n"
    and "i < n \<Longrightarrow> hdr_block (hdr_write (int n) bl bs) i = bl ! i"
    and "length (hdr_write (int n) bl bs) = BSIZE"
proof -
  let ?w = "word_of_int (int n) :: u32"
  let ?b = "put_field 4 0 ?w bs"
  have l: "length ?b = BSIZE" using assms(1) by simp
  have "get_field 4 0 (hdr_write (int n) bl bs) = ?w"
    using assms hdr_fold_n [of n ?b bl] l by (simp add: hdr_write_def)
  moreover have "sint ?w = int n"
    using assms(2) sint_small [of ?w] by (simp add: unat_of_nat take_bit_nat_eq_self)
  ultimately show "hdr_n (hdr_write (int n) bl bs) = int n" by (simp add: hdr_n_def)
  show "i < n \<Longrightarrow> hdr_block (hdr_write (int n) bl bs) i = bl ! i"
    using assms hdr_fold_block [of n ?b i bl] l by (simp add: hdr_block_def hdr_write_def)
  show "length (hdr_write (int n) bl bs) = BSIZE"
    using assms length_hdr_fold [of n ?b bl] l by (simp add: hdr_write_def)
qed

section \<open>Sequences of block writes\<close>

definition apply_writes :: "('k \<times> 'd) list \<Rightarrow> ('k \<Rightarrow> 'd) \<Rightarrow> 'k \<Rightarrow> 'd" where
  "apply_writes ws D = fold (\<lambda>(k, v) D. D(k := v)) ws D"

definition spec_updates :: "('k \<times> 'd) list \<Rightarrow> ('k, 'd) cache \<Rightarrow> ('k, 'd) cache" where
  "spec_updates ws c = fold (\<lambda>(k, v). spec_update k v) ws c"

lemma apply_writes_simps [simp]:
  "apply_writes [] D = D" "apply_writes ((k, v) # ws) D = apply_writes ws (D(k := v))"
  "apply_writes (us @ ws) D = apply_writes ws (apply_writes us D)"
  by (simp_all add: apply_writes_def)

lemma spec_updates_simps [simp]:
  "spec_updates [] c = c" "spec_updates ((k, v) # ws) c = spec_updates ws (spec_update k v c)"
  by (simp_all add: spec_updates_def)

lemma spec_updates_fields [simp]:
  "c_view (spec_updates ws c) = apply_writes ws (c_view c)"
  "c_disk (spec_updates ws c) = apply_writes ws (c_disk c)"
  "c_trace (spec_updates ws c) = c_trace c @ ws"
  "c_ref (spec_updates ws c) = c_ref c" "c_held (spec_updates ws c) = c_held c"
  "c_room (spec_updates ws c) = c_room c"
  by (induction ws arbitrary: c) (auto simp: spec_update_def)

text \<open>When the value written depends only on the block number, order and repetition do not matter.\<close>

lemma apply_writes_fun:
  "(\<And>k v. (k, v) \<in> set ws \<Longrightarrow> v = h k) \<Longrightarrow>
   apply_writes ws D k = (if k \<in> fst ` set ws then h k else D k)"
proof (induction ws arbitrary: D)
  case (Cons w ws)
  obtain j v where w: "w = (j, v)" by fastforce
  have v: "v = h j" using Cons.prems [of j v] by (simp add: w)
  have "apply_writes ws (D(j := v)) k = (if k \<in> fst ` set ws then h k else (D(j := v)) k)"
    using Cons.prems by (intro Cons.IH) (simp add: w)
  then show ?case unfolding w apply_writes_simps by (auto simp: v)
qed simp

lemma apply_writes_other: "k \<notin> fst ` set ws \<Longrightarrow> apply_writes ws D k = D k"
  by (induction ws arbitrary: D) auto

text \<open>Repeating a whole sequence after a part of it gives the same as the whole.\<close>

lemma apply_writes_cong:
  "(\<And>k. k \<notin> fst ` set ws \<Longrightarrow> D k = E k) \<Longrightarrow> apply_writes ws D = apply_writes ws E"
proof (induction ws arbitrary: D E)
  case (Cons w ws)
  obtain j v where w: "w = (j, v)" by fastforce
  have "apply_writes ws (D(j := v)) = apply_writes ws (E(j := v))"
    using Cons.prems by (intro Cons.IH) (auto simp: w)
  then show ?case by (simp add: w)
qed auto

lemma apply_writes_prefix: "apply_writes ws (apply_writes (take j ws) D) = apply_writes ws D"
proof (rule apply_writes_cong)
  fix k assume "k \<notin> fst ` set ws"
  then have "k \<notin> fst ` set (take j ws)" by (meson image_mono set_take_subset subsetD)
  then show "apply_writes (take j ws) D k = D k" by (rule apply_writes_other)
qed

section \<open>The log area\<close>

definition log_blk :: "u32 \<Rightarrow> nat \<Rightarrow> u32" where
  "log_blk L i = L + of_nat i + 1"

definition log_area :: "u32 \<Rightarrow> u32 \<Rightarrow> bool" where
  "log_area L k \<longleftrightarrow> unat (k - L) \<le> LOGBLOCKS"

lemma log_blk_diff: "i < LOGBLOCKS \<Longrightarrow> unat (log_blk L i - L) = Suc i"
  by (simp add: log_blk_def unat_word_ariths unat_of_nat take_bit_nat_eq_self)

lemma log_blk_area: "i < LOGBLOCKS \<Longrightarrow> log_area L (log_blk L i)"
  and log_start_area: "log_area L L"
  by (simp_all add: log_area_def log_blk_diff)

lemma log_blk_neq: "i < LOGBLOCKS \<Longrightarrow> log_blk L i \<noteq> L"
  using log_blk_diff [of i L] by auto

lemma log_blk_inj: "i < LOGBLOCKS \<Longrightarrow> j < LOGBLOCKS \<Longrightarrow> log_blk L i = log_blk L j \<Longrightarrow> i = j"
  by (metis log_blk_diff nat.inject)

text \<open>What recovery makes of a disk: the logged blocks are copied home.\<close>

definition home_writes :: "u32 \<Rightarrow> (u32 \<Rightarrow> u8 list) \<Rightarrow> (u32 \<times> u8 list) list" where
  "home_writes L D = map (\<lambda>i. (hdr_block (D L) i, D (log_blk L i))) [0..<nat (hdr_n (D L))]"

definition log_valid :: "u32 \<Rightarrow> (u32 \<Rightarrow> u8 list) \<Rightarrow> bool" where
  "log_valid L D \<longleftrightarrow> length (D L) = BSIZE \<and> hdr_n (D L) \<le> int LOGBLOCKS
     \<and> (\<forall>i < nat (hdr_n (D L)). \<not> log_area L (hdr_block (D L) i))"

section \<open>Effect of the log operations on the cache\<close>

lemma log_fields_rest:
  "bio_rest s' = bio_rest s \<Longrightarrow>
     log_start s' = log_start s \<and> outstanding s' = outstanding s \<and> committing s' = committing s
     \<and> log_dev s' = log_dev s \<and> lh_n s' = lh_n s \<and> lh_block s' = lh_block s"
  by (cases s rule: log_state.cases_scheme; cases s' rule: log_state.cases_scheme) (simp add: bio_rest_def)

lemma log_upd_binv [simp]:
  "binv d (s\<lparr>lh_n := x\<rparr>) = binv d s" "binv d (s\<lparr>lh_block := y\<rparr>) = binv d s"
  "binv d (s\<lparr>outstanding := z\<rparr>) = binv d s" "binv d (s\<lparr>committing := w\<rparr>) = binv d s"
  "binv d (s\<lparr>log_start := u\<rparr>) = binv d s" "binv d (s\<lparr>log_dev := v\<rparr>) = binv d s"
  by (simp_all add: binv_def)

lemma log_upd_cache [simp]:
  "cache_of d (s\<lparr>lh_n := x\<rparr>) = cache_of d s" "cache_of d (s\<lparr>lh_block := y\<rparr>) = cache_of d s"
  "cache_of d (s\<lparr>outstanding := z\<rparr>) = cache_of d s" "cache_of d (s\<lparr>committing := w\<rparr>) = cache_of d s"
  "cache_of d (s\<lparr>log_start := u\<rparr>) = cache_of d s" "cache_of d (s\<lparr>log_dev := v\<rparr>) = cache_of d s"
  by (simp_all add: cache_of_def cong: option.case_cong if_cong)

lemma log_upd_at [simp]:
  "buf_at d (s\<lparr>lh_n := x\<rparr>) = buf_at d s" "buf_at d (s\<lparr>lh_block := y\<rparr>) = buf_at d s"
  by (simp_all add: buf_at_def fun_eq_iff)

text \<open>Nothing is held, a buffer is free, no count is about to overflow.\<close>

definition ready :: "('k, 'd) cache \<Rightarrow> bool" where
  "ready c \<longleftrightarrow> c_held c = {} \<and> 0 < c_room c \<and> (\<forall>k. c_ref c k + 1 < 2 ^ 32)"

lemma ready_can_read:
  "ready c \<Longrightarrow> can_read k c"
  "ready c \<Longrightarrow> k \<noteq> j \<Longrightarrow> 0 < c_ref c k \<or> 1 < c_room c \<Longrightarrow> can_read k (spec_bread j c)"
  by (auto simp: ready_def can_read_def spec_bread_def)

lemma ready_update [simp]: "ready (spec_update k v c) = ready c"
  by (simp add: ready_def spec_update_def)

lemma ready_unref: "ready c \<Longrightarrow> ready (spec_unref k c)"
proof -
  assume r: "ready c"
  then have "c_ref c j + 1 < 2 ^ 32" for j by (simp add: ready_def)
  then have "(c_ref (spec_unref k c)) j + 1 < 2 ^ 32" for j
    by (auto simp: spec_unref_def less_imp_diff_less)
  with r show ?thesis by (simp add: ready_def spec_unref_def)
qed

lemma write_log_one_spec:
  assumes "binv d s" and "log_dev s = d" and "ready (cache_of d s)"
    and "lh_block s ! i \<noteq> log_blk (log_start s) i" and "0 < c_ref (cache_of d s) (lh_block s ! i)"
  shows "\<exists>s'. write_log_one i s = Inr s' \<and> binv d s' \<and> bio_rest s' = bio_rest s
    \<and> cache_of d s' = spec_update (log_blk (log_start s) i) (c_view (cache_of d s) (lh_block s ! i)) (cache_of d s)"
  using bc.copy_second_to_first [OF assms(1) assms(4) [symmetric] ready_can_read(1) [OF assms(3)]
      ready_can_read(2) [OF assms(3) assms(4)]] assms(2,5)
  by (simp add: write_log_one_def log_blk_def) blast

lemma install_one_spec:
  assumes "binv d s" and "log_dev s = d" and "ready (cache_of d s)"
    and "lh_block s ! i \<noteq> log_blk (log_start s) i"
    and "c_view (cache_of d s) (log_blk (log_start s) i) = c_disk (cache_of d s) (log_blk (log_start s) i)"
    and "if recovering then 1 < c_room (cache_of d s) else 0 < c_ref (cache_of d s) (lh_block s ! i)"
  shows "\<exists>s'. install_one recovering i s = Inr s' \<and> binv d s' \<and> bio_rest s' = bio_rest s
    \<and> cache_of d s' = (if recovering then id else spec_unref (lh_block s ! i))
        (spec_update (lh_block s ! i) (c_view (cache_of d s) (log_blk (log_start s) i)) (cache_of d s))"
proof -
  have "0 < c_ref (cache_of d s) (lh_block s ! i) \<or> 1 < c_room (cache_of d s)"
    using assms(6) by (auto split: if_splits)
  note r = ready_can_read(2) [OF assms(3) assms(4) this]
  have u: "\<not> recovering \<Longrightarrow> 0 < c_ref (cache_of d s) (lh_block s ! i)" using assms(6) by simp
  show ?thesis
    using bc.copy_first_to_second [OF assms(1) assms(4) ready_can_read(1) [OF assms(3)] r assms(5), of "\<not> recovering"] u
      assms(2) by (cases recovering) (simp_all add: install_one_def log_blk_def)
qed

lemma write_head_spec:
  assumes "binv d s" and "log_dev s = d" and "ready (cache_of d s)"
  shows "\<exists>s'. write_head s = Inr s' \<and> binv d s' \<and> bio_rest s' = bio_rest s
    \<and> cache_of d s' = spec_update (log_start s)
        (hdr_write (lh_n s) (lh_block s) (c_view (cache_of d s) (log_start s))) (cache_of d s)"
  using bc.update_block [OF assms(1) ready_can_read(1) [OF assms(3)],
      of "log_start s" "hdr_write (lh_n s) (lh_block s)"] assms(2)
  by (auto simp: write_head_def)

lemma write_log_loop:
  assumes "binv d s" and "log_dev s = d" and "ready (cache_of d s)"
    and "\<And>i. i \<in> set is \<Longrightarrow> i < LOGBLOCKS \<and> \<not> log_area (log_start s) (lh_block s ! i)
          \<and> 0 < c_ref (cache_of d s) (lh_block s ! i)"
  shows "\<exists>s'. rfold write_log_one is s = Inr s' \<and> binv d s' \<and> bio_rest s' = bio_rest s
    \<and> cache_of d s' = spec_updates
        (map (\<lambda>i. (log_blk (log_start s) i, c_view (cache_of d s) (lh_block s ! i))) is) (cache_of d s)"
  using assms
proof (induction "is" arbitrary: s)
  case (Cons i "is")
  let ?L = "log_start s"
  have i: "i < LOGBLOCKS" "\<not> log_area ?L (lh_block s ! i)" "0 < c_ref (cache_of d s) (lh_block s ! i)"
    using Cons.prems(4) [of i] by simp_all
  have ne: "lh_block s ! j \<noteq> log_blk ?L i" if "\<not> log_area ?L (lh_block s ! j)" for j
    using that log_blk_area [OF i(1)] by metis
  obtain s1 where s1: "write_log_one i s = Inr s1" "binv d s1" "bio_rest s1 = bio_rest s"
    "cache_of d s1 = spec_update (log_blk ?L i) (c_view (cache_of d s) (lh_block s ! i)) (cache_of d s)"
    using write_log_one_spec [OF Cons.prems(1-3) ne [OF i(2)] i(3)] by blast
  note f = log_fields_rest [OF s1(3)]
  have v: "c_view (cache_of d s1) (lh_block s ! j) = c_view (cache_of d s) (lh_block s ! j)" if "j \<in> set is" for j
    using Cons.prems(4) [of j] that ne [of j] by (simp add: s1(4) spec_update_def)
  obtain s' where s': "rfold write_log_one is s1 = Inr s'" "binv d s'" "bio_rest s' = bio_rest s1"
    "cache_of d s' = spec_updates
        (map (\<lambda>i. (log_blk ?L i, c_view (cache_of d s1) (lh_block s ! i))) is) (cache_of d s1)"
    using Cons.IH [of s1] s1 f Cons.prems by (auto simp: spec_update_def ready_def)
  then show ?case using s1 v by (simp cong: map_cong)
qed simp

definition spec_installs :: "bool \<Rightarrow> ('k \<times> 'd) list \<Rightarrow> ('k, 'd) cache \<Rightarrow> ('k, 'd) cache" where
  "spec_installs u ws c = fold (\<lambda>(k, v) c. (if u then spec_unref k else id) (spec_update k v c)) ws c"

lemma spec_installs_simps [simp]:
  "spec_installs u [] c = c"
  "spec_installs u ((k, v) # ws) c = spec_installs u ws ((if u then spec_unref k else id) (spec_update k v c))"
  by (simp_all add: spec_installs_def)

lemma spec_installs_fields [simp]:
  "c_view (spec_installs u ws c) = apply_writes ws (c_view c)"
  "c_disk (spec_installs u ws c) = apply_writes ws (c_disk c)"
  "c_trace (spec_installs u ws c) = c_trace c @ ws"
  "c_held (spec_installs u ws c) = c_held c"
  by (cases u; induction ws arbitrary: c; auto simp: spec_update_def spec_unref_def)+

lemma spec_installs_ref:
  "c_ref (spec_installs False ws c) = c_ref c"
  "distinct (map fst ws) \<Longrightarrow> c_ref (spec_installs True ws c) k =
     (if k \<in> fst ` set ws then c_ref c k - 1 else c_ref c k)"
  by (induction ws arbitrary: c) (force simp: spec_update_def spec_unref_def)+

lemma ready_installs: "ready c \<Longrightarrow> ready (spec_installs u ws c)"
  by (induction ws arbitrary: c) (auto simp: ready_unref)

lemma install_loop:
  assumes "binv d s" and "log_dev s = d" and "ready (cache_of d s)"
    and "\<And>i. i \<in> set is \<Longrightarrow> i < LOGBLOCKS \<and> \<not> log_area (log_start s) (lh_block s ! i)
          \<and> c_view (cache_of d s) (log_blk (log_start s) i) = c_disk (cache_of d s) (log_blk (log_start s) i)
          \<and> (if recovering then 1 < c_room (cache_of d s) else 0 < c_ref (cache_of d s) (lh_block s ! i))"
    and "recovering \<or> distinct (map ((!) (lh_block s)) is)"
  shows "\<exists>s'. rfold (install_one recovering) is s = Inr s' \<and> binv d s' \<and> bio_rest s' = bio_rest s
    \<and> cache_of d s' = spec_installs (\<not> recovering)
        (map (\<lambda>i. (lh_block s ! i, c_view (cache_of d s) (log_blk (log_start s) i))) is) (cache_of d s)"
  using assms
proof (induction "is" arbitrary: s)
  case (Cons i "is")
  let ?L = "log_start s" and ?b = "lh_block s"
  have i: "i < LOGBLOCKS" "\<not> log_area ?L (?b ! i)"
    "c_view (cache_of d s) (log_blk ?L i) = c_disk (cache_of d s) (log_blk ?L i)"
    "if recovering then 1 < c_room (cache_of d s) else 0 < c_ref (cache_of d s) (?b ! i)"
    using Cons.prems(4) [of i] by auto
  have ne: "?b ! i \<noteq> log_blk ?L j" if "j < LOGBLOCKS" for j
    using i(2) log_blk_area [OF that] by metis
  obtain s1 where s1: "install_one recovering i s = Inr s1" "binv d s1" "bio_rest s1 = bio_rest s"
    "cache_of d s1 = (if recovering then id else spec_unref (?b ! i))
        (spec_update (?b ! i) (c_view (cache_of d s) (log_blk ?L i)) (cache_of d s))"
    using install_one_spec [OF Cons.prems(1-3) ne [OF i(1)] i(3,4)] by blast
  note f = log_fields_rest [OF s1(3)]
  have c1: "c_view (cache_of d s1) (log_blk ?L j) = c_view (cache_of d s) (log_blk ?L j)"
    "c_disk (cache_of d s1) (log_blk ?L j) = c_disk (cache_of d s) (log_blk ?L j)" if "j < LOGBLOCKS" for j
    using ne [OF that] unfolding s1(4) by (auto simp: spec_update_def spec_unref_def)
  have r1: "if recovering then 1 < c_room (cache_of d s1) else 0 < c_ref (cache_of d s1) (?b ! j)"
    if "j \<in> set is" for j
  proof -
    have "recovering \<or> ?b ! j \<noteq> ?b ! i" using Cons.prems(5) that by (auto simp: image_iff)
    then show ?thesis using Cons.prems(4) [of j] i(4) that
      by (auto simp: s1(4) spec_update_def spec_unref_def split: if_splits)
  qed
  have rd: "ready (cache_of d s1)" using Cons.prems(3) by (simp add: s1(4) ready_unref)
  have "\<exists>s'. rfold (install_one recovering) is s1 = Inr s' \<and> binv d s' \<and> bio_rest s' = bio_rest s1
    \<and> cache_of d s' = spec_installs (\<not> recovering)
        (map (\<lambda>i. (lh_block s1 ! i, c_view (cache_of d s1) (log_blk (log_start s1) i))) is) (cache_of d s1)"
    using Cons.prems(2,4,5) f c1 r1 by (intro Cons.IH s1(2) rd) auto
  then obtain s' where s': "rfold (install_one recovering) is s1 = Inr s'" "binv d s'" "bio_rest s' = bio_rest s1"
    "cache_of d s' = spec_installs (\<not> recovering)
        (map (\<lambda>i. (?b ! i, c_view (cache_of d s1) (log_blk ?L i))) is) (cache_of d s1)"
    using f by auto
  have m: "map (\<lambda>i. (?b ! i, c_view (cache_of d s1) (log_blk ?L i))) is =
      map (\<lambda>i. (?b ! i, c_view (cache_of d s) (log_blk ?L i))) is"
    using c1(1) Cons.prems(4) by simp
  have "cache_of d s' = spec_installs (\<not> recovering)
      (map (\<lambda>i. (?b ! i, c_view (cache_of d s) (log_blk ?L i))) (i # is)) (cache_of d s)"
    unfolding s'(4) m by (simp add: s1(4))
  then show ?case using s1(1,3) s'(1-3) by simp
qed simp

section \<open>Commit\<close>

definition log_writes :: "u32 \<Rightarrow> u32 list \<Rightarrow> (u32 \<Rightarrow> u8 list) \<Rightarrow> (u32 \<times> u8 list) list" where
  "log_writes L bl V = map (\<lambda>i. (log_blk L i, V (bl ! i))) [0..<length bl]"

definition commit_writes :: "u32 \<Rightarrow> u32 list \<Rightarrow> (u32 \<Rightarrow> u8 list) \<Rightarrow> (u32 \<times> u8 list) list" where
  "commit_writes L bl V =
     (let h = hdr_write (int (length bl)) bl (V L)
      in log_writes L bl V @ [(L, h)] @ map (\<lambda>k. (k, V k)) bl @ [(L, hdr_write 0 [] h)])"

text \<open>A transaction is ready to commit: its blocks are pinned in the cache, are distinct and lie
  outside the log, and one buffer is left to write the log with.\<close>

definition log_ready :: "u32 \<Rightarrow> 'a log_state_scheme \<Rightarrow> u32 list \<Rightarrow> bool" where
  "log_ready d s bl \<longleftrightarrow> binv d s \<and> log_dev s = d \<and> ready (cache_of d s)
     \<and> lh_n s = int (length bl) \<and> length bl \<le> LOGBLOCKS \<and> length (lh_block s) = LOGBLOCKS
     \<and> take (length bl) (lh_block s) = bl \<and> distinct bl
     \<and> (\<forall>k \<in> set bl. \<not> log_area (log_start s) k \<and> 0 < c_ref (cache_of d s) k)
     \<and> length (c_view (cache_of d s) (log_start s)) = BSIZE"

lemma log_writes_value:
  assumes "length bl \<le> LOGBLOCKS"
  shows "apply_writes (log_writes L bl V) D k =
    (if k \<in> log_blk L ` {..<length bl} then V (bl ! (unat (k - L) - 1)) else D k)"
proof -
  have "fst ` set (log_writes L bl V) = log_blk L ` {..<length bl}"
    by (force simp: log_writes_def)
  moreover have "v = V (bl ! (unat (j - L) - 1))" if "(j, v) \<in> set (log_writes L bl V)" for j v
    using that assms log_blk_diff [of _ L] by (auto simp: log_writes_def)
  ultimately show ?thesis
    using apply_writes_fun [of "log_writes L bl V" "\<lambda>k. V (bl ! (unat (k - L) - 1))" D k] by simp
qed

lemma hdr_write_cong: "(\<And>i. i < nat n \<Longrightarrow> xs ! i = ys ! i) \<Longrightarrow> hdr_write n xs bs = hdr_write n ys bs"
  unfolding hdr_write_def by (rule fold_cong) auto

lemma commit_spec:
  assumes "log_ready d s bl" and "bl \<noteq> []"
  shows "\<exists>s'. commit s = Inr s' \<and> binv d s' \<and> lh_n s' = 0 \<and> log_start s' = log_start s
    \<and> dtrace s' = dtrace s @ commit_writes (log_start s) bl (c_view (cache_of d s))
    \<and> disk s' = apply_writes (commit_writes (log_start s) bl (c_view (cache_of d s))) (disk s)
    \<and> (\<forall>k. c_ref (cache_of d s') k = (if k \<in> set bl then c_ref (cache_of d s) k - 1 else c_ref (cache_of d s) k))"
proof -
  let ?L = "log_start s" and ?n = "length bl" and ?c = "cache_of d s"
  let ?V = "c_view ?c" and ?h = "hdr_write (int (length bl)) bl (c_view (cache_of d s) (log_start s))"
  have p: "binv d s" "log_dev s = d" "ready ?c" "lh_n s = int ?n" "?n \<le> LOGBLOCKS" "distinct bl"
    "\<And>k. k \<in> set bl \<Longrightarrow> \<not> log_area ?L k \<and> 0 < c_ref ?c k"
    using assms(1) by (simp_all add: log_ready_def)
  have tk: "take ?n (lh_block s) = bl" using assms(1) by (simp add: log_ready_def)
  have bl: "lh_block s ! i = bl ! i" if "i < ?n" for i using nth_take [OF that, of "lh_block s"] by (simp add: tk)
  have in_bl: "i < ?n \<Longrightarrow> bl ! i \<in> set bl" for i by simp
  obtain s1 where s1: "write_log s = Inr s1" "binv d s1" "bio_rest s1 = bio_rest s"
    "cache_of d s1 = spec_updates (log_writes ?L bl ?V) ?c"
  proof -
    have "map (\<lambda>i. (log_blk ?L i, ?V (lh_block s ! i))) [0..<?n] = log_writes ?L bl ?V"
      by (simp add: log_writes_def bl)
    then show thesis
      using write_log_loop [OF p(1-3), of "[0..<?n]"] p(4,5,7) bl in_bl that by (auto simp: write_log_def)
  qed
  note f1 = log_fields_rest [OF s1(3)]
  have v1: "c_view (cache_of d s1) (log_blk ?L i) = ?V (bl ! i)" "c_disk (cache_of d s1) (log_blk ?L i) = ?V (bl ! i)"
    if "i < ?n" for i using that p(5) by (simp_all add: s1(4) log_writes_value log_blk_diff)
  have "?L \<notin> log_blk ?L ` {..<?n}" using p(5) log_blk_neq [of _ ?L, symmetric] by fastforce
  then have vL: "c_view (cache_of d s1) ?L = ?V ?L" using p(5) by (simp add: s1(4) log_writes_value)
  have r1: "ready (cache_of d s1)" using p(3) by (simp add: s1(4) ready_def)
  have hh: "hdr_write (lh_n s) (lh_block s) (c_view (cache_of d s1) ?L) = ?h"
    unfolding vL p(4) by (rule hdr_write_cong) (simp add: bl)
  obtain s2 where s2: "write_head s1 = Inr s2" "binv d s2" "bio_rest s2 = bio_rest s1"
    "cache_of d s2 = spec_update ?L ?h (cache_of d s1)"
    using write_head_spec [OF s1(2) _ r1] f1 p(2) hh by auto
  note f2 = log_fields_rest [OF s2(3)]
  have c2: "c_view (cache_of d s2) (log_blk ?L i) = ?V (bl ! i)" "c_disk (cache_of d s2) (log_blk ?L i) = ?V (bl ! i)"
    if "i < ?n" for i
    using v1 [OF that] log_blk_neq [of i ?L] that p(5) by (simp_all add: s2(4) spec_update_def)
  have r2: "ready (cache_of d s2)" "c_ref (cache_of d s2) = c_ref ?c"
    using r1 by (simp_all add: s2(4) s1(4) spec_update_def ready_def)
  have "map ((!) (lh_block s2)) [0..<?n] = bl" using bl f1 f2 by (intro nth_equalityI) simp_all
  then have dm: "distinct (map ((!) (lh_block s2)) [0..<?n])" using p(6) by simp
  obtain s3 where s3: "install_trans False s2 = Inr s3" "binv d s3" "bio_rest s3 = bio_rest s2"
    "cache_of d s3 = spec_installs True (map (\<lambda>k. (k, ?V k)) bl) (cache_of d s2)"
  proof -
    have "map (\<lambda>i. (lh_block s2 ! i, c_view (cache_of d s2) (log_blk (log_start s2) i))) [0..<?n]
        = map (\<lambda>k. (k, ?V k)) bl"
      using bl c2(1) f1 f2 by (intro nth_equalityI) simp_all
    then show thesis
      using install_loop [OF s2(2) _ r2(1), of "[0..<?n]" False] dm c2 r2(2) p(2,4,5,7) bl in_bl f1 f2 that
      by (auto simp: install_trans_def)
  qed
  note f3 = log_fields_rest [OF s3(3)]
  let ?s3 = "s3\<lparr>lh_n := 0\<rparr>"
  have "ready (cache_of d ?s3)" using r2(1) by (simp add: s3(4) ready_installs)
  moreover have "hdr_write 0 (lh_block s3) x = hdr_write 0 [] x" for x by (rule hdr_write_cong) simp
  ultimately obtain s4 where s4: "write_head ?s3 = Inr s4" "binv d s4" "bio_rest s4 = bio_rest ?s3"
    "cache_of d s4 = spec_update ?L (hdr_write 0 [] (c_view (cache_of d s3) ?L)) (cache_of d s3)"
    using write_head_spec [of d ?s3] s3(2) f3 f2 f1 p(2) by auto
  have "?L \<notin> set bl" using p(7) log_start_area by blast
  then have hL: "c_view (cache_of d s3) ?L = ?h"
    by (simp add: s3(4) apply_writes_other image_image s2(4) spec_update_def)
  note f4 = log_fields_rest [OF s4(3)]
  have cm: "commit s = Inr s4"
    using s1(1) s2(1) s3(1) s4(1) p(4) assms(2) by (simp add: commit_def)
  have cd: "dtrace s4 = dtrace s @ commit_writes ?L bl ?V" "disk s4 = apply_writes (commit_writes ?L bl ?V) (disk s)"
    using arg_cong [OF s4(4) [unfolded hL], of c_trace] arg_cong [OF s4(4) [unfolded hL], of c_disk]
    by (simp_all add: spec_update_def s3(4) s2(4) s1(4) commit_writes_def Let_def)
  have rf: "c_ref (cache_of d s4) k = (if k \<in> set bl then c_ref ?c k - 1 else c_ref ?c k)" for k
    using spec_installs_ref(2) [of "map (\<lambda>k. (k, ?V k)) bl" "cache_of d s2" k] p(6)
    by (simp add: s4(4) spec_update_def s3(4) r2(2) image_image comp_def)
  show ?thesis using cm s4(2) f4 f3 f2 f1 cd rf by auto
qed

section \<open>Recovery\<close>

lemma spec_read_release: "can_read k c \<Longrightarrow> spec_brelse k (spec_bread k c) = c"
  by (intro cache.equality) (auto simp: spec_defs can_read_def)

lemma read_head_spec:
  assumes "binv d s" and "log_dev s = d" and "can_read (log_start s) (cache_of d s)"
    and "c_view (cache_of d s) (log_start s) = c_disk (cache_of d s) (log_start s)"
    and "hdr_n (c_view (cache_of d s) (log_start s)) \<le> int LOGBLOCKS"
  shows "\<exists>s'. read_head s = Inr s' \<and> binv d s' \<and> cache_of d s' = cache_of d s
    \<and> log_start s' = log_start s \<and> log_dev s' = d \<and> lh_n s' = hdr_n (c_view (cache_of d s) (log_start s))
    \<and> (\<forall>i < nat (lh_n s'). lh_block s' ! i = hdr_block (c_view (cache_of d s) (log_start s)) i)"
proof -
  let ?L = "log_start s" and ?v = "c_view (cache_of d s) (log_start s)"
  obtain b s1 where s1: "bread d ?L s = Inr (b, s1)" "binv d s1" "cache_of d s1 = spec_bread ?L (cache_of d s)"
    "buf_at d s1 b ?L" "bio_rest s1 = bio_rest s"
    using bc.read [OF assms(1,3)] by blast
  have h: "?L \<in> c_held (cache_of d s1)" by (simp add: s1(3) spec_bread_def)
  have g: "get_data b s1 = ?v" using bc.get [OF s1(2,4) h] by (simp add: s1(3) spec_bread_def)
  let ?s2 = "s1\<lparr>lh_n := hdr_n ?v,
    lh_block := map (\<lambda>i. if int i < hdr_n ?v then hdr_block ?v i else lh_block s1 ! i) [0..<LOGBLOCKS]\<rparr>"
  have "can_unref ?L (cache_of d ?s2)" using assms(4) by (simp add: s1(3) spec_bread_def can_unref_def)
  then obtain s3 where s3: "brelse b ?s2 = Inr s3" "binv d s3" "cache_of d s3 = spec_brelse ?L (cache_of d s1)"
    "bio_rest s3 = bio_rest ?s2"
    using bc.release [of d ?s2 b ?L] s1(2,4) h by auto
  note f = log_fields_rest [OF s1(5)] log_fields_rest [OF s3(4)]
  have "read_head s = Inr s3"
    using s1(1) g s3(1) assms(2,5) by (simp add: read_head_def Let_def cong: if_cong)
  moreover have "cache_of d s3 = cache_of d s" using s3(3) s1(3) spec_read_release [OF assms(3)] by simp
  moreover have "lh_block s3 ! i = hdr_block ?v i" if "i < nat (lh_n s3)" for i
    using that f assms(5) by (auto simp: nat_less_iff)
  ultimately show ?thesis using s3(2) f assms(2) by auto
qed

lemma recover_spec:
  fixes s :: "'a log_state_scheme"
  assumes "binv d s" and "log_dev s = d" and "idle_cache (cache_of d s)" and "log_valid (log_start s) (disk s)"
  shows "\<exists>s'. recover_from_log s = Inr s' \<and> binv d s' \<and> lh_n s' = 0 \<and> log_start s' = log_start s
    \<and> (let ws = home_writes (log_start s) (disk s) @ [(log_start s, hdr_write 0 [] (disk s (log_start s)))]
       in dtrace s' = dtrace s @ ws \<and> disk s' = apply_writes ws (disk s))"
proof -
  let ?L = "log_start s" and ?D = "disk s"
  let ?n = "nat (hdr_n (?D ?L))" and ?c = "cache_of d s"
  have i: "c_view ?c = ?D" "ready ?c" "1 < c_room ?c"
    using assms(3) by (simp_all add: idle_cache_def ready_def)
  have v: "hdr_n (?D ?L) \<le> int LOGBLOCKS" "\<And>i. i < ?n \<Longrightarrow> \<not> log_area ?L (hdr_block (?D ?L) i)"
    using assms(4) by (simp_all add: log_valid_def)
  obtain s1 where s1: "read_head s = Inr s1" "binv d s1" "cache_of d s1 = ?c" "log_start s1 = ?L" "log_dev s1 = d"
    "lh_n s1 = hdr_n (?D ?L)" "\<forall>i < ?n. lh_block s1 ! i = hdr_block (?D ?L) i"
  proof -
    have "c_view ?c ?L = c_disk ?c ?L" "hdr_n (c_view ?c ?L) \<le> int LOGBLOCKS" using v(1) by (simp_all add: i(1))
    from read_head_spec [OF assms(1,2) ready_can_read(1) [OF i(2)] this] that show thesis
      unfolding i(1) by metis
  qed
  have "map (\<lambda>i. (lh_block s1 ! i, ?D (log_blk ?L i))) [0..<?n] = home_writes ?L ?D"
    using s1(7) by (simp add: home_writes_def)
  moreover have "j < LOGBLOCKS \<and> \<not> log_area (log_start s1) (lh_block s1 ! j)
      \<and> c_view (cache_of d s1) (log_blk (log_start s1) j) = c_disk (cache_of d s1) (log_blk (log_start s1) j)
      \<and> (if True then 1 < c_room (cache_of d s1) else 0 < c_ref (cache_of d s1) (lh_block s1 ! j))"
    if "j \<in> set [0..<?n]" for j
    using that s1 v i by auto
  ultimately obtain s2 where s2: "install_trans True s1 = Inr s2" "binv d s2" "bio_rest s2 = bio_rest s1"
    "cache_of d s2 = spec_installs False (home_writes ?L ?D) ?c"
    using install_loop [OF s1(2,5), of "[0..<?n]" True] s1 i by (auto simp: install_trans_def)
  note f2 = log_fields_rest [OF s2(3)]
  have r2: "ready (cache_of d (s2\<lparr>lh_n := 0\<rparr>))" using i(2) by (simp add: s2(4) ready_installs)
  have "hdr_block (?D ?L) i \<noteq> ?L" if "i < ?n" for i using v(2) [OF that] log_start_area by metis
  then have "?L \<notin> fst ` set (home_writes ?L ?D)" by (fastforce simp: home_writes_def)
  then have "c_view (cache_of d s2) ?L = ?D ?L" by (simp add: s2(4) i(1) apply_writes_other)
  moreover have "hdr_write 0 (lh_block s2) x = hdr_write 0 [] x" for x by (rule hdr_write_cong) simp
  ultimately obtain s3 where s3: "write_head (s2\<lparr>lh_n := 0\<rparr>) = Inr s3" "binv d s3"
    "bio_rest s3 = bio_rest (s2\<lparr>lh_n := 0\<rparr>)" "cache_of d s3 = spec_update ?L (hdr_write 0 [] (?D ?L)) (cache_of d s2)"
    using write_head_spec [OF _ _ r2] s2(2) f2 s1(4,5) by auto
  note f3 = log_fields_rest [OF s3(3)]
  have "dtrace s3 = dtrace s @ home_writes ?L ?D @ [(?L, hdr_write 0 [] (?D ?L))]"
    "disk s3 = apply_writes (home_writes ?L ?D @ [(?L, hdr_write 0 [] (?D ?L))]) ?D"
    using arg_cong [OF s3(4), of c_trace] arg_cong [OF s3(4), of c_disk]
    by (simp_all add: spec_update_def s2(4))
  then show ?thesis using s1(1,4) s2(1) s3(1,2) f2 f3 by (simp add: recover_from_log_def Let_def)
qed

text \<open>A restart: memory is lost, the disk is what the completed writes left, and \<^verbatim>\<open>initlog\<close> runs.\<close>

definition reboot :: "u32 \<Rightarrow> u32 \<Rightarrow> (u32 \<Rightarrow> u8 list) \<Rightarrow> 'a log_state_scheme \<Rightarrow> 'a log_state_scheme res" where
  "reboot d L D s = initlog d L (binit (s\<lparr>disk := D, dtrace := []\<rparr>))"

lemma reboot_spec:
  assumes "d \<noteq> 0" and "log_valid L D"
  shows "\<exists>r. reboot d L D s = Inr r \<and> binv d r \<and> lh_n r = 0
    \<and> dtrace r = home_writes L D @ [(L, hdr_write 0 [] (D L))]
    \<and> disk r = apply_writes (home_writes L D @ [(L, hdr_write 0 [] (D L))]) D"
proof -
  let ?b = "(binit (s\<lparr>disk := D, dtrace := []\<rparr>))\<lparr>log_start := L, log_dev := d\<rparr>"
  have c: "cache_of d (binit (s\<lparr>disk := D, dtrace := []\<rparr>)) = \<lparr>c_view = D, c_disk = D, c_ref = (\<lambda>_. 0),
      c_held = {}, c_room = NBUF, c_trace = []\<rparr>"
    using binit_ok(3) [OF assms(1), of "s\<lparr>disk := D, dtrace := []\<rparr>"] by simp
  have dk: "disk ?b = D" "dtrace ?b = []"
    using arg_cong [OF c, of c_disk] arg_cong [OF c, of c_trace] by simp_all
  have "idle_cache (cache_of d ?b)" by (simp add: c idle_cache_def)
  then show ?thesis
    using recover_spec [of d ?b] binit_ok(1) [OF assms(1)] assms(2) dk
    by (simp add: reboot_def initlog_def Let_def) blast
qed

section \<open>Crashes\<close>

text \<open>Two disks agree on every block that is not part of the log.\<close>

definition agree_outside :: "u32 \<Rightarrow> (u32 \<Rightarrow> u8 list) \<Rightarrow> (u32 \<Rightarrow> u8 list) \<Rightarrow> bool" where
  "agree_outside L D E \<longleftrightarrow> (\<forall>k. \<not> log_area L k \<longrightarrow> D k = E k)"

lemma hdr_zero: "length bs = BSIZE \<Longrightarrow> hdr_n (hdr_write 0 [] bs) = 0 \<and> length (hdr_write 0 [] bs) = BSIZE"
  using hdr_write_read(1,3) [of bs 0 "[]"] by simp

lemma home_writes_none: "hdr_n (D L) \<le> 0 \<Longrightarrow> home_writes L D = []"
  by (simp add: home_writes_def)

text \<open>What a restart makes of the disk, in one line.\<close>

lemma reboot_outside:
  assumes "d \<noteq> 0" and "log_valid L D"
  shows "\<exists>r. reboot d L D m = Inr r \<and> agree_outside L (disk r) (apply_writes (home_writes L D) D)"
  using reboot_spec [OF assms, of m] log_start_area [of L] by (fastforce simp: agree_outside_def)

lemma crash_before_header:
  fixes V :: "u32 \<Rightarrow> u8 list" and j :: nat
  assumes "length bl \<le> LOGBLOCKS" and "hdr_n (D L) = 0" and "length (D L) = BSIZE"
  defines "E \<equiv> apply_writes (take j (log_writes L bl V)) D"
  shows "log_valid L E" and "agree_outside L (apply_writes (home_writes L E) E) D"
proof -
  have keys: "fst ` set (take j (log_writes L bl V)) \<subseteq> log_blk L ` {..<length bl}"
    using set_take_subset [of j "log_writes L bl V"] by (fastforce simp: log_writes_def)
  have "L \<notin> log_blk L ` {..<length bl}" using assms(1) log_blk_neq [of _ L, symmetric] by fastforce
  then have L: "E L = D L" using keys by (auto simp: E_def intro: apply_writes_other)
  then show "log_valid L E" using assms(2,3) by (simp add: log_valid_def)
  have "E k = D k" if "\<not> log_area L k" for k
  proof -
    have "k \<notin> log_blk L ` {..<length bl}" using that assms(1) log_blk_area by fastforce
    then show ?thesis using keys by (auto simp: E_def intro: apply_writes_other)
  qed
  then show "agree_outside L (apply_writes (home_writes L E) E) D"
    using L assms(2) by (simp add: agree_outside_def home_writes_none)
qed

lemma crash_after_header:
  fixes V D :: "u32 \<Rightarrow> u8 list" and j :: nat
  assumes "length bl \<le> LOGBLOCKS" and "length (V L) = BSIZE"
    and "\<forall>k \<in> set bl. \<not> log_area L k" and "\<forall>k. \<not> log_area L k \<longrightarrow> k \<notin> set bl \<longrightarrow> V k = D k"
  defines "h \<equiv> hdr_write (int (length bl)) bl (V L)"
  defines "E \<equiv> apply_writes (take j (map (\<lambda>k. (k, V k)) bl)) ((apply_writes (log_writes L bl V) D)(L := h))"
  shows "log_valid L E" and "agree_outside L (apply_writes (home_writes L E) E) V"
    and "agree_outside L (apply_writes (map (\<lambda>k. (k, V k)) bl) ((apply_writes (log_writes L bl V) D)(L := h))) V"
proof -
  let ?F = "(apply_writes (log_writes L bl V) D)(L := h)" and ?B = "map (\<lambda>k. (k, V k)) bl"
  note hw = hdr_write_read [OF assms(2,1), where bl = bl, folded h_def]
  have area: "E k = ?F k" if "log_area L k" for k
  proof -
    have "k \<notin> fst ` set (take j ?B)" using that assms(3) set_take_subset [of j bl] by (auto simp: take_map)
    then show ?thesis unfolding E_def by (rule apply_writes_other)
  qed
  have L: "E L = h" using area [OF log_start_area] by simp
  then show "log_valid L E" using hw assms(1,3) by (simp add: log_valid_def)
  have "E (log_blk L i) = V (bl ! i)" if "i < length bl" for i
    using that assms(1) area [OF log_blk_area] log_blk_neq [of i L] by (simp add: log_writes_value log_blk_diff)
  then have "home_writes L E = ?B" using L hw(1,2) by (intro nth_equalityI) (simp_all add: home_writes_def)
  moreover have "apply_writes ?B E = apply_writes ?B ?F" unfolding E_def by (rule apply_writes_prefix)
  moreover have "?F k = D k" if "\<not> log_area L k" for k
  proof -
    have "k \<noteq> L" "k \<notin> log_blk L ` {..<length bl}"
      using that assms(1) log_start_area log_blk_area by fastforce+
    then show ?thesis using assms(1) by (simp add: log_writes_value)
  qed
  moreover have "apply_writes ?B F k = (if k \<in> set bl then V k else F k)" for F :: "u32 \<Rightarrow> u8 list" and k
    by (subst apply_writes_fun [of ?B V]) (auto simp: image_image)
  ultimately show "agree_outside L (apply_writes ?B ?F) V" "agree_outside L (apply_writes (home_writes L E) E) V"
    using assms(4) by (simp_all add: agree_outside_def)
qed

lemma binv_clean: "binv d s \<Longrightarrow> c_ref (cache_of d s) k = 0 \<Longrightarrow> c_view (cache_of d s) k = disk s k"
proof (cases "entry d (bufs s) k")
  case (Some B)
  assume i: "binv d s" and r: "c_ref (cache_of d s) k = 0"
  obtain b where "lookup d (bufs s) k = Some b" and "B = bufs s b" using Some by (auto simp: entry_def)
  then have b: "b < NBUF" "key_is d k (bufs s b)" "B = bufs s b" using lookup_SomeD by blast+
  then have "buf_ok d (disk s) (cur_pid s) B" using i by (simp add: binv_def)
  then show ?thesis using Some r b(2,3)
    by (auto simp: cache_of_def buf_ok_def key_is_def unat_eq_zero)
qed (simp add: cache_of_def)

lemma take_commit_writes:
  "take j (commit_writes L bl V) =
    (let n = length bl; h = hdr_write (int n) bl (V L); B = map (\<lambda>k. (k, V k)) bl
     in if j \<le> n then take j (log_writes L bl V)
        else if j \<le> 2 * n + 1 then log_writes L bl V @ [(L, h)] @ take (j - n - 1) B
        else log_writes L bl V @ [(L, h)] @ B @ [(L, hdr_write 0 [] h)])"
  by (auto simp: commit_writes_def Let_def log_writes_def take_Cons' not_le)

lemma commit_prefix_recovers:
  assumes "length bl \<le> LOGBLOCKS" and "length (V L) = BSIZE" and "\<forall>k \<in> set bl. \<not> log_area L k"
    and "\<forall>k. \<not> log_area L k \<longrightarrow> k \<notin> set bl \<longrightarrow> V k = D k"
    and "hdr_n (D L) = 0" and "length (D L) = BSIZE"
  shows "log_valid L (apply_writes (take j (commit_writes L bl V)) D) \<and>
    agree_outside L (apply_writes (home_writes L (apply_writes (take j (commit_writes L bl V)) D))
      (apply_writes (take j (commit_writes L bl V)) D)) (if j \<le> length bl then D else V)"
proof -
  let ?h = "hdr_write (int (length bl)) bl (V L)" and ?n = "length bl" and ?B = "map (\<lambda>k. (k, V k)) bl"
  let ?E = "apply_writes (take j (commit_writes L bl V)) D"
  note after = crash_after_header [where V = V and L = L and D = D, OF assms(1-4)]
  consider "j \<le> ?n" | "?n < j" "j \<le> 2 * ?n + 1" | "2 * ?n + 1 < j" by linarith
  then show ?thesis
  proof cases
    case 1
    then have "?E = apply_writes (take j (log_writes L bl V)) D" by (simp add: take_commit_writes Let_def)
    with 1 show ?thesis
      using crash_before_header [where D = D and L = L and V = V, OF assms(1,5,6)] by simp
  next
    case 2
    then have "?E = apply_writes (take (j - ?n - 1) ?B) ((apply_writes (log_writes L bl V) D)(L := ?h))"
      by (simp add: take_commit_writes Let_def)
    with 2 show ?thesis using after(1,2) [where j = "j - ?n - 1"] by simp
  next
    case 3
    then have E: "?E = (apply_writes ?B ((apply_writes (log_writes L bl V) D)(L := ?h)))(L := hdr_write 0 [] ?h)"
      by (simp add: take_commit_writes Let_def)
    have z: "hdr_n (?E L) = 0" "length (?E L) = BSIZE"
      unfolding E using hdr_zero [OF hdr_write_read(3) [OF assms(2,1)]] by simp_all
    then have "log_valid L ?E" "home_writes L ?E = []" by (simp_all add: log_valid_def home_writes_none)
    moreover have "agree_outside L ?E V"
      unfolding E using after(3) log_start_area [of L] by (auto simp: agree_outside_def)
    ultimately show ?thesis using 3 by simp
  qed
qed

section \<open>Log space reservation\<close>

text \<open>The calls of the cache leave the log alone, whatever state they start in.\<close>

lemma validate_rest: "bio_rest (snd (validate_buffer b s)) = bio_rest s"
  by (simp add: validate_buffer_def Let_def)

lemma disk_rw_rest [simp]: "bio_rest (disk_rw b wr s) = bio_rest s"
  by (simp add: disk_rw_def Let_def)

lemma lock_buf_rest: "lock_buf b s = Inr s' \<Longrightarrow> bio_rest s' = bio_rest s"
  by (auto simp: lock_buf_def rbind_Inr_iff)

lemma bget_rest: "bget d k s = Inr (b, s') \<Longrightarrow> bio_rest s' = bio_rest s"
  by (auto simp: bget_def rbind_Inr_iff Let_def split: option.splits dest!: lock_buf_rest)

lemma bread_rest: "bread d k s = Inr (b, s') \<Longrightarrow> bio_rest s' = bio_rest s"
proof -
  assume r: "bread d k s = Inr (b, s')"
  let ?s = "bstat (\<lambda>t. t\<lparr>bread_calls := bread_calls t + 1\<rparr>) s"
  obtain c s1 where g: "bget d k ?s = Inr (c, s1)" using r by (auto simp: bread_def rbind_Inr_iff)
  obtain ok s2 where v: "validate_buffer c s1 = (ok, s2)" by fastforce
  have "bio_rest s' = bio_rest s2" using r g v by (auto simp: bread_def Let_def split: if_splits)
  with bget_rest [OF g] validate_rest [of c s1] v show ?thesis by simp
qed

lemma bwrite_rest: "bwrite b s = Inr s' \<Longrightarrow> bio_rest s' = bio_rest s"
  and brelse_rest: "brelse b s = Inr s' \<Longrightarrow> bio_rest s' = bio_rest s"
  and bpin_rest: "bpin b s = Inr s' \<Longrightarrow> bio_rest s' = bio_rest s"
  and bunpin_rest: "bunpin b s = Inr s' \<Longrightarrow> bio_rest s' = bio_rest s"
  using validate_rest [of b s]
  by (auto simp: bwrite_def brelse_def bpin_def bunpin_def Let_def split: prod.splits if_splits)

lemma set_data_rest [simp]: "bio_rest (set_data b v s) = bio_rest s"
  by (simp add: set_data_def)

lemmas bio_rests = bread_rest bwrite_rest brelse_rest bpin_rest bunpin_rest

lemma rfold_rest:
  "(\<And>i s s'. f i s = Inr s' \<Longrightarrow> bio_rest s' = bio_rest s) \<Longrightarrow> rfold f is s = Inr s' \<Longrightarrow> bio_rest s' = bio_rest s"
  by (induction "is" arbitrary: s) (auto simp: rbind_Inr_iff)

lemma write_log_rest: "write_log s = Inr s' \<Longrightarrow> bio_rest s' = bio_rest s"
  unfolding write_log_def
  by (erule rfold_rest [rotated]) (auto simp: write_log_one_def rbind_Inr_iff dest!: bio_rests)

lemma install_trans_rest: "install_trans r s = Inr s' \<Longrightarrow> bio_rest s' = bio_rest s"
  unfolding install_trans_def
  by (erule rfold_rest [rotated]) (auto simp: install_one_def rbind_Inr_iff split: if_splits dest!: bio_rests)

lemma write_head_rest: "write_head s = Inr s' \<Longrightarrow> bio_rest s' = bio_rest s"
  by (auto simp: write_head_def rbind_Inr_iff dest!: bio_rests)

lemma commit_fields:
  assumes "commit s = Inr s'" and "0 \<le> lh_n s"
  shows "lh_n s' = 0 \<and> outstanding s' = outstanding s \<and> committing s' = committing s \<and> lh_block s' = lh_block s"
proof (cases "0 < lh_n s")
  case True
  then obtain s1 s2 s3 where "write_log s = Inr s1" "write_head s1 = Inr s2" "install_trans False s2 = Inr s3"
    "write_head (s3\<lparr>lh_n := 0\<rparr>) = Inr s'"
    using assms(1) by (auto simp: commit_def rbind_Inr_iff)
  then show ?thesis
    using log_fields_rest [OF write_log_rest, of s s1] log_fields_rest [OF write_head_rest, of s1 s2]
      log_fields_rest [OF install_trans_rest, of False s2 s3] log_fields_rest [OF write_head_rest, of "s3\<lparr>lh_n := 0\<rparr>" s']
    by simp
qed (use assms in \<open>simp add: commit_def\<close>)

text \<open>Any interleaving of file system calls. The list holds, for every call in progress, the set of blocks it has
  logged, at most the ten that \<^verbatim>\<open>begin_op\<close> reserves room for; a block may be logged again and again.\<close>

inductive log_reach :: "u32 set list \<Rightarrow> 'a log_state_scheme \<Rightarrow> bool" where
  start: "lh_n s = 0 \<Longrightarrow> outstanding s = 0 \<Longrightarrow> \<not> committing s \<Longrightarrow> length (lh_block s) = LOGBLOCKS \<Longrightarrow> log_reach [] s"
| op_begin: "log_reach Bs s \<Longrightarrow> begin_op s = Inr s' \<Longrightarrow> log_reach ({} # Bs) s'"
| op_write: "log_reach Bs s \<Longrightarrow> i < length Bs \<Longrightarrow> card (insert (b_blockno (bufs s b)) (Bs ! i)) \<le> 10 \<Longrightarrow>
    log_write b s = Inr s' \<Longrightarrow> log_reach (Bs[i := insert (b_blockno (bufs s b)) (Bs ! i)]) s'"
| op_cache: "log_reach Bs s \<Longrightarrow> bio_rest s' = bio_rest s \<Longrightarrow> log_reach Bs s'"
| op_end: "log_reach (us @ v # ws) s \<Longrightarrow> end_op s = Inr s' \<Longrightarrow> log_reach (us @ ws) s'"

definition logged :: "'a log_state_scheme \<Rightarrow> u32 set" where
  "logged s = set (take (nat (lh_n s)) (lh_block s))"

definition budget_left :: "u32 set list \<Rightarrow> nat" where
  "budget_left Bs = sum_list (map (\<lambda>B. 10 - card B) Bs)"

definition reserve_inv :: "u32 set list \<Rightarrow> 'a log_state_scheme \<Rightarrow> bool" where
  "reserve_inv Bs s \<longleftrightarrow> outstanding s = int (length Bs) \<and> 0 \<le> lh_n s \<and> lh_n s + int (budget_left Bs) \<le> int LOGBLOCKS
     \<and> (\<forall>B \<in> set Bs. finite B \<and> card B \<le> 10 \<and> B \<subseteq> logged s) \<and> \<not> committing s \<and> length (lh_block s) = LOGBLOCKS"

lemma logged_frame [simp]: "logged (s\<lparr>outstanding := n\<rparr>) = logged s" "logged (s\<lparr>committing := c\<rparr>) = logged s"
  by (simp_all add: logged_def)

lemma log_write_fields:
  assumes "log_write b s = Inr s'" and "length (lh_block s) = LOGBLOCKS" and "0 \<le> lh_n s"
  defines "k \<equiv> b_blockno (bufs s b)"
  shows "outstanding s' = outstanding s \<and> committing s' = committing s \<and> length (lh_block s') = LOGBLOCKS
    \<and> lh_n s' = lh_n s + (if k \<in> logged s then 0 else 1) \<and> logged s' = insert k (logged s)"
proof (cases "first_index (\<lambda>x. x = k) (take (nat (lh_n s)) (lh_block s))")
  case None
  define s1 where "s1 = s\<lparr>lh_block := (lh_block s)[nat (lh_n s) := k]\<rparr>"
  obtain s2 where s2: "bpin b s1 = Inr s2" "s' = s2\<lparr>lh_n := lh_n s2 + 1\<rparr>"
    using assms(1) None by (auto simp: log_write_def rbind_Inr_iff Let_def s1_def k_def split: if_splits)
  have n: "lh_n s < int LOGBLOCKS" using assms(1) by (auto simp: log_write_def split: if_splits)
  have "k \<notin> logged s" using None by (auto simp: logged_def first_index_None_iff)
  moreover have "take (nat (lh_n s + 1)) ((lh_block s)[nat (lh_n s) := k]) = take (nat (lh_n s)) (lh_block s) @ [k]"
    using n assms(2,3) by (simp add: nat_add_distrib take_Suc_conv_app_nth)
  ultimately show ?thesis using log_fields_rest [OF bpin_rest [OF s2(1)]] assms(2) by (simp add: s2(2) s1_def logged_def)
next
  case (Some i)
  then have i: "i < nat (lh_n s)" "i < LOGBLOCKS" "lh_block s ! i = k" using first_index_SomeD [OF Some] assms(2) by auto
  then have u: "(lh_block s)[i := k] = lh_block s" using list_update_id [of "lh_block s" i] by simp
  have "k \<in> logged s" using i assms(2) by (auto simp: logged_def in_set_conv_nth)
  moreover have "s' = s" using assms(1) Some i(1) u by (auto simp: log_write_def Let_def k_def split: if_splits)
  ultimately show ?thesis using assms(2) by (simp add: insert_absorb)
qed

lemma budget_left_le: "budget_left Bs \<le> 10 * length Bs"
  unfolding budget_left_def by (induction Bs) auto

lemma budget_left_update:
  assumes "i < length Bs" and "finite (Bs ! i)" and "card (insert k (Bs ! i)) \<le> 10"
  shows "budget_left (Bs[i := insert k (Bs ! i)]) + (if k \<in> Bs ! i then 0 else 1) = budget_left Bs"
    and "10 - card (Bs ! i) \<le> budget_left Bs"
proof -
  show le: "10 - card (Bs ! i) \<le> budget_left Bs"
    using assms(1) elem_le_sum_list [of i "map (\<lambda>B. 10 - card B) Bs"] by (simp add: budget_left_def)
  show "budget_left (Bs[i := insert k (Bs ! i)]) + (if k \<in> Bs ! i then 0 else 1) = budget_left Bs"
  proof (cases "k \<in> Bs ! i")
    case True
    then show ?thesis by (simp add: insert_absorb)
  next
    case False
    then show ?thesis using assms le by (simp add: budget_left_def map_update sum_list_update)
  qed
qed

lemma reserve_inv_reach: "log_reach Bs s \<Longrightarrow> reserve_inv Bs s"
proof (induction rule: log_reach.induct)
  case (start s)
  then show ?case by (simp add: reserve_inv_def budget_left_def)
next
  case (op_begin Bs s s')
  then have s': "s' = s\<lparr>outstanding := outstanding s + 1\<rparr>" and "lh_n s + (outstanding s + 1) * 10 \<le> 30"
    by (auto simp: begin_op_def split: if_splits)
  moreover have "budget_left ({} # Bs) = 10 + budget_left Bs" and "logged s' = logged s" by (simp_all add: budget_left_def logged_def s')
  ultimately show ?case using op_begin.IH budget_left_le [of Bs] by (auto simp: reserve_inv_def)
next
  case (op_write Bs s i b s')
  let ?k = "b_blockno (bufs s b)"
  have f: "finite (Bs ! i)" "Bs ! i \<subseteq> logged s" using op_write.IH op_write.hyps(2) by (auto simp: reserve_inv_def)
  have w: "outstanding s' = outstanding s \<and> committing s' = committing s \<and> length (lh_block s') = LOGBLOCKS
    \<and> lh_n s' = lh_n s + (if ?k \<in> logged s then 0 else 1) \<and> logged s' = insert ?k (logged s)"
    using op_write.IH by (intro log_write_fields [OF op_write.hyps(4)]) (simp_all add: reserve_inv_def)
  have "finite B \<and> card B \<le> 10 \<and> B \<subseteq> logged s'" if "B \<in> set (Bs[i := insert ?k (Bs ! i)])" for B
    using that op_write.IH op_write.hyps(3) f w set_update_subset_insert [of Bs i "insert ?k (Bs ! i)"]
    by (auto simp: reserve_inv_def)
  moreover have "?k \<in> Bs ! i \<Longrightarrow> ?k \<in> logged s" using f(2) by blast
  ultimately show ?case
    using op_write.IH w budget_left_update(1) [OF op_write.hyps(2) f(1) op_write.hyps(3)] by (auto simp: reserve_inv_def split: if_splits)
next
  case (op_cache Bs s s')
  then show ?case using log_fields_rest [of s' s] by (simp add: reserve_inv_def logged_def)
next
  case (op_end us v ws s s')
  let ?s = "s\<lparr>outstanding := outstanding s - 1\<rparr>"
  show ?case
  proof (cases "outstanding s = 1")
    case True
    then obtain s2 where "commit (?s\<lparr>committing := True\<rparr>) = Inr s2" "s' = s2\<lparr>committing := False\<rparr>"
      using op_end by (auto simp: end_op_def Let_def rbind_Inr_iff reserve_inv_def)
    moreover have "length us = 0" and "length ws = 0" using True op_end.IH by (simp_all add: reserve_inv_def del: length_0_conv)
    ultimately show ?thesis
      using True op_end.IH commit_fields [of "?s\<lparr>committing := True\<rparr>" s2] by (simp add: reserve_inv_def budget_left_def)
  next
    case False
    then have "s' = ?s" using op_end by (auto simp: end_op_def Let_def reserve_inv_def)
    then show ?thesis using op_end.IH by (simp add: reserve_inv_def budget_left_def)
  qed
qed

section \<open>Transactions in progress\<close>

text \<open>The list \<open>bl\<close> of blocks logged so far, between the calls of a transaction.\<close>

definition tx_ok :: "u32 \<Rightarrow> 'a log_state_scheme \<Rightarrow> u32 list \<Rightarrow> bool" where
  "tx_ok d s bl \<longleftrightarrow> binv d s \<and> log_dev s = d \<and> lh_n s = int (length bl) \<and> length bl \<le> LOGBLOCKS
     \<and> length (lh_block s) = LOGBLOCKS \<and> take (length bl) (lh_block s) = bl \<and> distinct bl
     \<and> (\<forall>k \<in> set bl. \<not> log_area (log_start s) k \<and> 0 < c_ref (cache_of d s) k)"

lemma log_ready_iff:
  "log_ready d s bl \<longleftrightarrow> tx_ok d s bl \<and> ready (cache_of d s) \<and> length (c_view (cache_of d s) (log_start s)) = BSIZE"
  by (auto simp: log_ready_def tx_ok_def)

lemma tx_ok_rest:
  assumes "tx_ok d s bl" and "binv d s'" and "bio_rest s' = bio_rest s"
    and "\<And>k. k \<in> set bl \<Longrightarrow> 0 < c_ref (cache_of d s') k"
  shows "tx_ok d s' bl"
  using assms log_fields_rest [OF assms(3)] by (simp add: tx_ok_def)

lemma take_snoc_update: "n < length xs \<Longrightarrow> take (Suc n) (xs[n := y]) = take n xs @ [y]"
  by (simp add: take_Suc_conv_app_nth)

lemma log_write_spec:
  assumes "tx_ok d s bl" and "buf_at d s b k" and "k \<in> c_held (cache_of d s)" and "\<not> log_area (log_start s) k"
    and "1 \<le> outstanding s" and "length bl < LOGBLOCKS" and "c_ref (cache_of d s) k + 1 < 2 ^ 32"
  shows "\<exists>s'. log_write b s = Inr s' \<and> tx_ok d s' (if k \<in> set bl then bl else bl @ [k])
    \<and> cache_of d s' = (if k \<in> set bl then cache_of d s else spec_bpin k (cache_of d s))
    \<and> buf_at d s' = buf_at d s \<and> outstanding s' = outstanding s \<and> log_start s' = log_start s"
proof -
  have t: "binv d s" "log_dev s = d" "lh_n s = int (length bl)" "length (lh_block s) = LOGBLOCKS"
    "take (length bl) (lh_block s) = bl" "distinct bl"
    "\<forall>k \<in> set bl. \<not> log_area (log_start s) k \<and> 0 < c_ref (cache_of d s) k"
    using assms(1) by (simp_all add: tx_ok_def)
  have bk: "b_blockno (bufs s b) = k" using assms(2) by (simp add: buf_at_def key_is_def)
  show ?thesis
  proof (cases "k \<in> set bl")
    case True
    then obtain i where i: "first_index (\<lambda>x. x = k) bl = Some i"
      using first_index_ex [of k bl "\<lambda>x. x = k"] by auto
    then have ik: "i < length bl" "bl ! i = k" using first_index_SomeD [OF i] by auto
    have "lh_block s ! i = k" using nth_take [OF ik(1), of "lh_block s"] ik(2) t(5) by simp
    then have "(lh_block s)[i := k] = lh_block s" by (metis list_update_id)
    then have "log_write b s = Inr s"
      using i ik t assms(5,6) bk by (simp add: log_write_def Let_def)
    then show ?thesis using True assms(1) by simp
  next
    case False
    let ?s1 = "s\<lparr>lh_block := (lh_block s)[length bl := k]\<rparr>"
    have f: "first_index (\<lambda>x. x = k) bl = None" using False by (auto simp: first_index_None_iff)
    obtain s2 where s2: "bpin b ?s1 = Inr s2" "binv d s2" "cache_of d s2 = spec_bpin k (cache_of d s)"
      "bio_rest s2 = bio_rest ?s1" "buf_at d s2 = buf_at d s"
      using bc.pin [of d ?s1 b k] t(1) assms(2,3,7) by auto
    note r = log_fields_rest [OF s2(4)]
    have "log_write b s = Inr (s2\<lparr>lh_n := lh_n s2 + 1\<rparr>)"
      using f t assms(5,6) bk s2(1) by (simp add: log_write_def Let_def)
    moreover have "take (Suc (length bl)) ((lh_block s)[length bl := k]) = bl @ [k]"
      using take_snoc_update [of "length bl" "lh_block s" k] t(4,5) assms(6) by simp
    then have "tx_ok d (s2\<lparr>lh_n := lh_n s2 + 1\<rparr>) (bl @ [k])"
      using t r s2(2,3) False assms(4,6) by (auto simp: tx_ok_def spec_bpin_def)
    ultimately show ?thesis using False s2(3,5) r by simp
  qed
qed

section \<open>A transaction to evaluate the properties at\<close>

definition demo_log :: log_state where
  "demo_log = bcache.extend (bcache.truncate demo_bcache) (log_state.fields 2 0 False 1 0 (replicate 30 0))"

definition demo_tx :: "log_state res" where
  "demo_tx = rbind (begin_op (binit demo_log)) (\<lambda>s. rbind (bread 1 50 s) (\<lambda>(b, s1).
     rbind (log_write b (set_data b (replicate 1024 7) s1)) (brelse b)))"

lemmas demo_defs = demo_log_def demo_bcache_def bcache.defs log_state.defs

lemma demo_log_fields:
  "log_start demo_log = 2" "outstanding demo_log = 0" "\<not> committing demo_log" "log_dev demo_log = 1"
  "lh_n demo_log = 0" "lh_block demo_log = replicate 30 0" "disk demo_log = (\<lambda>_. replicate 1024 0)" "dtrace demo_log = []"
  by (simp_all add: demo_defs)

lemma hdr_n_zeros: "hdr_n (replicate 1024 0) = 0"
proof -
  have "get_field 4 0 (replicate 1024 0) = (0 :: u32)" by (simp add: get_field_def eval_nat_numeral)
  then show ?thesis by (simp add: hdr_n_def)
qed

lemma demo_tx_ready:
  "\<exists>s. demo_tx = Inr s \<and> log_ready 1 s [50] \<and> log_start s = 2 \<and> disk s = (\<lambda>_. replicate 1024 0)
    \<and> c_view (cache_of 1 s) 50 = replicate 1024 7 \<and> (\<forall>k. k \<notin> set [50] \<longrightarrow> c_ref (cache_of 1 s) k = 0)"
proof -
  note b = binit_ok [of 1 demo_log, simplified]
  let ?s = "(binit demo_log)\<lparr>outstanding := 1\<rparr>"
  note f = log_fields_rest [OF b(2)]
  have bo: "begin_op (binit demo_log) = Inr ?s" using f by (simp add: begin_op_def demo_log_fields)
  have c: "cache_of 1 (binit demo_log) = \<lparr>c_view = (\<lambda>_. replicate 1024 0), c_disk = (\<lambda>_. replicate 1024 0), c_ref = (\<lambda>_. 0),
      c_held = {}, c_room = NBUF, c_trace = []\<rparr>" using b(3) by (simp add: demo_log_fields)
  obtain x s1 where s1: "bread 1 50 ?s = Inr (x, s1)" "binv 1 s1" "cache_of 1 s1 = spec_bread 50 (cache_of 1 (binit demo_log))"
    "buf_at 1 s1 x 50" "bio_rest s1 = bio_rest ?s"
    using bc.read [of 1 ?s 50] b(1) c by (auto simp: can_read_def)
  let ?s2 = "set_data x (replicate 1024 7) s1"
  have h1: "50 \<in> c_held (cache_of 1 s1)" by (simp add: s1(3) spec_bread_def)
  note p = bc.put [OF s1(2,4) h1, of "replicate 1024 7"]
  note f2 = log_fields_rest [OF s1(5)] log_fields_rest [of ?s2 s1]
  have t: "tx_ok 1 ?s2 []" using p f2 f by (simp add: tx_ok_def demo_log_fields)
  have na: "\<not> log_area 2 50" by (simp add: log_area_def)
  obtain s3 where s3: "log_write x ?s2 = Inr s3" "tx_ok 1 s3 [50]" "cache_of 1 s3 = spec_bpin 50 (cache_of 1 ?s2)"
    "buf_at 1 s3 = buf_at 1 ?s2" "log_start s3 = 2"
    using log_write_spec [OF t, of x 50] p s1(3,4) h1 na f f2 c
    by (auto simp: demo_log_fields spec_defs)
  have cs3: "cache_of 1 s3 = spec_bpin 50 (spec_set 50 (replicate 1024 7) (spec_bread 50 (cache_of 1 (binit demo_log))))"
    using s3(3) p s1(3) by simp
  have "50 \<in> c_held (cache_of 1 s3)" "can_unref 50 (cache_of 1 s3)" "buf_at 1 s3 x 50" "binv 1 s3"
    using s3(2,4) p s1(4) by (simp_all add: cs3 spec_defs can_unref_def tx_ok_def)
  then obtain s4 where s4: "brelse x s3 = Inr s4" "binv 1 s4" "cache_of 1 s4 = spec_brelse 50 (cache_of 1 s3)"
    "bio_rest s4 = bio_rest s3"
    using bc.release by blast
  have cs4: "cache_of 1 s4 = spec_brelse 50 (spec_bpin 50 (spec_set 50 (replicate 1024 7) (spec_bread 50 (cache_of 1 (binit demo_log)))))"
    using s4(3) cs3 by simp
  have "tx_ok 1 s4 [50]" by (rule tx_ok_rest [OF s3(2) s4(2,4)]) (simp add: cs4 spec_defs)
  then have "log_ready 1 s4 [50]"
    using log_fields_rest [OF s4(4)] s3(5) unfolding log_ready_iff cs4 by (simp add: spec_defs c ready_def)
  moreover have "disk s4 = (\<lambda>_. replicate 1024 0)"
    using arg_cong [OF cs4, of c_disk] by (simp add: spec_defs c)
  ultimately show ?thesis
    using bo s1(1) s3(1) s4(1) log_fields_rest [OF s4(4)] s3(5)
    by (auto simp: demo_tx_def cs4 spec_defs c)
qed

section \<open>Properties\<close>

text \<open>C1. Commit is atomic with respect to crashes: if the machine stops after any number of the disk
  writes of \<^verbatim>\<open>commit\<close> and restarts, \<^verbatim>\<open>initlog\<close> succeeds and every block outside the log is the one
  from before the transaction when the header had not been written, and the one of the
  transaction when it had; commit itself never panics, and when it returns the disk has the
  new contents and an empty log.\<close>

theorem commit_crash_atomic:
  assumes "log_ready d s bl" and "bl \<noteq> []" and "hdr_n (disk s (log_start s)) = 0"
    and "length (disk s (log_start s)) = BSIZE"
    and "\<forall>k. k \<notin> set bl \<longrightarrow> c_ref (cache_of d s) k = 0"
  shows "\<exists>s' w. commit s = Inr s' \<and> dtrace s' = dtrace s @ w
    \<and> agree_outside (log_start s) (disk s') (c_view (cache_of d s)) \<and> hdr_n (disk s' (log_start s)) = 0
    \<and> (\<forall>j m. \<exists>r. reboot d (log_start s) (apply_writes (take j w) (disk s)) (m :: 'b log_state_scheme) = Inr r
         \<and> agree_outside (log_start s) (disk r) (if j \<le> length bl then disk s else c_view (cache_of d s)))"
proof -
  let ?L = "log_start s" and ?D = "disk s" and ?V = "c_view (cache_of d s)"
  let ?w = "commit_writes ?L bl ?V"
  obtain s' where s': "commit s = Inr s'" "dtrace s' = dtrace s @ ?w" "disk s' = apply_writes ?w ?D"
    using commit_spec [OF assms(1,2)] by blast
  have p: "length bl \<le> LOGBLOCKS" "length (?V ?L) = BSIZE" "\<forall>k \<in> set bl. \<not> log_area ?L k"
    using assms(1) by (simp_all add: log_ready_def)
  have d: "d \<noteq> 0" and inv: "binv d s" using assms(1) by (simp_all add: log_ready_def binv_def)
  have "\<forall>k. \<not> log_area ?L k \<longrightarrow> k \<notin> set bl \<longrightarrow> ?V k = ?D k" using binv_clean [OF inv] assms(5) by simp
  note rc = commit_prefix_recovers [where V = ?V and L = ?L and D = ?D, OF p this assms(3,4)]
  have "\<exists>r. reboot d ?L (apply_writes (take j ?w) ?D) (m :: 'b log_state_scheme) = Inr r
      \<and> agree_outside ?L (disk r) (if j \<le> length bl then ?D else ?V)" for j m
    using reboot_outside [OF d conjunct1 [OF rc [of j]], of m] conjunct2 [OF rc [of j]]
    by (auto simp: agree_outside_def)
  moreover have "hdr_n (disk s' ?L) = 0"
    using hdr_zero [OF hdr_write_read(3) [OF p(2,1)]] by (simp add: s'(3) commit_writes_def Let_def)
  moreover have "agree_outside ?L (disk s') ?V"
    using rc [of "length ?w"] home_writes_none [of "disk s'" ?L] calculation(2) s'(3)
    by (simp add: commit_writes_def log_writes_def Let_def)
  ultimately show ?thesis using s'(1,2) by blast
qed


theorem commit_crash_atomic_witness:
  "\<exists>s s' w. demo_tx = Inr s \<and> commit s = Inr s' \<and> dtrace s' = dtrace s @ w
    \<and> agree_outside 2 (disk s') (c_view (cache_of 1 s)) \<and> disk s' 50 = replicate 1024 7
    \<and> (\<exists>r. reboot 1 2 (apply_writes (take 1 w) (disk s)) demo_log = Inr r \<and> disk r 50 = replicate 1024 0)
    \<and> (\<exists>r. reboot 1 2 (apply_writes (take 2 w) (disk s)) demo_log = Inr r \<and> disk r 50 = replicate 1024 7)"
proof -
  obtain s where s: "demo_tx = Inr s" "log_ready 1 s [50]" "log_start s = 2" "disk s = (\<lambda>_. replicate 1024 0)"
    "c_view (cache_of 1 s) 50 = replicate 1024 7" "\<forall>k. k \<notin> set [50] \<longrightarrow> c_ref (cache_of 1 s) k = 0"
    using demo_tx_ready by blast
  have h: "hdr_n (disk s (log_start s)) = 0" "length (disk s (log_start s)) = BSIZE"
    by (simp_all add: s(4) hdr_n_zeros)
  obtain s' w where w: "commit s = Inr s'" "dtrace s' = dtrace s @ w"
    "agree_outside 2 (disk s') (c_view (cache_of 1 s))"
    "\<forall>j m. \<exists>r. reboot 1 2 (apply_writes (take j w) (disk s)) (m :: log_state) = Inr r
       \<and> agree_outside 2 (disk r) (if j \<le> length [50 :: u32] then disk s else c_view (cache_of 1 s))"
    using commit_crash_atomic [OF s(2) _ h s(6), where 'b = unit] s(3) by auto
  have na: "\<not> log_area 2 50" by (simp add: log_area_def)
  obtain r1 where r1: "reboot 1 2 (apply_writes (take 1 w) (disk s)) demo_log = Inr r1" "disk r1 50 = replicate 1024 0"
    using spec [OF spec [OF w(4), of 1], of demo_log] na s(4) by (auto simp: agree_outside_def)
  obtain r2 where r2: "reboot 1 2 (apply_writes (take 2 w) (disk s)) demo_log = Inr r2" "disk r2 50 = replicate 1024 7"
    using spec [OF spec [OF w(4), of 2], of demo_log] na s(5) by (auto simp: agree_outside_def)
  have "disk s' 50 = replicate 1024 7" using w(3) na s(5) by (simp add: agree_outside_def)
  with s(1) w(1-3) r1 r2 show ?thesis by blast
qed

text \<open>C15. Recovery can itself be interrupted: if the machine stops after any number of the writes of
  \<^verbatim>\<open>recover_from_log\<close> and restarts, the second recovery succeeds and ends with the same blocks
  outside the log as an undisturbed one.\<close>

theorem recovery_idempotent:
  assumes "d \<noteq> 0" and "log_valid L D"
  shows "\<exists>r. reboot d L D (m :: 'a log_state_scheme) = Inr r \<and> (\<forall>j m'. \<exists>r'.
    reboot d L (apply_writes (take j (dtrace r)) D) (m' :: 'b log_state_scheme) = Inr r'
    \<and> agree_outside L (disk r') (disk r))"
proof -
  let ?hw = "home_writes L D" and ?z = "hdr_write 0 [] (D L)"
  obtain r where r: "reboot d L D m = Inr r" "dtrace r = ?hw @ [(L, ?z)]" "disk r = apply_writes (?hw @ [(L, ?z)]) D"
    using reboot_spec [OF assms, of m] by blast
  have keys: "\<not> log_area L k" if "k \<in> fst ` set ?hw" for k
    using assms(2) that by (auto simp: home_writes_def log_valid_def)
  have area: "apply_writes (take j ?hw) D k = D k" if "log_area L k" for j k
  proof -
    have "k \<notin> fst ` set (take j ?hw)" using that keys set_take_subset [of j ?hw] by blast
    then show ?thesis by (rule apply_writes_other)
  qed
  have "log_valid L E \<and> agree_outside L (apply_writes (home_writes L E) E) (disk r)"
    if E: "E = apply_writes (take j (dtrace r)) D" for j E
  proof (cases "j \<le> length ?hw")
    case True
    then have e: "E = apply_writes (take j ?hw) D" using E by (simp add: r(2))
    have L: "E L = D L" using area [OF log_start_area] by (simp add: e)
    have blk: "E (log_blk L i) = D (log_blk L i)" if "i < nat (hdr_n (D L))" for i
    proof -
      have "i < LOGBLOCKS" using that assms(2) by (auto simp: log_valid_def)
      then show ?thesis using area [OF log_blk_area] by (simp add: e)
    qed
    have "home_writes L E = ?hw" using L blk by (simp add: home_writes_def)
    moreover have "apply_writes ?hw E = apply_writes ?hw D" by (simp add: e apply_writes_prefix)
    ultimately show ?thesis
      using L assms(2) r(3) log_start_area [of L] by (auto simp: log_valid_def agree_outside_def)
  next
    case False
    then have e: "E = disk r" using E by (simp add: r(2,3))
    then have "E L = ?z" by (simp add: r(3))
    moreover have "hdr_n ?z = 0 \<and> length ?z = BSIZE" using assms(2) by (intro hdr_zero) (simp add: log_valid_def)
    ultimately show ?thesis using e by (simp add: log_valid_def home_writes_none agree_outside_def)
  qed
  then have "\<exists>r'. reboot d L (apply_writes (take j (dtrace r)) D) (m' :: 'b log_state_scheme) = Inr r'
      \<and> agree_outside L (disk r') (disk r)" for j m'
    using reboot_outside [OF assms(1)] by (fastforce simp: agree_outside_def)
  with r(1) show ?thesis by blast
qed

theorem recovery_idempotent_witness:
  "\<exists>r r'. reboot 1 2 (\<lambda>_. replicate 1024 0) demo_log = Inr r
    \<and> reboot 1 2 (apply_writes (take 1 (dtrace r)) (\<lambda>_. replicate 1024 0)) demo_log = Inr r'
    \<and> agree_outside 2 (disk r') (disk r)"
proof -
  have "log_valid 2 (\<lambda>_. replicate 1024 0)" by (simp add: log_valid_def hdr_n_zeros)
  then show ?thesis
    using recovery_idempotent [of 1 2 "\<lambda>_. replicate 1024 0" demo_log, where 'b = unit] by auto
qed

text \<open>C16. The log has room for what \<^verbatim>\<open>begin_op\<close> admits. However calls of \<^verbatim>\<open>begin_op\<close>, \<^verbatim>\<open>log_write\<close> and \<^verbatim>\<open>end_op\<close> by
  concurrent file system calls interleave, as long as each of them logs at most ten different blocks, any number of times:
  \<^verbatim>\<open>log_write\<close> succeeds while the log is not full, a call that has logged fewer than ten blocks never finds
  it full, and the panic is left for one case, a call that logs one of its ten blocks again when all 30 slots are in use.\<close>

theorem log_space_reserved:
  assumes "log_reach Bs s" and "i < length Bs" and "card (insert (b_blockno (bufs s b)) (Bs ! i)) \<le> 10" and "b < NBUF"
  shows "(lh_n s < int LOGBLOCKS \<longrightarrow> (\<exists>s'. log_write b s = Inr s' \<and> lh_n s' \<le> int LOGBLOCKS
           \<and> log_reach (Bs[i := insert (b_blockno (bufs s b)) (Bs ! i)]) s'))
    \<and> (card (Bs ! i) < 10 \<longrightarrow> lh_n s < int LOGBLOCKS)
    \<and> (\<not> lh_n s < int LOGBLOCKS \<longrightarrow> lh_n s = int LOGBLOCKS \<and> b_blockno (bufs s b) \<in> Bs ! i \<and> Bs ! i \<subseteq> logged s
         \<and> log_write b s = Inl (Panic ''too big a transaction''))"
proof (intro conjI impI)
  let ?k = "b_blockno (bufs s b)"
  have inv: "reserve_inv Bs s" using assms(1) by (rule reserve_inv_reach)
  then have B: "finite (Bs ! i)" "card (Bs ! i) \<le> 10" "Bs ! i \<subseteq> logged s" using assms(2) by (simp_all add: reserve_inv_def)
  have l: "lh_n s + (10 - int (card (Bs ! i))) \<le> 30"
    using budget_left_update(2) [OF assms(2) B(1) assms(3)] B(2) inv unfolding reserve_inv_def by linarith
  show "\<exists>s'. log_write b s = Inr s' \<and> lh_n s' \<le> int LOGBLOCKS \<and> log_reach (Bs[i := insert ?k (Bs ! i)]) s'" if "lh_n s < int LOGBLOCKS"
  proof -
    have "1 \<le> outstanding s" using inv assms(2) by (simp add: reserve_inv_def)
    then have "\<exists>s'. log_write b s = Inr s'" using assms(4) that by (simp add: log_write_def Let_def bpin_def)
    then obtain s' where s': "log_write b s = Inr s'" by blast
    then have "log_reach (Bs[i := insert ?k (Bs ! i)]) s'" using assms(1-3) by (blast intro: op_write)
    moreover from this have "lh_n s' \<le> int LOGBLOCKS" using reserve_inv_reach by (fastforce simp: reserve_inv_def)
    ultimately show ?thesis using s' by blast
  qed
  show "lh_n s < int LOGBLOCKS" if "card (Bs ! i) < 10" using that l by simp
  assume full: "\<not> lh_n s < int LOGBLOCKS"
  then show "lh_n s = int LOGBLOCKS" using inv by (simp add: reserve_inv_def)
  have "card (Bs ! i) = 10" using full l B(2) by simp
  then show "?k \<in> Bs ! i" using assms(3) B(1) by (cases "?k \<in> Bs ! i") simp_all
  show "Bs ! i \<subseteq> logged s" by (rule B(3))
  show "log_write b s = Inl (Panic ''too big a transaction'')" using full by (simp add: log_write_def)
qed

theorem log_space_reserved_witness:
  "\<exists>s s'. begin_op demo_log = Inr s \<and> log_write 3 s = Inr s' \<and> lh_n s' \<le> int LOGBLOCKS \<and> log_reach [{b_blockno (bufs s 3)}] s'"
proof -
  let ?s = "demo_log\<lparr>outstanding := 1\<rparr>"
  have b: "begin_op demo_log = Inr ?s" by (simp add: begin_op_def demo_log_fields)
  have "log_reach [{}] ?s"
    using log_reach.start [of demo_log] b by (intro log_reach.op_begin) (auto simp: demo_log_fields)
  from log_space_reserved [OF this, of 0 3] b show ?thesis by (auto simp: demo_log_fields)
qed

end
