(* ===== verification/Pagetable.thy ===== *)
theory Pagetable
  imports Kalloc
begin

text \<open>
  Sv39 page tables, the first half of \<^verbatim>\<open>src/kernel/vm.c\<close> and the PTE macros of
  \<^verbatim>\<open>src/kernel/riscv.h\<close>. A page table is what the code has: pages of 512 eight-byte entries in
  physical memory, reached from the address of the root. The lemmas describe such a tree by
  its table pages, show that \<^verbatim>\<open>walk\<close> and \<^verbatim>\<open>mappages\<close> only ever extend it with pages taken from
  the free list, and give the mapping that results as a function from virtual pages to entries.
\<close>

section \<open>Page table entries\<close>

definition PTE_V :: u64 where "PTE_V = 1"
definition PTE_R :: u64 where "PTE_R = 2"
definition PTE_W :: u64 where "PTE_W = 4"
definition PTE_X :: u64 where "PTE_X = 8"
definition PTE_U :: u64 where "PTE_U = 16"

definition PA2PTE :: "u64 \<Rightarrow> u64" where
  "PA2PTE pa = push_bit 10 (drop_bit 12 pa)"

definition PTE2PA :: "u64 \<Rightarrow> u64" where
  "PTE2PA pte = push_bit 12 (drop_bit 10 pte)"

definition PTE_FLAGS :: "u64 \<Rightarrow> u64" where
  "PTE_FLAGS pte = pte AND 0x3FF"

definition PXSHIFT :: "nat \<Rightarrow> nat" where
  "PXSHIFT level = 12 + 9 * level"

definition PX :: "nat \<Rightarrow> u64 \<Rightarrow> u64" where
  "PX level va = drop_bit (PXSHIFT level) va AND 0x1FF"

definition MAXVA :: u64 where
  "MAXVA = push_bit (9 + 9 + 9 + 12 - 1) 1"

definition MAKE_SATP :: "u64 \<Rightarrow> u64" where
  "MAKE_SATP pagetable = push_bit 60 8 OR drop_bit 12 pagetable"

definition UART0 :: u64 where "UART0 = 0x10000000"
definition VIRTIO0 :: u64 where "VIRTIO0 = 0x10001000"
definition PLIC :: u64 where "PLIC = 0x0c000000"
definition TRAMPOLINE :: u64 where "TRAMPOLINE = MAXVA - 4096"
definition TRAPFRAME :: u64 where "TRAPFRAME = TRAMPOLINE - 4096"

definition KSTACK :: "nat \<Rightarrow> u64" where
  "KSTACK p = TRAMPOLINE - (of_nat p + 1) * 2 * 4096"

section \<open>Walking and mapping\<close>

text \<open>\<^verbatim>\<open>&pagetable[PX(level, va)]\<close>\<close>

definition pte_addr :: "u64 \<Rightarrow> nat \<Rightarrow> u64 \<Rightarrow> u64" where
  "pte_addr pagetable level va = pagetable + 8 * PX level va"

text \<open>The body of the loop over the levels; the returned address is 0 for the null pointer.\<close>

primrec walk_loop :: "u64 \<Rightarrow> bool \<Rightarrow> nat \<Rightarrow> u64 \<Rightarrow> 'a kmem_scheme \<Rightarrow> u64 \<times> 'a kmem_scheme" where
  "walk_loop va alloc 0 pagetable s = (pte_addr pagetable 0 va, s)"
| "walk_loop va alloc (Suc l) pagetable s =
     (let pte = pte_addr pagetable (Suc l) va
      in if load64 (mem s) pte AND PTE_V \<noteq> 0
         then walk_loop va alloc l (PTE2PA (load64 (mem s) pte)) s
         else if \<not> alloc then (0, s)
         else case kalloc s of (p, s1) \<Rightarrow>
           if p = 0 then (0, s1)
           else let s2 = snd (memset p 0 4096 s1)
                in walk_loop va alloc l p (upd_mem (store64 pte (PA2PTE p OR PTE_V)) s2))"

definition walk :: "u64 \<Rightarrow> u64 \<Rightarrow> bool \<Rightarrow> 'a kmem_scheme \<Rightarrow> (u64 \<times> 'a kmem_scheme) res" where
  "walk pagetable va alloc s =
     (if MAXVA \<le> va then Inl (Panic ''walk'') else Inr (walk_loop va alloc 2 pagetable s))"

definition walkaddr :: "u64 \<Rightarrow> u64 \<Rightarrow> 'a kmem_scheme \<Rightarrow> u64 res" where
  "walkaddr pagetable va s =
     (if MAXVA \<le> va then Inr 0
      else rbind (walk pagetable va False s) (\<lambda>(pte, s1).
        if pte = 0 then Inr 0
        else if load64 (mem s1) pte AND PTE_V = 0 then Inr 0
        else if load64 (mem s1) pte AND PTE_U = 0 then Inr 0
        else Inr (PTE2PA (load64 (mem s1) pte))))"

definition ismapped :: "u64 \<Rightarrow> u64 \<Rightarrow> 'a kmem_scheme \<Rightarrow> bool res" where
  "ismapped pagetable va s =
     rbind (walk pagetable va False s) (\<lambda>(pte, s1).
       if pte = 0 then Inr False
       else if load64 (mem s1) pte AND PTE_V \<noteq> 0 then Inr True
       else Inr False)"

lemma below_MAXVA_step:
  assumes "a < MAXVA"
  shows "unat (a + 4096) = unat a + 4096" and "unat a < 2 ^ 38"
proof -
  show b: "unat a < 2 ^ 38" using assms by (simp add: word_less_nat_alt MAXVA_def)
  then show "unat (a + 4096) = unat a + 4096" by (simp add: unat_word_ariths)
qed

text \<open>The result of \<open>walk\<close> bounds the address, which is what ends every loop over pages.\<close>

lemma walk_below: "walk pagetable a alloc s = Inr r \<Longrightarrow> a < MAXVA"
  by (auto simp: walk_def split: if_splits)

function mappages_loop :: "u64 \<Rightarrow> u64 \<Rightarrow> u64 \<Rightarrow> u64 \<Rightarrow> u32 \<Rightarrow> 'a kmem_scheme \<Rightarrow> (int \<times> 'a kmem_scheme) res" where
  "mappages_loop pagetable a lst pa perm s =
     (case walk pagetable a True s of
        Inl e \<Rightarrow> Inl e
      | Inr (pte, s1) \<Rightarrow>
          if pte = 0 then Inr (-1, s1)
          else if load64 (mem s1) pte AND PTE_V \<noteq> 0 then Inl (Panic ''mappages: remap'')
          else let s2 = upd_mem (store64 pte (PA2PTE pa OR scast perm OR PTE_V)) s1
               in if a = lst then Inr (0, s2)
                  else mappages_loop pagetable (a + 4096) lst (pa + 4096) perm s2)"
  by pat_completeness auto
termination
  by (relation "measure (\<lambda>(pagetable, a, lst, pa, perm, s). 2 ^ 39 - unat a)")
    (auto simp: below_MAXVA_step dest!: walk_below intro!: diff_less_mono2 dest: below_MAXVA_step(2))

declare mappages_loop.simps [simp del]

definition mappages :: "u64 \<Rightarrow> u64 \<Rightarrow> u64 \<Rightarrow> u64 \<Rightarrow> u32 \<Rightarrow> 'a kmem_scheme \<Rightarrow> (int \<times> 'a kmem_scheme) res" where
  "mappages pagetable va sz pa perm s =
     (if va mod 4096 \<noteq> 0 then Inl (Panic ''mappages: va not aligned'')
      else if sz mod 4096 \<noteq> 0 then Inl (Panic ''mappages: size not aligned'')
      else if sz = 0 then Inl (Panic ''mappages: size'')
      else mappages_loop pagetable va (va + sz - 4096) pa perm s)"

definition kvmmap :: "u64 \<Rightarrow> u64 \<Rightarrow> u64 \<Rightarrow> u64 \<Rightarrow> u32 \<Rightarrow> 'a kmem_scheme \<Rightarrow> 'a kmem_scheme res" where
  "kvmmap kpgtbl va pa sz perm s =
     rbind (mappages kpgtbl va sz pa perm s) (\<lambda>(r, s1).
       if r \<noteq> 0 then Inl (Panic ''kvmmap'') else Inr s1)"

definition proc_mapstacks :: "u64 \<Rightarrow> 'a kmem_scheme \<Rightarrow> 'a kmem_scheme res" where
  "proc_mapstacks kpgtbl =
     rfold (\<lambda>i s. case kalloc s of (pa, s1) \<Rightarrow>
         if pa = 0 then Inl (Panic ''kalloc'')
         else kvmmap kpgtbl (KSTACK i) pa 4096 (ucast (PTE_R OR PTE_W)) s1)
       [0..<64]"

text \<open>The linker symbols \<^verbatim>\<open>etext\<close> and \<^verbatim>\<open>trampoline\<close> are parameters.\<close>

definition kvmmake :: "u64 \<Rightarrow> u64 \<Rightarrow> 'a kmem_scheme \<Rightarrow> (u64 \<times> 'a kmem_scheme) res" where
  "kvmmake etext trampoline s =
     (case kalloc s of (kpgtbl, s0) \<Rightarrow>
      rbind (kvmmap kpgtbl UART0 UART0 4096 (ucast (PTE_R OR PTE_W)) (snd (memset kpgtbl 0 4096 s0))) (\<lambda>s1.
      rbind (kvmmap kpgtbl VIRTIO0 VIRTIO0 4096 (ucast (PTE_R OR PTE_W)) s1) (\<lambda>s2.
      rbind (kvmmap kpgtbl PLIC PLIC 0x4000000 (ucast (PTE_R OR PTE_W)) s2) (\<lambda>s3.
      rbind (kvmmap kpgtbl KERNBASE KERNBASE (etext - KERNBASE) (ucast (PTE_R OR PTE_X)) s3) (\<lambda>s4.
      rbind (kvmmap kpgtbl etext etext (PHYSTOP - etext) (ucast (PTE_R OR PTE_W)) s4) (\<lambda>s5.
      rbind (kvmmap kpgtbl TRAMPOLINE trampoline 4096 (ucast (PTE_R OR PTE_X)) s5) (\<lambda>s6.
      rbind (proc_mapstacks kpgtbl s6) (\<lambda>s7. Inr (kpgtbl, s7)))))))))"

text \<open>\<^verbatim>\<open>kvminit\<close> gives the value of the global \<^verbatim>\<open>kernel_pagetable\<close>, \<^verbatim>\<open>kvminithart\<close> that of the register satp.\<close>

definition kvminit :: "u64 \<Rightarrow> u64 \<Rightarrow> 'a kmem_scheme \<Rightarrow> (u64 \<times> 'a kmem_scheme) res" where
  "kvminit etext trampoline = kvmmake etext trampoline"

definition kvminithart :: "u64 \<Rightarrow> u64" where
  "kvminithart kernel_pagetable = MAKE_SATP kernel_pagetable"

definition uvmcreate :: "'a kmem_scheme \<Rightarrow> u64 \<times> 'a kmem_scheme" where
  "uvmcreate s =
     (case kalloc s of (pagetable, s1) \<Rightarrow>
        if pagetable = 0 then (0, s1) else (pagetable, snd (memset pagetable 0 4096 s1)))"

section \<open>Arithmetic of entries and indices\<close>

lemma word_high_bits:
  assumes "unat (w :: 'a::len word) < 2 ^ k" and "k \<le> n"
  shows "\<not> bit w n"
proof -
  have "unat w < 2 ^ n" using assms by (meson less_le_trans one_le_numeral power_increasing)
  then have "\<not> bit (unat w) n" by (simp add: bit_iff_odd)
  then show ?thesis by (auto simp: bit_unsigned_iff)
qed

lemma word_bounded_bits:
  assumes "\<And>n. k \<le> n \<Longrightarrow> \<not> bit (w :: 'a::len word) n"
  shows "unat w < 2 ^ k"
proof -
  have "take_bit k w = w"
    using assms by (intro bit_word_eqI) (metis bit_take_bit_iff not_less)
  then show ?thesis by (metis unsigned_take_bit_eq take_bit_nat_less_exp)
qed

lemma aligned_low_bits: "page_aligned v \<Longrightarrow> n < 12 \<Longrightarrow> \<not> bit v n"
proof -
  assume "page_aligned v" and n: "n < 12"
  then have "take_bit 12 v = 0" by (simp add: page_aligned_def take_bit_eq_mod)
  then have "\<not> bit (take_bit 12 v) n" by simp
  with n show ?thesis by (simp add: bit_take_bit_iff)
qed

lemma PTE2PA_PA2PTE:
  assumes "page_aligned pa" and "unat pa < 2 ^ 56" and "unat f < 2 ^ 10"
  shows "PTE2PA (PA2PTE pa OR f) = pa" and "PTE_FLAGS (PA2PTE pa OR f) = f"
proof -
  note bits = aligned_low_bits [OF assms(1)] word_high_bits [OF assms(2)] word_high_bits [OF assms(3)]
  show "PTE2PA (PA2PTE pa OR f) = pa"
  proof (rule bit_word_eqI)
    fix n assume "n < LENGTH(64)"
    then show "bit (PTE2PA (PA2PTE pa OR f)) n = bit pa n"
      using bits by (cases "n < 12") (auto simp: PTE2PA_def PA2PTE_def bit_simps not_less)
  qed
  have "PTE_FLAGS (PA2PTE pa OR f) = take_bit 10 (PA2PTE pa OR f)"
    by (simp add: PTE_FLAGS_def take_bit_eq_mask mask_eq_exp_minus_1)
  also have "\<dots> = f"
    by (rule bit_word_eqI) (use bits in \<open>auto simp: PA2PTE_def bit_simps not_less\<close>)
  finally show "PTE_FLAGS (PA2PTE pa OR f) = f" .
qed

lemma PX_less: "PX l va < 512"
proof -
  have "PX l va = take_bit 9 (drop_bit (PXSHIFT l) va)"
    by (simp add: PX_def take_bit_eq_mask mask_eq_exp_minus_1)
  then have "unat (PX l va) < 2 ^ 9"
    by (simp only: unsigned_take_bit_eq take_bit_nat_less_exp)
  then show ?thesis by (simp add: word_less_nat_alt)
qed

lemma bit_PX: "bit (PX l va) n \<longleftrightarrow> n < 9 \<and> bit va (12 + 9 * l + n)"
proof -
  have "PX l va = take_bit 9 (drop_bit (PXSHIFT l) va)"
    by (simp add: PX_def take_bit_eq_mask mask_eq_exp_minus_1)
  then show ?thesis by (auto simp: bit_simps PXSHIFT_def dest: bit_imp_le_length)
qed

text \<open>The three indices determine a page below \<^verbatim>\<open>MAXVA\<close>.\<close>

lemma PX_inj:
  assumes "va < MAXVA" "vb < MAXVA" "page_aligned va" "page_aligned vb"
    and "PX 2 va = PX 2 vb" "PX 1 va = PX 1 vb" "PX 0 va = PX 0 vb"
  shows "va = vb"
proof (rule bit_word_eqI)
  fix n assume n: "n < LENGTH(64)"
  have mid: "bit (PX l va) k = bit (PX l vb) k" if "l < 3" for l k
    using that assms(5-7) by (auto simp: less_Suc_eq numeral_3_eq_3 numeral_2_eq_2)
  consider "n < 12" | "12 \<le> n" "n < 39" | "39 \<le> n" by linarith
  then show "bit va n = bit vb n"
  proof cases
    case 2
    define l where "l = (n - 12) div 9"
    define k where "k = (n - 12) mod 9"
    have l3: "l < 3" "k < 9" and e: "n = 12 + 9 * l + k" using 2 unfolding l_def k_def by auto
    show ?thesis using mid [OF l3(1), of k] l3(2) unfolding bit_PX e by simp
  next
    case 3
    then show ?thesis
      using word_high_bits [of va 38 n] word_high_bits [of vb 38 n] below_MAXVA_step(2) assms(1,2) by simp
  qed (use aligned_low_bits assms in auto)
qed

section \<open>Entries of a table page\<close>

definition entry :: "memory \<Rightarrow> u64 \<Rightarrow> u64 \<Rightarrow> u64" where
  "entry m a i = load64 m (a + 8 * i)"

lemma entry_offset:
  assumes "i < 512" and "in_region (a + 8 * i) 8 x"
  shows "unat (x - a) = unat (x - (a + 8 * i)) + 8 * unat i"
proof -
  have i: "unat i < 512" using assms(1) by (simp add: word_less_nat_alt)
  then have e: "unat (8 * i) = 8 * unat i" by (simp add: unat_word_ariths)
  have "unat (x - (a + 8 * i)) + unat (8 * i) < 2 ^ 64"
    using assms(2) i e by (simp add: in_region_def)
  then have "unat ((x - (a + 8 * i)) + 8 * i) = unat (x - (a + 8 * i)) + unat (8 * i)"
    by (subst unat_word_ariths(1)) simp
  moreover have "(x - (a + 8 * i)) + 8 * i = x - a" by simp
  ultimately show ?thesis using e by metis
qed

lemma entry_region:
  assumes "i < 512" and "in_region (a + 8 * i) 8 x"
  shows "in_region a PGSIZE x"
  using entry_offset [OF assms] assms by (simp add: in_region_def word_less_nat_alt)

lemma entry_regions_apart:
  assumes "i < 512" "j < 512" "i \<noteq> j"
  shows "disjoint_regions (a + 8 * i) 8 (a + 8 * j) 8"
proof -
  have "unat (x - a) div 8 = unat k" if "k < 512" "in_region (a + 8 * k) 8 x" for k x
    using entry_offset [OF that] that(2) by (simp add: in_region_def)
  then show ?thesis unfolding disjoint_regions_def using assms by (metis word_unat_eq_iff)
qed

lemma entry_store_same: "entry (store64 (a + 8 * i) w m) a i = w"
  by (simp add: entry_def)

lemma entry_store_index:
  "i < 512 \<Longrightarrow> j < 512 \<Longrightarrow> i \<noteq> j \<Longrightarrow> entry (store64 (a + 8 * i) w m) a j = entry m a j"
  by (simp add: entry_def load64_store64_other entry_regions_apart)

lemma entry_cong:
  assumes "j < 512" and "\<And>x. in_region a PGSIZE x \<Longrightarrow> m x = m' x"
  shows "entry m a j = entry m' a j"
  unfolding entry_def using assms entry_region [OF assms(1)] by (intro load64_cong) blast

lemma entry_store_page:
  assumes "page_aligned a" "page_aligned b" "a \<noteq> b" "i < 512" "j < 512"
  shows "entry (store64 (a + 8 * i) w m) b j = entry m b j"
proof (rule entry_cong [OF assms(5)])
  fix x assume "in_region b PGSIZE x"
  then have "\<not> in_region a PGSIZE x"
    using disjoint_pages [of a b] assms(1-3) by (auto simp: disjoint_regions_def)
  then show "store64 (a + 8 * i) w m x = m x"
    using entry_region [OF assms(4)] by (intro store64_outside) blast
qed

lemma load64_zero: "(\<And>x. in_region a 8 x \<Longrightarrow> m x = 0) \<Longrightarrow> load64 m a = 0"
proof -
  assume z: "\<And>x. in_region a 8 x \<Longrightarrow> m x = 0"
  have "load64 m a = load64 (\<lambda>_. 0) a" by (rule load64_cong) (simp add: z)
  also have "\<dots> = 0"
    unfolding load64_def load_bytes_def by (simp add: upt_rec)
  finally show ?thesis .
qed

lemma entry_zero: "i < 512 \<Longrightarrow> (\<And>x. in_region a PGSIZE x \<Longrightarrow> m x = 0) \<Longrightarrow> entry m a i = 0"
  unfolding entry_def using entry_region by (intro load64_zero) blast

section \<open>The tree of table pages\<close>

text \<open>\<open>node m root p\<close> is the table page that the indices \<open>p\<close> lead to; \<open>leaf\<close> is the entry of a
  virtual page, 0 where a table page is missing.\<close>

definition child :: "memory \<Rightarrow> u64 \<Rightarrow> u64 \<Rightarrow> u64 option" where
  "child m a i = (if entry m a i AND PTE_V \<noteq> 0 then Some (PTE2PA (entry m a i)) else None)"

fun node :: "memory \<Rightarrow> u64 \<Rightarrow> u64 list \<Rightarrow> u64 option" where
  "node m a [] = Some a"
| "node m a (i # is) = (case child m a i of None \<Rightarrow> None | Some b \<Rightarrow> node m b is)"

definition leaf :: "memory \<Rightarrow> u64 \<Rightarrow> u64 \<Rightarrow> u64" where
  "leaf m root va = (case node m root [PX 2 va, PX 1 va] of None \<Rightarrow> 0 | Some a \<Rightarrow> entry m a (PX 0 va))"

definition is_path :: "u64 list \<Rightarrow> bool" where
  "is_path p \<longleftrightarrow> length p \<le> 2 \<and> (\<forall>i \<in> set p. i < 512)"

definition tables :: "memory \<Rightarrow> u64 \<Rightarrow> u64 set" where
  "tables m root = {a. \<exists>p. is_path p \<and> node m root p = Some a}"

text \<open>An entry of the two upper levels never has a permission bit: it points to a table. The
  upper half of the root is empty, since \<^verbatim>\<open>MAXVA\<close> is one bit short of what Sv39 allows.\<close>

definition dir_ok :: "memory \<Rightarrow> u64 \<Rightarrow> bool" where
  "dir_ok m root \<longleftrightarrow> (\<forall>p a i. is_path p \<longrightarrow> length p < 2 \<longrightarrow> node m root p = Some a \<longrightarrow> i < 512 \<longrightarrow>
     entry m a i AND PTE_V \<noteq> 0 \<longrightarrow>
     entry m a i AND (PTE_R OR PTE_W OR PTE_X) = 0 \<and> (p = [] \<longrightarrow> i < 256))"

definition wf_pt :: "u64 \<Rightarrow> memory \<Rightarrow> u64 \<Rightarrow> bool" where
  "wf_pt kend m root \<longleftrightarrow> tables m root \<subseteq> Collect (valid_kalloc_ptr kend) \<and> dir_ok m root
     \<and> (\<forall>p q a. is_path p \<longrightarrow> is_path q \<longrightarrow> node m root p = Some a \<longrightarrow> node m root q = Some a \<longrightarrow> p = q)"

lemma is_path_simps [simp]:
  "is_path []" "is_path [i] \<longleftrightarrow> i < 512" "is_path [i, j] \<longleftrightarrow> i < 512 \<and> j < 512"
  "\<not> is_path (i # j # k # p)"
  by (auto simp: is_path_def)

lemma is_path_cases:
  assumes "is_path p"
  obtains "p = []" | i where "p = [i]" "i < 512" | i j where "p = [i, j]" "i < 512" "j < 512"
proof (cases p)
  case (Cons i q)
  then show thesis using assms that
    by (cases q; cases "tl q") auto
qed (rule that(1))

lemma tablesI: "is_path p \<Longrightarrow> node m root p = Some a \<Longrightarrow> a \<in> tables m root"
  by (auto simp: tables_def)

lemma root_in_tables [simp]: "root \<in> tables m root"
  by (rule tablesI [of "[]"]) simp_all

lemma wf_ptD:
  assumes "wf_pt kend m root"
  shows "a \<in> tables m root \<Longrightarrow> valid_kalloc_ptr kend a"
    and "is_path p \<Longrightarrow> is_path q \<Longrightarrow> node m root p = Some a \<Longrightarrow> node m root q = Some a \<Longrightarrow> p = q"
  using assms by (auto simp: wf_pt_def)

lemma wf_pt_aligned: "wf_pt kend m root \<Longrightarrow> a \<in> tables m root \<Longrightarrow> page_aligned a"
  using wf_ptD(1) valid_kalloc_ptrD by blast

lemma child_cong: "i < 512 \<Longrightarrow> (\<And>x. in_region a PGSIZE x \<Longrightarrow> m' x = m x) \<Longrightarrow> child m' a i = child m a i"
  using entry_cong [of i a m' m] by (simp add: child_def)

lemma node_cong:
  assumes "\<And>a x. a \<in> tables m root \<Longrightarrow> in_region a PGSIZE x \<Longrightarrow> m' x = m x" and "is_path p"
  shows "node m' root p = node m root p"
proof -
  have c: "child m' a i = child m a i" if "a \<in> tables m root" "i < 512" for a i
    using that assms(1) by (intro child_cong) blast+
  from assms(2) show ?thesis
  proof (cases rule: is_path_cases)
    case (3 i j)
    have "b \<in> tables m root" if "child m root i = Some b" for b
      using that 3 tablesI [of "[i]" m root b] by simp
    then show ?thesis using 3 c by (auto split: option.split)
  qed (use c in \<open>auto split: option.split\<close>)
qed

lemma tables_cong:
  assumes "\<And>a x. a \<in> tables m root \<Longrightarrow> in_region a PGSIZE x \<Longrightarrow> m' x = m x"
  shows "tables m' root = tables m root" and "wf_pt kend m' root = wf_pt kend m root"
    and "leaf m' root va = leaf m root va"
proof -
  have n: "node m' root p = node m root p" if "is_path p" for p
    using assms that by (rule node_cong)
  show t: "tables m' root = tables m root" unfolding tables_def using n by (auto)
  have e: "entry m' a i = entry m a i" if "is_path p" "node m root p = Some a" "i < 512" for p a i
    using that(3) by (rule entry_cong) (rule assms [OF tablesI [OF that(1,2)]])
  have "dir_ok m' root = dir_ok m root"
    unfolding dir_ok_def by (intro iff_allI imp_cong refl) (simp_all add: n e)
  then show "wf_pt kend m' root = wf_pt kend m root" unfolding wf_pt_def t using n by auto
  have "entry m' a (PX 0 va) = entry m a (PX 0 va)" if "node m root [PX 2 va, PX 1 va] = Some a" for a
    using that assms tablesI [of "[PX 2 va, PX 1 va]" m root a] by (intro entry_cong) (auto simp: PX_less)
  then show "leaf m' root va = leaf m root va"
    using n [of "[PX 2 va, PX 1 va]"] by (auto simp: leaf_def PX_less simp del: node.simps split: option.split)
qed

text \<open>Hooking a zeroed page into an empty entry of a table page of an upper level.\<close>

lemma graft:
  assumes wf: "wf_pt kend m root" and pi: "node m root \<pi> = Some a" "length \<pi> < 2" "is_path \<pi>"
    and e: "i < 512" "entry m a i AND PTE_V = 0"
    and new: "p \<notin> tables m root" "valid_kalloc_ptr kend p" "e' AND PTE_V \<noteq> 0" "PTE2PA e' = p"
    and m1: "\<And>x. in_region p PGSIZE x \<Longrightarrow> m1 x = 0" "\<And>x. \<not> in_region p PGSIZE x \<Longrightarrow> m1 x = m x"
  defines "m' \<equiv> store64 (a + 8 * i) e' m1"
  shows "is_path q \<Longrightarrow> node m' root q = (if q = \<pi> @ [i] then Some p else node m root q)"
    and "leaf m' root va = leaf m root va"
    and "b \<in> tables m root \<Longrightarrow> j < 512 \<Longrightarrow> entry m' b j = (if b = a \<and> j = i then e' else entry m b j)"
    and "j < 512 \<Longrightarrow> entry m' p j = 0"
proof -
  have a: "a \<in> tables m root" using pi by (auto intro: tablesI)
  have al: "page_aligned b" if "b \<in> tables m root" for b using that wf wf_pt_aligned by blast
  have p: "page_aligned p" "p \<noteq> a" using new a valid_kalloc_ptrD by auto
  show same: "entry m' b j = (if b = a \<and> j = i then e' else entry m b j)"
    if "b \<in> tables m root" "j < 512" for b j
  proof -
    have "b \<noteq> p" using that new by auto
    then have "m1 x = m x" if "in_region b PGSIZE x" for x
      using that m1(2) disjoint_pages [of b p] p al [OF \<open>b \<in> tables m root\<close>] by (auto simp: disjoint_regions_def)
    then have "entry m1 b j = entry m b j" using that(2) by (intro entry_cong)
    then show ?thesis
      using that e(1) al a entry_store_page [of a b i j e' m1] entry_store_index [of i j a e' m1]
      by (cases "b = a") (auto simp: m'_def entry_store_same)
  qed
  show fresh: "entry m' p j = 0" if "j < 512" for j
    using that e p al [OF a] m1(1) entry_zero [of j p m1] entry_store_page [of a p i j e' m1] by (simp add: m'_def)
  have c: "child m' b j = (if b = a \<and> j = i then Some p else child m b j)"
    if "b \<in> tables m root" "j < 512" for b j using same [OF that] new by (cases "b = a \<and> j = i") (auto simp: child_def)
  have cp: "child m' p j = None" if "j < 512" for j using fresh [OF that] by (simp add: child_def)
  have ca: "child m a i = None" using e by (simp add: child_def)
  have t: "b \<in> tables m root" if "child m root j = Some b" "j < 512" for b j
    using that tablesI [of "[j]" m root b] by simp
  have na: "\<pi> = []" if "a = root" using wf_ptD(2) [OF wf pi(3) is_path_simps(1) pi(1)] that by simp
  have n1: "\<pi> = [j]" if "child m root j = Some a" "j < 512" for j
    using wf_ptD(2) [OF wf pi(3) _ pi(1), of "[j]"] that by simp
  show node: "node m' root q = (if q = \<pi> @ [i] then Some p else node m root q)" if "is_path q" for q
    using that
  proof (cases rule: is_path_cases)
    case (2 j)
    then show ?thesis using c [of root j] na pi by (auto split: option.split)
  next
    case (3 j k)
    show ?thesis
    proof (cases "a = root")
      case True
      with na have "\<pi> = []" by simp
      with 3 True show ?thesis using c [of root j] cp ca c t n1 [of j] by (auto split: option.split)
    next
      case False
      with 3 show ?thesis using c [of root j] c t n1 [of j] pi
        by (auto split: option.split if_splits simp: ca)
    qed
  qed simp
  show "leaf m' root va = leaf m root va"
  proof (cases "[PX 2 va, PX 1 va] = \<pi> @ [i]")
    case True
    then have "node m root [PX 2 va, PX 1 va] = None"
      using pi ca by (cases \<pi>) (auto split: option.splits)
    then show ?thesis using node [of "[PX 2 va, PX 1 va]"] True fresh [OF PX_less]
      by (simp add: leaf_def PX_less del: node.simps)
  next
    case False
    have "b \<noteq> a" if "node m root [PX 2 va, PX 1 va] = Some b" for b
      using wf_ptD(2) [OF wf pi(3) _ pi(1), of "[PX 2 va, PX 1 va]"] that pi(2) by (auto simp: PX_less)
    then show ?thesis using node [of "[PX 2 va, PX 1 va]"] False same [OF tablesI [of "[PX 2 va, PX 1 va]"] PX_less]
      by (auto simp: leaf_def PX_less simp del: node.simps split: option.split)
  qed
qed

text \<open>Writing the last-level entry of one virtual page.\<close>

lemma set_leaf:
  fixes e :: u64
  assumes wf: "wf_pt kend m root" and a: "node m root [PX 2 va, PX 1 va] = Some a"
  defines "m' \<equiv> store64 (a + 8 * PX 0 va) e m"
  shows "is_path q \<Longrightarrow> node m' root q = node m root q"
    and "tables m' root = tables m root" and "wf_pt kend m' root"
    and "va < MAXVA \<Longrightarrow> vb < MAXVA \<Longrightarrow> page_aligned va \<Longrightarrow> page_aligned vb \<Longrightarrow>
           leaf m' root vb = (if vb = va then e else leaf m root vb)"
proof -
  let ?\<pi> = "[PX 2 va, PX 1 va]"
  have pa: "is_path ?\<pi>" by (simp add: PX_less)
  have at: "a \<in> tables m root" using a pa by (rule tablesI [rotated])
  have al: "page_aligned b" if "b \<in> tables m root" for b using that wf wf_pt_aligned by blast
  have same: "entry m' b j = entry m b j" if "b \<in> tables m root" "b \<noteq> a" "j < 512" for b j
    unfolding m'_def using that al at entry_store_page [of a b "PX 0 va" j] by (simp add: PX_less)
  have c: "child m' b j = child m b j" if "b \<in> tables m root" "b \<noteq> a" "j < 512" for b j
    using same [OF that] by (simp add: child_def)
  have up: "b \<noteq> a" if "node m root q = Some b" "is_path q" "length q < 2" for b q
    using wf_ptD(2) [OF wf pa that(2) a] that by auto
  show n: "node m' root q = node m root q" if "is_path q" for q
    using that
  proof (cases rule: is_path_cases)
    case (2 i)
    then show ?thesis using c [of root i] up [of "[]" root] by (simp split: option.split)
  next
    case (3 i j)
    have "b \<in> tables m root \<and> b \<noteq> a" if "child m root i = Some b" for b
      using that 3 tablesI [of "[i]" m root b] up [of "[i]" b] by simp
    then show ?thesis using 3 c up [of "[]" root] by (auto split: option.split)
  qed simp
  then show t: "tables m' root = tables m root" by (auto simp: tables_def)
  have "dir_ok m' root" unfolding dir_ok_def
  proof (intro allI impI)
    fix q b j assume q: "is_path q" "length q < 2" "node m' root q = Some b" "j < 512" "entry m' b j AND PTE_V \<noteq> 0"
    have b: "node m root q = Some b" using q(1,3) n by simp
    have "entry m' b j = entry m b j" using same [OF tablesI [OF q(1) b] up [OF b q(1,2)] q(4)] .
    then show "entry m' b j AND (PTE_R OR PTE_W OR PTE_X) = 0 \<and> (q = [] \<longrightarrow> j < 256)"
      using wf q b unfolding wf_pt_def dir_ok_def by auto
  qed
  then show "wf_pt kend m' root" unfolding wf_pt_def t using wf n by (auto simp: wf_pt_def)
  assume va: "va < MAXVA" "vb < MAXVA" "page_aligned va" "page_aligned vb"
  show "leaf m' root vb = (if vb = va then e else leaf m root vb)"
  proof (cases "vb = va")
    case True
    then show ?thesis using n [OF pa] a by (simp add: leaf_def m'_def entry_store_same del: node.simps)
  next
    case False
    have "entry m' b (PX 0 vb) = entry m b (PX 0 vb)" if b: "node m root [PX 2 vb, PX 1 vb] = Some b" for b
    proof (cases "b = a")
      case True
      then have "PX 2 vb = PX 2 va" "PX 1 vb = PX 1 va"
        using wf_ptD(2) [OF wf pa _ a, of "[PX 2 vb, PX 1 vb]"] b by (auto simp: PX_less)
      then have "PX 0 va \<noteq> PX 0 vb" using False va PX_inj by metis
      then show ?thesis unfolding m'_def True using entry_store_index [of "PX 0 va" "PX 0 vb"] by (simp add: PX_less)
    next
      case False
      have "b \<in> tables m root" by (rule tablesI [OF _ b]) (simp add: PX_less)
      then show ?thesis using False same by (simp add: PX_less)
    qed
    then show ?thesis using False n [of "[PX 2 vb, PX 1 vb]"]
      by (auto simp: leaf_def PX_less simp del: node.simps split: option.split)
  qed
qed

section \<open>Growing a tree from the free list\<close>

lemma free_list_frame:
  assumes "free_list kend s ys" and "freelist s' = freelist s" and "free_pages s' = free_pages s"
    and "\<And>p x. p \<in> set ys \<Longrightarrow> in_region p PGSIZE x \<Longrightarrow> mem s' x = mem s x"
  shows "free_list kend s' ys"
proof -
  have "load64 (mem s') p = load64 (mem s) p" if "p \<in> set ys" for p
    using that assms(4) in_region_mono [of p 8 _ PGSIZE] by (intro load64_cong) auto
  then have "free_chain (mem s') (freelist s) ys = free_chain (mem s) (freelist s) ys"
    by (rule free_chain_cong)
  then show ?thesis using assms(1-3) by (simp add: free_list_def)
qed

definition pt_inv :: "u64 \<Rightarrow> 'a kmem_scheme \<Rightarrow> u64 \<Rightarrow> u64 list \<Rightarrow> bool" where
  "pt_inv kend s root xs \<longleftrightarrow>
     free_list kend s xs \<and> wf_pt kend (mem s) root \<and> tables (mem s) root \<inter> set xs = {}"

definition pt_ext :: "u64 \<Rightarrow> u64 \<Rightarrow> 'a kmem_scheme \<Rightarrow> u64 list \<Rightarrow> 'a kmem_scheme \<Rightarrow> u64 list \<Rightarrow> bool" where
  "pt_ext kend root s xs s' ys \<longleftrightarrow>
     pt_inv kend s' root ys \<and> (\<exists>zs. xs = zs @ ys)
     \<and> tables (mem s') root = tables (mem s) root \<union> (set xs - set ys)
     \<and> leaf (mem s') root = leaf (mem s) root
     \<and> (\<forall>x. PGROUNDDOWN x \<notin> tables (mem s') root \<longrightarrow> mem s' x = mem s x)
     \<and> kmem.more s' = kmem.more s"

lemma pt_ext_refl: "pt_inv kend s root xs \<Longrightarrow> pt_ext kend root s xs s xs"
  by (simp add: pt_ext_def)

lemma pt_ext_trans:
  assumes "pt_ext kend root s xs s' ys" and "pt_ext kend root s' ys s'' zs"
  shows "pt_ext kend root s xs s'' zs"
proof -
  have "set zs \<subseteq> set ys" "set ys \<subseteq> set xs" using assms by (auto simp: pt_ext_def)
  then have t: "tables (mem s'') root = tables (mem s) root \<union> (set xs - set zs)"
    using assms by (auto simp: pt_ext_def)
  moreover have "tables (mem s') root \<subseteq> tables (mem s'') root" using assms by (auto simp: pt_ext_def)
  ultimately show ?thesis using assms unfolding pt_ext_def by (auto simp: t)
qed

lemma valid_ptr_bounds: "valid_kalloc_ptr kend p \<Longrightarrow> unat p < 2 ^ 56"
  by (simp add: valid_kalloc_ptr_def word_le_nat_alt PHYSTOP_def)

lemma or_PTE_V: "(w OR PTE_V) AND PTE_V \<noteq> 0"
proof -
  have "(w OR 1) AND 1 = (1 :: u64)" by (rule bit_word_eqI) (auto simp: bit_simps)
  then show ?thesis by (simp add: PTE_V_def)
qed

lemma PTE_of_page:
  assumes "valid_kalloc_ptr kend p"
  shows "PTE2PA (PA2PTE p OR PTE_V) = p" and "(PA2PTE p OR PTE_V) AND PTE_V \<noteq> 0"
proof -
  note v = valid_kalloc_ptrD [OF assms] valid_ptr_bounds [OF assms]
  show "PTE2PA (PA2PTE p OR PTE_V) = p" using v by (intro PTE2PA_PA2PTE) (simp_all add: PTE_V_def)
  show "(PA2PTE p OR PTE_V) AND PTE_V \<noteq> 0"
    by (rule or_PTE_V)
qed

lemma dir_pte:
  assumes "valid_kalloc_ptr kend p"
  shows "(PA2PTE p OR PTE_V) AND (PTE_R OR PTE_W OR PTE_X) = 0"
proof -
  have f: "PTE_FLAGS (PA2PTE p OR PTE_V) = PTE_V"
    using valid_kalloc_ptrD [OF assms] valid_ptr_bounds [OF assms] by (intro PTE2PA_PA2PTE) (simp_all add: PTE_V_def)
  have "e AND (PTE_R OR PTE_W OR PTE_X) = PTE_FLAGS e AND (PTE_R OR PTE_W OR PTE_X)" for e
    unfolding PTE_FLAGS_def and.assoc by (simp add: PTE_R_def PTE_W_def PTE_X_def)
  then have "(PA2PTE p OR PTE_V) AND (PTE_R OR PTE_W OR PTE_X) = PTE_V AND (PTE_R OR PTE_W OR PTE_X)" using f by metis
  then show ?thesis by (simp add: PTE_V_def PTE_R_def PTE_W_def PTE_X_def)
qed

lemma graft_step:
  assumes inv: "pt_inv kend s root (p # ys)" and pi: "node (mem s) root \<pi> = Some a" "length \<pi> < 2" "is_path \<pi>"
    and i: "i < 512" "entry (mem s) a i AND PTE_V = 0" and low: "\<pi> = [] \<Longrightarrow> i < 256" and s1: "kalloc s = (p, s1)"
  defines "s' \<equiv> upd_mem (store64 (a + 8 * i) (PA2PTE p OR PTE_V)) (snd (memset p 0 4096 s1))"
  shows "pt_ext kend root s (p # ys) s' ys" and "node (mem s') root (\<pi> @ [i]) = Some p"
proof -
  have fl: "free_list kend s (p # ys)" and wf: "wf_pt kend (mem s) root"
    and dj: "p \<notin> tables (mem s) root" "tables (mem s) root \<inter> set ys = {}"
    using inv by (auto simp: pt_inv_def)
  have v: "valid_kalloc_ptr kend p" "p \<notin> set ys" "p \<noteq> 0" "page_aligned p"
    "\<forall>q \<in> set ys. page_aligned q"
    using fl valid_kalloc_ptrD by (auto simp: free_list_def)
  obtain s2 where "kalloc s = (p, s2)" "free_list kend s2 ys" "page_update p s s2" "kmem.more s2 = kmem.more s"
    using free_list_kalloc [OF fl] by metis
  then have k: "free_list kend s1 ys" "page_update p s s1" "kmem.more s1 = kmem.more s" using s1 by auto
  have a: "a \<in> tables (mem s) root" "page_aligned a"
    using pi tablesI wf_pt_aligned [OF wf] by blast+
  let ?m1 = "mem (snd (memset p 0 4096 s1))"
  have m1: "in_region p PGSIZE x \<Longrightarrow> ?m1 x = 0" "\<not> in_region p PGSIZE x \<Longrightarrow> ?m1 x = mem s x" for x
    using k(2) v(3) by (simp_all add: page_update_def)
  have s'm: "mem s' = store64 (a + 8 * i) (PA2PTE p OR PTE_V) ?m1" by (simp add: s'_def)
  note g = graft [OF wf pi i dj(1) v(1) PTE_of_page(2,1) [OF v(1)], where ?m1.0 = ?m1, folded s'm]
  have g: "is_path q \<Longrightarrow> node (mem s') root q = (if q = \<pi> @ [i] then Some p else node (mem s) root q)"
    "leaf (mem s') root va = leaf (mem s) root va"
    "b \<in> tables (mem s) root \<Longrightarrow> j < 512 \<Longrightarrow>
       entry (mem s') b j = (if b = a \<and> j = i then PA2PTE p OR PTE_V else entry (mem s) b j)"
    "j < 512 \<Longrightarrow> entry (mem s') p j = 0" for q va b j
    by (rule g; use m1 in simp)+
  have \<pi>': "is_path (\<pi> @ [i])" using pi i by (auto simp: is_path_def)
  show n: "node (mem s') root (\<pi> @ [i]) = Some p" using g(1) [OF \<pi>'] by simp
  have n0: "node (mem s) root (\<pi> @ [i]) = None"
    using pi i by (cases \<pi>) (auto simp: child_def split: option.splits if_splits)
  have in_s: "node (mem s) root q = Some b \<and> q \<noteq> \<pi> @ [i] \<or> b = p \<and> q = \<pi> @ [i]"
    if "is_path q" "node (mem s') root q = Some b" for q b
    using that g(1) [OF that(1)] by (auto split: if_splits)
  have keep: "node (mem s') root q = Some b" if "is_path q" "node (mem s) root q = Some b" for q b
    using that g(1) [OF that(1)] n0 by auto
  have "tables (mem s') root \<subseteq> insert p (tables (mem s) root)"
    using in_s by (auto simp: tables_def)
  moreover have "tables (mem s) root \<subseteq> tables (mem s') root" using keep by (auto simp: tables_def)
  ultimately have t: "tables (mem s') root = insert p (tables (mem s) root)"
    using tablesI [OF \<pi>' n] by blast
  have "dir_ok (mem s') root" unfolding dir_ok_def
  proof (intro allI impI)
    fix q b j assume q: "is_path q" "length q < 2" "node (mem s') root q = Some b" "j < 512" "entry (mem s') b j AND PTE_V \<noteq> 0"
    from in_s [OF q(1,3)] show "entry (mem s') b j AND (PTE_R OR PTE_W OR PTE_X) = 0 \<and> (q = [] \<longrightarrow> j < 256)"
    proof (elim disjE conjE)
      assume b: "node (mem s) root q = Some b"
      have "entry (mem s') b j = (if b = a \<and> j = i then PA2PTE p OR PTE_V else entry (mem s) b j)"
        using g(3) tablesI [OF q(1) b] q(4) by blast
      moreover have "q = \<pi>" if "b = a" using wf_ptD(2) [OF wf q(1) pi(3) b] pi(1) that by simp
      ultimately show ?thesis
        using wf q b dir_pte [OF v(1)] low unfolding wf_pt_def dir_ok_def by (auto split: if_splits)
    next
      assume "b = p"
      then show ?thesis using g(4) q(4,5) by simp
    qed
  qed
  then have wf': "wf_pt kend (mem s') root"
    unfolding wf_pt_def t using in_s wf_ptD [OF wf] v(1) dj(1) tablesI [of _ "mem s" root] by blast
  have out: "mem s' x = mem s x" if "PGROUNDDOWN x \<notin> insert p (tables (mem s) root)" for x
  proof -
    have "\<not> in_region p PGSIZE x" "\<not> in_region a PGSIZE x"
      using that a v(4) by (auto simp: in_page_iff)
    moreover from this have "\<not> in_region (a + 8 * i) 8 x" using entry_region [OF i(1)] by blast
    ultimately show ?thesis unfolding s'm using m1(2) store64_outside by metis
  qed
  have "free_list kend s' ys"
  proof (rule free_list_frame [OF k(1)])
    fix q x assume q: "q \<in> set ys" "in_region q PGSIZE x"
    then have "PGROUNDDOWN x = q" using v(5) in_page_iff by blast
    then have "PGROUNDDOWN x \<notin> insert p (tables (mem s) root)" using q(1) v(2) dj(2) by auto
    moreover from this have "mem s1 x = mem s x"
      using k(2) v(4) by (auto simp: page_update_def in_page_iff)
    ultimately show "mem s' x = mem s1 x" using out by simp
  qed (use v(3) in \<open>simp_all add: s'_def\<close>)
  moreover have "kmem.more s' = kmem.more s" using v(3) k(3) by (simp add: s'_def)
  moreover have "leaf (mem s') root = leaf (mem s) root" using g(2) by auto
  ultimately show "pt_ext kend root s (p # ys) s' ys"
    using wf' t out dj v(2) unfolding pt_ext_def pt_inv_def by auto
qed

lemma PX_2_low: "va < MAXVA \<Longrightarrow> PX 2 va < 256"
proof -
  assume "va < MAXVA"
  then have "unat va < 2 ^ 38" by (rule below_MAXVA_step)
  then have "\<not> bit va n" if "38 \<le> n" for n using that by (rule word_high_bits)
  then have "\<not> bit (PX 2 va) n" if "8 \<le> n" for n using that by (simp add: bit_PX)
  then have "unat (PX 2 va) < 2 ^ 8" by (rule word_bounded_bits)
  then show ?thesis by (simp add: word_less_nat_alt)
qed

lemma walk_step:
  assumes "pt_inv kend s root xs" and "node (mem s) root \<pi> = Some a" "length \<pi> < 2" "is_path \<pi>"
    and "\<pi> = [] \<Longrightarrow> PX (Suc l) va < 256"
  obtains (miss) "walk_loop va True (Suc l) a s = (0, s)" "xs = []"
  | (hit) b s' ys where "walk_loop va True (Suc l) a s = walk_loop va True l b s'"
      "pt_ext kend root s xs s' ys" "node (mem s') root (\<pi> @ [PX (Suc l) va]) = Some b" "length xs \<le> Suc (length ys)"
proof (cases "entry (mem s) a (PX (Suc l) va) AND PTE_V = 0")
  case empty: True
  then have c: "load64 (mem s) (pte_addr a (Suc l) va) AND PTE_V = 0" by (simp add: entry_def pte_addr_def)
  show thesis
  proof (cases xs)
    case Nil
    then have "kalloc s = (0, s)" using assms(1) by (simp add: pt_inv_def free_list_def kalloc_none)
    then show thesis using miss Nil c by simp
  next
    case (Cons p ys)
    then have inv: "pt_inv kend s root (p # ys)" using assms(1) by simp
    then have nz: "p \<noteq> 0" and fl: "free_list kend s (p # ys)"
      by (auto simp: pt_inv_def free_list_def)
    obtain s1 where k: "kalloc s = (p, s1)" using free_list_kalloc [OF fl] by metis
    show thesis
      using hit [OF _ graft_step [OF inv assms(2-4) PX_less empty assms(5) k, folded Cons]] k c nz Cons
      by (simp add: Let_def pte_addr_def)
  qed
next
  case False
  then have "node (mem s) root (\<pi> @ [PX (Suc l) va]) = Some (PTE2PA (entry (mem s) a (PX (Suc l) va)))"
    using assms(2,3) by (cases \<pi>) (auto simp: child_def split: option.splits if_splits)
  then show thesis using hit [OF _ pt_ext_refl [OF assms(1)]] False
    by (simp add: Let_def pte_addr_def entry_def)
qed

text \<open>\<^verbatim>\<open>walk\<close> with \<^verbatim>\<open>alloc\<close> set returns the address of the entry of \<open>va\<close>, or 0 when the free list is
  empty; with \<^verbatim>\<open>alloc\<close> clear it changes nothing.\<close>

lemma walk_alloc:
  assumes "pt_inv kend s root xs" and "va < MAXVA"
  obtains (none) s' where "walk root va True s = Inr (0, s')" "pt_ext kend root s xs s' []" "length xs \<le> 1"
  | (some) a s' ys where "walk root va True s = Inr (a + 8 * PX 0 va, s')" "pt_ext kend root s xs s' ys"
      "node (mem s') root [PX 2 va, PX 1 va] = Some a" "length xs \<le> length ys + 2"
proof -
  have w: "walk root va True s = Inr (walk_loop va True (Suc (Suc 0)) root s)"
    using assms(2) by (simp add: walk_def numeral_2_eq_2 not_le del: walk_loop.simps)
  show thesis
  proof (rule walk_step [OF assms(1), where \<pi> = "[]" and a = root and va = va and l = "Suc 0"])
    assume "walk_loop va True (Suc (Suc 0)) root s = (0, s)" "xs = []"
    then show thesis using none w pt_ext_refl [OF assms(1)] by simp
  next
    fix b s1 ys
    assume 1: "walk_loop va True (Suc (Suc 0)) root s = walk_loop va True (Suc 0) b s1"
      "pt_ext kend root s xs s1 ys" "node (mem s1) root ([] @ [PX (Suc (Suc 0)) va]) = Some b" "length xs \<le> Suc (length ys)"
    show thesis
    proof (rule walk_step [where s = s1 and root = root and xs = ys and \<pi> = "[PX 2 va]" and a = b and va = va and l = 0])
      show "pt_inv kend s1 root ys" using 1(2) by (simp add: pt_ext_def)
      show "node (mem s1) root [PX 2 va] = Some b" using 1(3) by (simp add: numeral_2_eq_2)
      show "length [PX 2 va] < 2" "is_path [PX 2 va]" "[PX 2 va] = [] \<Longrightarrow> PX (Suc 0) va < 256" by (simp_all add: PX_less)
    next
      assume "walk_loop va True (Suc 0) b s1 = (0, s1)" "ys = []"
      then show thesis using none w 1 by simp
    next
      fix c s2 zs
      assume 2: "walk_loop va True (Suc 0) b s1 = walk_loop va True 0 c s2"
        "pt_ext kend root s1 ys s2 zs" "node (mem s2) root ([PX 2 va] @ [PX (Suc 0) va]) = Some c" "length ys \<le> Suc (length zs)"
      have "walk root va True s = Inr (c + 8 * PX 0 va, s2)" using w 1(1) 2(1) by (simp add: pte_addr_def)
      then show thesis using some 2(3,4) 1(4) pt_ext_trans [OF 1(2) 2(2)] by simp
    qed
  qed (use PX_2_low [OF assms(2)] in \<open>simp_all add: numeral_2_eq_2\<close>)
qed

lemma walk_lookup:
  assumes "va < MAXVA"
  shows "walk root va False s =
    Inr (case node (mem s) root [PX 2 va, PX 1 va] of None \<Rightarrow> 0 | Some a \<Rightarrow> a + 8 * PX 0 va, s)"
  using assms
  by (simp add: walk_def numeral_2_eq_2 not_le pte_addr_def child_def entry_def Let_def)

section \<open>The address map\<close>

text \<open>The entry of every virtual page, as a function: what the hardware would find.\<close>

definition amap :: "memory \<Rightarrow> u64 \<Rightarrow> u64 \<Rightarrow> u64" where
  "amap m root va = (if page_aligned va \<and> va < MAXVA then leaf m root va else 0)"

lemma amap_cong: "leaf m' root = leaf m root \<Longrightarrow> amap m' root = amap m root"
  by (simp add: amap_def fun_eq_iff)

lemma amap_set_leaf:
  assumes "wf_pt kend m root" and "node m root [PX 2 va, PX 1 va] = Some a" and "va < MAXVA" "page_aligned va"
  shows "amap (store64 (a + 8 * PX 0 va) e m) root = (amap m root)(va := e)"
  using set_leaf(4) [OF assms(1,2,3)] assms(3,4) by (auto simp: amap_def)

lemma table_entry_nonnull:
  assumes "wf_pt kend m root" and "a \<in> tables m root" and "i < 512"
  shows "a + 8 * i \<noteq> 0"
proof -
  have v: "valid_kalloc_ptr kend a" using assms(1,2) by (rule wf_ptD(1))
  then have "unat a < 2 ^ 56" "0 < unat a" using valid_ptr_bounds valid_kalloc_ptrD [OF v] by (auto simp: unat_gt_0)
  moreover have "unat (8 * i) \<le> 8 * 512" using assms(3) by (simp add: unat_word_ariths word_less_nat_alt)
  ultimately have "unat (a + 8 * i) = unat a + unat (8 * i)" by (simp add: unat_word_ariths)
  with \<open>0 < unat a\<close> show ?thesis by auto
qed

lemma walk_lookup_amap:
  assumes "wf_pt kend (mem s) root" and "va < MAXVA" "page_aligned va"
  obtains (none) "walk root va False s = Inr (0, s)" "amap (mem s) root va = 0"
  | (some) a where "walk root va False s = Inr (a + 8 * PX 0 va, s)" "a + 8 * PX 0 va \<noteq> 0"
      "node (mem s) root [PX 2 va, PX 1 va] = Some a"
      "load64 (mem s) (a + 8 * PX 0 va) = amap (mem s) root va"
proof (cases "node (mem s) root [PX 2 va, PX 1 va]")
  case None
  then show thesis using none assms by (simp add: walk_lookup amap_def leaf_def del: node.simps)
next
  case (Some a)
  have "a \<in> tables (mem s) root" by (rule tablesI [OF _ Some]) (simp add: PX_less)
  then have "a + 8 * PX 0 va \<noteq> 0" using assms(1) PX_less table_entry_nonnull by blast
  then show thesis using some [of a] Some assms
    by (simp add: walk_lookup amap_def leaf_def entry_def del: node.simps)
qed

lemma walkaddr_amap:
  assumes "wf_pt kend (mem s) root" and "page_aligned va"
  shows "walkaddr root va s = Inr (if amap (mem s) root va AND PTE_V \<noteq> 0 \<and> amap (mem s) root va AND PTE_U \<noteq> 0
    then PTE2PA (amap (mem s) root va) else 0)"
proof (cases "va < MAXVA")
  case True
  then have "walkaddr root va s = rbind (walk root va False s) (\<lambda>(pte, s1).
        if pte = 0 then Inr 0
        else if load64 (mem s1) pte AND PTE_V = 0 then Inr 0
        else if load64 (mem s1) pte AND PTE_U = 0 then Inr 0
        else Inr (PTE2PA (load64 (mem s1) pte)))" unfolding walkaddr_def by (intro if_not_P) (simp only: not_le)
  note w = this
  from assms(1) True assms(2) show ?thesis
    by (rule walk_lookup_amap) (simp_all add: w)
next
  case False
  then have "MAXVA \<le> va" by (simp only: not_less)
  with False show ?thesis by (simp add: walkaddr_def amap_def)
qed

lemma ismapped_amap:
  assumes "wf_pt kend (mem s) root" and "page_aligned va" "va < MAXVA"
  shows "ismapped root va s = Inr (amap (mem s) root va AND PTE_V \<noteq> 0)"
  using assms(1,3,2) by (rule walk_lookup_amap) (simp_all add: ismapped_def)

definition pt_grow :: "u64 \<Rightarrow> u64 \<Rightarrow> 'a kmem_scheme \<Rightarrow> u64 list \<Rightarrow> 'a kmem_scheme \<Rightarrow> u64 list \<Rightarrow> bool" where
  "pt_grow kend root s xs s' ys \<longleftrightarrow>
     pt_inv kend s' root ys \<and> (\<exists>zs. xs = zs @ ys)
     \<and> tables (mem s') root = tables (mem s) root \<union> (set xs - set ys)
     \<and> (\<forall>x. PGROUNDDOWN x \<notin> tables (mem s') root \<longrightarrow> mem s' x = mem s x)
     \<and> kmem.more s' = kmem.more s"

lemma pt_ext_grow: "pt_ext kend root s xs s' ys \<Longrightarrow> pt_grow kend root s xs s' ys"
  by (simp add: pt_ext_def pt_grow_def)

lemma pt_grow_trans:
  assumes "pt_grow kend root s xs s' ys" and "pt_grow kend root s' ys s'' zs"
  shows "pt_grow kend root s xs s'' zs"
proof -
  have "set zs \<subseteq> set ys" "set ys \<subseteq> set xs" using assms by (auto simp: pt_grow_def)
  then have t: "tables (mem s'') root = tables (mem s) root \<union> (set xs - set zs)"
    using assms by (auto simp: pt_grow_def)
  moreover have "tables (mem s') root \<subseteq> tables (mem s'') root" using assms by (auto simp: pt_grow_def)
  ultimately show ?thesis using assms unfolding pt_grow_def by (auto simp: t)
qed

lemma set_entry_grow:
  assumes "pt_inv kend s root xs" and "node (mem s) root [PX 2 va, PX 1 va] = Some a"
    and "va < MAXVA" "page_aligned va"
  shows "pt_grow kend root s xs (upd_mem (store64 (a + 8 * PX 0 va) e) s) xs"
    and "amap (mem (upd_mem (store64 (a + 8 * PX 0 va) e) s)) root = (amap (mem s) root)(va := e)"
proof -
  have wf: "wf_pt kend (mem s) root" using assms(1) by (simp add: pt_inv_def)
  let ?s' = "upd_mem (store64 (a + 8 * PX 0 va) e) s"
  have a: "a \<in> tables (mem s) root" by (rule tablesI [OF _ assms(2)]) (simp add: PX_less)
  then have al: "page_aligned a" using wf wf_pt_aligned by blast
  have out: "mem ?s' x = mem s x" if "PGROUNDDOWN x \<notin> tables (mem s) root" for x
  proof -
    have "\<not> in_region a PGSIZE x" using that a al by (auto simp: in_page_iff)
    then have "\<not> in_region (a + 8 * PX 0 va) 8 x" using entry_region [OF PX_less] by blast
    then show ?thesis by (simp add: store64_outside)
  qed
  have "free_list kend ?s' xs"
  proof (rule free_list_frame)
    show "free_list kend s xs" using assms(1) by (simp add: pt_inv_def)
    fix p x assume p: "p \<in> set xs" "in_region p PGSIZE x"
    then have "page_aligned p" using assms(1) valid_kalloc_ptrD by (auto simp: pt_inv_def free_list_def)
    then have "PGROUNDDOWN x = p" using p in_page_iff by blast
    then show "mem ?s' x = mem s x" using p assms(1) out by (auto simp: pt_inv_def)
  qed simp_all
  then show "pt_grow kend root s xs ?s' xs"
    using assms(1) out set_leaf(2,3) [OF wf assms(2)] by (simp add: pt_grow_def pt_inv_def)
  show "amap (mem ?s') root = (amap (mem s) root)(va := e)"
    using amap_set_leaf [OF wf assms(2-4)] by simp
qed

lemma walk_map:
  assumes "pt_inv kend s root xs" and "va < MAXVA" "page_aligned va"
  obtains (none) s' where "walk root va True s = Inr (0, s')" "pt_grow kend root s xs s' []"
      "amap (mem s') root = amap (mem s) root" "length xs \<le> 1"
  | (some) pte s1 ys where "walk root va True s = Inr (pte, s1)" "pte \<noteq> 0"
      "load64 (mem s1) pte = amap (mem s) root va"
      "\<And>e. pt_grow kend root s xs (upd_mem (store64 pte e) s1) ys"
      "\<And>e. amap (store64 pte e (mem s1)) root = (amap (mem s) root)(va := e)" "length xs \<le> length ys + 2"
  using assms(1,2)
proof (rule walk_alloc)
  fix s' assume w: "walk root va True s = Inr (0, s')" "pt_ext kend root s xs s' []" "length xs \<le> 1"
  from w(2) have "leaf (mem s') root = leaf (mem s) root" by (simp add: pt_ext_def)
  then show thesis by (rule none [OF w(1) pt_ext_grow [OF w(2)] amap_cong w(3)])
next
  fix a s' ys
  assume w: "walk root va True s = Inr (a + 8 * PX 0 va, s')" "pt_ext kend root s xs s' ys"
    "node (mem s') root [PX 2 va, PX 1 va] = Some a" "length xs \<le> length ys + 2"
  have inv: "pt_inv kend s' root ys" and wf: "wf_pt kend (mem s') root"
    and "leaf (mem s') root = leaf (mem s) root"
    using w(2) unfolding pt_ext_def pt_inv_def by blast+
  from this(3) have am: "amap (mem s') root = amap (mem s) root" by (rule amap_cong)
  have "a \<in> tables (mem s') root" by (rule tablesI [OF _ w(3)]) (simp add: PX_less)
  then have nz: "a + 8 * PX 0 va \<noteq> 0" using wf PX_less table_entry_nonnull by blast
  have ld: "load64 (mem s') (a + 8 * PX 0 va) = amap (mem s) root va"
    unfolding am [symmetric] using w(3) assms(2,3) by (simp add: amap_def leaf_def entry_def del: node.simps)
  note se = set_entry_grow [OF inv w(3) assms(2,3)]
  show thesis
    by (rule some [OF w(1) nz ld])
      (use pt_grow_trans [OF pt_ext_grow [OF w(2)] se(1)] se(2) am w(4) in simp_all)
qed

section \<open>Mapping a range\<close>

abbreviation leaf_pte :: "u64 \<Rightarrow> u32 \<Rightarrow> u64" where
  "leaf_pte pa perm \<equiv> PA2PTE pa OR scast perm OR PTE_V"

fun map_pages :: "u64 \<Rightarrow> nat \<Rightarrow> u64 \<Rightarrow> u32 \<Rightarrow> (u64 \<Rightarrow> u64) \<Rightarrow> u64 \<Rightarrow> u64" where
  "map_pages a 0 pa perm f = f"
| "map_pages a (Suc k) pa perm f = map_pages (a + 4096) k (pa + 4096) perm (f(a := leaf_pte pa perm))"

text \<open>Addresses of consecutive pages below \<^verbatim>\<open>MAXVA\<close> do not wrap around.\<close>

lemma unat_page_index:
  assumes "unat (a :: u64) + 4096 * n \<le> 2 ^ 38" and "i \<le> n"
  shows "unat (a + 4096 * of_nat i) = unat a + 4096 * i"
proof -
  have "unat a + 4096 * i < 2 ^ 64" using assms by simp
  then have "unat (a + of_nat (4096 * i)) = unat a + 4096 * i" by (rule unat_plus_nat)
  then show ?thesis by simp
qed

lemma page_index_below: "unat a + 4096 * n \<le> 2 ^ 38 \<Longrightarrow> i < n \<Longrightarrow> a + 4096 * of_nat i < MAXVA"
  by (simp add: word_less_nat_alt MAXVA_def unat_page_index [of a n i])

lemma page_index_inj:
  assumes "unat (a :: u64) + 4096 * n \<le> 2 ^ 38" "i \<le> n" "j \<le> n" "a + 4096 * of_nat i = a + 4096 * of_nat j"
  shows "i = j"
proof -
  have "unat a + 4096 * i = unat a + 4096 * j"
    using arg_cong [OF assms(4), of unat] unfolding unat_page_index [OF assms(1,2)] unat_page_index [OF assms(1,3)] .
  then show ?thesis by simp
qed

lemma page_aligned_add: "page_aligned a \<Longrightarrow> page_aligned (a + 4096 * of_nat i)"
proof -
  have d: "4096 dvd k mod 2 ^ LENGTH(64) \<longleftrightarrow> 4096 dvd k" for k :: nat by (rule dvd_mod_iff) simp
  assume "page_aligned a"
  then show ?thesis
    unfolding page_aligned_unat mod_eq_0_iff_dvd unat_word_ariths d by (intro dvd_add) (simp_all only: d, simp)
qed

lemma map_pages_out:
  "(\<forall>i < k. vb \<noteq> a + 4096 * of_nat i) \<Longrightarrow> map_pages a k pa perm f vb = f vb"
proof (induction k arbitrary: a pa f)
  case (Suc k)
  have "vb \<noteq> a" using Suc.prems [rule_format, of 0] by simp
  moreover have "\<forall>i < k. vb \<noteq> a + 4096 + 4096 * of_nat i"
    using Suc.prems [rule_format, of "Suc _"] by (simp add: algebra_simps)
  ultimately show ?case using Suc.IH [of "a + 4096"] by simp
qed simp

lemma map_pages_in:
  "unat a + 4096 * k \<le> 2 ^ 38 \<Longrightarrow> i < k \<Longrightarrow>
     map_pages a k pa perm f (a + 4096 * of_nat i) = leaf_pte (pa + 4096 * of_nat i) perm"
proof (induction k arbitrary: a pa f i)
  case (Suc k)
  show ?case
  proof (cases i)
    case 0
    have "a \<noteq> a + 4096 + 4096 * of_nat j" if "j < k" for j
      using page_index_inj [OF Suc.prems(1), of 0 "Suc j"] that by (auto simp: algebra_simps)
    then show ?thesis using 0 map_pages_out [of k a "a + 4096"] by simp
  next
    case (Suc j)
    have "unat (a + 4096) = unat a + 4096" using unat_page_index [OF Suc.prems(1), of 1] by simp
    then have "map_pages (a + 4096) k (pa + 4096) perm (f(a := leaf_pte pa perm)) (a + 4096 + 4096 * of_nat j)
        = leaf_pte (pa + 4096 + 4096 * of_nat j) perm"
      using Suc.prems Suc by (intro Suc.IH) auto
    then show ?thesis using Suc by (simp add: algebra_simps)
  qed
qed simp

lemma mappages_loop_spec:
  assumes "pt_inv kend s root xs" and "page_aligned a" and "unat a + 4096 * Suc n \<le> 2 ^ 38"
    and "\<forall>i \<le> n. amap (mem s) root (a + 4096 * of_nat i) AND PTE_V = 0"
  shows "\<exists>r k s' ys. mappages_loop root a (a + 4096 * of_nat n) pa perm s = Inr (r, s')
    \<and> pt_grow kend root s xs s' ys \<and> (r = 0 \<and> k = Suc n \<or> r = -1 \<and> k \<le> n \<and> ys = [] \<and> length xs \<le> 2 * k + 1)
    \<and> amap (mem s') root = map_pages a k pa perm (amap (mem s) root)"
  using assms
proof (induction n arbitrary: a pa s xs)
  case 0
  have "a < MAXVA" using page_index_below [OF 0(3), of 0] by simp
  with 0(1) show ?case using 0(2)
  proof (rule walk_map)
    fix s' assume "walk root a True s = Inr (0, s')" "pt_grow kend root s xs s' []"
      "amap (mem s') root = amap (mem s) root" "length xs \<le> 1"
    then show ?thesis
      by (intro exI [of _ "-1"] exI [of _ 0] exI [of _ s'] exI [of _ "[]"]) (simp add: mappages_loop.simps)
  next
    fix pte s1 ys
    assume "walk root a True s = Inr (pte, s1)" "pte \<noteq> 0" "load64 (mem s1) pte = amap (mem s) root a"
      "\<And>e. pt_grow kend root s xs (upd_mem (store64 pte e) s1) ys"
      "\<And>e. amap (store64 pte e (mem s1)) root = (amap (mem s) root)(a := e)"
    then show ?thesis using 0(4)
      by (intro exI [of _ 0] exI [of _ "Suc 0"] exI [of _ "upd_mem (store64 pte (leaf_pte pa perm)) s1"] exI [of _ ys])
        (simp add: mappages_loop.simps Let_def)
  qed
next
  case (Suc n)
  have "a < MAXVA" using page_index_below [OF Suc(4), of 0] by simp
  with Suc(2) show ?case using Suc(3)
  proof (rule walk_map)
    fix s' assume "walk root a True s = Inr (0, s')" "pt_grow kend root s xs s' []"
      "amap (mem s') root = amap (mem s) root" "length xs \<le> 1"
    then show ?thesis
      by (intro exI [of _ "-1"] exI [of _ 0] exI [of _ s'] exI [of _ "[]"])
        (simp add: mappages_loop.simps del: of_nat_Suc)
  next
    fix pte s1 ys
    assume w: "walk root a True s = Inr (pte, s1)" "pte \<noteq> 0" "load64 (mem s1) pte = amap (mem s) root a"
      "\<And>e. pt_grow kend root s xs (upd_mem (store64 pte e) s1) ys"
      "\<And>e. amap (store64 pte e (mem s1)) root = (amap (mem s) root)(a := e)" "length xs \<le> length ys + 2"
    let ?s2 = "upd_mem (store64 pte (leaf_pte pa perm)) s1"
    have a1: "unat (a + 4096) = unat a + 4096" using unat_page_index [OF Suc(4), of 1] by simp
    have ne: "a \<noteq> a + 4096 + 4096 * of_nat i" if "i \<le> n" for i
      using page_index_inj [OF Suc(4), of 0 "Suc i"] that by (auto simp: algebra_simps)
    have free: "\<forall>i \<le> n. amap (mem ?s2) root (a + 4096 + 4096 * of_nat i) AND PTE_V = 0"
    proof (intro allI impI)
      fix i assume "i \<le> n"
      then have "amap (mem s) root (a + 4096 + 4096 * of_nat i) AND PTE_V = 0"
        using Suc(5) [rule_format, of "Suc i"] by (simp add: algebra_simps)
      with ne [OF \<open>i \<le> n\<close>] show "amap (mem ?s2) root (a + 4096 + 4096 * of_nat i) AND PTE_V = 0"
        by (simp add: w(5))
    qed
    have inv2: "pt_inv kend ?s2 root ys" using w(4) by (simp add: pt_grow_def)
    have al: "page_aligned (a + 4096)" using page_aligned_add [OF Suc(3), of 1] by simp
    have "unat (a + 4096) + 4096 * Suc n \<le> 2 ^ 38" using Suc(4) a1 by simp
    from Suc(1) [OF inv2 al this free, of "pa + 4096"] obtain r k s' zs
      where r: "mappages_loop root (a + 4096) (a + 4096 + 4096 * of_nat n) (pa + 4096) perm ?s2 = Inr (r, s')"
      "pt_grow kend root ?s2 ys s' zs" "r = 0 \<and> k = Suc n \<or> r = -1 \<and> k \<le> n \<and> zs = [] \<and> length ys \<le> 2 * k + 1"
      "amap (mem s') root = map_pages (a + 4096) k (pa + 4096) perm (amap (mem ?s2) root)"
      by blast
    have "mappages_loop root a (a + 4096 * of_nat (Suc n)) pa perm s = Inr (r, s')"
      using w(1-3) r(1) ne [of n] Suc(5) [rule_format, of 0]
      by (subst mappages_loop.simps) (simp add: Let_def algebra_simps)
    moreover have "amap (mem s') root = map_pages a (Suc k) pa perm (amap (mem s) root)"
      using r(4) by (simp add: w(5))
    moreover have "r = 0 \<and> Suc k = Suc (Suc n) \<or> r = -1 \<and> Suc k \<le> Suc n \<and> zs = [] \<and> length xs \<le> 2 * Suc k + 1"
      using r(3) w(6) by auto
    ultimately show ?thesis using pt_grow_trans [OF w(4) r(2)] by blast
  qed
qed

lemma mappages_spec:
  assumes "pt_inv kend s root xs" and "page_aligned va" and "0 < n" and "unat va + 4096 * n \<le> 2 ^ 38"
    and "\<forall>i < n. amap (mem s) root (va + 4096 * of_nat i) AND PTE_V = 0"
  shows "\<exists>r k s' ys. mappages root va (4096 * of_nat n) pa perm s = Inr (r, s')
    \<and> pt_grow kend root s xs s' ys \<and> (r = 0 \<and> k = n \<or> r = -1 \<and> k < n \<and> ys = [] \<and> length xs \<le> 2 * k + 1)
    \<and> amap (mem s') root = map_pages va k pa perm (amap (mem s) root)"
proof -
  obtain n' where n: "n = Suc n'" using assms(3) gr0_conv_Suc by auto
  have sz: "unat (4096 * of_nat n :: u64) = 4096 * n"
    using unat_page_index [of 0 n n] assms(4) by simp
  then have nz: "(4096 * of_nat n :: u64) \<noteq> 0" using assms(3) by auto
  have al: "page_aligned (4096 * of_nat n)" using page_aligned_add [of 0 n] by (simp add: page_aligned_def)
  have e: "va + 4096 * of_nat n - 4096 = va + 4096 * of_nat n'" by (simp add: n algebra_simps)
  have "mappages root va (4096 * of_nat n) pa perm s = mappages_loop root va (va + 4096 * of_nat n') pa perm s"
    unfolding mappages_def e using assms(2) al nz by (simp add: page_aligned_def)
  moreover have "\<forall>i \<le> n'. amap (mem s) root (va + 4096 * of_nat i) AND PTE_V = 0" using assms(5) n by auto
  ultimately show ?thesis using mappages_loop_spec [OF assms(1,2), of n' pa perm] assms(4) n by (auto simp: less_Suc_eq_le)
qed

text \<open>The case of one page, which is how user memory is mapped.\<close>

lemma mappages_page:
  assumes "pt_inv kend s root xs" and "page_aligned va" "va < MAXVA" and "amap (mem s) root va AND PTE_V = 0"
  obtains (none) s' where "mappages root va 4096 pa perm s = Inr (-1, s')" "pt_grow kend root s xs s' []"
      "amap (mem s') root = amap (mem s) root" "length xs \<le> 1"
  | (some) s' ys where "mappages root va 4096 pa perm s = Inr (0, s')" "pt_grow kend root s xs s' ys"
      "amap (mem s') root = (amap (mem s) root)(va := leaf_pte pa perm)"
proof -
  obtain q where q: "unat va = 4096 * q" using assms(2) by (auto simp: page_aligned_unat elim!: dvdE)
  then have "unat va + 4096 * 1 \<le> 2 ^ 38" using below_MAXVA_step(2) [OF assms(3)] by simp
  from mappages_spec [OF assms(1,2) _ this, of pa perm] assms(4) obtain r k s' ys
    where "mappages root va 4096 pa perm s = Inr (r, s')" "pt_grow kend root s xs s' ys"
      "r = 0 \<and> k = 1 \<or> r = -1 \<and> k < 1 \<and> ys = [] \<and> length xs \<le> 2 * k + 1" "amap (mem s') root = map_pages va k pa perm (amap (mem s) root)"
    by auto
  then show thesis using none some by auto
qed

lemma uvmcreate_spec:
  assumes "free_list kend s (p # ys)"
  obtains s' where "uvmcreate s = (p, s')" and "pt_inv kend s' p ys" and "amap (mem s') p = (\<lambda>_. 0)"
    and "tables (mem s') p = {p}" and "page_update p s s'" and "kmem.more s' = kmem.more s"
proof -
  obtain s1 where k: "kalloc s = (p, s1)" "free_list kend s1 ys" "page_update p s s1" "kmem.more s1 = kmem.more s"
    using free_list_kalloc [OF assms] by metis
  have v: "valid_kalloc_ptr kend p" "p \<noteq> 0" "page_aligned p" "p \<notin> set ys" "\<forall>q \<in> set ys. page_aligned q"
    using assms valid_kalloc_ptrD by (auto simp: free_list_def)
  let ?s' = "snd (memset p 0 4096 s1)"
  have m: "mem ?s' x = (if in_region p PGSIZE x then 0 else mem s1 x)" for x using v(2) by simp
  have e: "entry (mem ?s') p i = 0" if "i < 512" for i using that m by (intro entry_zero) auto
  have n: "node (mem ?s') p q = (if q = [] then Some p else None)" if "is_path q" for q
    using that by (cases rule: is_path_cases) (use e in \<open>auto simp: child_def split: option.split\<close>)
  have t: "tables (mem ?s') p = {p}" by (auto simp: tables_def n split: if_splits intro!: exI [of _ "[]"])
  have "dir_ok (mem ?s') p" unfolding dir_ok_def using n e by (auto split: if_splits)
  then have wf: "wf_pt kend (mem ?s') p" unfolding wf_pt_def t using v(1) n by (auto split: if_splits)
  have "free_list kend ?s' ys"
  proof (rule free_list_frame [OF k(2)])
    fix q x assume q: "q \<in> set ys" "in_region q PGSIZE x"
    then have "PGROUNDDOWN x = q" using v(5) in_page_iff [of q x] by blast
    then have "\<not> in_region p PGSIZE x" using q(1) v(3,4) in_page_iff [of p x] by auto
    then show "mem ?s' x = mem s1 x" by (simp only: m if_False)
  qed (use v(2) in simp_all)
  then have "pt_inv kend ?s' p ys" using wf t v(4) by (simp add: pt_inv_def)
  moreover have "amap (mem ?s') p = (\<lambda>_. 0)"
    using n by (auto simp: amap_def leaf_def fun_eq_iff PX_less simp del: node.simps)
  moreover have "page_update p s ?s'" using k(3) m by (simp add: page_update_def)
  moreover have "uvmcreate s = (p, ?s')" "kmem.more ?s' = kmem.more s" using k(1,4) v(2) by (simp_all add: uvmcreate_def)
  ultimately show thesis using that t by blast
qed

text \<open>After boot a process gets an empty page table.\<close>

lemma boot_pagetable:
  assumes "valid_kalloc_ptr kend q" and "kend \<noteq> 0"
  obtains s0 root s1 ys where "kinit kend s = Inr s0" "uvmcreate s0 = (root, s1)" "pt_inv kend s1 root ys"
    "amap (mem s1) root = (\<lambda>_. 0)" "tables (mem s1) root = {root}" "root \<noteq> 0"
    "insert root (set ys) = Collect (valid_kalloc_ptr kend)" "distinct ys" "root \<notin> set ys"
proof -
  obtain s0 xs where k: "kinit kend s = Inr s0" "free_list kend s0 xs" "set xs = Collect (valid_kalloc_ptr kend)"
    using kinit_free_list [OF assms(2)] by blast
  then obtain p ys where xs: "xs = p # ys" using assms(1) by (cases xs) auto
  then have d: "distinct ys" "p \<notin> set ys" "p \<noteq> 0" using k(2) by (auto simp: free_list_def)
  from k(2) obtain s1 where "uvmcreate s0 = (p, s1)" "pt_inv kend s1 p ys" "amap (mem s1) p = (\<lambda>_. 0)"
    "tables (mem s1) p = {p}"
    unfolding xs by (rule uvmcreate_spec)
  then show thesis using that [of s0 p s1 ys] k d unfolding xs by simp
qed

section \<open>Properties\<close>

text \<open>C25. On a page table whose table pages are distinct allocated pages, \<^verbatim>\<open>mappages\<close> of a free,
  page-aligned range never panics. When it returns 0 every page of the range has the entry for
  its physical page with the requested permissions, and no other virtual page changes; when it
  returns -1 a prefix of the range is mapped and the free list, which had at most two pages for
  each of its pages and one more, is exhausted. In both cases the
  table pages stay distinct, new ones come only from the free list, and no byte outside the
  table pages changes.\<close>

theorem mappages_correct:
  assumes "pt_inv kend s root xs" and "page_aligned va" and "0 < n" and "unat va + 4096 * n \<le> 2 ^ 38"
    and "\<forall>i < n. amap (mem s) root (va + 4096 * of_nat i) AND PTE_V = 0"
  shows "\<exists>r k s' ys. mappages root va (4096 * of_nat n) pa perm s = Inr (r, s')
    \<and> (r = 0 \<and> k = n \<or> r = -1 \<and> k < n \<and> ys = [] \<and> length xs \<le> 2 * k + 1)
    \<and> (\<forall>i < k. amap (mem s') root (va + 4096 * of_nat i) = leaf_pte (pa + 4096 * of_nat i) perm)
    \<and> (\<forall>vb. (\<forall>i < k. vb \<noteq> va + 4096 * of_nat i) \<longrightarrow> amap (mem s') root vb = amap (mem s) root vb)
    \<and> pt_inv kend s' root ys \<and> (\<exists>zs. xs = zs @ ys)
    \<and> tables (mem s') root = tables (mem s) root \<union> (set xs - set ys)
    \<and> (\<forall>x. PGROUNDDOWN x \<notin> tables (mem s') root \<longrightarrow> mem s' x = mem s x)"
proof -
  obtain r k s' ys where m: "mappages root va (4096 * of_nat n) pa perm s = Inr (r, s')"
    "pt_grow kend root s xs s' ys" "r = 0 \<and> k = n \<or> r = -1 \<and> k < n \<and> ys = [] \<and> length xs \<le> 2 * k + 1"
    "amap (mem s') root = map_pages va k pa perm (amap (mem s) root)"
    using mappages_spec [OF assms] by blast
  have "unat va + 4096 * k \<le> 2 ^ 38" using m(3) assms(4) by auto
  note inside = map_pages_in [OF this, of _ pa perm "amap (mem s) root"]
  note outside = map_pages_out [of k _ va pa perm "amap (mem s) root"]
  note grow = m(2) [unfolded pt_grow_def]
  show ?thesis
    by (rule exI [of _ r], rule exI [of _ k], rule exI [of _ s'], rule exI [of _ ys], intro conjI m(1,3))
      (use inside outside grow in \<open>simp_all add: m(4)\<close>)
qed

theorem mappages_correct_witness:
  "\<exists>s0 root s1 xs r k s' ys. kinit 0x80021000 demo_kmem = Inr s0 \<and> uvmcreate s0 = (root, s1)
    \<and> pt_inv 0x80021000 s1 root xs
    \<and> mappages root 0x1000 (4096 * of_nat 3) 0x87000000 0x16 s1 = Inr (r, s')
    \<and> (r = 0 \<and> k = (3 :: nat) \<or> r = -1 \<and> k < 3 \<and> ys = []) \<and> pt_inv 0x80021000 s' root ys
    \<and> tables (mem s') root = tables (mem s1) root \<union> (set xs - set ys)"
proof -
  have "valid_kalloc_ptr 0x80021000 0x80022000" by (simp add: valid_kalloc_ptr_def PHYSTOP_def)
  then obtain s0 root s1 xs where b: "kinit 0x80021000 demo_kmem = Inr s0" "uvmcreate s0 = (root, s1)"
    "pt_inv 0x80021000 s1 root xs" "amap (mem s1) root = (\<lambda>_. 0)"
    by (rule boot_pagetable) simp_all
  have "page_aligned 0x1000" "unat (0x1000 :: u64) + 4096 * 3 \<le> 2 ^ 38"
    "\<forall>i < 3. amap (mem s1) root (0x1000 + 4096 * of_nat i) AND PTE_V = 0"
    using b(4) by (simp_all add: page_aligned_def)
  from mappages_correct [OF b(3) this(1) zero_less_numeral this(2,3), of "0x87000000" "0x16"] b(1-3)
  show ?thesis by blast
qed

end
