(* ===== verification/Uvm.thy ===== *)
theory Uvm
  imports Pagetable
begin

text \<open>
  User address spaces, the second half of \<^verbatim>\<open>src/kernel/vm.c\<close>: unmapping, growing and shrinking,
  copying for \<^verbatim>\<open>fork\<close>, freeing, and the lazy allocation of \<^verbatim>\<open>vmfault\<close>. An address space is described
  by its table pages, the pages it maps below a limit, and the free list; the lemmas show that
  every operation keeps these three apart, loses no page, and changes no page of anybody else.
\<close>

section \<open>Operations\<close>

function uvmunmap_loop :: "u64 \<Rightarrow> u64 \<Rightarrow> u64 \<Rightarrow> u64 \<Rightarrow> bool \<Rightarrow> 'a kmem_scheme \<Rightarrow> 'a kmem_scheme res" where
  "uvmunmap_loop kend pagetable a bound do_free s =
     (if a < bound
      then case walk pagetable a False s of
        Inl e \<Rightarrow> Inl e
      | Inr (pte, s1) \<Rightarrow>
          if pte = 0 then uvmunmap_loop kend pagetable (a + 4096) bound do_free s1
          else if load64 (mem s1) pte AND PTE_V = 0 then uvmunmap_loop kend pagetable (a + 4096) bound do_free s1
          else (case (if do_free then kfree kend (PTE2PA (load64 (mem s1) pte)) s1 else Inr s1) of
              Inl e \<Rightarrow> Inl e
            | Inr s2 \<Rightarrow> uvmunmap_loop kend pagetable (a + 4096) bound do_free (upd_mem (store64 pte 0) s2))
      else Inr s)"
  by pat_completeness auto
termination
  by (relation "measure (\<lambda>(kend, pagetable, a, bound, do_free, s). 2 ^ 39 - unat a)")
    (auto simp: below_MAXVA_step dest!: walk_below intro!: diff_less_mono2 dest: below_MAXVA_step(2))

declare uvmunmap_loop.simps [simp del]

definition uvmunmap :: "u64 \<Rightarrow> u64 \<Rightarrow> u64 \<Rightarrow> u64 \<Rightarrow> bool \<Rightarrow> 'a kmem_scheme \<Rightarrow> 'a kmem_scheme res" where
  "uvmunmap kend pagetable va npages do_free s =
     (if va mod 4096 \<noteq> 0 then Inl (Panic ''uvmunmap: not aligned'')
      else uvmunmap_loop kend pagetable va (va + npages * 4096) do_free s)"

text \<open>\<^verbatim>\<open>int npages\<close> narrows the page count and widens it again with its sign.\<close>

definition uvmdealloc :: "u64 \<Rightarrow> u64 \<Rightarrow> u64 \<Rightarrow> u64 \<Rightarrow> 'a kmem_scheme \<Rightarrow> (u64 \<times> 'a kmem_scheme) res" where
  "uvmdealloc kend pagetable oldsz newsz s =
     (if oldsz \<le> newsz then Inr (oldsz, s)
      else if PGROUNDUP newsz < PGROUNDUP oldsz
      then let npages = (ucast ((PGROUNDUP oldsz - PGROUNDUP newsz) div 4096) :: u32)
           in rbind (uvmunmap kend pagetable (PGROUNDUP newsz) (scast npages) True s) (\<lambda>s1. Inr (newsz, s1))
      else Inr (newsz, s))"

lemma mappages_below:
  assumes "mappages pagetable a sz pa perm s = Inr r"
  shows "a < MAXVA"
proof (cases "walk pagetable a True s")
  case (Inl e)
  then show ?thesis using assms by (auto simp: mappages_def mappages_loop.simps [of pagetable a] split: if_splits)
next
  case (Inr r)
  then show ?thesis by (rule walk_below)
qed

function uvmalloc_loop :: "u64 \<Rightarrow> u64 \<Rightarrow> u64 \<Rightarrow> u64 \<Rightarrow> u32 \<Rightarrow> u64 \<Rightarrow> 'a kmem_scheme \<Rightarrow> (u64 \<times> 'a kmem_scheme) res" where
  "uvmalloc_loop kend pagetable oldsz newsz xperm a s =
     (if a < newsz
      then case kalloc s of (p, s1) \<Rightarrow>
        if p = 0 then rbind (uvmdealloc kend pagetable a oldsz s1) (\<lambda>(_, s2). Inr (0, s2))
        else (case mappages pagetable a 4096 p (ucast (PTE_R OR PTE_U) OR xperm) (snd (memset p 0 4096 s1)) of
            Inl e \<Rightarrow> Inl e
          | Inr (r, s2) \<Rightarrow>
              if r \<noteq> 0
              then rbind (kfree kend p s2) (\<lambda>s3.
                   rbind (uvmdealloc kend pagetable a oldsz s3) (\<lambda>(_, s4). Inr (0, s4)))
              else uvmalloc_loop kend pagetable oldsz newsz xperm (a + 4096) s2)
      else Inr (newsz, s))"
  by pat_completeness auto
termination
  by (relation "measure (\<lambda>(kend, pagetable, oldsz, newsz, xperm, a, s). 2 ^ 39 - unat a)")
    (auto simp: below_MAXVA_step dest!: mappages_below intro!: diff_less_mono2 dest: below_MAXVA_step(2))

declare uvmalloc_loop.simps [simp del]

definition uvmalloc :: "u64 \<Rightarrow> u64 \<Rightarrow> u64 \<Rightarrow> u64 \<Rightarrow> u32 \<Rightarrow> 'a kmem_scheme \<Rightarrow> (u64 \<times> 'a kmem_scheme) res" where
  "uvmalloc kend pagetable oldsz newsz xperm s =
     (if newsz < oldsz then Inr (oldsz, s)
      else uvmalloc_loop kend pagetable (PGROUNDUP oldsz) newsz xperm (PGROUNDUP oldsz) s)"

text \<open>The loop over the 512 entries of \<^verbatim>\<open>freewalk\<close>, from index \<open>i\<close> on. A table that contains itself
  makes the C recursion endless, which is the value None.\<close>

partial_function (option) freewalk_from :: "u64 \<Rightarrow> u64 \<Rightarrow> u64 \<Rightarrow> 'a kmem_scheme \<Rightarrow> 'a kmem_scheme res option" where
  "freewalk_from kend pagetable i s =
     (if i < 512
      then let pte = load64 (mem s) (pagetable + 8 * i)
           in if pte AND PTE_V \<noteq> 0 \<and> pte AND (PTE_R OR PTE_W OR PTE_X) = 0
              then Option.bind (freewalk_from kend (PTE2PA pte) 0 s) (\<lambda>r. case r of
                     Inl e \<Rightarrow> Some (Inl e)
                   | Inr s1 \<Rightarrow> freewalk_from kend pagetable (i + 1) (upd_mem (store64 (pagetable + 8 * i) 0) s1))
              else if pte AND PTE_V \<noteq> 0 then Some (Inl (Panic ''freewalk: leaf''))
              else freewalk_from kend pagetable (i + 1) s
      else Some (kfree kend pagetable s))"

definition freewalk :: "u64 \<Rightarrow> u64 \<Rightarrow> 'a kmem_scheme \<Rightarrow> 'a kmem_scheme res" where
  "freewalk kend pagetable s = (case freewalk_from kend pagetable 0 s of None \<Rightarrow> Inl Diverges | Some r \<Rightarrow> r)"

definition uvmfree :: "u64 \<Rightarrow> u64 \<Rightarrow> u64 \<Rightarrow> 'a kmem_scheme \<Rightarrow> 'a kmem_scheme res" where
  "uvmfree kend pagetable sz s =
     rbind (if 0 < sz then uvmunmap kend pagetable 0 (PGROUNDUP sz div 4096) True s else Inr s)
       (freewalk kend pagetable)"

definition uvmcopy_err :: "u64 \<Rightarrow> u64 \<Rightarrow> u64 \<Rightarrow> 'a kmem_scheme \<Rightarrow> (int \<times> 'a kmem_scheme) res" where
  "uvmcopy_err kend new i s = rbind (uvmunmap kend new 0 (i div 4096) True s) (\<lambda>s1. Inr (-1, s1))"

function uvmcopy_loop :: "u64 \<Rightarrow> u64 \<Rightarrow> u64 \<Rightarrow> u64 \<Rightarrow> u64 \<Rightarrow> 'a kmem_scheme \<Rightarrow> (int \<times> 'a kmem_scheme) res" where
  "uvmcopy_loop kend old new sz i s =
     (if i < sz
      then case walk old i False s of
        Inl e \<Rightarrow> Inl e
      | Inr (pte, s1) \<Rightarrow>
          if pte = 0 then uvmcopy_loop kend old new sz (i + 4096) s1
          else if load64 (mem s1) pte AND PTE_V = 0 then uvmcopy_loop kend old new sz (i + 4096) s1
          else let pa = PTE2PA (load64 (mem s1) pte);
                   flags = ucast (PTE_FLAGS (load64 (mem s1) pte)) :: u32
               in (case kalloc s1 of (p, s2) \<Rightarrow>
                  if p = 0 then uvmcopy_err kend new i s2
                  else (case mappages new i 4096 p flags (snd (memmove p pa 4096 s2)) of
                      Inl e \<Rightarrow> Inl e
                    | Inr (r, s3) \<Rightarrow>
                        if r \<noteq> 0 then rbind (kfree kend p s3) (uvmcopy_err kend new i)
                        else uvmcopy_loop kend old new sz (i + 4096) s3))
      else Inr (0, s))"
  by pat_completeness auto
termination
  by (relation "measure (\<lambda>(kend, old, new, sz, i, s). 2 ^ 39 - unat i)")
    (auto simp: below_MAXVA_step dest!: walk_below mappages_below intro!: diff_less_mono2 dest: below_MAXVA_step(2))

declare uvmcopy_loop.simps [simp del]

definition uvmcopy :: "u64 \<Rightarrow> u64 \<Rightarrow> u64 \<Rightarrow> u64 \<Rightarrow> 'a kmem_scheme \<Rightarrow> (int \<times> 'a kmem_scheme) res" where
  "uvmcopy kend old new sz = uvmcopy_loop kend old new sz 0"

definition uvmclear :: "u64 \<Rightarrow> u64 \<Rightarrow> 'a kmem_scheme \<Rightarrow> 'a kmem_scheme res" where
  "uvmclear pagetable va s =
     rbind (walk pagetable va False s) (\<lambda>(pte, s1).
       if pte = 0 then Inl (Panic ''uvmclear'')
       else Inr (upd_mem (store64 pte (load64 (mem s1) pte AND NOT PTE_U)) s1))"

text \<open>\<open>psz\<close> and \<open>ppt\<close> are \<^verbatim>\<open>myproc()->sz\<close> and \<^verbatim>\<open>myproc()->pagetable\<close>.\<close>

definition vmfault :: "u64 \<Rightarrow> u64 \<Rightarrow> u64 \<Rightarrow> u64 \<Rightarrow> u64 \<Rightarrow> 'a kmem_scheme \<Rightarrow> (u64 \<times> 'a kmem_scheme) res" where
  "vmfault kend psz ppt pagetable va s =
     (if psz \<le> va then Inr (0, s)
      else let va = PGROUNDDOWN va
           in rbind (ismapped pagetable va s) (\<lambda>b.
              if b then Inr (0, s)
              else case kalloc s of (p, s1) \<Rightarrow>
                if p = 0 then Inr (0, s1)
                else rbind (mappages ppt va 4096 p (ucast (PTE_W OR PTE_U OR PTE_R)) (snd (memset p 0 4096 s1))) (\<lambda>(r, s2).
                  if r \<noteq> 0 then rbind (kfree kend p s2) (\<lambda>s3. Inr (0, s3))
                  else Inr (p, s2))))"

section \<open>Address spaces\<close>

definition mapped :: "memory \<Rightarrow> u64 \<Rightarrow> u64 \<Rightarrow> bool" where
  "mapped m root va \<longleftrightarrow> amap m root va AND PTE_V \<noteq> 0"

definition frame_of :: "memory \<Rightarrow> u64 \<Rightarrow> u64 \<Rightarrow> u64" where
  "frame_of m root va = PTE2PA (amap m root va)"

definition vdom :: "memory \<Rightarrow> u64 \<Rightarrow> u64 \<Rightarrow> u64 set" where
  "vdom m root lim = {va. va < lim \<and> mapped m root va}"

definition frames :: "memory \<Rightarrow> u64 \<Rightarrow> u64 \<Rightarrow> u64 set" where
  "frames m root lim = frame_of m root ` vdom m root lim"

definition owned :: "memory \<Rightarrow> u64 \<Rightarrow> u64 \<Rightarrow> u64 list \<Rightarrow> u64 set" where
  "owned m root lim xs = tables m root \<union> frames m root lim \<union> set xs"

text \<open>The invariant of an address space whose user part lies below \<open>lim\<close>.\<close>

definition as_inv :: "u64 \<Rightarrow> u64 \<Rightarrow> 'a kmem_scheme \<Rightarrow> u64 \<Rightarrow> u64 list \<Rightarrow> bool" where
  "as_inv kend lim s root xs \<longleftrightarrow> pt_inv kend s root xs \<and> lim \<le> MAXVA
     \<and> frames (mem s) root lim \<subseteq> Collect (valid_kalloc_ptr kend)
     \<and> frames (mem s) root lim \<inter> (tables (mem s) root \<union> set xs) = {}
     \<and> inj_on (frame_of (mem s) root) (vdom (mem s) root lim)"

definition as_step :: "u64 \<Rightarrow> u64 \<Rightarrow> u64 \<Rightarrow> 'a kmem_scheme \<Rightarrow> u64 list \<Rightarrow> 'a kmem_scheme \<Rightarrow> u64 list \<Rightarrow> bool" where
  "as_step kend lim root s xs s' ys \<longleftrightarrow> as_inv kend lim s' root ys
     \<and> owned (mem s') root lim ys = owned (mem s) root lim xs
     \<and> (\<forall>x. PGROUNDDOWN x \<notin> owned (mem s) root lim xs \<longrightarrow> mem s' x = mem s x)
     \<and> (\<forall>va \<ge> lim. amap (mem s') root va = amap (mem s) root va)
     \<and> kmem.more s' = kmem.more s"

text \<open>The pages mapped outside the range \<open>R\<close> keep their entries and their bytes.\<close>

definition keeps :: "u64 \<Rightarrow> u64 \<Rightarrow> u64 set \<Rightarrow> memory \<Rightarrow> memory \<Rightarrow> bool" where
  "keeps lim root R m m' \<longleftrightarrow> (\<forall>va < lim. mapped m root va \<longrightarrow> va \<notin> R \<longrightarrow>
     amap m' root va = amap m root va \<and> (\<forall>x. PGROUNDDOWN x = frame_of m root va \<longrightarrow> m' x = m x))"

lemma as_step_refl: "as_inv kend lim s root xs \<Longrightarrow> as_step kend lim root s xs s xs"
  by (simp add: as_step_def)

lemma as_step_trans:
  "as_step kend lim root s xs s' ys \<Longrightarrow> as_step kend lim root s' ys s'' zs \<Longrightarrow> as_step kend lim root s xs s'' zs"
  by (simp add: as_step_def)

lemma as_step_inv: "as_step kend lim root s xs s' ys \<Longrightarrow> as_inv kend lim s' root ys"
  by (simp add: as_step_def)

lemma keeps_refl: "keeps lim root R m m"
  by (simp add: keeps_def)

lemma keeps_trans:
  assumes "keeps lim root R m m'" and "keeps lim root R' m' m''"
  shows "keeps lim root (R \<union> R') m m''"
  using assms by (simp add: keeps_def mapped_def frame_of_def)

lemma keeps_mono: "keeps lim root R m m' \<Longrightarrow> R \<subseteq> R' \<Longrightarrow> keeps lim root R' m m'"
  by (auto simp: keeps_def)

lemma mapped_aligned: "mapped m root va \<Longrightarrow> page_aligned va \<and> va < MAXVA"
  by (auto simp: mapped_def amap_def split: if_splits)

lemma framesI: "va < lim \<Longrightarrow> mapped m root va \<Longrightarrow> frame_of m root va \<in> frames m root lim"
  by (simp add: frames_def vdom_def)

lemma as_invD:
  assumes "as_inv kend lim s root xs"
  shows "pt_inv kend s root xs" and "lim \<le> MAXVA" and "wf_pt kend (mem s) root" and "free_list kend s xs"
    and "va < lim \<Longrightarrow> mapped (mem s) root va \<Longrightarrow> valid_kalloc_ptr kend (frame_of (mem s) root va)
           \<and> frame_of (mem s) root va \<notin> tables (mem s) root \<and> frame_of (mem s) root va \<notin> set xs"
    and "tables (mem s) root \<inter> set xs = {}"
  using assms framesI [of va lim "mem s" root] by (auto simp: as_inv_def pt_inv_def)

lemma pages_valid: "as_inv kend lim s root xs \<Longrightarrow> p \<in> owned (mem s) root lim xs \<Longrightarrow> valid_kalloc_ptr kend p"
  by (auto simp: as_inv_def owned_def pt_inv_def wf_pt_def free_list_def)

text \<open>Agreement of two maps below the limit transfers the invariant.\<close>

lemma frames_cong:
  assumes "\<And>va. va < lim \<Longrightarrow> amap m' root va = amap m root va"
  shows "vdom m' root lim = vdom m root lim" and "frames m' root lim = frames m root lim"
    and "inj_on (frame_of m' root) (vdom m' root lim) = inj_on (frame_of m root) (vdom m root lim)"
proof -
  show v: "vdom m' root lim = vdom m root lim" unfolding vdom_def mapped_def using assms by metis
  have f: "frame_of m' root va = frame_of m root va" if "va \<in> vdom m root lim" for va
    using that assms by (simp add: frame_of_def vdom_def)
  show "frames m' root lim = frames m root lim" unfolding frames_def v using f by (rule image_cong [OF refl])
  show "inj_on (frame_of m' root) (vdom m' root lim) = inj_on (frame_of m root) (vdom m root lim)"
    unfolding v using f by (rule inj_on_cong)
qed

section \<open>Taking a page and mapping it\<close>

text \<open>A page taken from the free list and filled: nothing of the address space is touched.\<close>

lemma page_update_tables:
  assumes "wf_pt kend (mem s) root" and "page_update p s s'" and "page_aligned p" and "p \<notin> tables (mem s) root"
  shows "tables (mem s') root = tables (mem s) root" and "wf_pt kend (mem s') root"
    and "amap (mem s') root = amap (mem s) root"
proof -
  have same: "mem s' x = mem s x" if "a \<in> tables (mem s) root" "in_region a PGSIZE x" for a x
  proof -
    have "PGROUNDDOWN x = a" using that in_page_iff [OF wf_pt_aligned [OF assms(1) that(1)]] by simp
    then have "\<not> in_region p PGSIZE x" using that(1) assms(3,4) by (auto simp: in_page_iff)
    then show ?thesis using assms(2) by (simp add: page_update_def)
  qed
  note c = tables_cong [where m = "mem s" and m' = "mem s'" and root = root]
  show "tables (mem s') root = tables (mem s) root" by (rule c(1)) (rule same)
  show "wf_pt kend (mem s') root" using assms(1) by (subst c(2)) (auto intro: same)
  have "leaf (mem s') root va = leaf (mem s) root va" for va by (rule c(3)) (rule same)
  then show "amap (mem s') root = amap (mem s) root" by (intro amap_cong) auto
qed

lemma taken_page:
  assumes inv: "as_inv kend lim s root (p # ys)" and s2: "free_list kend s2 ys" "page_update p s s2"
  shows "pt_inv kend s2 root ys" and "amap (mem s2) root = amap (mem s) root"
    and "tables (mem s2) root = tables (mem s) root"
proof -
  have p: "page_aligned p" "p \<notin> tables (mem s) root"
    using as_invD(4,6) [OF inv] valid_kalloc_ptrD by (auto simp: free_list_def)
  note t = page_update_tables [OF as_invD(3) [OF inv] s2(2) p]
  show "pt_inv kend s2 root ys" using s2(1) t as_invD(6) [OF inv] by (auto simp: pt_inv_def)
  show "amap (mem s2) root = amap (mem s) root" "tables (mem s2) root = tables (mem s) root" using t by auto
qed

lemma perm_bits:
  assumes "perm < (1024 :: u32)"
  shows "(scast perm :: u64) = ucast perm" and "unat (ucast perm OR PTE_V) < 2 ^ 10"
proof -
  have h: "\<not> bit perm n" if "10 \<le> n" for n
    using assms word_high_bits [of perm 10 n] that by (simp add: word_less_nat_alt)
  then show "(scast perm :: u64) = ucast perm"
    by (intro bit_word_eqI) (auto simp: bit_simps min_def not_le)
  have "\<not> bit (ucast perm OR PTE_V :: u64) n" if "10 \<le> n" for n
    using h [OF that] that by (auto simp: PTE_V_def bit_simps)
  then show "unat (ucast perm OR PTE_V) < 2 ^ 10" by (rule word_bounded_bits)
qed

lemma leaf_pte_simps:
  assumes "valid_kalloc_ptr kend p" and "perm < 1024"
  shows "PTE2PA (leaf_pte p perm) = p" and "leaf_pte p perm AND PTE_V \<noteq> 0"
    and "PTE_FLAGS (leaf_pte p perm) = ucast perm OR PTE_V"
proof -
  note v = valid_kalloc_ptrD [OF assms(1)] valid_ptr_bounds [OF assms(1)]
  have e: "leaf_pte p perm = PA2PTE p OR (ucast perm OR PTE_V)"
    by (simp add: perm_bits [OF assms(2)])
  show "PTE2PA (leaf_pte p perm) = p" and "PTE_FLAGS (leaf_pte p perm) = ucast perm OR PTE_V"
    unfolding e using v perm_bits(2) [OF assms(2)] by (auto intro: PTE2PA_PA2PTE)
  show "leaf_pte p perm AND PTE_V \<noteq> 0" unfolding or.assoc [symmetric] by (rule or_PTE_V)
qed

lemma map_taken_ok:
  assumes inv: "as_inv kend lim s root (p # ys)"
    and s2: "free_list kend s2 ys" "page_update p s s2" "kmem.more s2 = kmem.more s"
    and va: "va < lim" "page_aligned va" "\<not> mapped (mem s) root va" and perm: "perm < 1024"
    and g: "pt_grow kend root s2 ys s' zs" and am: "amap (mem s') root = (amap (mem s2) root)(va := leaf_pte p perm)"
  shows "as_step kend lim root s (p # ys) s' zs" and "keeps lim root {} (mem s) (mem s')"
    and "PGROUNDDOWN x = p \<Longrightarrow> mem s' x = mem s2 x"
proof -
  have fl: "free_list kend s (p # ys)" using as_invD(4) [OF inv] .
  have p: "valid_kalloc_ptr kend p" "page_aligned p" "p \<notin> tables (mem s) root" "p \<notin> set ys" "distinct ys"
    using fl as_invD(6) [OF inv] valid_kalloc_ptrD by (auto simp: free_list_def)
  note t = taken_page [OF inv s2(1,2)]
  have am': "amap (mem s') root = (amap (mem s) root)(va := leaf_pte p perm)" using am t(2) by simp
  have tb: "tables (mem s') root = tables (mem s) root \<union> (set ys - set zs)" "set zs \<subseteq> set ys"
    using g t(3) by (auto simp: pt_grow_def)
  have dom: "vdom (mem s') root lim = insert va (vdom (mem s) root lim)" "va \<notin> vdom (mem s) root lim"
    using va leaf_pte_simps(2) [OF p(1) perm] by (auto simp: vdom_def mapped_def am')
  have fr: "frame_of (mem s') root vb = (if vb = va then p else frame_of (mem s) root vb)" for vb
    using leaf_pte_simps(1) [OF p(1) perm] by (simp add: frame_of_def am')
  have img: "frame_of (mem s') root ` vdom (mem s) root lim = frames (mem s) root lim"
    unfolding frames_def using dom(2) by (intro image_cong) (auto simp: fr)
  have frs: "frames (mem s') root lim = insert p (frames (mem s) root lim)"
    unfolding frames_def [of "mem s'"] dom image_insert img by (simp add: fr)
  have pf: "p \<notin> frames (mem s) root lim" using inv by (auto simp: as_inv_def)
  have "inj_on (frame_of (mem s') root) (vdom (mem s) root lim)"
    using inv dom(2) by (auto simp: as_inv_def fr inj_on_def split: if_splits)
  then have inj: "inj_on (frame_of (mem s') root) (vdom (mem s') root lim)"
    unfolding dom using dom(2) pf img by (simp add: fr)
  have "as_inv kend lim s' root zs"
    using inv g inj p tb pf unfolding as_inv_def frs by (auto simp: pt_grow_def)
  moreover have own: "owned (mem s') root lim zs = owned (mem s) root lim (p # ys)"
    using tb by (auto simp: owned_def frs)
  have out: "mem s' x = mem s2 x" if "PGROUNDDOWN x \<notin> tables (mem s') root" for x
    using that g by (simp add: pt_grow_def)
  have "mem s' x = mem s x" if "PGROUNDDOWN x \<notin> owned (mem s) root lim (p # ys)" for x
  proof -
    have "PGROUNDDOWN x \<noteq> p" "PGROUNDDOWN x \<notin> tables (mem s') root"
      using that own by (auto simp: owned_def)
    then show ?thesis using out s2(2) p(2) by (simp add: page_update_def in_page_iff)
  qed
  moreover have "lim \<le> MAXVA" using inv by (simp add: as_inv_def)
  ultimately show "as_step kend lim root s (p # ys) s' zs"
    using g s2(3) va(1) own by (auto simp: as_step_def pt_grow_def am')
  show "PGROUNDDOWN x = p \<Longrightarrow> mem s' x = mem s2 x" using out tb p by auto
  have "mem s' x = mem s x" if "vb < lim" "mapped (mem s) root vb" "PGROUNDDOWN x = frame_of (mem s) root vb" for vb x
  proof -
    have "PGROUNDDOWN x \<in> frames (mem s) root lim" using that framesI by auto
    then have "PGROUNDDOWN x \<noteq> p" "PGROUNDDOWN x \<notin> tables (mem s') root"
      using pf inv tb by (auto simp: as_inv_def)
    then show ?thesis using out s2(2) p(2) by (simp add: page_update_def in_page_iff)
  qed
  then show "keeps lim root {} (mem s) (mem s')" using va(3) by (auto simp: keeps_def am')
qed

lemma map_taken_full:
  assumes inv: "as_inv kend lim s root (p # ys)"
    and s2: "free_list kend s2 ys" "page_update p s s2" "kmem.more s2 = kmem.more s"
    and g: "pt_grow kend root s2 ys s3 []" and am: "amap (mem s3) root = amap (mem s2) root"
  obtains s' where "kfree kend p s3 = Inr s'" "as_step kend lim root s (p # ys) s' [p]"
    "amap (mem s') root = amap (mem s) root" "keeps lim root {} (mem s) (mem s')"
proof -
  have fl: "free_list kend s (p # ys)" using as_invD(4) [OF inv] .
  have p: "valid_kalloc_ptr kend p" "page_aligned p" "p \<notin> tables (mem s) root" "p \<notin> set ys" "distinct ys"
    using fl as_invD(6) [OF inv] valid_kalloc_ptrD by (auto simp: free_list_def)
  note t = taken_page [OF inv s2(1,2)]
  have tb: "tables (mem s3) root = tables (mem s) root \<union> set ys" using g t(3) by (auto simp: pt_grow_def)
  have wf3: "wf_pt kend (mem s3) root" and fl3: "free_list kend s3 []" using g by (auto simp: pt_grow_def pt_inv_def)
  obtain s' where f: "kfree kend p s3 = Inr s'" "free_list kend s' [p]" "page_update p s3 s'" "kmem.more s' = kmem.more s3"
    using free_list_kfree [OF fl3 p(1)] by (metis empty_iff list.set(1))
  have "p \<notin> tables (mem s3) root" using tb p by auto
  note u = page_update_tables [OF wf3 f(3) p(2) this]
  have am': "amap (mem s') root = amap (mem s) root" using u(3) am t(2) by simp
  have tb': "tables (mem s') root = tables (mem s) root \<union> set ys" using u(1) tb by simp
  note fc = frames_cong [where m = "mem s" and m' = "mem s'" and root = root and lim = lim, unfolded am', OF refl]
  have frs: "frames (mem s') root lim = frames (mem s) root lim" using fc(2) .
  have dj: "frames (mem s) root lim \<inter> (tables (mem s) root \<union> set (p # ys)) = {}" using inv by (simp add: as_inv_def)
  have "inj_on (frame_of (mem s') root) (vdom (mem s') root lim)"
    using inv fc(3) by (simp add: as_inv_def)
  then have "as_inv kend lim s' root [p]"
    using inv f(2) u(2) p dj unfolding as_inv_def frs pt_inv_def tb' by auto
  moreover have own: "owned (mem s') root lim [p] = owned (mem s) root lim (p # ys)"
    by (auto simp: owned_def frs tb')
  have out: "mem s' x = mem s x" if "PGROUNDDOWN x \<notin> tables (mem s') root" "PGROUNDDOWN x \<noteq> p" for x
  proof -
    have "mem s' x = mem s3 x" using f(3) that p(2) by (simp add: page_update_def in_page_iff)
    also have "mem s3 x = mem s2 x" using g that u(1) by (simp add: pt_grow_def)
    also have "mem s2 x = mem s x" using s2(2) that p(2) by (simp add: page_update_def in_page_iff)
    finally show ?thesis .
  qed
  have "kmem.more s' = kmem.more s" using f(4) g s2(3) by (simp add: pt_grow_def)
  moreover have "mem s' x = mem s x" if "PGROUNDDOWN x \<notin> owned (mem s) root lim (p # ys)" for x
    using out that own by (auto simp: owned_def)
  ultimately have "as_step kend lim root s (p # ys) s' [p]" using own am' by (simp add: as_step_def)
  moreover have "mem s' x = mem s x" if "vb < lim" "mapped (mem s) root vb" "PGROUNDDOWN x = frame_of (mem s) root vb" for vb x
  proof -
    have "PGROUNDDOWN x \<in> frames (mem s) root lim" using that framesI by auto
    then show ?thesis using dj by (intro out) (auto simp: tb')
  qed
  then have "keeps lim root {} (mem s) (mem s')" by (auto simp: keeps_def am')
  ultimately show thesis using that f(1) am' by blast
qed

text \<open>\<^verbatim>\<open>kalloc\<close>, fill the page, \<^verbatim>\<open>mappages\<close>: the step of growing, copying and lazy allocation.\<close>

lemma map_taken:
  assumes "as_inv kend lim s root (p # ys)"
    and "free_list kend s2 ys" "page_update p s s2" "kmem.more s2 = kmem.more s"
    and "va < lim" "page_aligned va" "\<not> mapped (mem s) root va" and "perm < 1024"
  obtains (ok) s' zs where "mappages root va 4096 p perm s2 = Inr (0, s')"
      "as_step kend lim root s (p # ys) s' zs" "keeps lim root {} (mem s) (mem s')"
      "amap (mem s') root = (amap (mem s) root)(va := leaf_pte p perm)"
      "\<forall>x. PGROUNDDOWN x = p \<longrightarrow> mem s' x = mem s2 x"
  | (full) s3 s' where "mappages root va 4096 p perm s2 = Inr (-1, s3)" "kfree kend p s3 = Inr s'"
      "as_step kend lim root s (p # ys) s' [p]" "keeps lim root {} (mem s) (mem s')"
      "amap (mem s') root = amap (mem s) root" "length ys \<le> 1"
proof -
  note t = taken_page [OF assms(1-3)]
  have "va < MAXVA" using assms(5) as_invD(2) [OF assms(1)] by (rule less_le_trans)
  moreover have "amap (mem s2) root va AND PTE_V = 0" using assms(7) t(2) by (simp add: mapped_def)
  ultimately show thesis using t(1) assms(6)
  proof (rule_tac mappages_page [where kend = kend and s = s2 and root = root and xs = ys and va = va and pa = p and perm = perm])
    fix s3 assume m: "mappages root va 4096 p perm s2 = Inr (- 1, s3)" "pt_grow kend root s2 ys s3 []"
      "amap (mem s3) root = amap (mem s2) root" "length ys \<le> 1"
    from assms(1-4) m(2,3) show thesis by (rule map_taken_full) (rule full [OF m(1) _ _ _ _ m(4)])
  next
    fix s' zs assume m: "mappages root va 4096 p perm s2 = Inr (0, s')" "pt_grow kend root s2 ys s' zs"
      "amap (mem s') root = (amap (mem s2) root)(va := leaf_pte p perm)"
    note k = map_taken_ok [OF assms m(2,3)]
    show thesis using k t(2) m by (intro ok [OF m(1) k(1,2)]) auto
  qed
qed

section \<open>Unmapping\<close>

text \<open>One iteration of \<^verbatim>\<open>uvmunmap\<close> on a mapped page: the page goes back to the free list.\<close>

lemma unmap_one:
  assumes inv: "as_inv kend lim s root xs" and va: "va < lim" "mapped (mem s) root va"
    and a: "node (mem s) root [PX 2 va, PX 1 va] = Some a"
  obtains s2 where "kfree kend (frame_of (mem s) root va) s = Inr s2"
    "as_step kend lim root s xs (upd_mem (store64 (a + 8 * PX 0 va) 0) s2) (frame_of (mem s) root va # xs)"
    "amap (mem (upd_mem (store64 (a + 8 * PX 0 va) 0) s2)) root = (amap (mem s) root)(va := 0)"
    "keeps lim root {va} (mem s) (mem (upd_mem (store64 (a + 8 * PX 0 va) 0) s2))"
    "tables (mem (upd_mem (store64 (a + 8 * PX 0 va) 0) s2)) root = tables (mem s) root"
proof -
  let ?p = "frame_of (mem s) root va"
  note d = as_invD [OF inv]
  have v: "page_aligned va" "va < MAXVA" using mapped_aligned [OF va(2)] by auto
  have p: "valid_kalloc_ptr kend ?p" "?p \<notin> tables (mem s) root" "?p \<notin> set xs" using d(5) [OF va] by auto
  then have pa: "page_aligned ?p" using valid_kalloc_ptrD by blast
  obtain s2 where f: "kfree kend ?p s = Inr s2" "free_list kend s2 (?p # xs)" "page_update ?p s s2" "kmem.more s2 = kmem.more s"
    using free_list_kfree [OF d(4) p(1,3)] by metis
  note u = page_update_tables [OF d(3) f(3) pa p(2)]
  have n2: "node (mem s2) root [PX 2 va, PX 1 va] = Some a"
  proof -
    have "mem s2 x = mem s x" if "b \<in> tables (mem s) root" "in_region b PGSIZE x" for b x
    proof -
      have "PGROUNDDOWN x = b" using that wf_pt_aligned [OF d(3) that(1)] in_page_iff by blast
      then have "PGROUNDDOWN x \<noteq> ?p" using that(1) p(2) by metis
      then show ?thesis using pa f(3) by (simp add: page_update_def in_page_iff)
    qed
    then show ?thesis using a node_cong [of "mem s" root "mem s2" "[PX 2 va, PX 1 va]"] by (simp add: PX_less del: node.simps)
  qed
  have inv2: "pt_inv kend s2 root (?p # xs)" using f(2) u(1,2) d(6) p(2) by (simp add: pt_inv_def)
  define s' where "s' = upd_mem (store64 (a + 8 * PX 0 va) 0) s2"
  note g = set_entry_grow [OF inv2 n2 v(2,1), of 0, folded s'_def]
  have am: "amap (mem s') root = (amap (mem s) root)(va := 0)" using g(2) u(3) by simp
  have tb: "tables (mem s') root = tables (mem s) root" using g(1) u(1) by (auto simp: pt_grow_def)
  have out: "mem s' x = mem s x" if "PGROUNDDOWN x \<notin> tables (mem s) root" "PGROUNDDOWN x \<noteq> ?p" for x
    using that g(1) f(3) pa by (simp add: pt_grow_def tb page_update_def in_page_iff)
  have dom: "vdom (mem s') root lim = vdom (mem s) root lim - {va}"
    by (auto simp: vdom_def mapped_def am)
  have fr: "frame_of (mem s') root vb = frame_of (mem s) root vb" if "vb \<noteq> va" for vb using that by (simp add: frame_of_def am)
  have vin: "va \<in> vdom (mem s) root lim" using va by (simp add: vdom_def)
  have inj: "inj_on (frame_of (mem s) root) (vdom (mem s) root lim)" using inv by (simp add: as_inv_def)
  have frs: "frames (mem s') root lim = frames (mem s) root lim - {?p}"
  proof -
    have "frames (mem s') root lim = frame_of (mem s) root ` (vdom (mem s) root lim - {va})"
      unfolding frames_def dom by (rule image_cong) (auto simp: fr)
    also have "\<dots> = frames (mem s) root lim - {?p}"
      using inj vin unfolding frames_def by (auto simp: inj_on_def)
    finally show ?thesis .
  qed
  have pin: "?p \<in> frames (mem s) root lim" using framesI [OF va] .
  have "inj_on (frame_of (mem s') root) (vdom (mem s') root lim)"
    unfolding dom using inj by (auto simp: inj_on_def fr)
  then have "as_inv kend lim s' root (?p # xs)"
    using inv g(1) pin unfolding as_inv_def frs tb by (auto simp: pt_grow_def)
  moreover have "owned (mem s') root lim (?p # xs) = owned (mem s) root lim xs"
    using pin by (auto simp: owned_def frs tb)
  moreover have "mem s' x = mem s x" if "PGROUNDDOWN x \<notin> owned (mem s) root lim xs" for x
    using that pin by (intro out) (auto simp: owned_def)
  moreover have "\<forall>vb \<ge> lim. amap (mem s') root vb = amap (mem s) root vb" using va(1) by (auto simp: am)
  ultimately have st: "as_step kend lim root s xs s' (?p # xs)" using f(4) g(1) by (simp add: as_step_def pt_grow_def)
  have "mem s' x = mem s x" if "vb < lim" "mapped (mem s) root vb" "vb \<noteq> va" "PGROUNDDOWN x = frame_of (mem s) root vb" for vb x
    using that d(5) [OF that(1,2)] inj vin by (intro out) (auto simp: inj_on_def vdom_def)
  then have "keeps lim root {va} (mem s) (mem s')" by (auto simp: keeps_def am)
  from f(1) st am this tb show thesis unfolding s'_def by (rule that)
qed

definition rng :: "u64 \<Rightarrow> nat \<Rightarrow> u64 set" where
  "rng a n = {va. unat a \<le> unat va \<and> unat va < unat a + 4096 * n}"

lemma aligned_split:
  assumes "page_aligned va" "page_aligned a" "unat a + 4096 < 2 ^ 64"
  shows "a \<le> va \<longleftrightarrow> va = a \<or> a + 4096 \<le> va" and "va < a + 4096 \<longleftrightarrow> va = a \<or> va < a"
proof -
  have a1: "unat (a + 4096) = unat a + 4096" using assms(3) by (simp add: unat_word_ariths)
  obtain q r where "unat va = 4096 * q" "unat a = 4096 * r"
    using assms(1,2) by (auto simp: page_aligned_unat elim!: dvdE)
  then show "a \<le> va \<longleftrightarrow> va = a \<or> a + 4096 \<le> va" "va < a + 4096 \<longleftrightarrow> va = a \<or> va < a"
    using a1 by (auto simp: word_le_nat_alt word_less_nat_alt word_unat_eq_iff)
qed

lemma rng_0 [simp]: "rng a 0 = {}"
  by (simp add: rng_def)

lemma unmap_iter:
  assumes inv: "as_inv kend lim s root xs" and a: "a < lim" "page_aligned a" "a < bound"
  obtains (result) s' ys where "uvmunmap_loop kend root a bound True s = uvmunmap_loop kend root (a + 4096) bound True s'"
    "as_step kend lim root s xs s' ys" "keeps lim root {a} (mem s) (mem s')"
    "amap (mem s') root = (\<lambda>va. if va = a \<and> mapped (mem s) root va then 0 else amap (mem s) root va)"
    "tables (mem s') root = tables (mem s) root"
proof -
  have am: "a < MAXVA" using a(1) as_invD(2) [OF inv] by (rule less_le_trans)
  have keep: thesis if "uvmunmap_loop kend root a bound True s = uvmunmap_loop kend root (a + 4096) bound True s"
    "\<not> mapped (mem s) root a"
  proof -
    have "amap (mem s) root = (\<lambda>va. if va = a \<and> mapped (mem s) root va then 0 else amap (mem s) root va)"
      using that(2) by auto
    with that(1) as_step_refl [OF inv] show thesis by (intro result) (simp_all add: keeps_refl)
  qed
  from as_invD(3) [OF inv] am a(2) show thesis
  proof (rule walk_lookup_amap)
    assume w: "walk root a False s = Inr (0, s)" "amap (mem s) root a = 0"
    show thesis by (rule keep) (use w a(3) in \<open>simp_all add: mapped_def uvmunmap_loop.simps [of kend root a]\<close>)
  next
    fix b assume w: "walk root a False s = Inr (b + 8 * PX 0 a, s)" "b + 8 * PX 0 a \<noteq> 0"
      "node (mem s) root [PX 2 a, PX 1 a] = Some b" "load64 (mem s) (b + 8 * PX 0 a) = amap (mem s) root a"
    show thesis
    proof (cases "mapped (mem s) root a")
      case False
      then show thesis
        by (intro keep) (use w a(3) in \<open>simp_all add: mapped_def uvmunmap_loop.simps [of kend root a]\<close>)
    next
      case True
      from inv a(1) True w(3) show thesis
      proof (rule unmap_one)
        fix s2 assume u: "kfree kend (frame_of (mem s) root a) s = Inr s2"
          "as_step kend lim root s xs (upd_mem (store64 (b + 8 * PX 0 a) 0) s2) (frame_of (mem s) root a # xs)"
          "amap (mem (upd_mem (store64 (b + 8 * PX 0 a) 0) s2)) root = (amap (mem s) root)(a := 0)"
          "keeps lim root {a} (mem s) (mem (upd_mem (store64 (b + 8 * PX 0 a) 0) s2))"
          "tables (mem (upd_mem (store64 (b + 8 * PX 0 a) 0) s2)) root = tables (mem s) root"
        have l: "uvmunmap_loop kend root a bound True s =
            uvmunmap_loop kend root (a + 4096) bound True (upd_mem (store64 (b + 8 * PX 0 a) 0) s2)"
          using w u(1) True a(3) by (simp add: uvmunmap_loop.simps [of kend root a] mapped_def frame_of_def)
        have e: "(amap (mem s) root)(a := 0) = (\<lambda>va. if va = a \<and> mapped (mem s) root va then 0 else amap (mem s) root va)"
          using True by auto
        show thesis by (rule result [OF l u(2,4) trans [OF u(3) e] u(5)])
      qed
    qed
  qed
qed

lemma unmap_loop:
  assumes "as_inv kend lim s root xs" and "page_aligned a" and "unat a + 4096 * n \<le> unat lim"
  shows "\<exists>s' ys. uvmunmap_loop kend root a (a + 4096 * of_nat n) True s = Inr s'
    \<and> as_step kend lim root s xs s' ys \<and> keeps lim root (rng a n) (mem s) (mem s')
    \<and> amap (mem s') root = (\<lambda>va. if va \<in> rng a n \<and> mapped (mem s) root va then 0 else amap (mem s) root va)
    \<and> tables (mem s') root = tables (mem s) root"
  using assms
proof (induction n arbitrary: a s xs)
  case 0
  then show ?case
    by (intro exI [of _ s] exI [of _ xs])
      (simp add: uvmunmap_loop.simps [of kend root a] as_step_refl keeps_refl)
next
  case (Suc n)
  have lim: "unat lim \<le> 2 ^ 38" using as_invD(2) [OF Suc(2)] by (simp add: MAXVA_def word_le_nat_alt)
  have bnd: "unat a + 4096 * Suc n \<le> 2 ^ 38" using Suc(4) lim by linarith
  have a1: "unat (a + 4096) = unat a + 4096" using unat_page_index [OF bnd, of 1] by simp
  have al: "page_aligned (a + 4096)" using page_aligned_add [OF Suc(3), of 1] by simp
  have lt: "a < lim" using Suc(4) by (simp add: word_less_nat_alt)
  have "a < a + 4096 * of_nat (Suc n)"
    using unat_page_index [OF bnd, of "Suc n"] by (simp only: word_less_nat_alt) simp
  with Suc(2) lt Suc(3) obtain s1 ys where i: "uvmunmap_loop kend root a (a + 4096 * of_nat (Suc n)) True s =
      uvmunmap_loop kend root (a + 4096) (a + 4096 * of_nat (Suc n)) True s1"
    "as_step kend lim root s xs s1 ys" "keeps lim root {a} (mem s) (mem s1)"
    "amap (mem s1) root = (\<lambda>va. if va = a \<and> mapped (mem s) root va then 0 else amap (mem s) root va)"
    "tables (mem s1) root = tables (mem s) root"
    by (rule unmap_iter)
  have le: "unat (a + 4096) + 4096 * n \<le> unat lim" using Suc(4) a1 by simp
  obtain s' zs where j: "uvmunmap_loop kend root (a + 4096) (a + 4096 + 4096 * of_nat n) True s1 = Inr s'"
    "as_step kend lim root s1 ys s' zs" "keeps lim root (rng (a + 4096) n) (mem s1) (mem s')"
    "amap (mem s') root = (\<lambda>va. if va \<in> rng (a + 4096) n \<and> mapped (mem s1) root va then 0 else amap (mem s1) root va)"
    "tables (mem s') root = tables (mem s1) root"
    using Suc(1) [OF as_step_inv [OF i(2)] al le] by blast
  have e: "a + 4096 * of_nat (Suc n) = a + 4096 + 4096 * of_nat n" by (simp add: algebra_simps)
  have sub: "{a} \<union> rng (a + 4096) n \<subseteq> rng a (Suc n)" using a1 by (auto simp: rng_def)
  have split: "va = a \<or> va \<in> rng (a + 4096) n" if v: "va \<in> rng a (Suc n)" "mapped (mem s) root va" for va
  proof -
    obtain q k where "unat va = 4096 * q" "unat a = 4096 * k"
      using mapped_aligned [OF v(2)] Suc(3) by (auto simp: page_aligned_unat elim!: dvdE)
    then show ?thesis using v(1) a1 by (auto simp: rng_def word_unat_eq_iff)
  qed
  have "amap (mem s') root = (\<lambda>va. if va \<in> rng a (Suc n) \<and> mapped (mem s) root va then 0 else amap (mem s) root va)"
    unfolding j(4) using split sub by (auto simp: i(4) mapped_def fun_eq_iff)
  moreover have "keeps lim root (rng a (Suc n)) (mem s) (mem s')"
    using keeps_mono [OF keeps_trans [OF i(3) j(3)] sub] .
  moreover have "uvmunmap_loop kend root a (a + 4096 * of_nat (Suc n)) True s = Inr s'"
    using i(1) j(1) unfolding e by (rule trans)
  ultimately show ?case using as_step_trans [OF i(2) j(2)] trans [OF j(5) i(5)] by blast
qed

section \<open>Shrinking\<close>

lemma aligned_PGROUNDUP_le:
  assumes "page_aligned va" and "unat x \<le> 2 ^ 38"
  shows "PGROUNDUP x \<le> va \<longleftrightarrow> x \<le> va" and "va < PGROUNDUP x \<longleftrightarrow> va < x"
proof -
  define q where "q = (unat x + 4095) div 4096"
  have u: "unat (PGROUNDUP x) = 4096 * q" unfolding q_def using assms(2) by (intro unat_PGROUNDUP) simp
  obtain r where r: "r < 4096" "4096 * q + r = unat x + 4095"
    by (rule that [of "(unat x + 4095) mod 4096"]) (simp_all add: q_def)
  obtain j where j: "unat va = 4096 * j" using assms(1) by (auto simp: page_aligned_unat elim!: dvdE)
  have "4096 * q \<le> 4096 * j \<longleftrightarrow> unat x \<le> 4096 * j" using r by auto
  then show le: "PGROUNDUP x \<le> va \<longleftrightarrow> x \<le> va" by (simp add: word_le_nat_alt u j)
  then show "va < PGROUNDUP x \<longleftrightarrow> va < x" by (metis not_le)
qed

lemma npages_int: "unat (w :: u64) < 2 ^ 31 \<Longrightarrow> (scast (ucast w :: u32) :: u64) = w"
proof -
  assume "unat w < 2 ^ 31"
  then have "\<not> bit w n" if "31 \<le> n" for n using that by (rule word_high_bits)
  then show ?thesis by (intro bit_word_eqI) (auto simp: bit_simps min_def not_le)
qed

lemma uvmdealloc_spec:
  assumes inv: "as_inv kend lim s root xs" and lim: "page_aligned lim" and sz: "newsz < oldsz" "oldsz \<le> lim"
  obtains s' ys where "uvmdealloc kend root oldsz newsz s = Inr (newsz, s')"
    "as_step kend lim root s xs s' ys" "keeps lim root {newsz..<oldsz} (mem s) (mem s')"
    "amap (mem s') root = (\<lambda>va. if newsz \<le> va \<and> va < oldsz \<and> mapped (mem s) root va then 0 else amap (mem s) root va)"
    "tables (mem s') root = tables (mem s) root"
proof -
  have l38: "unat lim \<le> 2 ^ 38" using as_invD(2) [OF inv] by (simp add: MAXVA_def word_le_nat_alt)
  have o38: "unat oldsz \<le> 2 ^ 38" "unat newsz \<le> 2 ^ 38" using sz l38 by (simp_all add: word_le_nat_alt word_less_nat_alt)
  let ?a = "PGROUNDUP newsz" let ?b = "PGROUNDUP oldsz"
  have "oldsz \<le> ?b" using aligned_PGROUNDUP_le(1) [OF page_aligned_PGROUNDUP o38(1), of oldsz] by simp
  then have "newsz \<le> ?b" using sz(1) by (meson less_imp_le order_trans)
  then have ab: "?a \<le> ?b" "?b \<le> lim"
    using aligned_PGROUNDUP_le(1) [OF page_aligned_PGROUNDUP o38(2)] aligned_PGROUNDUP_le(1) [OF lim o38(1)] sz(2) by blast+
  define n where "n = (unat ?b - unat ?a) div 4096"
  obtain i j where ij: "unat ?a = 4096 * i" "unat ?b = 4096 * j"
    using page_aligned_PGROUNDUP [of newsz] page_aligned_PGROUNDUP [of oldsz] unfolding page_aligned_unat by (auto elim!: dvdE)
  have n: "unat ?b = unat ?a + 4096 * n" using ab(1) ij by (simp add: n_def word_le_nat_alt)
  have nb: "unat ?a + 4096 * n \<le> unat lim" using n ab(2) by (simp add: word_le_nat_alt)
  have b: "?b = ?a + 4096 * of_nat n"
    using unat_page_index [of ?a n n] nb l38 n by (simp add: word_unat_eq_iff)
  have un: "unat ((?b - ?a) div 4096) = n" using ab(1) by (simp add: unat_div unat_sub n_def)
  then have np: "scast (ucast ((?b - ?a) div 4096) :: u32) = (of_nat n :: u64)"
    using nb l38 by (subst npages_int) (auto simp: word_unat_eq_iff unat_of_nat64)
  have range: "va \<in> rng ?a n \<longleftrightarrow> newsz \<le> va \<and> va < oldsz" if "page_aligned va" for va
    using aligned_PGROUNDUP_le(1) [OF that o38(2)] aligned_PGROUNDUP_le(2) [OF that o38(1)]
    by (simp add: rng_def n [symmetric] word_le_nat_alt word_less_nat_alt)
  obtain s' ys where u: "uvmunmap_loop kend root ?a (?a + 4096 * of_nat n) True s = Inr s'"
    "as_step kend lim root s xs s' ys" "keeps lim root (rng ?a n) (mem s) (mem s')"
    "amap (mem s') root = (\<lambda>va. if va \<in> rng ?a n \<and> mapped (mem s) root va then 0 else amap (mem s) root va)"
    "tables (mem s') root = tables (mem s) root"
    using unmap_loop [OF inv page_aligned_PGROUNDUP nb] by blast
  have un: "uvmunmap kend root ?a (of_nat n) True s = Inr s'"
    using u(1) page_aligned_PGROUNDUP [of newsz] by (simp add: uvmunmap_def page_aligned_def mult.commute)
  have nle: "\<not> oldsz \<le> newsz" using sz(1) by (simp only: not_le)
  have "uvmdealloc kend root oldsz newsz s = Inr (newsz, s')"
  proof (cases "?a < ?b")
    case True
    then show ?thesis using un np nle by (simp add: uvmdealloc_def)
  next
    case False
    then have "n = 0" using ab(1) n by (simp add: word_less_nat_alt)
    then have "s' = s" using u(1) by (simp add: uvmunmap_loop.simps)
    then show ?thesis using False nle by (simp add: uvmdealloc_def)
  qed
  moreover have "keeps lim root {newsz..<oldsz} (mem s) (mem s')"
    using u(3) range mapped_aligned unfolding keeps_def by (metis atLeastLessThan_iff)
  moreover have "amap (mem s') root = (\<lambda>va. if newsz \<le> va \<and> va < oldsz \<and> mapped (mem s) root va then 0 else amap (mem s) root va)"
    unfolding u(4) using range mapped_aligned by (intro ext) metis
  ultimately show thesis using that u(2,5) by blast
qed

section \<open>Growing\<close>

lemma kalloc_fill:
  assumes "free_list kend s (p # ys)" and "kalloc s = (p', s1)"
  shows "p' = p" and "p \<noteq> 0" and "free_list kend (snd (memset p c 4096 s1)) ys"
    and "page_update p s (snd (memset p c 4096 s1))" and "kmem.more (snd (memset p c 4096 s1)) = kmem.more s"
    and "PGROUNDDOWN x = p \<Longrightarrow> mem (snd (memset p c 4096 s1)) x = ucast c"
proof -
  obtain s2 where k: "kalloc s = (p, s2)" "free_list kend s2 ys" "page_update p s s2" "kmem.more s2 = kmem.more s"
    using free_list_kalloc [OF assms(1)] by metis
  with assms(2) have e: "p' = p" "s1 = s2" by auto
  have v: "p \<noteq> 0" "page_aligned p" "p \<notin> set ys" "\<forall>q \<in> set ys. page_aligned q"
    using assms(1) valid_kalloc_ptrD by (auto simp: free_list_def)
  show "p' = p" "p \<noteq> 0" using e v by auto
  let ?s' = "snd (memset p c 4096 s1)"
  have m: "mem ?s' x = (if PGROUNDDOWN x = p then ucast c else mem s2 x)" for x
    using v by (simp add: e in_page_iff)
  show "free_list kend ?s' ys"
  proof (rule free_list_frame [OF k(2)])
    fix q x assume q: "q \<in> set ys" "in_region q PGSIZE x"
    then have "PGROUNDDOWN x = q" using v(4) in_page_iff [of q x] by blast
    then show "mem ?s' x = mem s2 x" using m q(1) v(3) by metis
  qed (use v(1) e in simp_all)
  show "page_update p s ?s'" using k(3) m v(2) by (simp add: page_update_def in_page_iff)
  show "kmem.more ?s' = kmem.more s" using k(4) v(1) e by simp
  show "PGROUNDDOWN x = p \<Longrightarrow> mem ?s' x = ucast c" using m by simp
qed

definition grown :: "u64 \<Rightarrow> u64 \<Rightarrow> u64 \<Rightarrow> u32 \<Rightarrow> memory \<Rightarrow> memory \<Rightarrow> bool" where
  "grown root lo hi perm m m' \<longleftrightarrow>
     (\<forall>va. amap m' root va = (if page_aligned va \<and> lo \<le> va \<and> va < hi
        then leaf_pte (frame_of m' root va) perm else amap m root va))
     \<and> (\<forall>va x. page_aligned va \<longrightarrow> lo \<le> va \<longrightarrow> va < hi \<longrightarrow> PGROUNDDOWN x = frame_of m' root va \<longrightarrow> m' x = 0)"

lemma grown_step:
  assumes g: "grown root (a + 4096) hi perm m1 m'" and a: "page_aligned a" "a < hi" "a < lim" "unat hi \<le> 2 ^ 38"
    and m1: "amap m1 root = (amap m root)(a := leaf_pte p perm)" "\<forall>x. PGROUNDDOWN x = p \<longrightarrow> m1 x = 0"
    and p: "valid_kalloc_ptr kend p" "perm < 1024" and k: "keeps lim root {} m1 m'"
  shows "grown root a hi perm m m'"
proof -
  note lp = leaf_pte_simps [OF p]
  have a1: "unat (a + 4096) = unat a + 4096"
    using a(2,4) by (simp add: unat_word_ariths word_less_nat_alt)
  have split: "a \<le> va \<longleftrightarrow> va = a \<or> a + 4096 \<le> va" if "page_aligned va" for va
    using that a by (intro aligned_split) (simp_all add: word_less_nat_alt)
  have na: "\<not> a + 4096 \<le> a" using a1 by (simp add: word_le_nat_alt)
  have ma: "mapped m1 root a" "frame_of m1 root a = p" using lp by (simp_all add: mapped_def frame_of_def m1(1))
  have ka: "amap m' root a = leaf_pte p perm" "frame_of m' root a = p" "PGROUNDDOWN x = p \<Longrightarrow> m' x = 0" for x
    using k ma a(3) m1 lp unfolding keeps_def by (auto simp: frame_of_def)
  show ?thesis unfolding grown_def
  proof (intro conjI allI impI)
    fix va
    show "amap m' root va = (if page_aligned va \<and> a \<le> va \<and> va < hi then leaf_pte (frame_of m' root va) perm else amap m root va)"
      using g ka a(1,2) split [of va] by (cases "va = a") (auto simp: grown_def m1(1))
  next
    fix va x assume v: "page_aligned va" "a \<le> va" "va < hi" "PGROUNDDOWN x = frame_of m' root va"
    then show "m' x = 0" using g ka split [OF v(1)] by (cases "va = a") (auto simp: grown_def)
  qed
qed

definition rolled_back :: "u64 \<Rightarrow> u64 \<Rightarrow> u64 \<Rightarrow> memory \<Rightarrow> memory \<Rightarrow> bool" where
  "rolled_back root lo hi m m' \<longleftrightarrow>
     amap m' root = (\<lambda>va. if lo \<le> va \<and> va < hi \<and> mapped m root va then 0 else amap m root va)"

lemma rolled_back_dealloc:
  assumes inv: "as_inv kend lim s root xs" and lim: "page_aligned lim" and sz: "base \<le> a" "a \<le> lim"
  obtains r s' ys where "uvmdealloc kend root a base s = Inr (r, s')" "as_step kend lim root s xs s' ys"
    "keeps lim root {base..<a} (mem s) (mem s')" "rolled_back root base a (mem s) (mem s')"
proof (cases "base < a")
  case True
  from inv lim True sz(2) show thesis
    by (rule uvmdealloc_spec) (rule that; simp add: rolled_back_def)
next
  case False
  then have e: "a = base" using sz(1) by simp
  then have "\<not> (base \<le> va \<and> va < a)" for va by auto
  then have "rolled_back root base a (mem s) (mem s)" unfolding rolled_back_def by (intro ext) auto
  with that [OF _ as_step_refl [OF inv] keeps_refl] show thesis unfolding e by (simp add: uvmdealloc_def)
qed

lemma rolled_back_step:
  assumes "rolled_back root lo (a + 4096) m1 m'" and "amap m1 root = (amap m root)(a := e)" "e AND PTE_V \<noteq> 0"
    and "amap m root a = 0" and "page_aligned a" "lo \<le> a" "unat a + 4096 < 2 ^ 64"
  shows "rolled_back root lo a m m'"
proof -
  have split: "va < a + 4096 \<longleftrightarrow> va = a \<or> va < a" if "mapped m1 root va" for va
    using mapped_aligned [OF that] assms(5) assms(7) by (simp add: aligned_split)
  have "amap m' root va = (if lo \<le> va \<and> va < a \<and> mapped m root va then 0 else amap m root va)" for va
    using assms(1-4,6) split [of va] unfolding rolled_back_def mapped_def by (cases "va = a") auto
  then show ?thesis unfolding rolled_back_def by (rule ext)
qed

lemma aligned_next_le:
  assumes "page_aligned a" "page_aligned lim" "a < lim" "unat (a + 4096) = unat a + 4096"
  shows "a + 4096 \<le> lim"
proof -
  obtain q r where "unat lim = 4096 * q" "unat a = 4096 * r"
    using assms(1,2) by (auto simp: page_aligned_unat elim!: dvdE)
  then show ?thesis using assms(3,4) by (simp add: word_less_nat_alt word_le_nat_alt)
qed

lemma keeps_below:
  assumes "keeps lim root {lo..<a + 4096} m m'" and "\<not> mapped m root a" and "page_aligned a" and "unat a + 4096 < 2 ^ 64"
  shows "keeps lim root {lo..<a} m m'"
proof -
  have "va < a" if "mapped m root va" "va < a + 4096" for va
    using aligned_split(2) [of va a] mapped_aligned [OF that(1)] that assms(2-4) by auto
  then show ?thesis using assms(1) by (auto simp: keeps_def)
qed

lemma uvmalloc_loop_spec:
  fixes a :: u64
  assumes "as_inv kend lim s root xs" and "page_aligned a" "base \<le> a" "a \<le> lim"
    and "newsz \<le> lim" "page_aligned lim" and "perm = ucast (PTE_R OR PTE_U) OR xperm" "perm < 1024"
    and "\<forall>va. page_aligned va \<longrightarrow> a \<le> va \<longrightarrow> va < newsz \<longrightarrow> amap (mem s) root va = 0"
  shows "\<exists>r s' ys. uvmalloc_loop kend root base newsz xperm a s = Inr (r, s') \<and> as_step kend lim root s xs s' ys
    \<and> (r = newsz \<and> keeps lim root {} (mem s) (mem s') \<and> grown root a newsz perm (mem s) (mem s')
       \<or> r = 0 \<and> keeps lim root {base..<a} (mem s) (mem s') \<and> rolled_back root base a (mem s) (mem s'))"
  using assms(1-4,9)
proof (induction "2 ^ 39 - unat a" arbitrary: a s xs rule: less_induct)
  case less
  note inv = less(2) and al = less(3) and ba = less(4) and alim = less(5) and z = less(6)
  have l38: "unat lim \<le> 2 ^ 38" using as_invD(2) [OF inv] by (simp add: MAXVA_def word_le_nat_alt)
  show ?case
  proof (cases "a < newsz")
    case False
    then have "grown root a newsz perm (mem s) (mem s)" unfolding grown_def by (meson le_less_trans)
    then show ?thesis using False as_step_refl [OF inv] keeps_refl
      by (intro exI [of _ newsz] exI [of _ s] exI [of _ xs]) (simp add: uvmalloc_loop.simps)
  next
    case True
    then have alt: "a < lim" using assms(5) by (rule less_le_trans)
    have a0: "amap (mem s) root a = 0" using z al True by simp
    then have nm: "\<not> mapped (mem s) root a" by (simp add: mapped_def)
    have big: "unat a + 4096 < 2 ^ 64" using alt l38 by (simp add: word_less_nat_alt)
    show ?thesis
    proof (cases xs)
      case Nil
      then have k0: "kalloc s = (0, s)" using as_invD(4) [OF inv] by (simp add: free_list_def kalloc_none)
      from inv assms(6) ba alim show ?thesis
        by (rule rolled_back_dealloc)
          (rule exI [of _ 0], use k0 True in \<open>subst uvmalloc_loop.simps, auto\<close>)
    next
      case (Cons p ys)
      have fl: "free_list kend s (p # ys)" using as_invD(4) [OF inv] Cons by simp
      obtain s1 where k: "kalloc s = (p, s1)" using kalloc_fill(1) [OF fl] by (cases "kalloc s") auto
      note f = kalloc_fill(1,2) [OF fl k] kalloc_fill(3-6) [OF fl k, where c = 0]
      let ?s2 = "snd (memset p 0 4096 s1)"
      have unf: "uvmalloc_loop kend root base newsz xperm a s = (case mappages root a 4096 p perm ?s2 of
            Inl e \<Rightarrow> Inl e
          | Inr (r, s2) \<Rightarrow> if r \<noteq> 0
              then rbind (kfree kend p s2) (\<lambda>s3. rbind (uvmdealloc kend root a base s3) (\<lambda>(_, s4). Inr (0, s4)))
              else uvmalloc_loop kend root base newsz xperm (a + 4096) s2)"
        using True k f(2) by (subst uvmalloc_loop.simps) (simp add: assms(7))
      from inv [unfolded Cons] f(3-5) alt al nm assms(8) show ?thesis
      proof (rule map_taken)
        fix s3 s' assume m: "mappages root a 4096 p perm ?s2 = Inr (- 1, s3)" "kfree kend p s3 = Inr s'"
          "as_step kend lim root s (p # ys) s' [p]" "keeps lim root {} (mem s) (mem s')" "amap (mem s') root = amap (mem s) root"
        from as_step_inv [OF m(3)] assms(6) ba alim show ?thesis
        proof (rule rolled_back_dealloc)
          fix r s4 zs assume r: "uvmdealloc kend root a base s' = Inr (r, s4)" "as_step kend lim root s' [p] s4 zs"
            "keeps lim root {base..<a} (mem s') (mem s4)" "rolled_back root base a (mem s') (mem s4)"
          have "uvmalloc_loop kend root base newsz xperm a s = Inr (0, s4)" unfolding unf using m r by simp
          moreover have "rolled_back root base a (mem s) (mem s4)"
            using r(4) unfolding rolled_back_def mapped_def m(5) .
          ultimately show ?thesis
            using as_step_trans [OF m(3) r(2)] keeps_trans [OF m(4) r(3)] Cons by auto
        qed
      next
        fix s' zs assume m: "mappages root a 4096 p perm ?s2 = Inr (0, s')" "as_step kend lim root s (p # ys) s' zs"
          "keeps lim root {} (mem s) (mem s')" "amap (mem s') root = (amap (mem s) root)(a := leaf_pte p perm)"
          "\<forall>x. PGROUNDDOWN x = p \<longrightarrow> mem s' x = mem ?s2 x"
        have v: "valid_kalloc_ptr kend p" using fl by (simp add: free_list_def)
        have a1: "unat (a + 4096) = unat a + 4096" using big by (simp add: unat_word_ariths)
        have al1: "page_aligned (a + 4096)" using page_aligned_add [OF al, of 1] by simp
        have le1: "a + 4096 \<le> lim" using aligned_next_le [OF al assms(6) alt a1] .
        have lt1: "a < a + 4096" using a1 by (simp add: word_less_nat_alt)
        have ba1: "base \<le> a + 4096" using ba lt1 by (meson less_imp_le order_trans)
        have dec: "2 ^ 39 - unat (a + 4096) < 2 ^ 39 - unat a" using alt l38 by (simp add: a1 word_less_nat_alt)
        have z1: "\<forall>va. page_aligned va \<longrightarrow> a + 4096 \<le> va \<longrightarrow> va < newsz \<longrightarrow> amap (mem s') root va = 0"
        proof (intro allI impI)
          fix va assume va: "page_aligned va" "a + 4096 \<le> va" "va < newsz"
          then have "a < va" using lt1 by (meson less_le_trans)
          then show "amap (mem s') root va = 0" using z va(1,3) by (auto simp: m(4))
        qed
        obtain r s4 ws where r: "uvmalloc_loop kend root base newsz xperm (a + 4096) s' = Inr (r, s4)"
          "as_step kend lim root s' zs s4 ws"
          "r = newsz \<and> keeps lim root {} (mem s') (mem s4) \<and> grown root (a + 4096) newsz perm (mem s') (mem s4)
           \<or> r = 0 \<and> keeps lim root {base..<a + 4096} (mem s') (mem s4) \<and> rolled_back root base (a + 4096) (mem s') (mem s4)"
          using less(1) [OF dec as_step_inv [OF m(2)] al1 ba1 le1 z1] by blast
        have l: "uvmalloc_loop kend root base newsz xperm a s = Inr (r, s4)" unfolding unf using m(1) r(1) by simp
        have st: "as_step kend lim root s xs s4 ws" using as_step_trans [OF m(2) r(2)] Cons by simp
        from r(3) show ?thesis
        proof (elim disjE conjE)
          assume g: "r = newsz" "keeps lim root {} (mem s') (mem s4)" "grown root (a + 4096) newsz perm (mem s') (mem s4)"
          have n38: "unat newsz \<le> 2 ^ 38" using assms(5) l38 by (simp add: word_le_nat_alt)
          have "grown root a newsz perm (mem s) (mem s4)"
            using grown_step [OF g(3) al True alt n38 m(4) _ v assms(8) g(2)] m(5) f(6) by simp
          then show ?thesis using l st g(1) keeps_trans [OF m(3) g(2)] by auto
        next
          assume g: "r = 0" "keeps lim root {base..<a + 4096} (mem s') (mem s4)" "rolled_back root base (a + 4096) (mem s') (mem s4)"
          have "rolled_back root base a (mem s) (mem s4)"
            using rolled_back_step [OF g(3) m(4) leaf_pte_simps(2) [OF v assms(8)] a0 al ba big] .
          moreover have "keeps lim root {base..<a} (mem s) (mem s4)"
            using keeps_below [OF _ nm al big] keeps_trans [OF m(3) g(2)] by simp
          ultimately show ?thesis using l st g(1) by blast
        qed
      qed
    qed
  qed
qed

lemma grown_PGROUNDUP:
  "unat oldsz \<le> 2 ^ 38 \<Longrightarrow> grown root (PGROUNDUP oldsz) hi perm m m' = grown root oldsz hi perm m m'"
  by (simp add: grown_def aligned_PGROUNDUP_le(1) cong: conj_cong imp_cong)

lemma or_perm:
  assumes "x < (1024 :: u32)" "y < 1024"
  shows "x OR y < 1024"
proof -
  have "\<not> bit (x OR y) n" if "10 \<le> n" for n
    using that assms word_high_bits [of x 10 n] word_high_bits [of y 10 n] by (simp add: word_less_nat_alt bit_or_iff)
  then have "unat (x OR y) < 2 ^ 10" by (rule word_bounded_bits)
  then show ?thesis by (simp add: word_less_nat_alt)
qed

lemma uvmalloc_spec:
  assumes inv: "as_inv kend lim s root xs" and lim: "page_aligned lim" and sz: "oldsz \<le> newsz" "newsz \<le> lim"
    and perm: "perm = ucast (PTE_R OR PTE_U) OR xperm" "perm < 1024"
    and zero: "\<forall>va. oldsz \<le> va \<longrightarrow> va < newsz \<longrightarrow> amap (mem s) root va = 0"
  shows "\<exists>r s' ys. uvmalloc kend root oldsz newsz xperm s = Inr (r, s') \<and> as_step kend lim root s xs s' ys
    \<and> keeps lim root {} (mem s) (mem s')
    \<and> (r = newsz \<and> grown root oldsz newsz perm (mem s) (mem s') \<or> r = 0 \<and> amap (mem s') root = amap (mem s) root)"
proof -
  have l38: "unat lim \<le> 2 ^ 38" using as_invD(2) [OF inv] by (simp add: MAXVA_def word_le_nat_alt)
  have o38: "unat oldsz \<le> 2 ^ 38" using sz l38 by (simp add: word_le_nat_alt)
  let ?a = "PGROUNDUP oldsz"
  have "oldsz \<le> lim" using sz by (rule order_trans)
  then have alim: "?a \<le> lim" using aligned_PGROUNDUP_le(1) [OF lim o38] by simp
  have up: "oldsz \<le> va" if "?a \<le> va" for va
    using that aligned_PGROUNDUP_le(1) [OF page_aligned_PGROUNDUP o38, of oldsz] by (meson order_refl order_trans)
  have z: "\<forall>va. page_aligned va \<longrightarrow> ?a \<le> va \<longrightarrow> va < newsz \<longrightarrow> amap (mem s) root va = 0" using zero up by blast
  have e: "uvmalloc kend root oldsz newsz xperm s = uvmalloc_loop kend root ?a newsz xperm ?a s"
    unfolding uvmalloc_def using sz(1) by (intro if_not_P) (simp only: not_less)
  have nil: "{?a..<?a} = {}" by simp
  obtain r s' ys where u: "uvmalloc_loop kend root ?a newsz xperm ?a s = Inr (r, s')" "as_step kend lim root s xs s' ys"
    "r = newsz \<and> keeps lim root {} (mem s) (mem s') \<and> grown root ?a newsz perm (mem s) (mem s')
      \<or> r = 0 \<and> keeps lim root {} (mem s) (mem s') \<and> rolled_back root ?a ?a (mem s) (mem s')"
    using uvmalloc_loop_spec [OF inv page_aligned_PGROUNDUP order_refl alim sz(2) lim perm z] unfolding nil by blast
  have none: "(?a \<le> va \<and> va < ?a \<and> mapped (mem s) root va) = False" for va by auto
  have "amap (mem s') root = amap (mem s) root" if "rolled_back root ?a ?a (mem s) (mem s')"
    using that unfolding rolled_back_def none by simp
  with u show ?thesis unfolding e grown_PGROUNDUP [OF o38] by blast
qed

section \<open>Copying an address space\<close>

text \<open>What the parent owns below \<open>sz\<close>: untouched as long as it is disjoint from what the child owns.\<close>

definition src_inv :: "u64 \<Rightarrow> u64 \<Rightarrow> memory \<Rightarrow> u64 \<Rightarrow> u64 set \<Rightarrow> bool" where
  "src_inv kend sz m old A \<longleftrightarrow> wf_pt kend m old \<and> tables m old \<union> frames m old sz \<subseteq> A
     \<and> frames m old sz \<subseteq> Collect (valid_kalloc_ptr kend)"

lemma src_inv_frame:
  assumes "src_inv kend sz m old A" and "\<And>x. PGROUNDDOWN x \<in> A \<Longrightarrow> m' x = m x"
  shows "amap m' old = amap m old" and "src_inv kend sz m' old A"
proof -
  have wf: "wf_pt kend m old" and sub: "tables m old \<subseteq> A" using assms(1) by (auto simp: src_inv_def)
  have same: "m' x = m x" if "a \<in> tables m old" "in_region a PGSIZE x" for a x
  proof -
    have "PGROUNDDOWN x = a" using that wf_pt_aligned [OF wf that(1)] in_page_iff by blast
    then show ?thesis using assms(2) sub that(1) by auto
  qed
  note c = tables_cong [where m = m and m' = m' and root = old]
  have "leaf m' old va = leaf m old va" for va by (rule c(3)) (rule same)
  then show am: "amap m' old = amap m old" by (intro amap_cong) auto
  have t: "tables m' old = tables m old" by (rule c(1)) (rule same)
  have "wf_pt kend m' old" using wf by (subst c(2)) (auto intro: same)
  moreover have "frames m' old sz = frames m old sz" by (rule frames_cong(2)) (simp add: am)
  ultimately show "src_inv kend sz m' old A" using assms(1) by (simp add: src_inv_def t)
qed

lemma kalloc_copy:
  assumes "free_list kend s (p # ys)" and "kalloc s = (p, s1)" and "valid_kalloc_ptr kend q" "q \<noteq> p"
  shows "free_list kend (snd (memmove p q 4096 s1)) ys" and "page_update p s (snd (memmove p q 4096 s1))"
    and "kmem.more (snd (memmove p q 4096 s1)) = kmem.more s"
    and "PGROUNDDOWN x = p \<Longrightarrow> mem (snd (memmove p q 4096 s1)) x = mem s (q + (x - p))"
proof -
  obtain s2 where k: "kalloc s = (p, s2)" "free_list kend s2 ys" "page_update p s s2" "kmem.more s2 = kmem.more s"
    using free_list_kalloc [OF assms(1)] by metis
  with assms(2) have e: "s1 = s2" by auto
  have p: "valid_kalloc_ptr kend p" "p \<noteq> 0" "page_aligned p" "p \<notin> set ys" "\<forall>q \<in> set ys. page_aligned q"
    using assms(1) valid_kalloc_ptrD by (auto simp: free_list_def)
  have q: "q \<noteq> 0" "page_aligned q" using valid_kalloc_ptrD [OF assms(3)] by auto
  have b: "unat p + 4096 < 2 ^ 64" "unat q + 4096 < 2 ^ 64"
    using valid_ptr_bounds [OF p(1)] valid_ptr_bounds [OF assms(3)] by simp_all
  let ?s' = "snd (memmove p q 4096 s1)"
  have mm: "?s' = upd_mem (\<lambda>m x. if in_region p 4096 x then m (q + (x - p)) else m x)
              (upd_stats (\<lambda>t. t\<lparr>memmove_calls := memmove_calls t + 1\<rparr>) s1)"
    using memmove_memory [of p q 4096 s1] p(2) q(1) b by simp
  have m: "mem ?s' x = (if PGROUNDDOWN x = p then mem s2 (q + (x - p)) else mem s2 x)" for x
    unfolding mm using p(3) by (simp add: e in_page_iff)
  show "free_list kend ?s' ys"
  proof (rule free_list_frame [OF k(2)])
    fix r x assume r: "r \<in> set ys" "in_region r PGSIZE x"
    then have "PGROUNDDOWN x = r" using p(5) in_page_iff [of r x] by blast
    then show "mem ?s' x = mem s2 x" using m r(1) p(4) by metis
  qed (simp_all add: mm [unfolded e] e)
  show "page_update p s ?s'" using k(3) m p(3) by (simp add: page_update_def in_page_iff)
  show "kmem.more ?s' = kmem.more s" using k(4) by (simp add: mm [unfolded e] e)
  assume x: "PGROUNDDOWN x = p"
  then have "in_region q PGSIZE (q + (x - p))" using p(3) in_page_iff [of p x] by (simp add: in_region_def)
  then have "PGROUNDDOWN (q + (x - p)) = q" using q(2) in_page_iff by blast
  then have "mem s2 (q + (x - p)) = mem s (q + (x - p))"
    using k(3) assms(4) p(3) by (simp add: page_update_def in_page_iff)
  then show "mem ?s' x = mem s (q + (x - p))" using m x by simp
qed

lemma PTE_FLAGS_small: "PTE_FLAGS e < 1024" "ucast (PTE_FLAGS e) < (1024 :: u32)"
  "ucast (ucast (PTE_FLAGS e) :: u32) = PTE_FLAGS e"
proof -
  have t: "PTE_FLAGS e = take_bit 10 e" by (simp add: PTE_FLAGS_def take_bit_eq_mask mask_eq_exp_minus_1)
  have u: "unat (PTE_FLAGS e) < 2 ^ 10" unfolding t by (simp only: unsigned_take_bit_eq take_bit_nat_less_exp)
  then show "PTE_FLAGS e < 1024" by (simp add: word_less_nat_alt)
  have "n < 32" if "bit (PTE_FLAGS e) n" for n using word_high_bits [OF u, of n] that by linarith
  then show c: "ucast (ucast (PTE_FLAGS e) :: u32) = PTE_FLAGS e"
    by (intro bit_word_eqI) (auto simp: bit_simps)
  show "ucast (PTE_FLAGS e) < (1024 :: u32)"
    using u by (simp add: word_less_nat_alt unsigned_ucast_eq take_bit_eq_mod)
qed

lemma PTE_FLAGS_valid: "e AND PTE_V \<noteq> 0 \<Longrightarrow> PTE_FLAGS e OR PTE_V = PTE_FLAGS e"
proof -
  assume "e AND PTE_V \<noteq> 0"
  then have b: "bit e 0" by (auto simp: PTE_V_def and_one_eq even_iff_mod_2_eq_zero bit_0 odd_iff_mod_2_eq_one)
  show ?thesis
  proof (rule bit_word_eqI)
    fix n :: nat
    have "bit (0x3FF :: u64) 0" by simp
    then show "bit (PTE_FLAGS e OR PTE_V) n = bit (PTE_FLAGS e) n"
      using b by (cases n) (auto simp: PTE_FLAGS_def PTE_V_def bit_simps)
  qed
qed

definition copied :: "u64 \<Rightarrow> u64 \<Rightarrow> u64 \<Rightarrow> u64 \<Rightarrow> memory \<Rightarrow> memory \<Rightarrow> bool" where
  "copied old new lo hi m m' \<longleftrightarrow>
     (\<forall>va. page_aligned va \<longrightarrow> lo \<le> va \<longrightarrow> va < hi \<longrightarrow> mapped m old va \<longrightarrow>
        mapped m' new va \<and> PTE_FLAGS (amap m' new va) = PTE_FLAGS (amap m old va)
        \<and> (\<forall>x. PGROUNDDOWN x = frame_of m' new va \<longrightarrow> m' x = m (frame_of m old va + (x - frame_of m' new va))))
     \<and> (\<forall>va. \<not> (lo \<le> va \<and> va < hi \<and> mapped m old va) \<longrightarrow> amap m' new va = amap m new va)"

lemma uvmunmap_from_0:
  assumes inv: "as_inv kend lim s root xs" and i: "page_aligned i" "i \<le> lim"
  obtains s' ys where "uvmunmap kend root 0 (i div 4096) True s = Inr s'" "as_step kend lim root s xs s' ys"
    "rolled_back root 0 i (mem s) (mem s')" "tables (mem s') root = tables (mem s) root"
proof -
  define n where "n = unat i div 4096"
  have n: "unat i = 4096 * n" using i(1) by (auto simp: n_def page_aligned_unat)
  have b: "unat (0 :: u64) + 4096 * n \<le> unat lim" using i(2) n by (simp add: word_le_nat_alt)
  obtain s' ys where u: "uvmunmap_loop kend root 0 (0 + 4096 * of_nat n) True s = Inr s'" "as_step kend lim root s xs s' ys"
    "amap (mem s') root = (\<lambda>va. if va \<in> rng 0 n \<and> mapped (mem s) root va then 0 else amap (mem s) root va)"
    "tables (mem s') root = tables (mem s) root"
    using unmap_loop [OF inv _ b] by (auto simp: page_aligned_def)
  have "n < 2 ^ 64" using n unat64_less [of i] by simp
  then have d: "i div 4096 = of_nat n" by (simp add: word_unat_eq_iff unat_div unat_of_nat64 n_def)
  have "va \<in> rng 0 n \<longleftrightarrow> 0 \<le> va \<and> va < i" for va using n by (simp add: rng_def word_less_nat_alt)
  then have "rolled_back root 0 i (mem s) (mem s')" unfolding rolled_back_def u(3) by simp
  moreover have "uvmunmap kend root 0 (i div 4096) True s = Inr s'"
    using u(1) by (simp add: uvmunmap_def d mult.commute)
  ultimately show thesis using that u(2,4) by blast
qed

lemma uvmcopy_err_spec:
  assumes "as_inv kend lim s new xs" and "page_aligned i" "i \<le> lim"
  obtains s' ys where "uvmcopy_err kend new i s = Inr (-1, s')" "as_step kend lim new s xs s' ys"
    "rolled_back new 0 i (mem s) (mem s')"
  using assms by (rule uvmunmap_from_0) (rule that, simp_all add: uvmcopy_err_def)

lemma copied_skip:
  assumes "copied old new (i + 4096) hi m m'" and "\<not> mapped m old i" and "page_aligned i" "unat i + 4096 < 2 ^ 64"
  shows "copied old new i hi m m'"
proof -
  have split: "i \<le> va \<longleftrightarrow> va = i \<or> i + 4096 \<le> va" if "page_aligned va" for va
    using that assms(3,4) by (simp add: aligned_split)
  show ?thesis using assms(1,2) split mapped_aligned [of m old] unfolding copied_def by metis
qed

lemma rolled_back_skip:
  assumes "rolled_back root lo (a + 4096) m m'" and "amap m root a = 0"
    and "page_aligned a" "unat a + 4096 < 2 ^ 64"
  shows "rolled_back root lo a m m'"
proof -
  have split: "va < a + 4096 \<longleftrightarrow> va = a \<or> va < a" if "mapped m root va" for va
    using mapped_aligned [OF that] assms(3) assms(4) by (simp add: aligned_split)
  have "amap m' root va = (if lo \<le> va \<and> va < a \<and> mapped m root va then 0 else amap m root va)" for va
    using assms(1,2) split [of va] unfolding rolled_back_def mapped_def by (cases "va = a") auto
  then show ?thesis unfolding rolled_back_def by (rule ext)
qed

lemma copied_step:
  assumes c: "copied old new (i + 4096) hi m1 m'" and i: "page_aligned i" "unat i + 4096 < 2 ^ 64" "i < hi" "i < lim"
    and m1: "amap m1 new = (amap m new)(i := leaf_pte p flags)"
      "\<forall>x. PGROUNDDOWN x = p \<longrightarrow> m1 x = m (frame_of m old i + (x - p))"
    and old: "amap m1 old = amap m old" "\<And>x va. va < hi \<Longrightarrow> mapped m old va \<Longrightarrow> PGROUNDDOWN x = frame_of m old va \<Longrightarrow> m1 x = m x"
    and al: "\<And>va. va < hi \<Longrightarrow> mapped m old va \<Longrightarrow> page_aligned (frame_of m old va)"
      "\<And>va. va < hi \<Longrightarrow> mapped m' new va \<Longrightarrow> page_aligned (frame_of m' new va)"
    and p: "valid_kalloc_ptr kend p" and flags: "flags = ucast (PTE_FLAGS (amap m old i))"
    and k: "keeps lim new {} m1 m'" and mi: "mapped m old i"
  shows "copied old new i hi m m'"
proof -
  have f1024: "flags < 1024" unfolding flags by (rule PTE_FLAGS_small)
  note lp = leaf_pte_simps [OF p f1024]
  have ma: "mapped m1 new i" "frame_of m1 new i = p" using lp by (simp_all add: mapped_def frame_of_def m1(1))
  have ka: "amap m' new i = leaf_pte p flags" "frame_of m' new i = p" "PGROUNDDOWN x = p \<Longrightarrow> m' x = m1 x" for x
    using k ma i(4) m1(1) lp unfolding keeps_def by (auto simp: frame_of_def)
  have fl: "PTE_FLAGS (amap m' new i) = PTE_FLAGS (amap m old i)"
    using lp(3) mi by (simp add: ka(1) flags PTE_FLAGS_small PTE_FLAGS_valid mapped_def)
  have split: "i \<le> va \<longleftrightarrow> va = i \<or> i + 4096 \<le> va" if "page_aligned va" for va
    using that i(1,2) by (simp add: aligned_split)
  have ni: "\<not> i + 4096 \<le> i" using i(2) by (simp add: word_le_nat_alt unat_word_ariths)
  have mo: "mapped m1 old = mapped m old" "frame_of m1 old = frame_of m old"
    using old(1) by (simp_all add: mapped_def frame_of_def fun_eq_iff)
  show ?thesis unfolding copied_def
  proof (intro conjI allI impI)
    fix va assume va: "page_aligned va" "i \<le> va" "va < hi" "mapped m old va"
    have a: "mapped m' new va \<and> PTE_FLAGS (amap m' new va) = PTE_FLAGS (amap m old va)
        \<and> (\<forall>x. PGROUNDDOWN x = frame_of m' new va \<longrightarrow> m' x = m (frame_of m old va + (x - frame_of m' new va)))"
    proof (cases "va = i")
      case True
      then show ?thesis using fl lp(2) ka m1(2) by (simp add: mapped_def)
    next
      case False
      then have "i + 4096 \<le> va" using split [OF va(1)] va(2) by simp
      then have b: "mapped m' new va" "PTE_FLAGS (amap m' new va) = PTE_FLAGS (amap m old va)"
        "\<forall>x. PGROUNDDOWN x = frame_of m' new va \<longrightarrow> m' x = m1 (frame_of m old va + (x - frame_of m' new va))"
        using c va unfolding copied_def mo old(1) by blast+
      have "m1 (frame_of m old va + (x - frame_of m' new va)) = m (frame_of m old va + (x - frame_of m' new va))"
        if "PGROUNDDOWN x = frame_of m' new va" for x
      proof (rule old(2) [OF va(3,4)])
        have "in_region (frame_of m' new va) PGSIZE x" using that in_page_iff [OF al(2) [OF va(3) b(1)]] by simp
        then have "in_region (frame_of m old va) PGSIZE (frame_of m old va + (x - frame_of m' new va))"
          by (simp add: in_region_def)
        then show "PGROUNDDOWN (frame_of m old va + (x - frame_of m' new va)) = frame_of m old va"
          using in_page_iff [OF al(1) [OF va(3,4)]] by simp
      qed
      then show ?thesis using b by simp
    qed
    then show "mapped m' new va" "PTE_FLAGS (amap m' new va) = PTE_FLAGS (amap m old va)" by blast+
    fix x assume "PGROUNDDOWN x = frame_of m' new va"
    then show "m' x = m (frame_of m old va + (x - frame_of m' new va))" using a by blast
  next
    fix va assume n: "\<not> (i \<le> va \<and> va < hi \<and> mapped m old va)"
    then have ne: "va \<noteq> i" using i(3) mi by auto
    have "\<not> (i + 4096 \<le> va \<and> va < hi \<and> mapped m old va)"
      using n split [of va] mapped_aligned [of m old va] by blast
    then have "amap m' new va = amap m1 new va" using c unfolding copied_def mo by blast
    then show "amap m' new va = amap m new va" using ne by (simp add: m1(1))
  qed
qed

lemma uvmcopy_page:
  assumes inv: "as_inv kend lim s new xs" and src: "src_inv kend sz (mem s) old A" "A \<inter> owned (mem s) new lim xs = {}"
    and i: "page_aligned i" "i < lim" "i < sz" and m: "mapped (mem s) old i" "amap (mem s) new i = 0"
  obtains (stop) s' ys where "uvmcopy_loop kend old new sz i s = Inr (-1, s')" "as_step kend lim new s xs s' ys"
      "rolled_back new 0 i (mem s) (mem s')"
  | (go) p s1 ys where "uvmcopy_loop kend old new sz i s = uvmcopy_loop kend old new sz (i + 4096) s1"
      "as_step kend lim new s xs s1 ys" "keeps lim new {} (mem s) (mem s1)" "valid_kalloc_ptr kend p"
      "amap (mem s1) new = (amap (mem s) new)(i := leaf_pte p (ucast (PTE_FLAGS (amap (mem s) old i))))"
      "\<forall>x. PGROUNDDOWN x = p \<longrightarrow> mem s1 x = mem s (frame_of (mem s) old i + (x - p))"
proof -
  let ?flags = "ucast (PTE_FLAGS (amap (mem s) old i)) :: u32"
  let ?q = "frame_of (mem s) old i"
  have q: "valid_kalloc_ptr kend ?q" "?q \<in> A" using src framesI [OF i(3) m(1)] by (auto simp: src_inv_def)
  have im: "i < MAXVA" using i(2) as_invD(2) [OF inv] by (rule less_le_trans)
  have nm: "\<not> mapped (mem s) new i" using m(2) by (simp add: mapped_def)
  have wfo: "wf_pt kend (mem s) old" using src by (simp add: src_inv_def)
  have unf: "uvmcopy_loop kend old new sz i s = (case kalloc s of (p, s2) \<Rightarrow>
        if p = 0 then uvmcopy_err kend new i s2
        else (case mappages new i 4096 p ?flags (snd (memmove p ?q 4096 s2)) of
            Inl e \<Rightarrow> Inl e
          | Inr (r, s3) \<Rightarrow> if r \<noteq> 0 then rbind (kfree kend p s3) (uvmcopy_err kend new i)
              else uvmcopy_loop kend old new sz (i + 4096) s3))"
    using wfo im i(1) by (rule walk_lookup_amap)
      (use m(1) i(3) in \<open>simp_all add: uvmcopy_loop.simps [of kend old new sz i] Let_def mapped_def frame_of_def [symmetric]\<close>)
  show thesis
  proof (cases xs)
    case Nil
    then have "kalloc s = (0, s)" using as_invD(4) [OF inv] by (simp add: free_list_def kalloc_none)
    then have l: "uvmcopy_loop kend old new sz i s = uvmcopy_err kend new i s" unfolding unf by simp
    from inv i(1) less_imp_le [OF i(2)] show thesis by (rule uvmcopy_err_spec) (rule stop, simp_all add: l)
  next
    case (Cons p ys)
    have fl: "free_list kend s (p # ys)" using as_invD(4) [OF inv] Cons by simp
    obtain s1 where k: "kalloc s = (p, s1)" using kalloc_fill(1) [OF fl] by (cases "kalloc s") auto
    have p: "valid_kalloc_ptr kend p" "p \<noteq> 0" "p \<in> owned (mem s) new lim xs"
      using fl Cons by (auto simp: free_list_def owned_def)
    then have "?q \<noteq> p" using q(2) src(2) by blast
    note f = kalloc_copy [OF fl k q(1) this]
    from inv [unfolded Cons] f(1-3) i(2,1) nm PTE_FLAGS_small(2) show thesis
    proof (rule map_taken)
      fix s3 s' assume t: "mappages new i 4096 p ?flags (snd (memmove p ?q 4096 s1)) = Inr (- 1, s3)" "kfree kend p s3 = Inr s'"
        "as_step kend lim new s (p # ys) s' [p]" "amap (mem s') new = amap (mem s) new"
      have l: "uvmcopy_loop kend old new sz i s = uvmcopy_err kend new i s'" unfolding unf using k p(2) t by simp
      from as_step_inv [OF t(3)] i(1) less_imp_le [OF i(2)] show thesis
      proof (rule uvmcopy_err_spec)
        fix s4 zs assume e: "uvmcopy_err kend new i s' = Inr (- 1, s4)" "as_step kend lim new s' [p] s4 zs"
          "rolled_back new 0 i (mem s') (mem s4)"
        have "rolled_back new 0 i (mem s) (mem s4)" using e(3) unfolding rolled_back_def mapped_def t(4) .
        then show thesis using stop [of s4 zs] l e(1) as_step_trans [OF t(3) e(2)] Cons by simp
      qed
    next
      fix s' zs assume t: "mappages new i 4096 p ?flags (snd (memmove p ?q 4096 s1)) = Inr (0, s')"
        "as_step kend lim new s (p # ys) s' zs" "keeps lim new {} (mem s) (mem s')"
        "amap (mem s') new = (amap (mem s) new)(i := leaf_pte p ?flags)"
        "\<forall>x. PGROUNDDOWN x = p \<longrightarrow> mem s' x = mem (snd (memmove p ?q 4096 s1)) x"
      have l: "uvmcopy_loop kend old new sz i s = uvmcopy_loop kend old new sz (i + 4096) s'" unfolding unf using k p(2) t by simp
      from t(5) f(4) have "\<forall>x. PGROUNDDOWN x = p \<longrightarrow> mem s' x = mem s (?q + (x - p))" by simp
      with l t(2)[folded Cons] t(3) p(1) t(4) show thesis by (rule go)
    qed
  qed
qed

lemma uvmcopy_loop_spec:
  fixes i :: u64
  assumes "as_inv kend lim s new xs" and "src_inv kend sz (mem s) old A" "A \<inter> owned (mem s) new lim xs = {}"
    and "page_aligned i" "i \<le> lim" and "sz \<le> lim" "page_aligned lim"
    and "\<forall>va. page_aligned va \<longrightarrow> i \<le> va \<longrightarrow> va < sz \<longrightarrow> amap (mem s) new va = 0"
  shows "\<exists>r s' ys. uvmcopy_loop kend old new sz i s = Inr (r, s') \<and> as_step kend lim new s xs s' ys
    \<and> (r = 0 \<and> keeps lim new {} (mem s) (mem s') \<and> copied old new i sz (mem s) (mem s')
       \<or> r = -1 \<and> rolled_back new 0 i (mem s) (mem s'))"
  using assms(1-5,8)
proof (induction "2 ^ 39 - unat i" arbitrary: i s xs rule: less_induct)
  case less
  note inv = less(2) and src = less(3) and dj = less(4) and al = less(5) and ilim = less(6) and z = less(7)
  have l38: "unat lim \<le> 2 ^ 38" using as_invD(2) [OF inv] by (simp add: MAXVA_def word_le_nat_alt)
  have wfo: "wf_pt kend (mem s) old" using src by (simp add: src_inv_def)
  show ?case
  proof (cases "i < sz")
    case False
    then have n: "\<not> (i \<le> va \<and> va < sz)" for va by (meson le_less_trans)
    then have "copied old new i sz (mem s) (mem s)" unfolding copied_def by blast
    then show ?thesis using False as_step_refl [OF inv] keeps_refl
      by (intro exI [of _ 0] exI [of _ s] exI [of _ xs]) (simp add: uvmcopy_loop.simps)
  next
    case True
    then have ilt: "i < lim" using assms(6) by (rule less_le_trans)
    have im: "i < MAXVA" using ilt as_invD(2) [OF inv] by (rule less_le_trans)
    have i0: "amap (mem s) new i = 0" using z al True by simp
    have big: "unat i + 4096 < 2 ^ 64" using ilt l38 by (simp add: word_less_nat_alt)
    have a1: "unat (i + 4096) = unat i + 4096" using big by (simp add: unat_word_ariths)
    have al1: "page_aligned (i + 4096)" using page_aligned_add [OF al, of 1] by simp
    have le1: "i + 4096 \<le> lim" using aligned_next_le [OF al assms(7) ilt a1] .
    have lt1: "i < i + 4096" using a1 by (simp add: word_less_nat_alt)
    have dec: "2 ^ 39 - unat (i + 4096) < 2 ^ 39 - unat i" using ilt l38 by (simp add: a1 word_less_nat_alt)
    have up: "i < va" if "i + 4096 \<le> va" for va using lt1 that by (rule less_le_trans)
    have skip: ?thesis if l: "uvmcopy_loop kend old new sz i s = uvmcopy_loop kend old new sz (i + 4096) s"
      and nm: "\<not> mapped (mem s) old i"
    proof -
      have "\<forall>va. page_aligned va \<longrightarrow> i + 4096 \<le> va \<longrightarrow> va < sz \<longrightarrow> amap (mem s) new va = 0"
        using z up by (meson less_imp_le)
      from less(1) [OF dec inv src dj al1 le1 this] obtain r s' ys
        where r: "uvmcopy_loop kend old new sz (i + 4096) s = Inr (r, s')" "as_step kend lim new s xs s' ys"
          "r = 0 \<and> keeps lim new {} (mem s) (mem s') \<and> copied old new (i + 4096) sz (mem s) (mem s')
           \<or> r = -1 \<and> rolled_back new 0 (i + 4096) (mem s) (mem s')" by blast
      from r(3) have "r = 0 \<and> keeps lim new {} (mem s) (mem s') \<and> copied old new i sz (mem s) (mem s')
           \<or> r = -1 \<and> rolled_back new 0 i (mem s) (mem s')"
        using copied_skip [OF _ nm al big] rolled_back_skip [OF _ i0 al big] by blast
      then show ?thesis using l r(1,2) by auto
    qed
    from wfo im al show ?thesis
    proof (rule walk_lookup_amap)
      assume w: "walk old i False s = Inr (0, s)" "amap (mem s) old i = 0"
      show ?thesis by (rule skip) (use w True in \<open>simp_all add: mapped_def uvmcopy_loop.simps [of kend old new sz i]\<close>)
    next
      fix b assume w: "walk old i False s = Inr (b + 8 * PX 0 i, s)" "b + 8 * PX 0 i \<noteq> 0"
        "load64 (mem s) (b + 8 * PX 0 i) = amap (mem s) old i"
      show ?thesis
      proof (cases "mapped (mem s) old i")
        case False
        show ?thesis
          by (rule skip) (use w True False in \<open>simp_all add: mapped_def uvmcopy_loop.simps [of kend old new sz i]\<close>)
      next
        case mo: True
        from inv src dj al ilt True mo i0 show ?thesis
        proof (rule uvmcopy_page)
          fix p s1 ys assume g: "uvmcopy_loop kend old new sz i s = uvmcopy_loop kend old new sz (i + 4096) s1"
            "as_step kend lim new s xs s1 ys" "keeps lim new {} (mem s) (mem s1)" "valid_kalloc_ptr kend p"
            "amap (mem s1) new = (amap (mem s) new)(i := leaf_pte p (ucast (PTE_FLAGS (amap (mem s) old i))))"
            "\<forall>x. PGROUNDDOWN x = p \<longrightarrow> mem s1 x = mem s (frame_of (mem s) old i + (x - p))"
          have same: "mem s1 x = mem s x" if "PGROUNDDOWN x \<in> A" for x using that g(2) dj by (auto simp: as_step_def)
          note src1 = src_inv_frame [OF src same]
          have dj1: "A \<inter> owned (mem s1) new lim ys = {}" using g(2) dj by (simp add: as_step_def)
          have z1: "\<forall>va. page_aligned va \<longrightarrow> i + 4096 \<le> va \<longrightarrow> va < sz \<longrightarrow> amap (mem s1) new va = 0"
            using z up unfolding g(5) by (auto simp: less_imp_le)
          obtain r s' ws where r: "uvmcopy_loop kend old new sz (i + 4096) s1 = Inr (r, s')" "as_step kend lim new s1 ys s' ws"
            "r = 0 \<and> keeps lim new {} (mem s1) (mem s') \<and> copied old new (i + 4096) sz (mem s1) (mem s')
             \<or> r = -1 \<and> rolled_back new 0 (i + 4096) (mem s1) (mem s')"
            using less(1) [OF dec as_step_inv [OF g(2)] src1(2) dj1 al1 le1 z1] by blast
          have l: "uvmcopy_loop kend old new sz i s = Inr (r, s')" using g(1) r(1) by simp
          have st: "as_step kend lim new s xs s' ws" by (rule as_step_trans [OF g(2) r(2)])
          from r(3) show ?thesis
          proof (elim disjE conjE)
            assume e: "r = 0" "keeps lim new {} (mem s1) (mem s')" "copied old new (i + 4096) sz (mem s1) (mem s')"
            have "copied old new i sz (mem s) (mem s')"
            proof (rule copied_step [OF e(3) al big True ilt g(5,6) src1(1) _ _ _ g(4) refl e(2) mo])
              fix va assume va: "va < sz" "mapped (mem s) old va"
              then have f: "frame_of (mem s) old va \<in> frames (mem s) old sz" by (rule framesI)
              then show "page_aligned (frame_of (mem s) old va)" using src valid_kalloc_ptrD by (auto simp: src_inv_def)
              fix x assume "PGROUNDDOWN x = frame_of (mem s) old va"
              then show "mem s1 x = mem s x" using f src by (intro same) (auto simp: src_inv_def)
            next
              fix va assume "va < sz" "mapped (mem s') new va"
              then show "page_aligned (frame_of (mem s') new va)"
                using as_invD(5) [OF as_step_inv [OF st], of va] valid_kalloc_ptrD assms(6) by (meson less_le_trans)
            qed
            then show ?thesis using l st e(1) keeps_trans [OF g(3) e(2)] by auto
          next
            assume e: "r = -1" "rolled_back new 0 (i + 4096) (mem s1) (mem s')"
            have "rolled_back new 0 i (mem s) (mem s')"
              using rolled_back_step [OF e(2) g(5) leaf_pte_simps(2) [OF g(4) PTE_FLAGS_small(2)] i0 al _ big] by simp
            then show ?thesis using l st e(1) by blast
          qed
        qed blast
      qed
    qed
  qed
qed

section \<open>Several address spaces\<close>

text \<open>What one address space does leaves every other one alone.\<close>

lemma as_inv_frame:
  assumes inv: "as_inv kend lim s new xs" and fl: "free_list kend s' ys" "set ys \<subseteq> P"
    and mem: "\<And>x. PGROUNDDOWN x \<notin> P \<Longrightarrow> mem s' x = mem s x"
    and dj: "(tables (mem s) new \<union> frames (mem s) new lim) \<inter> P = {}"
  shows "as_inv kend lim s' new ys" and "amap (mem s') new = amap (mem s) new"
    and "tables (mem s') new = tables (mem s) new"
proof -
  have src: "src_inv kend lim (mem s) new (tables (mem s) new \<union> frames (mem s) new lim)"
    using inv as_invD(3) [OF inv] by (simp add: src_inv_def as_inv_def)
  have same: "mem s' x = mem s x" if "PGROUNDDOWN x \<in> tables (mem s) new \<union> frames (mem s) new lim" for x
    using that mem dj by auto
  note fr = src_inv_frame [OF src same]
  show am: "amap (mem s') new = amap (mem s) new" by (rule fr(1))
  have wf: "wf_pt kend (mem s) new" using as_invD(3) [OF inv] .
  have "mem s' x = mem s x" if "a \<in> tables (mem s) new" "in_region a PGSIZE x" for a x
    using that(2) same that(1) unfolding in_page_iff [OF wf_pt_aligned [OF wf that(1)]] by simp
  then show t: "tables (mem s') new = tables (mem s) new" by (rule tables_cong(1))
  have "wf_pt kend (mem s') new" using fr(2) by (simp add: src_inv_def)
  moreover note frames_cong [where m = "mem s" and m' = "mem s'" and root = new and lim = lim, unfolded am, OF refl]
  ultimately show "as_inv kend lim s' new ys"
    using inv dj fl unfolding as_inv_def pt_inv_def t by auto
qed

lemma as_inv_other:
  assumes "as_inv kend lim s new xs" and st: "as_step kend lim' old s xs s' ys"
    and "(tables (mem s) new \<union> frames (mem s) new lim) \<inter> owned (mem s) old lim' xs = {}"
  shows "as_inv kend lim s' new ys" and "amap (mem s') new = amap (mem s) new"
    and "tables (mem s') new = tables (mem s) new"
proof -
  have s: "set ys \<subseteq> owned (mem s) old lim' xs" using st by (auto simp: as_step_def owned_def)
  have m: "mem s' x = mem s x" if "PGROUNDDOWN x \<notin> owned (mem s) old lim' xs" for x using st that by (simp add: as_step_def)
  note f = as_inv_frame [OF assms(1) as_invD(4) [OF as_step_inv [OF st]] s m assms(3)]
  show "as_inv kend lim s' new ys" and "amap (mem s') new = amap (mem s) new"
    and "tables (mem s') new = tables (mem s) new" using f by simp_all
qed

text \<open>A page mapped above the user part, as \<^verbatim>\<open>proc_pagetable\<close> does for the trampoline and the trapframe.\<close>

lemma mappages_above:
  assumes inv: "as_inv kend lim s root xs" and va: "lim \<le> va" "va < MAXVA" "page_aligned va"
    and "amap (mem s) root va AND PTE_V = 0" and "2 \<le> length xs"
  obtains s' ys where "mappages root va 4096 pa perm s = Inr (0, s')" "as_inv kend lim s' root ys"
    "amap (mem s') root = (amap (mem s) root)(va := leaf_pte pa perm)" "length xs \<le> length ys + 2"
    "owned (mem s') root lim ys = owned (mem s) root lim xs" "set ys \<subseteq> set xs"
    "\<And>x. PGROUNDDOWN x \<notin> tables (mem s) root \<union> set xs \<Longrightarrow> mem s' x = mem s x"
proof -
  have pt: "pt_inv kend s root xs" using inv by (simp add: as_inv_def)
  from pt va(2,3) show thesis
  proof (rule walk_map)
    assume "length xs \<le> 1"
    then show thesis using assms(6) by simp
  next
    fix pte s1 ys
    assume w: "walk root va True s = Inr (pte, s1)" "pte \<noteq> 0" "load64 (mem s1) pte = amap (mem s) root va"
      "\<And>e. pt_grow kend root s xs (upd_mem (store64 pte e) s1) ys"
      "\<And>e. amap (store64 pte e (mem s1)) root = (amap (mem s) root)(va := e)" "length xs \<le> length ys + 2"
    define s' where "s' = upd_mem (store64 pte (leaf_pte pa perm)) s1"
    have r: "mappages root va 4096 pa perm s = Inr (0, s')"
      using w(1-3) va(3) assms(5) by (simp add: mappages_def mappages_loop.simps page_aligned_def Let_def s'_def)
    have am: "amap (mem s') root = (amap (mem s) root)(va := leaf_pte pa perm)" using w(5) by (simp add: s'_def)
    have g: "pt_inv kend s' root ys" "tables (mem s') root = tables (mem s) root \<union> (set xs - set ys)" "set ys \<subseteq> set xs"
      "\<And>x. PGROUNDDOWN x \<notin> tables (mem s') root \<Longrightarrow> mem s' x = mem s x"
      using w(4) [of "leaf_pte pa perm"] by (auto simp: pt_grow_def s'_def)
    have same: "amap (mem s') root vb = amap (mem s) root vb" if "vb < lim" for vb
      using am that va(1) by auto
    have fc: "frames (mem s') root lim = frames (mem s) root lim"
      "inj_on (frame_of (mem s') root) (vdom (mem s') root lim) = inj_on (frame_of (mem s) root) (vdom (mem s) root lim)"
      by (rule frames_cong(2), erule same) (rule frames_cong(3), erule same)
    have "as_inv kend lim s' root ys" using inv g(1-3) unfolding as_inv_def fc by auto
    moreover have "owned (mem s') root lim ys = owned (mem s) root lim xs"
      unfolding owned_def fc g(2) using g(3) by auto
    moreover have "mem s' x = mem s x" if "PGROUNDDOWN x \<notin> tables (mem s) root \<union> set xs" for x
      using that g(2) by (intro g(4)) auto
    ultimately show thesis using that r am w(6) g(3) by blast
  qed
qed

lemma frames_mono: "lim \<le> lim' \<Longrightarrow> frames m root lim \<subseteq> frames m root lim'"
  unfolding frames_def vdom_def by (intro image_mono) (auto dest: less_le_trans)

lemma as_inv_empty:
  assumes "pt_inv kend s root xs" and "amap (mem s) root = (\<lambda>_. 0)" and "lim \<le> MAXVA"
  shows "as_inv kend lim s root xs" and "frames (mem s) root lim = {}"
  using assms by (simp_all add: as_inv_def frames_def vdom_def mapped_def)

lemma two_pagetables:
  assumes "valid_kalloc_ptr kend q" "valid_kalloc_ptr kend q'" "q \<noteq> q'" "kend \<noteq> 0" and lim: "lim \<le> MAXVA"
  obtains s0 old s1 new s2 xs where "kinit kend s = Inr s0" "uvmcreate s0 = (old, s1)" "uvmcreate s1 = (new, s2)"
    "as_inv kend lim s2 old xs" "as_inv kend lim s2 new xs" "amap (mem s2) old = (\<lambda>_. 0)" "amap (mem s2) new = (\<lambda>_. 0)"
    "tables (mem s2) old = {old}" "tables (mem s2) new = {new}" "old \<noteq> new"
    "insert old (insert new (set xs)) = Collect (valid_kalloc_ptr kend)" "old \<notin> set xs" "new \<notin> set xs"
proof -
  from assms(1,4) obtain s0 old s1 ys where b: "kinit kend s = Inr s0" "uvmcreate s0 = (old, s1)" "pt_inv kend s1 old ys"
    "amap (mem s1) old = (\<lambda>_. 0)" "tables (mem s1) old = {old}"
    "insert old (set ys) = Collect (valid_kalloc_ptr kend)" "old \<notin> set ys"
    by (rule boot_pagetable)
  have "ys \<noteq> []"
  proof
    assume "ys = []"
    then have "q \<in> {old}" "q' \<in> {old}" using b(6) assms(1,2) by auto
    then show False using assms(3) by simp
  qed
  then obtain new xs where ys: "ys = new # xs" by (cases ys) auto
  have fl: "free_list kend s1 (new # xs)" using b(3) ys by (simp add: pt_inv_def)
  from fl obtain s2 where c: "uvmcreate s1 = (new, s2)" "pt_inv kend s2 new xs" "amap (mem s2) new = (\<lambda>_. 0)"
    "tables (mem s2) new = {new}" "page_update new s1 s2"
    by (rule uvmcreate_spec)
  have new: "page_aligned new" "new \<notin> tables (mem s1) old" using fl b(5,7) ys valid_kalloc_ptrD by (auto simp: free_list_def)
  have wf: "wf_pt kend (mem s1) old" using b(3) by (simp add: pt_inv_def)
  note u = page_update_tables [OF wf c(5) new]
  have o: "pt_inv kend s2 old xs" using c(2) u(1,2) b(5,7) ys by (auto simp: pt_inv_def)
  have ao: "amap (mem s2) old = (\<lambda>_. 0)" "tables (mem s2) old = {old}" using u(1,3) b(4,5) by simp_all
  have "old \<noteq> new" "insert old (insert new (set xs)) = Collect (valid_kalloc_ptr kend)" "old \<notin> set xs" "new \<notin> set xs"
    using b(6,7) ys fl by (auto simp: free_list_def)
  then show thesis
    by (rule that [OF b(1,2) c(1) as_inv_empty(1) [OF o ao(1) lim] as_inv_empty(1) [OF c(2,3) lim] ao(1) c(3) ao(2) c(4)])
qed

section \<open>Properties\<close>

text \<open>C21. Growing user memory with \<^verbatim>\<open>uvmalloc\<close> is all or nothing: it returns \<^verbatim>\<open>newsz\<close> with every page
  of the new range backed by its own zeroed page and the requested permissions, or it returns 0
  with exactly the old mapping. In both cases the pages mapped before keep their entries
  and their bytes, no page is lost or shared between the tables, the user pages and the free
  list, and no byte of any other page changes.\<close>

theorem uvmalloc_all_or_nothing:
  assumes "as_inv kend lim s root xs" and "page_aligned lim" and "oldsz \<le> newsz" "newsz \<le> lim" and "xperm < 1024"
    and "\<forall>va. oldsz \<le> va \<longrightarrow> va < newsz \<longrightarrow> amap (mem s) root va = 0"
  shows "\<exists>r s' ys. uvmalloc kend root oldsz newsz xperm s = Inr (r, s')
    \<and> (r = newsz \<and> grown root oldsz newsz (ucast (PTE_R OR PTE_U) OR xperm) (mem s) (mem s')
       \<or> r = 0 \<and> amap (mem s') root = amap (mem s) root)
    \<and> keeps lim root {} (mem s) (mem s') \<and> as_inv kend lim s' root ys
    \<and> owned (mem s') root lim ys = owned (mem s) root lim xs
    \<and> (\<forall>x. PGROUNDDOWN x \<notin> owned (mem s) root lim xs \<longrightarrow> mem s' x = mem s x)"
proof -
  have "ucast (PTE_R OR PTE_U) < (1024 :: u32)" by (simp add: PTE_R_def PTE_U_def)
  then have "ucast (PTE_R OR PTE_U) OR xperm < 1024" using assms(5) by (rule or_perm)
  from uvmalloc_spec [OF assms(1-4) refl this assms(6)] show ?thesis unfolding as_step_def by blast
qed

text \<open>C19. \<^verbatim>\<open>uvmcopy\<close> gives the child of a fork its own copy of the parent's memory. The child's table may map
  the trampoline and the trapframe, or anything else from \<^verbatim>\<open>sz\<close> upwards, and maps nothing below \<^verbatim>\<open>sz\<close>; its user part
  lies below \<open>lim\<close>. On success every page mapped by the parent below \<^verbatim>\<open>sz\<close> is mapped by the child with the same
  flags and the same bytes in a page of its own, and every other entry of the child is as before; on
  failure all its entries are as before. In both cases the parent's table and pages and every page that belongs neither
  to the child nor to the free list are unchanged, and no page is lost.\<close>

theorem uvmcopy_isolates:
  assumes "as_inv kend lim s new xs" and "page_aligned lim" "sz \<le> lim"
    and "src_inv kend sz (mem s) old A" and "A \<inter> owned (mem s) new lim xs = {}"
    and "\<forall>va. va < sz \<longrightarrow> amap (mem s) new va = 0"
  shows "\<exists>r s' ys. uvmcopy kend old new sz s = Inr (r, s') \<and> as_inv kend lim s' new ys
    \<and> owned (mem s') new lim ys = owned (mem s) new lim xs
    \<and> (\<forall>x. PGROUNDDOWN x \<notin> owned (mem s) new lim xs \<longrightarrow> mem s' x = mem s x)
    \<and> (\<forall>x. PGROUNDDOWN x \<in> A \<longrightarrow> mem s' x = mem s x) \<and> amap (mem s') old = amap (mem s) old
    \<and> (r = 0 \<and> copied old new 0 sz (mem s) (mem s') \<or> r = -1 \<and> amap (mem s') new = amap (mem s) new)"
proof -
  have z: "\<forall>va. page_aligned va \<longrightarrow> 0 \<le> va \<longrightarrow> va < sz \<longrightarrow> amap (mem s) new va = 0" using assms(6) by simp
  have "page_aligned 0" "0 \<le> lim" by (simp_all add: page_aligned_def)
  from uvmcopy_loop_spec [OF assms(1,4,5) this assms(3,2) z]
  obtain r s' ys where u: "uvmcopy kend old new sz s = Inr (r, s')" "as_step kend lim new s xs s' ys"
    "r = 0 \<and> keeps lim new {} (mem s) (mem s') \<and> copied old new 0 sz (mem s) (mem s')
       \<or> r = -1 \<and> rolled_back new 0 0 (mem s) (mem s')"
    unfolding uvmcopy_def by blast
  have same: "mem s' x = mem s x" if "PGROUNDDOWN x \<in> A" for x using that u(2) assms(5) by (auto simp: as_step_def)
  have "amap (mem s') old = amap (mem s) old" by (rule src_inv_frame(1) [OF assms(4) same])
  moreover have "amap (mem s') new = amap (mem s) new" if "rolled_back new 0 0 (mem s) (mem s')"
    using that by (simp add: rolled_back_def fun_eq_iff)
  ultimately show ?thesis using u same unfolding as_step_def by blast
qed

definition demo_kend :: u64 where "demo_kend = 0x80021000"

lemma demo_pages:
  "valid_kalloc_ptr demo_kend 0x80022000" "valid_kalloc_ptr demo_kend 0x80023000"
  "demo_kend \<noteq> 0" "0x100000 \<le> MAXVA" "page_aligned 0x100000"
  by (simp_all add: demo_kend_def valid_kalloc_ptr_def PHYSTOP_def MAXVA_def page_aligned_def)

theorem uvmalloc_all_or_nothing_witness:
  "\<exists>s0 root s1 xs r s' ys. kinit demo_kend demo_kmem = Inr s0 \<and> uvmcreate s0 = (root, s1)
    \<and> as_inv demo_kend 0x100000 s1 root xs
    \<and> uvmalloc demo_kend root 0x100 0x3000 4 s1 = Inr (r, s')
    \<and> (r = 0x3000 \<and> grown root 0x100 0x3000 (ucast (PTE_R OR PTE_U) OR 4) (mem s1) (mem s')
       \<or> r = 0 \<and> amap (mem s') root = amap (mem s1) root)
    \<and> owned (mem s') root 0x100000 ys = owned (mem s1) root 0x100000 xs"
proof -
  from demo_pages(1,3) obtain s0 root s1 xs where b: "kinit demo_kend demo_kmem = Inr s0" "uvmcreate s0 = (root, s1)"
    "pt_inv demo_kend s1 root xs" "amap (mem s1) root = (\<lambda>_. 0)"
    by (rule boot_pagetable)
  have inv: "as_inv demo_kend 0x100000 s1 root xs" by (rule as_inv_empty(1) [OF b(3,4) demo_pages(4)])
  have "(0x100 :: u64) \<le> 0x3000" "(0x3000 :: u64) \<le> 0x100000" "(4 :: u32) < 1024"
    "\<forall>va. 0x100 \<le> va \<longrightarrow> va < 0x3000 \<longrightarrow> amap (mem s1) root va = 0" using b(4) by simp_all
  from uvmalloc_all_or_nothing [OF inv demo_pages(5) this] b(1,2) inv show ?thesis by blast
qed

lemma demo_room:
  assumes "insert old (insert new (set xs)) = Collect (valid_kalloc_ptr demo_kend)"
  shows "4 \<le> length xs"
proof -
  have "{0x80022000, 0x80023000, 0x80024000, 0x80025000, 0x80026000, 0x80027000} \<subseteq> set (old # new # xs)"
    unfolding list.set assms by (simp add: valid_kalloc_ptr_def demo_kend_def PHYSTOP_def)
  then have "card {0x80022000, 0x80023000, 0x80024000, 0x80025000, 0x80026000, 0x80027000 :: u64} \<le> length (old # new # xs)"
    by (meson card_length card_mono finite_set order_trans)
  then show ?thesis by simp
qed

text \<open>The tables of a fork: an empty one and, as \<^verbatim>\<open>proc_pagetable\<close> leaves it, one with trampoline and trapframe.\<close>

lemma fork_tables:
  fixes L :: u64
  defines "L \<equiv> TRAPFRAME"
  obtains s0 old s1 new s2 s3 s4 xs where "kinit demo_kend demo_kmem = Inr s0" "uvmcreate s0 = (old, s1)" "uvmcreate s1 = (new, s2)"
    "mappages new TRAMPOLINE 4096 0x80007000 10 s2 = Inr (0, s3)" "mappages new TRAPFRAME 4096 0x80020000 6 s3 = Inr (0, s4)"
    "as_inv demo_kend L s4 old xs" "as_inv demo_kend L s4 new xs" "amap (mem s4) old = (\<lambda>_. 0)"
    "amap (mem s4) new = (\<lambda>_. 0)(TRAMPOLINE := leaf_pte 0x80007000 10, TRAPFRAME := leaf_pte 0x80020000 6)"
    "(tables (mem s4) new \<union> frames (mem s4) new L) \<inter> owned (mem s4) old L xs = {}"
proof -
  have ne: "(0x80022000 :: u64) \<noteq> 0x80023000" by simp
  have L: "L \<le> MAXVA" "page_aligned L" "page_aligned TRAMPOLINE" "L \<le> TRAMPOLINE" "TRAMPOLINE < MAXVA" "L < MAXVA" "L \<noteq> TRAMPOLINE"
    by (simp_all add: L_def TRAPFRAME_def TRAMPOLINE_def MAXVA_def page_aligned_def)
  from demo_pages(1,2) ne demo_pages(3) L(1) obtain s0 old s1 new s2 xs
    where b: "kinit demo_kend demo_kmem = Inr s0" "uvmcreate s0 = (old, s1)" "uvmcreate s1 = (new, s2)"
    "as_inv demo_kend L s2 old xs" "as_inv demo_kend L s2 new xs" "amap (mem s2) old = (\<lambda>_. 0)" "amap (mem s2) new = (\<lambda>_. 0)"
    "tables (mem s2) old = {old}" "tables (mem s2) new = {new}" "old \<noteq> new"
    "insert old (insert new (set xs)) = Collect (valid_kalloc_ptr demo_kend)" "old \<notin> set xs" "new \<notin> set xs"
    by (rule two_pagetables)
  note len = demo_room [OF b(11)]
  from b(5) L(4,5,3) obtain s3 ys where m: "mappages new TRAMPOLINE 4096 0x80007000 10 s2 = Inr (0, s3)"
    "as_inv demo_kend L s3 new ys" "amap (mem s3) new = (amap (mem s2) new)(TRAMPOLINE := leaf_pte 0x80007000 10)"
    "length xs \<le> length ys + 2" "owned (mem s3) new L ys = owned (mem s2) new L xs" "set ys \<subseteq> set xs"
    "\<And>x. PGROUNDDOWN x \<notin> tables (mem s2) new \<union> set xs \<Longrightarrow> mem s3 x = mem s2 x"
    by (rule mappages_above [where pa = "0x80007000" and perm = 10]) (use b(7) len in simp_all)
  from m(2) order_refl L(6,2) obtain s4 zs where n: "mappages new L 4096 0x80020000 6 s3 = Inr (0, s4)"
    "as_inv demo_kend L s4 new zs" "amap (mem s4) new = (amap (mem s3) new)(L := leaf_pte 0x80020000 6)"
    "length ys \<le> length zs + 2" "owned (mem s4) new L zs = owned (mem s3) new L ys" "set zs \<subseteq> set ys"
    "\<And>x. PGROUNDDOWN x \<notin> tables (mem s3) new \<union> set ys \<Longrightarrow> mem s4 x = mem s3 x"
    by (rule mappages_above [where pa = "0x80020000" and perm = 6]) (use m(3,4) b(7) len L(7) in simp_all)
  have fr: "frames (mem s2) new L = {}" "frames (mem s2) old L = {}" using b(6,7) by (simp_all add: frames_def vdom_def mapped_def)
  have own: "owned (mem s2) new L xs = insert new (set xs)" using b(9) fr by (simp add: owned_def)
  then have sub: "tables (mem s3) new \<union> set ys \<subseteq> insert new (set xs)" "tables (mem s4) new \<union> frames (mem s4) new L \<union> set zs \<subseteq> insert new (set xs)"
    using m(5) n(5) by (auto simp: owned_def)
  have same: "mem s4 x = mem s2 x" if "PGROUNDDOWN x \<notin> insert new (set xs)" for x
    using that m(7) [of x] n(7) [of x] sub(1) b(9) by auto
  have "set zs \<subseteq> insert new (set xs)" "(tables (mem s2) old \<union> frames (mem s2) old L) \<inter> insert new (set xs) = {}"
    using sub(2) b(8,10,12) fr by auto
  note o = as_inv_frame [OF b(4) as_invD(4) [OF n(2)] this(1) same this(2)]
  have am: "amap (mem s4) old = (\<lambda>_. 0)" using o(2) b(6) by simp
  then have "owned (mem s4) old L zs = insert old (set zs)" using o(3) b(8) by (simp add: owned_def frames_def vdom_def mapped_def)
  moreover have "old \<notin> insert new (set xs)" using b(10,12) by simp
  moreover have "(tables (mem s4) new \<union> frames (mem s4) new L) \<inter> set zs = {}"
    using n(2) as_invD(6) [OF n(2)] by (auto simp: as_inv_def)
  ultimately have dj: "(tables (mem s4) new \<union> frames (mem s4) new L) \<inter> owned (mem s4) old L zs = {}" using sub(2) by auto
  have "amap (mem s4) new = (\<lambda>_. 0)(TRAMPOLINE := leaf_pte 0x80007000 10, TRAPFRAME := leaf_pte 0x80020000 6)"
    using n(3) m(3) b(7) by (simp add: L_def)
  from that [OF b(1-3) m(1) n(1)[unfolded L_def] o(1) n(2) am this dj] show thesis .
qed

theorem uvmcopy_isolates_witness:
  "\<exists>s0 old s1 new s2 s3 s4 r s5 xs q s' ys. kinit demo_kend demo_kmem = Inr s0 \<and> uvmcreate s0 = (old, s1)
    \<and> uvmcreate s1 = (new, s2) \<and> mappages new TRAMPOLINE 4096 0x80007000 10 s2 = Inr (0, s3)
    \<and> mappages new TRAPFRAME 4096 0x80020000 6 s3 = Inr (0, s4) \<and> uvmalloc demo_kend old 0 0x2000 4 s4 = Inr (r, s5)
    \<and> amap (mem s5) new = (\<lambda>_. 0)(TRAMPOLINE := leaf_pte 0x80007000 10, TRAPFRAME := leaf_pte 0x80020000 6)
    \<and> uvmcopy demo_kend old new 0x2000 s5 = Inr (q, s') \<and> amap (mem s') old = amap (mem s5) old
    \<and> owned (mem s') new TRAPFRAME ys = owned (mem s5) new TRAPFRAME xs
    \<and> (q = 0 \<and> copied old new 0 0x2000 (mem s5) (mem s') \<or> q = -1 \<and> amap (mem s') new = amap (mem s5) new)"
proof -
  let ?L = TRAPFRAME
  obtain s0 old s1 new s2 s3 s4 xs where b: "kinit demo_kend demo_kmem = Inr s0" "uvmcreate s0 = (old, s1)" "uvmcreate s1 = (new, s2)"
    "mappages new TRAMPOLINE 4096 0x80007000 10 s2 = Inr (0, s3)" "mappages new TRAPFRAME 4096 0x80020000 6 s3 = Inr (0, s4)"
    "as_inv demo_kend ?L s4 old xs" "as_inv demo_kend ?L s4 new xs" "amap (mem s4) old = (\<lambda>_. 0)"
    "amap (mem s4) new = (\<lambda>_. 0)(TRAMPOLINE := leaf_pte 0x80007000 10, TRAPFRAME := leaf_pte 0x80020000 6)"
    "(tables (mem s4) new \<union> frames (mem s4) new ?L) \<inter> owned (mem s4) old ?L xs = {}" by (rule fork_tables)
  have L: "page_aligned ?L" "0x2000 \<le> ?L" "0x2000 \<le> TRAMPOLINE" by (simp_all add: TRAPFRAME_def TRAMPOLINE_def MAXVA_def page_aligned_def)
  have "(0 :: u64) \<le> 0x2000" "ucast (PTE_R OR PTE_U) OR 4 < (1024 :: u32)" "\<forall>va. 0 \<le> va \<longrightarrow> va < 0x2000 \<longrightarrow> amap (mem s4) old va = 0"
    using b(8) by (simp_all add: PTE_R_def PTE_U_def)
  from uvmalloc_spec [OF b(6) L(1) this(1) L(2) refl this(2,3)] obtain r s5 ys
    where a: "uvmalloc demo_kend old 0 0x2000 4 s4 = Inr (r, s5)" "as_step demo_kend ?L old s4 xs s5 ys" by blast
  note n = as_inv_other [OF b(7) a(2) b(10)]
  have inv5: "as_inv demo_kend ?L s5 old ys" using as_step_inv [OF a(2)] .
  let ?A = "tables (mem s5) old \<union> frames (mem s5) old 0x2000"
  have sub: "frames (mem s5) old 0x2000 \<subseteq> frames (mem s5) old ?L" by (rule frames_mono) (rule L(2))
  then have src: "src_inv demo_kend 0x2000 (mem s5) old ?A"
    using inv5 as_invD(3) [OF inv5] by (auto simp: src_inv_def as_inv_def)
  have fr5: "frames (mem s5) new ?L = frames (mem s4) new ?L" by (rule frames_cong(2)) (simp add: n(2))
  have "owned (mem s5) old ?L ys = owned (mem s4) old ?L xs" using a(2) by (simp add: as_step_def)
  then have "?A \<inter> (tables (mem s5) new \<union> frames (mem s5) new ?L) = {}" using b(10) sub unfolding n(3) fr5 by (auto simp: owned_def)
  moreover have "?A \<inter> set ys = {}" using inv5 as_invD(6) [OF inv5] sub by (auto simp: as_inv_def)
  ultimately have dj: "?A \<inter> owned (mem s5) new ?L ys = {}" by (auto simp: owned_def)
  have z: "\<forall>va. va < 0x2000 \<longrightarrow> amap (mem s5) new va = 0"
    using L(2,3) unfolding n(2) b(9) by (auto simp: not_le)
  from uvmcopy_isolates [OF n(1) L(1,2) src dj z] b(1-5) a(1) n(2) b(9) show ?thesis by metis
qed

end
