(* ===== verification/Ucopy.thy ===== *)
theory Ucopy
  imports Uvm
begin

text \<open>
  Copying between the kernel and user memory: \<^verbatim>\<open>copyout\<close>, \<^verbatim>\<open>copyin\<close> and \<^verbatim>\<open>copyinstr\<close> of
  \<^verbatim>\<open>src/kernel/vm.c\<close>. The kernel side of a copy is a buffer of the kernel (a disk buffer, a pipe, a
  variable on the kernel stack), given by its bytes; the user side is the memory behind the
  page table. The lemmas describe what a process sees at each virtual address, with a page that is
  still to be allocated lazily seen as zeros, and show that the copies read and write
  exactly that.
\<close>

section \<open>Operations\<close>

text \<open>\<^verbatim>\<open>memmove(a, src, n)\<close> from a kernel buffer holding \<open>bs\<close>, and into a kernel buffer.\<close>

definition memmove_from_buf :: "u64 \<Rightarrow> u8 list \<Rightarrow> 'a mach_scheme \<Rightarrow> 'a mach_scheme" where
  "memmove_from_buf a bs s =
     upd_mem (store_bytes a bs) (upd_stats (\<lambda>t. t\<lparr>memmove_calls := memmove_calls t + 1\<rparr>) s)"

definition memmove_to_buf :: "u64 \<Rightarrow> nat \<Rightarrow> 'a mach_scheme \<Rightarrow> u8 list \<times> 'a mach_scheme" where
  "memmove_to_buf a n s =
     (load_bytes a n (mem s), upd_stats (\<lambda>t. t\<lparr>memmove_calls := memmove_calls t + 1\<rparr>) s)"

lemma page_offset: "unat (x - PGROUNDDOWN x) < 4096"
  using in_page_iff [OF page_aligned_PGROUNDDOWN, of x x] by (simp add: in_region_def)

lemma page_room: "unat (4096 - (x - PGROUNDDOWN x)) = 4096 - unat (x - PGROUNDDOWN x)"
  using page_offset [of x] by (simp add: unat_sub word_le_nat_alt)

function copyout :: "u64 \<Rightarrow> u64 \<Rightarrow> u64 \<Rightarrow> u64 \<Rightarrow> u64 \<Rightarrow> u8 list \<Rightarrow> 'a kmem_scheme \<Rightarrow> (int \<times> 'a kmem_scheme) res" where
  "copyout kend psz ppt pagetable dstva src s =
     (if src = [] then Inr (0, s)
      else let va0 = PGROUNDDOWN dstva
           in if MAXVA \<le> va0 then Inr (-1, s)
              else rbind (walkaddr pagetable va0 s) (\<lambda>pa.
                   rbind (if pa = 0 then vmfault kend psz ppt pagetable va0 s else Inr (pa, s)) (\<lambda>(pa0, s1).
                   if pa0 = 0 then Inr (-1, s1)
                   else rbind (walk pagetable va0 False s1) (\<lambda>(pte, s2).
                     if pte = 0 then Inl Undef
                     else if load64 (mem s2) pte AND PTE_W = 0 then Inr (-1, s2)
                     else let n = min (unat (4096 - (dstva - va0))) (length src)
                          in copyout kend psz ppt pagetable (va0 + 4096) (drop n src)
                               (memmove_from_buf (pa0 + (dstva - va0)) (take n src) s2)))))"
  by pat_completeness auto
termination
  by (relation "measure (\<lambda>(kend, psz, ppt, pagetable, dstva, src, s). length src)")
    (use page_offset in \<open>auto simp: page_room min_def not_le\<close>)

declare copyout.simps [simp del]

text \<open>The result of \<open>copyin\<close> has the bytes stored at \<^verbatim>\<open>dst\<close> so far.\<close>

function copyin :: "u64 \<Rightarrow> u64 \<Rightarrow> u64 \<Rightarrow> u64 \<Rightarrow> u64 \<Rightarrow> nat \<Rightarrow> 'a kmem_scheme \<Rightarrow> (int \<times> u8 list \<times> 'a kmem_scheme) res" where
  "copyin kend psz ppt pagetable srcva len s =
     (if len = 0 then Inr (0, [], s)
      else let va0 = PGROUNDDOWN srcva
           in rbind (walkaddr pagetable va0 s) (\<lambda>pa.
              rbind (if pa = 0 then vmfault kend psz ppt pagetable va0 s else Inr (pa, s)) (\<lambda>(pa0, s1).
              if pa0 = 0 then Inr (-1, [], s1)
              else let n = min (unat (4096 - (srcva - va0))) len
                   in case memmove_to_buf (pa0 + (srcva - va0)) n s1 of (bs, s2) \<Rightarrow>
                      rbind (copyin kend psz ppt pagetable (va0 + 4096) (len - n) s2) (\<lambda>(r, bs', s3).
                        Inr (r, bs @ bs', s3)))))"
  by pat_completeness auto
termination
  by (relation "measure (\<lambda>(kend, psz, ppt, pagetable, srcva, len, s). len)")
    (use page_offset in \<open>auto simp: page_room min_def not_le\<close>)

declare copyin.simps [simp del]

text \<open>The inner loop of \<^verbatim>\<open>copyinstr\<close> over one page; the flag is \<^verbatim>\<open>got_null\<close>.\<close>

fun copyinstr_page :: "memory \<Rightarrow> u64 \<Rightarrow> nat \<Rightarrow> u8 list \<times> bool" where
  "copyinstr_page m p 0 = ([], False)"
| "copyinstr_page m p (Suc n) =
     (if m p = 0 then ([0], True)
      else case copyinstr_page m (p + 1) n of (bs, g) \<Rightarrow> (m p # bs, g))"

function copyinstr :: "u64 \<Rightarrow> u64 \<Rightarrow> nat \<Rightarrow> 'a kmem_scheme \<Rightarrow> (int \<times> u8 list) res" where
  "copyinstr pagetable srcva mx s =
     (if mx = 0 then Inr (-1, [])
      else let va0 = PGROUNDDOWN srcva
           in rbind (walkaddr pagetable va0 s) (\<lambda>pa0.
              if pa0 = 0 then Inr (-1, [])
              else let n = min (unat (4096 - (srcva - va0))) mx
                   in case copyinstr_page (mem s) (pa0 + (srcva - va0)) n of (bs, got_null) \<Rightarrow>
                      if got_null then Inr (0, bs)
                      else rbind (copyinstr pagetable (va0 + 4096) (mx - n) s) (\<lambda>(r, bs'). Inr (r, bs @ bs'))))"
  by pat_completeness auto
termination
  by (relation "measure (\<lambda>(pagetable, srcva, mx, s). mx)")
    (use page_offset in \<open>auto simp: page_room min_def not_le\<close>)

declare copyinstr.simps [simp del]

section \<open>What a process sees\<close>

definition user_ok :: "memory \<Rightarrow> u64 \<Rightarrow> u64 \<Rightarrow> bool" where
  "user_ok m root va \<longleftrightarrow> amap m root va AND PTE_V \<noteq> 0 \<and> amap m root va AND PTE_U \<noteq> 0"

definition ubyte :: "memory \<Rightarrow> u64 \<Rightarrow> u64 \<Rightarrow> u8" where
  "ubyte m root va =
     (let p = PGROUNDDOWN va in if user_ok m root p then m (frame_of m root p + (va - p)) else 0)"

text \<open>The user part of the address space lies below \<open>lim\<close>, and so does the process size.\<close>

definition user_inv :: "u64 \<Rightarrow> u64 \<Rightarrow> u64 \<Rightarrow> 'a kmem_scheme \<Rightarrow> u64 \<Rightarrow> u64 list \<Rightarrow> bool" where
  "user_inv kend lim psz s root xs \<longleftrightarrow> as_inv kend lim s root xs \<and> psz \<le> lim
     \<and> (\<forall>va. user_ok (mem s) root va \<longrightarrow> va < lim)"

lemma user_ok_mapped: "user_ok m root va \<Longrightarrow> mapped m root va"
  by (simp add: user_ok_def mapped_def)

lemma user_inv_step:
  assumes "user_inv kend lim psz s root xs" and "as_step kend lim root s xs s' ys"
  shows "user_inv kend lim psz s' root ys"
proof -
  have "va < lim" if "user_ok (mem s') root va" for va
  proof (rule ccontr)
    assume "\<not> va < lim"
    then have "amap (mem s') root va = amap (mem s) root va" using assms(2) by (simp add: as_step_def not_less)
    then show False using that assms(1) \<open>\<not> va < lim\<close> by (auto simp: user_ok_def user_inv_def)
  qed
  then show ?thesis using assms as_step_inv by (auto simp: user_inv_def)
qed

text \<open>Entries and bytes that a step keeps are seen unchanged.\<close>

lemma ubyte_keeps:
  assumes "keeps lim root {} m m'" and "\<And>va. user_ok m root va \<Longrightarrow> va < lim"
    and "user_ok m' root (PGROUNDDOWN va) \<Longrightarrow> user_ok m root (PGROUNDDOWN va)"
    and "user_ok m root (PGROUNDDOWN va) \<Longrightarrow> page_aligned (frame_of m root (PGROUNDDOWN va))"
  shows "ubyte m' root va = ubyte m root va"
proof (cases "user_ok m root (PGROUNDDOWN va)")
  case True
  let ?p = "PGROUNDDOWN va"
  have k: "amap m' root ?p = amap m root ?p" "\<forall>x. PGROUNDDOWN x = frame_of m root ?p \<longrightarrow> m' x = m x"
    using assms(1) assms(2) [OF True] user_ok_mapped [OF True] by (auto simp: keeps_def)
  have "in_region (frame_of m root ?p) PGSIZE (frame_of m root ?p + (va - ?p))"
    using page_offset by (simp add: in_region_def)
  then have "PGROUNDDOWN (frame_of m root ?p + (va - ?p)) = frame_of m root ?p" using in_page_iff [OF assms(4) [OF True]] by simp
  then show ?thesis using k True by (simp add: ubyte_def user_ok_def frame_of_def)
next
  case False
  then have "\<not> user_ok m' root (PGROUNDDOWN va)" using assms(3) by blast
  then show ?thesis using False by (simp add: ubyte_def)
qed

lemma flag_of_leaf_pte:
  assumes "valid_kalloc_ptr kend p" "perm < 1024" "f AND 0x3FF = f"
  shows "leaf_pte p perm AND f = (ucast perm OR PTE_V) AND f"
proof -
  have "e AND f = PTE_FLAGS e AND f" for e
    unfolding PTE_FLAGS_def and.assoc using assms(3) by (simp add: and.commute)
  then show ?thesis using leaf_pte_simps(3) [OF assms(1,2)] by metis
qed

lemma lazy_pte:
  assumes "valid_kalloc_ptr kend p"
  shows "leaf_pte p (ucast (PTE_W OR PTE_U OR PTE_R)) AND PTE_V \<noteq> 0"
    "leaf_pte p (ucast (PTE_W OR PTE_U OR PTE_R)) AND PTE_U \<noteq> 0"
    "leaf_pte p (ucast (PTE_W OR PTE_U OR PTE_R)) AND PTE_W \<noteq> 0"
    "PTE2PA (leaf_pte p (ucast (PTE_W OR PTE_U OR PTE_R))) = p"
proof -
  have b: "ucast (PTE_W OR PTE_U OR PTE_R) < (1024 :: u32)" by (simp add: PTE_W_def PTE_U_def PTE_R_def)
  note f = flag_of_leaf_pte [OF assms b]
  show "leaf_pte p (ucast (PTE_W OR PTE_U OR PTE_R)) AND PTE_V \<noteq> 0" "PTE2PA (leaf_pte p (ucast (PTE_W OR PTE_U OR PTE_R))) = p"
    using leaf_pte_simps [OF assms b] by auto
  show "leaf_pte p (ucast (PTE_W OR PTE_U OR PTE_R)) AND PTE_U \<noteq> 0"
    by (subst f) (simp_all add: PTE_W_def PTE_U_def PTE_R_def PTE_V_def)
  show "leaf_pte p (ucast (PTE_W OR PTE_U OR PTE_R)) AND PTE_W \<noteq> 0"
    by (subst f) (simp_all add: PTE_W_def PTE_U_def PTE_R_def PTE_V_def)
qed

section \<open>Lazy allocation\<close>

lemma user_frame:
  assumes "user_inv kend lim psz s root xs" and "user_ok (mem s) root va"
  shows "valid_kalloc_ptr kend (frame_of (mem s) root va)" "page_aligned (frame_of (mem s) root va)"
    "frame_of (mem s) root va \<noteq> 0" "frame_of (mem s) root va \<notin> tables (mem s) root" "frame_of (mem s) root va \<notin> set xs"
proof -
  have "va < lim" "as_inv kend lim s root xs" using assms by (auto simp: user_inv_def)
  then have v: "valid_kalloc_ptr kend (frame_of (mem s) root va)" "frame_of (mem s) root va \<notin> tables (mem s) root"
    "frame_of (mem s) root va \<notin> set xs" using as_invD(5) user_ok_mapped [OF assms(2)] by blast+
  then show "valid_kalloc_ptr kend (frame_of (mem s) root va)" "page_aligned (frame_of (mem s) root va)"
    "frame_of (mem s) root va \<noteq> 0" "frame_of (mem s) root va \<notin> tables (mem s) root" "frame_of (mem s) root va \<notin> set xs"
    using valid_kalloc_ptrD [OF v(1)] by auto
qed

lemma vmfault_spec:
  assumes u: "user_inv kend lim psz s root xs" and va: "page_aligned va"
  obtains (fail) s' ys where "vmfault kend psz root root va s = Inr (0, s')" "as_step kend lim root s xs s' ys"
      "amap (mem s') root = amap (mem s) root" "keeps lim root {} (mem s) (mem s')"
      "psz \<le> va \<or> mapped (mem s) root va \<or> length xs \<le> 2"
  | (ok) p s' ys where "vmfault kend psz root root va s = Inr (p, s')" "as_step kend lim root s xs s' ys"
      "amap (mem s') root = (amap (mem s) root)(va := leaf_pte p (ucast (PTE_W OR PTE_U OR PTE_R)))"
      "valid_kalloc_ptr kend p" "\<not> mapped (mem s) root va" "va < psz" "keeps lim root {} (mem s) (mem s')"
      "\<forall>x. PGROUNDDOWN x = p \<longrightarrow> mem s' x = 0"
proof -
  have inv: "as_inv kend lim s root xs" and pl: "psz \<le> lim" using u by (auto simp: user_inv_def)
  have al: "PGROUNDDOWN va = va" using va by (rule PGROUNDDOWN_aligned)
  show thesis
  proof (cases "psz \<le> va")
    case True
    then show thesis using fail [OF _ as_step_refl [OF inv] refl keeps_refl] by (simp add: vmfault_def)
  next
    case False
    then have lt: "va < psz" by (simp only: not_le)
    then have lim: "va < lim" using pl by (rule less_le_trans)
    have mx: "va < MAXVA" using lim as_invD(2) [OF inv] by (rule less_le_trans)
    have im: "ismapped root va s = Inr (mapped (mem s) root va)"
      using ismapped_amap [OF as_invD(3) [OF inv] va mx] by (simp add: mapped_def)
    show thesis
    proof (cases "mapped (mem s) root va")
      case True
      then show thesis using fail [OF _ as_step_refl [OF inv] refl keeps_refl] False im by (simp add: vmfault_def al)
    next
      case nm: False
      show thesis
      proof (cases xs)
        case Nil
        then have "kalloc s = (0, s)" using as_invD(4) [OF inv] by (simp add: free_list_def kalloc_none)
        then show thesis using fail [OF _ as_step_refl [OF inv] refl keeps_refl] False nm im Nil by (simp add: vmfault_def al)
      next
        case (Cons p ys)
        have fl: "free_list kend s (p # ys)" using as_invD(4) [OF inv] Cons by simp
        then have pv: "valid_kalloc_ptr kend p" by (simp add: free_list_def)
        obtain s1 where k: "kalloc s = (p, s1)" using kalloc_fill(1) [OF fl] by (cases "kalloc s") auto
        note f = kalloc_fill(1,2) [OF fl k] kalloc_fill(3-6) [OF fl k, where c = 0]
        let ?perm = "ucast (PTE_W OR PTE_U OR PTE_R) :: u32"
        have pm: "?perm < 1024" by (simp add: PTE_W_def PTE_U_def PTE_R_def)
        have unf: "vmfault kend psz root root va s = rbind (mappages root va 4096 p ?perm (snd (memset p 0 4096 s1))) (\<lambda>(r, s2).
              if r \<noteq> 0 then rbind (kfree kend p s2) (\<lambda>s3. Inr (0, s3)) else Inr (p, s2))"
          using False nm im k f(2) by (simp add: vmfault_def al)
        from inv [unfolded Cons] f(3-5) lim va nm pm show thesis
        proof (rule map_taken)
          fix s3 s' assume m: "mappages root va 4096 p ?perm (snd (memset p 0 4096 s1)) = Inr (- 1, s3)" "kfree kend p s3 = Inr s'"
            "as_step kend lim root s (p # ys) s' [p]" "keeps lim root {} (mem s) (mem s')" "amap (mem s') root = amap (mem s) root"
            "length ys \<le> 1"
          have "length xs \<le> 2" using m(6) Cons by simp
          then show thesis using fail [OF _ m(3) [folded Cons] m(5,4)] m(1,2) by (simp add: unf)
        next
          fix s' zs assume m: "mappages root va 4096 p ?perm (snd (memset p 0 4096 s1)) = Inr (0, s')"
            "as_step kend lim root s (p # ys) s' zs" "keeps lim root {} (mem s) (mem s')"
            "amap (mem s') root = (amap (mem s) root)(va := leaf_pte p ?perm)"
            "\<forall>x. PGROUNDDOWN x = p \<longrightarrow> mem s' x = mem (snd (memset p 0 4096 s1)) x"
          have "\<forall>x. PGROUNDDOWN x = p \<longrightarrow> mem s' x = 0" using m(5) f(6) by simp
          then show thesis using ok [OF _ m(2) [folded Cons] m(4) pv nm lt m(3)] m(1) by (simp add: unf)
        qed
      qed
    qed
  qed
qed

lemma ubyte_fault:
  assumes u: "user_inv kend lim psz s root xs"
    and am: "amap m' root = (amap (mem s) root)(va := e)" "\<not> mapped (mem s) root va" "page_aligned (PTE2PA e)"
    and k: "keeps lim root {} (mem s) m'" "\<forall>x. PGROUNDDOWN x = PTE2PA e \<longrightarrow> m' x = 0"
  shows "ubyte m' root = ubyte (mem s) root"
proof
  fix v
  show "ubyte m' root v = ubyte (mem s) root v"
  proof (cases "PGROUNDDOWN v = va")
    case True
    have "in_region (PTE2PA e) PGSIZE (PTE2PA e + (v - PGROUNDDOWN v))" using page_offset by (simp add: in_region_def)
    then have "PGROUNDDOWN (PTE2PA e + (v - PGROUNDDOWN v)) = PTE2PA e" using in_page_iff [OF am(3)] by simp
    then have "m' (PTE2PA e + (v - PGROUNDDOWN v)) = 0" using k(2) by simp
    moreover have "\<not> user_ok (mem s) root va" using am(2) user_ok_mapped by blast
    ultimately show ?thesis using True by (simp add: ubyte_def frame_of_def am(1))
  next
    case False
    show ?thesis
      by (rule ubyte_keeps [OF k(1)])
        (use u False user_frame(2) [OF u] in \<open>auto simp: user_inv_def user_ok_def am(1)\<close>)
  qed
qed

text \<open>Finding the page of an address, with a lazy allocation when it is missing.\<close>

lemma find_page:
  assumes u: "user_inv kend lim psz s root xs" and va: "page_aligned va"
  defines "lookup \<equiv> rbind (walkaddr root va s) (\<lambda>pa. if pa = 0 then vmfault kend psz root root va s else Inr (pa, s))"
  obtains (fail) s' ys where "lookup = Inr (0, s')" "as_step kend lim root s xs s' ys" "\<not> user_ok (mem s) root va"
      "amap (mem s') root = amap (mem s) root" "ubyte (mem s') root = ubyte (mem s) root"
      "psz \<le> va \<or> mapped (mem s) root va \<or> length xs \<le> 2"
  | (ok) s' ys where "lookup = Inr (frame_of (mem s') root va, s')" "as_step kend lim root s xs s' ys"
      "user_ok (mem s') root va" "ubyte (mem s') root = ubyte (mem s) root"
      "\<forall>v. user_ok (mem s) root v \<longrightarrow> amap (mem s') root v = amap (mem s) root v"
      "user_ok (mem s) root va \<or> amap (mem s') root va AND PTE_W \<noteq> 0" "user_ok (mem s) root va \<Longrightarrow> s' = s"
proof -
  have inv: "as_inv kend lim s root xs" using u by (simp add: user_inv_def)
  have w: "walkaddr root va s = Inr (if user_ok (mem s) root va then frame_of (mem s) root va else 0)"
    using walkaddr_amap [OF as_invD(3) [OF inv] va] by (simp add: user_ok_def frame_of_def)
  show thesis
  proof (cases "user_ok (mem s) root va")
    case True
    have "lookup = Inr (frame_of (mem s) root va, s)"
      using w True user_frame(3) [OF u True] by (simp add: lookup_def)
    then show thesis using ok [OF _ as_step_refl [OF inv] True refl] True by simp
  next
    case False
    then have l: "lookup = vmfault kend psz root root va s" using w by (simp add: lookup_def)
    from u va show thesis
    proof (rule vmfault_spec)
      fix s' ys assume f: "vmfault kend psz root root va s = Inr (0, s')" "as_step kend lim root s xs s' ys"
        "amap (mem s') root = amap (mem s) root" "keeps lim root {} (mem s) (mem s')"
        "psz \<le> va \<or> mapped (mem s) root va \<or> length xs \<le> 2"
      have "ubyte (mem s') root v = ubyte (mem s) root v" for v
        by (rule ubyte_keeps [OF f(4)]) (use u user_frame(2) [OF u] in \<open>auto simp: user_inv_def user_ok_def f(3)\<close>)
      then show thesis using fail [OF _ f(2) False f(3) _ f(5)] f(1) l by auto
    next
      fix p s' ys assume f: "vmfault kend psz root root va s = Inr (p, s')" "as_step kend lim root s xs s' ys"
        "amap (mem s') root = (amap (mem s) root)(va := leaf_pte p (ucast (PTE_W OR PTE_U OR PTE_R)))"
        "valid_kalloc_ptr kend p" "\<not> mapped (mem s) root va" "va < psz" "keeps lim root {} (mem s) (mem s')"
        "\<forall>x. PGROUNDDOWN x = p \<longrightarrow> mem s' x = 0"
      note lz = lazy_pte [OF f(4)]
      have "ubyte (mem s') root = ubyte (mem s) root"
        using u f(3,5) _ f(7) by (rule ubyte_fault) (use valid_kalloc_ptrD [OF f(4)] lz(4) f(8) in simp_all)
      moreover have "user_ok (mem s') root va" "frame_of (mem s') root va = p" "amap (mem s') root va AND PTE_W \<noteq> 0"
        using lz by (simp_all add: user_ok_def frame_of_def f(3))
      moreover have "\<forall>v. user_ok (mem s) root v \<longrightarrow> amap (mem s') root v = amap (mem s) root v" using False f(3) by auto
      ultimately show thesis using ok [OF _ f(2)] f(1) l False by auto
    qed
  qed
qed

section \<open>Writing through a user page\<close>

lemma write_frame:
  assumes u: "user_inv kend lim psz s root xs" and va: "user_ok (mem s) root va"
    and fit: "unat off + length bs \<le> 4096"
  defines "s' \<equiv> memmove_from_buf (frame_of (mem s) root va + off) bs s"
  shows "as_step kend lim root s xs s' xs" and "amap (mem s') root = amap (mem s) root"
    and "PGROUNDDOWN x \<noteq> frame_of (mem s) root va \<Longrightarrow> mem s' x = mem s x"
proof -
  let ?p = "frame_of (mem s) root va"
  note p = user_frame [OF u va]
  have inv: "as_inv kend lim s root xs" using u by (simp add: user_inv_def)
  have vl: "va < lim" using u va by (simp add: user_inv_def)
  have out: "mem s' x = mem s x" if "PGROUNDDOWN x \<noteq> ?p" for x
  proof -
    have "\<not> in_region (?p + off) (length bs) x"
    proof
      assume r: "in_region (?p + off) (length bs) x"
      have "unat (x - ?p) = unat ((x - (?p + off)) + off)" by simp
      also have "\<dots> = unat (x - (?p + off)) + unat off"
        using r fit by (subst unat_word_ariths(1)) (simp add: in_region_def)
      finally have "in_region ?p PGSIZE x" using r fit by (simp add: in_region_def)
      then show False using that in_page_iff [OF p(2)] by simp
    qed
    then show ?thesis by (simp add: s'_def memmove_from_buf_def store_bytes_outside)
  qed
  then show "PGROUNDDOWN x \<noteq> ?p \<Longrightarrow> mem s' x = mem s x" .
  have pu: "page_update ?p s s'" using out p(2) by (simp add: page_update_def in_page_iff)
  note t = page_update_tables [OF as_invD(3) [OF inv] pu p(2,4)]
  show am: "amap (mem s') root = amap (mem s) root" using t(3) .
  have "free_list kend s' xs"
  proof (rule free_list_frame [OF as_invD(4) [OF inv]])
    fix q x assume q: "q \<in> set xs" "in_region q PGSIZE x"
    then have "page_aligned q" using as_invD(4) [OF inv] valid_kalloc_ptrD by (auto simp: free_list_def)
    then have "PGROUNDDOWN x = q" using q(2) in_page_iff by blast
    then show "mem s' x = mem s x" using out q(1) p(5) by metis
  qed (simp_all add: s'_def memmove_from_buf_def)
  note fc = this frames_cong [where m = "mem s" and m' = "mem s'" and root = root and lim = lim, unfolded am, OF refl]
  have "as_inv kend lim s' root xs"
    using inv fc t(1,2) unfolding as_inv_def pt_inv_def by simp
  moreover have "?p \<in> owned (mem s) root lim xs" using framesI [OF vl user_ok_mapped [OF va]] by (simp add: owned_def)
  moreover have "owned (mem s') root lim xs = owned (mem s) root lim xs" using fc t(1) by (simp add: owned_def)
  moreover have "kmem.more s' = kmem.more s" by (simp add: s'_def memmove_from_buf_def)
  ultimately show "as_step kend lim root s xs s' xs" using out am unfolding as_step_def by metis
qed

definition write_at :: "u64 \<Rightarrow> u8 list \<Rightarrow> (u64 \<Rightarrow> u8) \<Rightarrow> u64 \<Rightarrow> u8" where
  "write_at a bs f v = (if unat (v - a) < length bs then bs ! unat (v - a) else f v)"

lemma write_at_Nil [simp]: "write_at a [] f = f"
  by (simp add: write_at_def fun_eq_iff)

lemma unat_diff_back:
  fixes v a :: u64
  assumes "n < 2 ^ 64"
  shows "unat (v - (a + of_nat n)) = (if n \<le> unat (v - a) then unat (v - a) - n else 2 ^ 64 + unat (v - a) - n)"
proof -
  have "unat (d - of_nat n) = (if n \<le> unat d then unat d - n else 2 ^ 64 + unat d - n)" for d :: u64
    unfolding unat_sub_if' unat_of_nat64 [OF assms] by auto
  from this [of "v - a"] show ?thesis unfolding diff_diff_eq .
qed

lemma write_at_append:
  assumes "length xs + length ys < 2 ^ 64"
  shows "write_at (a + of_nat (length xs)) ys (write_at a xs f) = write_at a (xs @ ys) f"
proof
  fix v
  have n: "length xs < 2 ^ 64" using assms by simp
  define d where "d = unat (v - a)"
  define e where "e = unat (v - (a + of_nat (length xs)))"
  have e: "e = (if length xs \<le> d then d - length xs else 2 ^ 64 + d - length xs)"
    unfolding e_def d_def by (rule unat_diff_back [OF n])
  have "(if e < length ys then ys ! e else if d < length xs then xs ! d else f v)
      = (if d < length (xs @ ys) then (xs @ ys) ! d else f v)"
  proof (cases "length xs \<le> d")
    case True
    then show ?thesis using e by (auto simp: nth_append)
  next
    case False
    then have "length ys \<le> e" using e assms by simp
    then show ?thesis using False by (simp add: nth_append)
  qed
  then show "write_at (a + of_nat (length xs)) ys (write_at a xs f) v = write_at a (xs @ ys) f v"
    unfolding write_at_def d_def e_def .
qed

lemma page_of_offset:
  assumes "page_aligned va" and "unat off + n \<le> 4096" and "unat (v - (va + off)) < n"
  shows "PGROUNDDOWN v = va" and "unat (v - va) = unat off + unat (v - (va + off))"
proof -
  have "unat (v - va) = unat ((v - (va + off)) + off)" by simp
  also have "\<dots> = unat (v - (va + off)) + unat off" using assms by (subst unat_word_ariths(1)) simp
  finally show e: "unat (v - va) = unat off + unat (v - (va + off))" by simp
  then have "in_region va PGSIZE v" using assms by (simp add: in_region_def)
  then show "PGROUNDDOWN v = va" using in_page_iff [OF assms(1)] by simp
qed

lemma ubyte_write:
  assumes u: "user_inv kend lim psz s root xs" and va: "user_ok (mem s) root va"
    and fit: "unat off + length bs \<le> 4096"
  shows "ubyte (mem (memmove_from_buf (frame_of (mem s) root va + off) bs s)) root = write_at (va + off) bs (ubyte (mem s) root)"
proof
  fix v
  let ?s' = "memmove_from_buf (frame_of (mem s) root va + off) bs s"
  let ?p = "frame_of (mem s) root va"
  note w = write_frame [OF u va fit]
  have al: "page_aligned va" using mapped_aligned user_ok_mapped [OF va] by blast
  have inv: "as_inv kend lim s root xs" using u by (simp add: user_inv_def)
  have uo: "user_ok (mem ?s') root = user_ok (mem s) root" "frame_of (mem ?s') root = frame_of (mem s) root"
    using w(2) by (simp_all add: user_ok_def frame_of_def fun_eq_iff)
  show "ubyte (mem ?s') root v = write_at (va + off) bs (ubyte (mem s) root) v"
  proof (cases "PGROUNDDOWN v = va")
    case True
    have e: "?p + (v - va) - (?p + off) = v - (va + off)" by (simp add: algebra_simps)
    have "mem ?s' (?p + (v - va)) = (if unat (v - (va + off)) < length bs then bs ! unat (v - (va + off)) else mem s (?p + (v - va)))"
      unfolding memmove_from_buf_def by (simp only: mem_upd_mem mem_upd_stats store_bytes_def in_region_def e)
    then show ?thesis using True va unfolding ubyte_def write_at_def uo by (simp add: Let_def)
  next
    case False
    then have n: "\<not> unat (v - (va + off)) < length bs" using page_of_offset(1) [OF al fit] by blast
    have "mem ?s' (frame_of (mem s) root (PGROUNDDOWN v) + (v - PGROUNDDOWN v)) = mem s (frame_of (mem s) root (PGROUNDDOWN v) + (v - PGROUNDDOWN v))"
      if o: "user_ok (mem s) root (PGROUNDDOWN v)"
    proof (rule w(3))
      have "in_region (frame_of (mem s) root (PGROUNDDOWN v)) PGSIZE (frame_of (mem s) root (PGROUNDDOWN v) + (v - PGROUNDDOWN v))"
        using page_offset by (simp add: in_region_def)
      then have "PGROUNDDOWN (frame_of (mem s) root (PGROUNDDOWN v) + (v - PGROUNDDOWN v)) = frame_of (mem s) root (PGROUNDDOWN v)"
        using in_page_iff [OF user_frame(2) [OF u o]] by simp
      moreover have "va \<in> vdom (mem s) root lim" "PGROUNDDOWN v \<in> vdom (mem s) root lim"
        using u va o user_ok_mapped by (auto simp: user_inv_def vdom_def)
      then have "frame_of (mem s) root (PGROUNDDOWN v) \<noteq> ?p" using inv False unfolding as_inv_def inj_on_def by blast
      ultimately show "PGROUNDDOWN (frame_of (mem s) root (PGROUNDDOWN v) + (v - PGROUNDDOWN v)) \<noteq> ?p" by simp
    qed
    then show ?thesis using n unfolding ubyte_def write_at_def uo by (simp add: Let_def)
  qed
qed

lemma copyout_unfold:
  assumes "src \<noteq> []" and "\<not> MAXVA \<le> PGROUNDDOWN dstva"
  shows "copyout kend psz ppt pagetable dstva src s =
    rbind (rbind (walkaddr pagetable (PGROUNDDOWN dstva) s) (\<lambda>pa. if pa = 0 then vmfault kend psz ppt pagetable (PGROUNDDOWN dstva) s else Inr (pa, s)))
      (\<lambda>(pa0, s1).
         if pa0 = 0 then Inr (-1, s1)
         else rbind (walk pagetable (PGROUNDDOWN dstva) False s1) (\<lambda>(pte, s2).
           if pte = 0 then Inl Undef
           else if load64 (mem s2) pte AND PTE_W = 0 then Inr (-1, s2)
           else let n = min (unat (4096 - (dstva - PGROUNDDOWN dstva))) (length src)
                in copyout kend psz ppt pagetable (PGROUNDDOWN dstva + 4096) (drop n src)
                     (memmove_from_buf (pa0 + (dstva - PGROUNDDOWN dstva)) (take n src) s2)))"
  unfolding rbind_assoc using assms by (subst copyout.simps) (simp only: Let_def if_False)

text \<open>The pages of the first \<open>n\<close> bytes at \<open>a\<close>, when they end before the page does.\<close>

lemma same_page:
  assumes "i < n" and "n \<le> 4096 - unat (a - PGROUNDDOWN a)"
  shows "PGROUNDDOWN (a + of_nat i) = PGROUNDDOWN a"
proof -
  have "i < 2 ^ 64" using assms page_offset [of a] by simp
  then have "unat (a + of_nat i - (PGROUNDDOWN a + (a - PGROUNDDOWN a))) < n" using assms(1) by (simp add: unat_of_nat64)
  then show ?thesis
    using page_of_offset(1) [of "PGROUNDDOWN a" "a - PGROUNDDOWN a" n "a + of_nat i"] assms(2) page_offset [of a] by simp
qed

lemma next_page:
  assumes "n = 4096 - unat (a - PGROUNDDOWN a)"
  shows "PGROUNDDOWN a + 4096 = a + of_nat n"
proof -
  have "unat (of_nat n :: u64) = n" using assms by (intro unat_of_nat64) simp
  then have "of_nat n = 4096 - (a - PGROUNDDOWN a)" using assms page_room [of a] by (simp add: word_unat_eq_iff)
  then show ?thesis by simp
qed

abbreviation user_wr :: "memory \<Rightarrow> u64 \<Rightarrow> u64 \<Rightarrow> bool" where
  "user_wr m root va \<equiv> user_ok m root va \<and> amap m root va AND PTE_W \<noteq> 0"

lemma copyout_spec:
  fixes src :: "u8 list"
  assumes "user_inv kend lim psz s root xs" and "length src < 2 ^ 64"
  shows "\<exists>r s' ys k. copyout kend psz root root dstva src s = Inr (r, s') \<and> as_step kend lim root s xs s' ys
    \<and> (r = 0 \<and> k = length src \<or> r = -1 \<and> k < length src)
    \<and> ubyte (mem s') root = write_at dstva (take k src) (ubyte (mem s) root)
    \<and> (\<forall>i < k. user_ok (mem s') root (PGROUNDDOWN (dstva + of_nat i))
         \<and> amap (mem s') root (PGROUNDDOWN (dstva + of_nat i)) AND PTE_W \<noteq> 0)
    \<and> (\<forall>v. user_ok (mem s) root v \<longrightarrow> amap (mem s') root v = amap (mem s) root v)
    \<and> ((\<forall>i < length src. user_wr (mem s) root (PGROUNDDOWN (dstva + of_nat i))) \<longrightarrow> r = 0)"
  using assms
proof (induction src arbitrary: dstva s xs rule: length_induct)
  case (1 src)
  note IH = 1(1) and u = 1(2) and len = 1(3)
  have inv: "as_inv kend lim s root xs" using u by (simp add: user_inv_def)
  let ?va = "PGROUNDDOWN dstva" let ?off = "dstva - PGROUNDDOWN dstva"
  have stop: ?case if "copyout kend psz root root dstva src s = Inr (-1, s')" "as_step kend lim root s xs s' ys"
    "ubyte (mem s') root = ubyte (mem s) root" "src \<noteq> []"
    "\<forall>v. user_ok (mem s) root v \<longrightarrow> amap (mem s') root v = amap (mem s) root v" "\<not> user_wr (mem s) root ?va" for s' ys
    using that by (intro exI [of _ "-1"] exI [of _ s'] exI [of _ ys] exI [of _ 0]) (auto dest: spec [of _ 0])
  show ?case
  proof (cases "src = []")
    case True
    then show ?thesis using as_step_refl [OF inv]
      by (intro exI [of _ 0] exI [of _ s] exI [of _ xs]) (simp add: copyout.simps)
  next
    case ne: False
    show ?thesis
    proof (cases "MAXVA \<le> ?va")
      case True
      then have "\<not> user_ok (mem s) root ?va" using u as_invD(2) [OF inv] by (auto simp: user_inv_def)
      then show ?thesis using True ne as_step_refl [OF inv] by (intro stop [of s xs]) (simp_all add: copyout.simps Let_def)
    next
      case False
      then have vm: "?va < MAXVA" by (simp only: not_le)
      note unf = copyout_unfold [OF ne False, of kend psz root root s]
      from u page_aligned_PGROUNDDOWN show ?thesis
      proof (rule find_page [where va = ?va])
        fix s' ys
        assume "rbind (walkaddr root ?va s) (\<lambda>pa. if pa = 0 then vmfault kend psz root root ?va s else Inr (pa, s)) = Inr (0, s')"
          "as_step kend lim root s xs s' ys" "\<not> user_ok (mem s) root ?va" "amap (mem s') root = amap (mem s) root" "ubyte (mem s') root = ubyte (mem s) root"
        then show ?thesis using ne by (intro stop [of s' ys]) (simp_all add: unf)
      next
        fix s1 ys
        assume f: "rbind (walkaddr root ?va s) (\<lambda>pa. if pa = 0 then vmfault kend psz root root ?va s else Inr (pa, s)) = Inr (frame_of (mem s1) root ?va, s1)"
          "as_step kend lim root s xs s1 ys" "user_ok (mem s1) root ?va" "ubyte (mem s1) root = ubyte (mem s) root"
          "\<forall>v. user_ok (mem s) root v \<longrightarrow> amap (mem s1) root v = amap (mem s) root v" "user_ok (mem s) root ?va \<Longrightarrow> s1 = s"
        note u1 = user_inv_step [OF u f(2)]
        define n where "n = min (unat (4096 - ?off)) (length src)"
        define s2 where "s2 = memmove_from_buf (frame_of (mem s1) root ?va + ?off) (take n src) s1"
        have nz: "frame_of (mem s1) root ?va \<noteq> 0" using user_frame(3) [OF u1 f(3)] .
        have wf1: "wf_pt kend (mem s1) root" using u1 as_invD(3) by (auto simp: user_inv_def)
        obtain pte where w: "walk root ?va False s1 = Inr (pte, s1)" "pte \<noteq> 0" "load64 (mem s1) pte = amap (mem s1) root ?va"
          using wf1 vm page_aligned_PGROUNDDOWN by (rule walk_lookup_amap) (use f(3) in \<open>auto simp: user_ok_def\<close>)
        have unf1: "copyout kend psz root root dstva src s = (if amap (mem s1) root ?va AND PTE_W = 0 then Inr (-1, s1)
            else copyout kend psz root root (?va + 4096) (drop n src) s2)"
          unfolding unf f(1) using nz w by (simp add: Let_def n_def s2_def)
        show ?thesis
        proof (cases "amap (mem s1) root ?va AND PTE_W = 0")
          case True
          then show ?thesis using f(2,4,5,6) ne by (intro stop [of s1 ys]) (auto simp: unf1)
        next
          case wr: False
          have n: "n \<le> 4096 - unat ?off" "n \<le> length src" "0 < n"
            using page_offset [of dstva] ne by (auto simp: n_def page_room)
          have fit: "unat ?off + length (take n src) \<le> 4096" using n page_offset [of dstva] by simp
          note wf = write_frame [OF u1 f(3) fit, folded s2_def] and uw = ubyte_write [OF u1 f(3) fit, folded s2_def]
          note u2 = user_inv_step [OF u1 wf(1)]
          have dl: "length (drop n src) < length src" "length (drop n src) < 2 ^ 64" using n len by simp_all
          obtain r s' zs k where r: "copyout kend psz root root (?va + 4096) (drop n src) s2 = Inr (r, s')"
            "as_step kend lim root s2 ys s' zs" "r = 0 \<and> k = length (drop n src) \<or> r = -1 \<and> k < length (drop n src)"
            "ubyte (mem s') root = write_at (?va + 4096) (take k (drop n src)) (ubyte (mem s2) root)"
            "\<forall>i < k. user_ok (mem s') root (PGROUNDDOWN (?va + 4096 + of_nat i)) \<and> amap (mem s') root (PGROUNDDOWN (?va + 4096 + of_nat i)) AND PTE_W \<noteq> 0"
            "\<forall>v. user_ok (mem s2) root v \<longrightarrow> amap (mem s') root v = amap (mem s2) root v"
            "(\<forall>i < length (drop n src). user_wr (mem s2) root (PGROUNDDOWN (?va + 4096 + of_nat i))) \<longrightarrow> r = 0"
            using IH dl u2 by blast
          have kl: "k \<le> length (drop n src)" using r(3) by auto
          have cont: "k = 0 \<or> ?va + 4096 = dstva + of_nat n"
          proof (cases "n = length src")
            case False
            then have "n = 4096 - unat ?off" by (simp add: n_def page_room min_def split: if_splits)
            then show ?thesis using next_page by blast
          qed (use kl in simp)
          have sum: "n + k < 2 ^ 64" using kl n(2) len by simp
          have ub: "ubyte (mem s') root = write_at dstva (take (n + k) src) (ubyte (mem s) root)"
            using cont write_at_append [of "take n src" "take k (drop n src)" dstva "ubyte (mem s) root"] kl n(2) sum
            by (auto simp: r(4) uw f(4) take_add)
          have am: "amap (mem s') root v = amap (mem s1) root v" if "user_ok (mem s1) root v" for v
            using that r(6) wf(2) by (simp add: user_ok_def)
          have pages: "user_ok (mem s') root (PGROUNDDOWN (dstva + of_nat i)) \<and> amap (mem s') root (PGROUNDDOWN (dstva + of_nat i)) AND PTE_W \<noteq> 0"
            if lt: "i < n + k" for i
          proof (cases "i < n")
            case True
            then have "PGROUNDDOWN (dstva + of_nat i) = ?va" using same_page n(1) by blast
            then show ?thesis using am [OF f(3)] f(3) wr by (simp add: user_ok_def)
          next
            case False
            define j where "j = i - n"
            have j: "i = n + j" "j < k" using False lt by (simp_all add: j_def)
            then have "dstva + of_nat i = ?va + 4096 + of_nat j" using cont by auto
            then show ?thesis using r(5) j(2) by auto
          qed
          have "user_ok (mem s1) root v \<and> amap (mem s1) root v = amap (mem s) root v" if "user_ok (mem s) root v" for v
            using that f(5) by (simp add: user_ok_def)
          then have "\<forall>v. user_ok (mem s) root v \<longrightarrow> amap (mem s') root v = amap (mem s) root v" using am by simp
          moreover have "copyout kend psz root root dstva src s = Inr (r, s')" using unf1 wr r(1) by simp
          moreover have "r = 0 \<and> n + k = length src \<or> r = -1 \<and> n + k < length src" using r(3) n(2) by auto
          moreover have "as_step kend lim root s xs s' zs" by (rule as_step_trans [OF f(2) as_step_trans [OF wf(1) r(2)]])
          moreover have "r = 0" if all: "\<forall>i < length src. user_wr (mem s) root (PGROUNDDOWN (dstva + of_nat i))"
          proof -
            have "user_wr (mem s2) root (PGROUNDDOWN (?va + 4096 + of_nat i))" if "i < length (drop n src)" for i
            proof -
              have "n \<noteq> length src" using that by auto
              then have "n = 4096 - unat ?off" by (simp add: n_def page_room min_def split: if_splits)
              then have "?va + 4096 + of_nat i = dstva + of_nat (n + i)" using next_page by simp
              moreover have "n + i < length src" using that by simp
              ultimately have "user_wr (mem s) root (PGROUNDDOWN (?va + 4096 + of_nat i))" using all by metis
              then show ?thesis using f(5) wf(2) by (simp add: user_ok_def)
            qed
            then show ?thesis using r(7) by blast
          qed
          ultimately show ?thesis using ub pages by blast
        qed
      qed
    qed
  qed
qed

text \<open>A write into a page that is still to be allocated succeeds when three pages are free: the page and
  the two table pages on the way to it.\<close>

lemma copyout_lazy_ok:
  assumes u: "user_inv kend lim psz s root xs" and src: "src \<noteq> []" "length src \<le> 4096 - unat (dstva - PGROUNDDOWN dstva)"
    and va: "PGROUNDDOWN dstva < psz" "\<not> mapped (mem s) root (PGROUNDDOWN dstva)" and xs: "3 \<le> length xs"
  shows "\<exists>s'. copyout kend psz root root dstva src s = Inr (0, s')"
proof -
  let ?va = "PGROUNDDOWN dstva"
  have inv: "as_inv kend lim s root xs" "psz \<le> lim" using u by (auto simp: user_inv_def)
  have vm: "?va < MAXVA" using va(1) inv(2) as_invD(2) [OF inv(1)] by (meson less_le_trans)
  then have "\<not> MAXVA \<le> ?va" by (simp only: not_le)
  note unf = copyout_unfold [OF src(1) this, of kend psz root root s]
  have nl: "\<not> psz \<le> ?va" using va(1) by (simp only: not_le)
  from u page_aligned_PGROUNDDOWN show ?thesis
  proof (rule find_page [where va = ?va])
    fix s' ys assume "psz \<le> ?va \<or> mapped (mem s) root ?va \<or> length xs \<le> 2"
    then show ?thesis using nl va(2) xs by simp
  next
    fix s1 ys
    assume f: "rbind (walkaddr root ?va s) (\<lambda>pa. if pa = 0 then vmfault kend psz root root ?va s else Inr (pa, s)) = Inr (frame_of (mem s1) root ?va, s1)"
      "as_step kend lim root s xs s1 ys" "user_ok (mem s1) root ?va"
      "user_ok (mem s) root ?va \<or> amap (mem s1) root ?va AND PTE_W \<noteq> 0"
    note u1 = user_inv_step [OF u f(2)]
    have wr: "amap (mem s1) root ?va AND PTE_W \<noteq> 0" using f(4) va(2) user_ok_mapped by blast
    have nz: "frame_of (mem s1) root ?va \<noteq> 0" using user_frame(3) [OF u1 f(3)] .
    have wf1: "wf_pt kend (mem s1) root" using u1 as_invD(3) by (auto simp: user_inv_def)
    obtain pte where w: "walk root ?va False s1 = Inr (pte, s1)" "pte \<noteq> 0" "load64 (mem s1) pte = amap (mem s1) root ?va"
      using wf1 vm page_aligned_PGROUNDDOWN by (rule walk_lookup_amap) (use f(3) in \<open>auto simp: user_ok_def\<close>)
    have "min (unat (4096 - (dstva - ?va))) (length src) = length src" using src(2) by (simp add: page_room)
    then show ?thesis unfolding unf f(1) using nz w wr by (simp add: Let_def copyout.simps [of kend psz root root _ "[]"])
  qed
qed

section \<open>Reading through user pages\<close>

lemma as_step_stats:
  assumes "as_inv kend lim s root xs"
  shows "as_step kend lim root s xs (upd_stats f s) xs"
  using assms free_list_frame [of kend s xs "upd_stats f s"]
  by (simp add: as_step_def as_inv_def pt_inv_def)

lemma load_user_page:
  assumes "user_ok m root (PGROUNDDOWN a)" and "n \<le> 4096 - unat (a - PGROUNDDOWN a)"
  shows "load_bytes (frame_of m root (PGROUNDDOWN a) + (a - PGROUNDDOWN a)) n m
       = map (\<lambda>i. ubyte m root (a + of_nat i)) [0..<n]"
proof -
  have "m (frame_of m root (PGROUNDDOWN a) + (a - PGROUNDDOWN a) + of_nat i) = ubyte m root (a + of_nat i)" if "i < n" for i
    using same_page [OF that assms(2)] assms(1) by (simp add: ubyte_def Let_def algebra_simps)
  then show ?thesis by (simp add: load_bytes_def)
qed

lemma map_upt_shift: "map f [0..<n] @ map (\<lambda>i. f (n + i)) [0..<k] = map f [0..<n + k]"
proof (induction k)
  case (Suc k)
  then show ?case by (simp add: append_assoc [symmetric] del: append_assoc)
qed simp

lemma copyin_unfold:
  assumes "len \<noteq> 0"
  shows "copyin kend psz ppt pagetable srcva len s =
    rbind (rbind (walkaddr pagetable (PGROUNDDOWN srcva) s) (\<lambda>pa. if pa = 0 then vmfault kend psz ppt pagetable (PGROUNDDOWN srcva) s else Inr (pa, s)))
      (\<lambda>(pa0, s1).
         if pa0 = 0 then Inr (-1, [], s1)
         else let n = min (unat (4096 - (srcva - PGROUNDDOWN srcva))) len
              in case memmove_to_buf (pa0 + (srcva - PGROUNDDOWN srcva)) n s1 of (bs, s2) \<Rightarrow>
                 rbind (copyin kend psz ppt pagetable (PGROUNDDOWN srcva + 4096) (len - n) s2) (\<lambda>(r, bs', s3).
                   Inr (r, bs @ bs', s3)))"
  unfolding rbind_assoc using assms by (subst copyin.simps) (simp only: Let_def if_False)

lemma copyin_spec:
  fixes len :: nat
  assumes "user_inv kend lim psz s root xs" and "len < 2 ^ 64"
  shows "\<exists>r bs s' ys. copyin kend psz root root srcva len s = Inr (r, bs, s') \<and> as_step kend lim root s xs s' ys
    \<and> (r = 0 \<and> length bs = len \<or> r = -1 \<and> length bs < len)
    \<and> bs = map (\<lambda>i. ubyte (mem s) root (srcva + of_nat i)) [0..<length bs]
    \<and> ubyte (mem s') root = ubyte (mem s) root
    \<and> ((\<forall>i < len. user_ok (mem s) root (PGROUNDDOWN (srcva + of_nat i))) \<longrightarrow> r = 0 \<and> (\<exists>f. s' = upd_stats f s))
    \<and> (\<forall>v. user_ok (mem s) root v \<longrightarrow> amap (mem s') root v = amap (mem s) root v)"
  using assms
proof (induction len arbitrary: srcva s xs rule: less_induct)
  case (less len)
  note IH = less(1) and u = less(2) and len = less(3)
  have inv: "as_inv kend lim s root xs" using u by (simp add: user_inv_def)
  let ?va = "PGROUNDDOWN srcva" let ?off = "srcva - PGROUNDDOWN srcva"
  show ?case
  proof (cases "len = 0")
    case True
    then show ?thesis using as_step_refl [OF inv]
      by (intro exI [of _ 0] exI [of _ "[] :: u8 list"] exI [of _ s] exI [of _ xs] conjI impI exI [of _ id])
        (simp_all add: copyin.simps upd_stats_def)
  next
    case ne: False
    note unf = copyin_unfold [OF ne, of kend psz root root srcva s]
    from u page_aligned_PGROUNDDOWN show ?thesis
    proof (rule find_page [where va = ?va])
      fix s' ys
      assume f: "rbind (walkaddr root ?va s) (\<lambda>pa. if pa = 0 then vmfault kend psz root root ?va s else Inr (pa, s)) = Inr (0, s')"
        "as_step kend lim root s xs s' ys" "\<not> user_ok (mem s) root ?va" "ubyte (mem s') root = ubyte (mem s) root"
        "amap (mem s') root = amap (mem s) root"
      have "\<not> (\<forall>i < len. user_ok (mem s) root (PGROUNDDOWN (srcva + of_nat i)))" using f(3) ne by (auto intro!: exI [of _ 0])
      then show ?thesis using f ne
        by (intro exI [of _ "-1"] exI [of _ "[]"] exI [of _ s'] exI [of _ ys]) (simp add: unf)
    next
      fix s1 ys
      assume f: "rbind (walkaddr root ?va s) (\<lambda>pa. if pa = 0 then vmfault kend psz root root ?va s else Inr (pa, s)) = Inr (frame_of (mem s1) root ?va, s1)"
        "as_step kend lim root s xs s1 ys" "user_ok (mem s1) root ?va" "ubyte (mem s1) root = ubyte (mem s) root"
        "\<forall>v. user_ok (mem s) root v \<longrightarrow> amap (mem s1) root v = amap (mem s) root v"
        "user_ok (mem s) root ?va \<Longrightarrow> s1 = s"
      note u1 = user_inv_step [OF u f(2)]
      define n where "n = min (unat (4096 - ?off)) len"
      define s2 where "s2 = upd_stats (\<lambda>t. t\<lparr>memmove_calls := memmove_calls t + 1\<rparr>) s1"
      have n: "n \<le> 4096 - unat ?off" "n \<le> len" "0 < n" using page_offset [of srcva] ne by (auto simp: n_def page_room)
      have nz: "frame_of (mem s1) root ?va \<noteq> 0" using user_frame(3) [OF u1 f(3)] .
      let ?bs = "map (\<lambda>i. ubyte (mem s) root (srcva + of_nat i)) [0..<n]"
      have "memmove_to_buf (frame_of (mem s1) root ?va + ?off) n s1 = (?bs, s2)"
        using load_user_page [OF f(3) n(1)] by (simp add: memmove_to_buf_def s2_def f(4))
      then have unf1: "copyin kend psz root root srcva len s =
          rbind (copyin kend psz root root (?va + 4096) (len - n) s2) (\<lambda>(r, bs', s3). Inr (r, ?bs @ bs', s3))"
        unfolding unf f(1) using nz by (simp add: Let_def n_def)
      have st: "as_step kend lim root s1 ys s2 ys"
        unfolding s2_def using u1 by (intro as_step_stats) (simp add: user_inv_def)
      have m2: "mem s2 = mem s1" by (simp add: s2_def)
      have dl: "len - n < len" "len - n < 2 ^ 64" using n len by simp_all
      obtain r bs s' zs where r: "copyin kend psz root root (?va + 4096) (len - n) s2 = Inr (r, bs, s')"
        "as_step kend lim root s2 ys s' zs" "r = 0 \<and> length bs = len - n \<or> r = -1 \<and> length bs < len - n"
        "bs = map (\<lambda>i. ubyte (mem s2) root (?va + 4096 + of_nat i)) [0..<length bs]"
        "ubyte (mem s') root = ubyte (mem s2) root"
        "(\<forall>i < len - n. user_ok (mem s2) root (PGROUNDDOWN (?va + 4096 + of_nat i))) \<longrightarrow> r = 0 \<and> (\<exists>f. s' = upd_stats f s2)"
        "\<forall>v. user_ok (mem s2) root v \<longrightarrow> amap (mem s') root v = amap (mem s2) root v"
        using IH [OF dl(1) user_inv_step [OF u1 st] dl(2), of "?va + 4096"] by blast
      have cont: "len - n = 0 \<or> ?va + 4096 = srcva + of_nat n"
      proof (cases "n = len")
        case False
        then have "n = 4096 - unat ?off" by (simp add: n_def page_room min_def split: if_splits)
        then show ?thesis using next_page by blast
      qed simp
      have shift: "?va + 4096 + of_nat i = srcva + of_nat (n + i)" if "len - n \<noteq> 0" for i
      proof -
        have e: "?va + 4096 = srcva + of_nat n" using cont that by blast
        show ?thesis unfolding e by simp
      qed
      have "?bs @ bs = map (\<lambda>i. ubyte (mem s) root (srcva + of_nat i)) [0..<length (?bs @ bs)]"
      proof (cases "len - n = 0")
        case False
        have "bs = map (\<lambda>i. ubyte (mem s) root (srcva + of_nat (n + i))) [0..<length bs]"
          using r(4) unfolding shift [OF False] m2 f(4) .
        then show ?thesis
          using map_upt_shift [of "\<lambda>i. ubyte (mem s) root (srcva + of_nat i)" n "length bs"] by simp
      qed (use r(3) in auto)
      moreover have "r = 0 \<and> (\<exists>f. s' = upd_stats f s)" if all: "\<forall>i < len. user_ok (mem s) root (PGROUNDDOWN (srcva + of_nat i))"
      proof -
        have "user_ok (mem s2) root (PGROUNDDOWN (?va + 4096 + of_nat i))" if i: "i < len - n" for i
        proof -
          have "?va + 4096 + of_nat i = srcva + of_nat (n + i)" using i by (intro shift) simp
          moreover have "user_ok (mem s) root (PGROUNDDOWN (srcva + of_nat (n + i)))" using all [rule_format, of "n + i"] i by linarith
          ultimately show ?thesis unfolding m2 user_ok_def using f(5) [unfolded user_ok_def] by metis
        qed
        then obtain g where g: "r = 0" "s' = upd_stats g s2" using r(6) by blast
        have "user_ok (mem s) root ?va" using all [rule_format, of 0] ne by simp
        then have "s1 = s" by (rule f(6))
        then have "s' = upd_stats (g \<circ> (\<lambda>t. t\<lparr>memmove_calls := memmove_calls t + 1\<rparr>)) s"
          by (simp add: g(2) s2_def upd_stats_def)
        then show ?thesis using g(1) by blast
      qed
      moreover have "copyin kend psz root root srcva len s = Inr (r, ?bs @ bs, s')" using unf1 r(1) by simp
      moreover have "r = 0 \<and> length (?bs @ bs) = len \<or> r = -1 \<and> length (?bs @ bs) < len" using r(3) n(2) by auto
      moreover have "ubyte (mem s') root = ubyte (mem s) root" using r(5) m2 f(4) by simp
      moreover have "\<forall>v. user_ok (mem s) root v \<longrightarrow> amap (mem s') root v = amap (mem s) root v"
        using f(5) r(7) unfolding m2 user_ok_def by metis
      moreover have "as_step kend lim root s xs s' zs" by (rule as_step_trans [OF f(2) as_step_trans [OF st r(2)]])
      ultimately show ?thesis by blast
    qed
  qed
qed

section \<open>Strings\<close>

lemma load_bytes_Suc: "load_bytes p (Suc n) m = m p # load_bytes (p + 1) n m"
  by (simp add: load_bytes_def upt_conv_Cons map_Suc_upt [symmetric] comp_def ac_simps del: upt_Suc)

lemma copyinstr_page_spec:
  "copyinstr_page m p n = (let w = takeWhile (\<lambda>b. b \<noteq> 0) (load_bytes p n m)
     in if length w < n then (w @ [0], True) else (w, False))"
proof (induction n arbitrary: p)
  case 0
  then show ?case by (simp add: load_bytes_def)
next
  case (Suc n)
  then show ?case by (simp add: load_bytes_Suc Let_def)
qed

text \<open>A string of \<open>n\<close> non-null bytes at \<open>a\<close>, all of it in user pages.\<close>

definition ustring :: "memory \<Rightarrow> u64 \<Rightarrow> u64 \<Rightarrow> nat \<Rightarrow> bool" where
  "ustring m root a n \<longleftrightarrow> (\<forall>i \<le> n. user_ok m root (PGROUNDDOWN (a + of_nat i)))
     \<and> (\<forall>i < n. ubyte m root (a + of_nat i) \<noteq> 0) \<and> ubyte m root (a + of_nat n) = 0"

definition ubytes :: "memory \<Rightarrow> u64 \<Rightarrow> u64 \<Rightarrow> nat \<Rightarrow> u8 list" where
  "ubytes m root a n = map (\<lambda>i. ubyte m root (a + of_nat i)) [0..<n]"

lemma length_ubytes [simp]: "length (ubytes m root a n) = n"
  by (simp add: ubytes_def)

lemma nth_ubytes [simp]: "i < n \<Longrightarrow> ubytes m root a n ! i = ubyte m root (a + of_nat i)"
  by (simp add: ubytes_def)

lemma takeWhile_ubytes:
  assumes "k \<le> n" "\<forall>i < k. ubyte m root (a + of_nat i) \<noteq> 0" "k < n \<Longrightarrow> ubyte m root (a + of_nat k) = 0"
  shows "takeWhile (\<lambda>b. b \<noteq> 0) (ubytes m root a n) = ubytes m root a k"
proof (rule takeWhile_eq_take_P_nth [THEN trans])
  show "take k (ubytes m root a n) = ubytes m root a k"
    using assms(1) by (intro nth_equalityI) simp_all
qed (use assms in \<open>simp_all add: less_imp_le\<close>)

lemma first_null:
  obtains k where "k \<le> n" "\<forall>i < k. ubyte m root (a + of_nat i) \<noteq> 0" "k < n \<Longrightarrow> ubyte m root (a + of_nat k) = 0"
proof (cases "\<exists>k < n. ubyte m root (a + of_nat k) = 0")
  case True
  define k where "k = (LEAST k. ubyte m root (a + of_nat k) = 0)"
  obtain j where j: "j < n" "ubyte m root (a + of_nat j) = 0" using True by blast
  have "ubyte m root (a + of_nat k) = 0" unfolding k_def using j(2) by (rule LeastI)
  moreover have "k \<le> j" unfolding k_def using j(2) by (rule Least_le)
  moreover have "\<forall>i < k. ubyte m root (a + of_nat i) \<noteq> 0" unfolding k_def using not_less_Least by blast
  ultimately show thesis using that [of k] j(1) by simp
next
  case False
  then show thesis using that [of n] by simp
qed

lemma ustring_shift:
  assumes "\<forall>i < n. user_ok m root (PGROUNDDOWN (a + of_nat i)) \<and> ubyte m root (a + of_nat i) \<noteq> 0"
  shows "ustring m root (a + of_nat n) k \<longleftrightarrow> ustring m root a (n + k)"
    and "ustring m root a k \<Longrightarrow> n \<le> k"
proof -
  have e: "a + of_nat n + of_nat i = a + of_nat (n + i)" for i by simp
  have split: "(\<forall>i \<le> n + k. P i) \<longleftrightarrow> (\<forall>i < n. P i) \<and> (\<forall>i \<le> k. P (n + i))"
    "(\<forall>i < n + k. P i) \<longleftrightarrow> (\<forall>i < n. P i) \<and> (\<forall>i < k. P (n + i))" for P :: "nat \<Rightarrow> bool"
    by (metis add_le_cancel_left le_add_diff_inverse not_less trans_le_add1 less_imp_le)
       (metis add_less_cancel_left le_add_diff_inverse not_less trans_less_add1)
  show "ustring m root (a + of_nat n) k \<longleftrightarrow> ustring m root a (n + k)"
    unfolding ustring_def e split using assms by blast
  show "ustring m root a k \<Longrightarrow> n \<le> k" using assms unfolding ustring_def by (metis not_less)
qed

lemma ubytes_append: "ubytes m root a n @ ubytes m root (a + of_nat n) k = ubytes m root a (n + k)"
proof -
  have "ubytes m root (a + of_nat n) k = map (\<lambda>i. ubyte m root (a + of_nat (n + i))) [0..<k]"
    by (simp add: ubytes_def add.assoc)
  then show ?thesis
    using map_upt_shift [of "\<lambda>i. ubyte m root (a + of_nat i)" n k] unfolding ubytes_def by (simp only:)
qed

lemma copyinstr_spec:
  fixes mx :: nat
  assumes "user_inv kend lim psz s root xs"
  shows "\<exists>r bs. copyinstr root srcva mx s = Inr (r, bs)
    \<and> ((\<exists>n < mx. ustring (mem s) root srcva n \<and> r = 0 \<and> bs = ubytes (mem s) root srcva n @ [0])
       \<or> r = -1 \<and> (\<forall>n < mx. \<not> ustring (mem s) root srcva n))"
proof (induction mx arbitrary: srcva rule: less_induct)
  case (less mx)
  have inv: "as_inv kend lim s root xs" using assms by (simp add: user_inv_def)
  let ?va = "PGROUNDDOWN srcva" let ?off = "srcva - PGROUNDDOWN srcva"
  have w: "walkaddr root ?va s = Inr (if user_ok (mem s) root ?va then frame_of (mem s) root ?va else 0)"
    using walkaddr_amap [OF as_invD(3) [OF inv] page_aligned_PGROUNDDOWN] by (simp add: user_ok_def frame_of_def)
  show ?case
  proof (cases "mx = 0")
    case True
    then show ?thesis by (simp add: copyinstr.simps)
  next
    case ne: False
    show ?thesis
    proof (cases "user_ok (mem s) root ?va")
      case False
      then have "\<not> ustring (mem s) root srcva n" for n
        unfolding ustring_def by (auto intro!: exI [of _ 0])
      then show ?thesis using False ne w by (intro exI [of _ "-1"] exI [of _ "[]"]) (simp add: copyinstr.simps Let_def)
    next
      case ok: True
      define n where "n = min (unat (4096 - ?off)) mx"
      have n: "n \<le> 4096 - unat ?off" "n \<le> mx" "0 < n" using page_offset [of srcva] ne by (auto simp: n_def page_room)
      obtain k where k: "k \<le> n" "\<forall>i < k. ubyte (mem s) root (srcva + of_nat i) \<noteq> 0"
        "k < n \<Longrightarrow> ubyte (mem s) root (srcva + of_nat k) = 0" by (rule first_null [of n "mem s" root srcva]) (rule that)
      have pg: "user_ok (mem s) root (PGROUNDDOWN (srcva + of_nat i))" if "i < n" for i using same_page [OF that n(1)] ok by simp
      have ld: "load_bytes (frame_of (mem s) root ?va + ?off) n (mem s) = ubytes (mem s) root srcva n"
        using load_user_page [OF ok n(1)] by (simp add: ubytes_def)
      have unf: "copyinstr root srcva mx s = (if k < n then Inr (0, ubytes (mem s) root srcva k @ [0])
          else rbind (copyinstr root (?va + 4096) (mx - n) s) (\<lambda>(r, bs'). Inr (r, ubytes (mem s) root srcva k @ bs')))"
        using ne w ok user_frame(3) [OF assms ok]
        by (subst copyinstr.simps)
          (simp add: Let_def n_def [symmetric] copyinstr_page_spec ld takeWhile_ubytes [OF k])
      show ?thesis
      proof (cases "k < n")
        case True
        then have "ustring (mem s) root srcva k" using k pg by (auto simp: ustring_def)
        moreover have "k < mx" using True n(2) by simp
        ultimately show ?thesis using unf True by auto
      next
        case False
        then have kn: "k = n" using k(1) by simp
        have all: "\<forall>i < n. user_ok (mem s) root (PGROUNDDOWN (srcva + of_nat i)) \<and> ubyte (mem s) root (srcva + of_nat i) \<noteq> 0"
          using k(2) pg kn by blast
        note us = ustring_shift [OF all]
        obtain r bs where r: "copyinstr root (?va + 4096) (mx - n) s = Inr (r, bs)"
          "(\<exists>j < mx - n. ustring (mem s) root (?va + 4096) j \<and> r = 0 \<and> bs = ubytes (mem s) root (?va + 4096) j @ [0])
           \<or> r = -1 \<and> (\<forall>j < mx - n. \<not> ustring (mem s) root (?va + 4096) j)"
          using less [of "mx - n" "?va + 4096"] n by auto
        have l: "copyinstr root srcva mx s = Inr (r, ubytes (mem s) root srcva n @ bs)" using unf False kn r(1) by simp
        show ?thesis
        proof (cases "n = mx")
          case True
          then have "\<forall>j < mx. \<not> ustring (mem s) root srcva j" using us(2) by (meson not_less)
          then show ?thesis using l r(2) True by auto
        next
          case False
          then have "n = 4096 - unat ?off" by (simp add: n_def page_room min_def split: if_splits)
          then have e: "?va + 4096 = srcva + of_nat n" by (rule next_page)
          from r(2) show ?thesis
          proof (elim disjE exE conjE)
            fix j assume j: "j < mx - n" "ustring (mem s) root (?va + 4096) j" "r = 0" "bs = ubytes (mem s) root (?va + 4096) j @ [0]"
            have "ustring (mem s) root srcva (n + j)" using j(2) us(1) unfolding e by blast
            moreover have "ubytes (mem s) root srcva n @ bs = ubytes (mem s) root srcva (n + j) @ [0]"
              using ubytes_append [of "mem s" root srcva n j] unfolding j(4) e append_assoc [symmetric] by simp
            moreover have "n + j < mx" using j(1) by simp
            ultimately show ?thesis using l j(3) by auto
          next
            assume r': "r = -1" "\<forall>j < mx - n. \<not> ustring (mem s) root (?va + 4096) j"
            have "\<not> ustring (mem s) root srcva j" if "j < mx" for j
            proof
              assume j: "ustring (mem s) root srcva j"
              then have "n \<le> j" by (rule us(2))
              then have "j - n < mx - n" "ustring (mem s) root (?va + 4096) (j - n)" using that j us(1) [of "j - n"] unfolding e by auto
              then show False using r'(2) by blast
            qed
            then show ?thesis using l r'(1) by blast
          qed
        qed
      qed
    qed
  qed
qed

section \<open>The kernel buffer is memory too\<close>

text \<open>When the kernel buffer is a region of memory apart from the destination, \<^verbatim>\<open>memmove\<close> does
  what the buffer form says.\<close>

lemma memmove_from_buf_eq:
  assumes "dst \<noteq> 0" "src \<noteq> 0" "n \<le> 1024 * 1024" "unat dst + unat n < 2 ^ 64" "unat src + unat n < 2 ^ 64"
    and "load_bytes src (unat n) (mem s) = bs"
  shows "snd (memmove dst src n s) = memmove_from_buf dst bs s"
proof -
  have e: "(\<lambda>x. if in_region dst (unat n) x then mem s (src + (x - dst)) else mem s x) = store_bytes dst bs (mem s)"
    unfolding assms(6) [symmetric]
    by (auto simp: store_bytes_def load_bytes_def in_region_def fun_eq_iff)
  show ?thesis
    unfolding memmove_memory [OF assms(1-5), of s] memmove_from_buf_def snd_conv upd_mem_def mem_upd_stats e ..
qed

section \<open>Properties\<close>

text \<open>C20. What a process sees is a byte for each virtual address, zeros where a page is still to be
  allocated lazily. \<^verbatim>\<open>copyout\<close> never panics and changes this view exactly by writing the copied
  bytes at \<^verbatim>\<open>dstva\<close>: all of them when it returns 0, a proper prefix when it returns -1. It writes
  only through pages that the process itself may write, existing mappings stay, and no byte
  of a page of the kernel or of another process changes.\<close>

theorem copyout_refines:
  assumes "user_inv kend lim psz s root xs" and "length src < 2 ^ 64"
  shows "\<exists>r s' ys k. copyout kend psz root root dstva src s = Inr (r, s')
    \<and> (r = 0 \<and> k = length src \<or> r = -1 \<and> k < length src)
    \<and> ubyte (mem s') root = write_at dstva (take k src) (ubyte (mem s) root)
    \<and> (\<forall>i < k. user_ok (mem s') root (PGROUNDDOWN (dstva + of_nat i))
         \<and> amap (mem s') root (PGROUNDDOWN (dstva + of_nat i)) AND PTE_W \<noteq> 0)
    \<and> (\<forall>v. user_ok (mem s) root v \<longrightarrow> amap (mem s') root v = amap (mem s) root v)
    \<and> user_inv kend lim psz s' root ys
    \<and> (\<forall>x. PGROUNDDOWN x \<notin> owned (mem s) root lim xs \<longrightarrow> mem s' x = mem s x)"
proof -
  from copyout_spec [OF assms, of dstva] obtain r s' ys k
    where c: "copyout kend psz root root dstva src s = Inr (r, s')" "as_step kend lim root s xs s' ys"
    "r = 0 \<and> k = length src \<or> r = -1 \<and> k < length src"
    "ubyte (mem s') root = write_at dstva (take k src) (ubyte (mem s) root)"
    "\<forall>i < k. user_ok (mem s') root (PGROUNDDOWN (dstva + of_nat i))
         \<and> amap (mem s') root (PGROUNDDOWN (dstva + of_nat i)) AND PTE_W \<noteq> 0"
    "\<forall>v. user_ok (mem s) root v \<longrightarrow> amap (mem s') root v = amap (mem s) root v" by blast
  moreover have "\<forall>x. PGROUNDDOWN x \<notin> owned (mem s) root lim xs \<longrightarrow> mem s' x = mem s x" using c(2) by (simp add: as_step_def)
  ultimately show ?thesis using user_inv_step [OF assms(1) c(2)] by blast
qed

text \<open>C23. Bytes that the kernel copied out to a process come back unchanged: after a \<^verbatim>\<open>copyout\<close>
  that returned 0, \<^verbatim>\<open>copyin\<close> of the same length from the same address returns 0 and the same
  bytes, across page boundaries and lazily allocated pages.\<close>

theorem copyout_copyin_roundtrip:
  assumes "user_inv kend lim psz s root xs" and "length src < 2 ^ 64"
    and "copyout kend psz root root va src s = Inr (0, s1)"
  shows "\<exists>s2. copyin kend psz root root va (length src) s1 = Inr (0, src, s2) \<and> ubyte (mem s2) root = ubyte (mem s1) root"
proof -
  from copyout_spec [OF assms(1,2), of va] assms(3) obtain ys
    where c: "as_step kend lim root s xs s1 ys" "ubyte (mem s1) root = write_at va src (ubyte (mem s) root)"
    "\<forall>i < length src. user_ok (mem s1) root (PGROUNDDOWN (va + of_nat i))" by auto
  from copyin_spec [OF user_inv_step [OF assms(1) c(1)] assms(2), of va] c(3) obtain bs s2
    where r: "copyin kend psz root root va (length src) s1 = Inr (0, bs, s2)" "length bs = length src"
    "bs = map (\<lambda>i. ubyte (mem s1) root (va + of_nat i)) [0..<length bs]" "ubyte (mem s2) root = ubyte (mem s1) root" by auto
  have "ubyte (mem s1) root (va + of_nat i) = src ! i" if "i < length src" for i
    using that assms(2) by (simp add: c(2) write_at_def unat_of_nat64)
  then have "bs ! i = src ! i" if "i < length src" for i using that r(2) by (subst r(3)) simp
  then have "bs = src" using r(2) by (intro nth_equalityI) auto
  then show ?thesis using r(1,4) by blast
qed

text \<open>C24. \<^verbatim>\<open>copyinstr\<close> returns 0 exactly when a null-terminated string of fewer than \<^verbatim>\<open>max\<close> characters lies
  at \<^verbatim>\<open>srcva\<close> in pages the process may access, and then stores that string with its
  terminator; in every other case it returns -1. It always returns and changes nothing.\<close>

theorem copyinstr_correct:
  assumes "user_inv kend lim psz s root xs"
  shows "\<exists>r bs. copyinstr root srcva mx s = Inr (r, bs)
    \<and> (r = 0 \<longleftrightarrow> (\<exists>n < mx. ustring (mem s) root srcva n)) \<and> (r = 0 \<or> r = -1)
    \<and> (r = 0 \<longrightarrow> (\<exists>n < mx. ustring (mem s) root srcva n \<and> bs = ubytes (mem s) root srcva n @ [0]))"
  using copyinstr_spec [OF assms, of srcva mx] by fastforce

lemma demo_user_inv:
  fixes s :: "'a kmem_scheme"
  obtains s0 root s1 xs where "kinit demo_kend s = Inr s0" "uvmcreate s0 = (root, s1)"
    "user_inv demo_kend 0x100000 0x5000 s1 root xs" "amap (mem s1) root = (\<lambda>_. 0)" "3 \<le> length xs"
proof -
  from demo_pages(1,3) obtain s0 root s1 xs where b: "kinit demo_kend s = Inr s0" "uvmcreate s0 = (root, s1)"
    "pt_inv demo_kend s1 root xs" "amap (mem s1) root = (\<lambda>_. 0)"
    "insert root (set xs) = Collect (valid_kalloc_ptr demo_kend)" "distinct xs" "root \<notin> set xs"
    by (rule boot_pagetable)
  have "as_inv demo_kend 0x100000 s1 root xs" by (rule as_inv_empty(1) [OF b(3,4) demo_pages(4)])
  then have u: "user_inv demo_kend 0x100000 0x5000 s1 root xs" using b(4) by (simp add: user_inv_def user_ok_def)
  have "{0x80022000, 0x80023000, 0x80024000, 0x80025000} \<subseteq> insert root (set xs)"
    unfolding b(5) by (simp add: demo_kend_def valid_kalloc_ptr_def PHYSTOP_def)
  then have "card {0x80022000, 0x80023000, 0x80024000, 0x80025000 :: u64} \<le> card (insert root (set xs))"
    by (intro card_mono) simp_all
  then have "3 \<le> length xs" using b(6,7) distinct_card [OF b(6)] by simp
  with b(1,2) u b(4) show thesis by (rule that)
qed

theorem copyout_refines_witness:
  "\<exists>s0 root s1 xs r s' ys k. kinit demo_kend demo_kmem = Inr s0 \<and> uvmcreate s0 = (root, s1)
    \<and> copyout demo_kend 0x5000 root root 0xffe [1, 2, 3, 4] s1 = Inr (r, s')
    \<and> (r = 0 \<and> k = 4 \<or> r = -1 \<and> k < 4)
    \<and> ubyte (mem s') root = write_at 0xffe (take k [1, 2, 3, 4]) (ubyte (mem s1) root)
    \<and> user_inv demo_kend 0x100000 0x5000 s' root ys"
proof -
  obtain s0 root s1 xs where b: "kinit demo_kend demo_kmem = Inr s0" "uvmcreate s0 = (root, s1)"
    "user_inv demo_kend 0x100000 0x5000 s1 root xs" by (rule demo_user_inv)
  have l: "length [1, 2, 3, 4 :: u8] < 2 ^ 64" and l4: "length [1, 2, 3, 4 :: u8] = 4" by simp_all
  show ?thesis using copyout_refines [OF b(3) l, of "0xffe", unfolded l4] b(1,2) by blast
qed

theorem copyinstr_correct_witness:
  "\<exists>s0 root s1 xs r bs. kinit demo_kend demo_kmem = Inr s0 \<and> uvmcreate s0 = (root, s1)
    \<and> copyinstr root 0x1000 128 s1 = Inr (r, bs) \<and> (r = 0 \<longleftrightarrow> (\<exists>n < 128. ustring (mem s1) root 0x1000 n))"
proof -
  obtain s0 root s1 xs where b: "kinit demo_kend demo_kmem = Inr s0" "uvmcreate s0 = (root, s1)"
    "user_inv demo_kend 0x100000 0x5000 s1 root xs" by (rule demo_user_inv)
  show ?thesis using copyinstr_correct [OF b(3), of "0x1000" 128] b(1,2) by blast
qed

theorem copyout_copyin_roundtrip_witness:
  "\<exists>s0 root s1 s2 s3. kinit demo_kend demo_kmem = Inr s0 \<and> uvmcreate s0 = (root, s1)
    \<and> copyout demo_kend 0x5000 root root 0x1ff0 [1, 2, 3, 4] s1 = Inr (0, s2)
    \<and> copyin demo_kend 0x5000 root root 0x1ff0 4 s2 = Inr (0, [1, 2, 3, 4], s3)"
proof -
  obtain s0 root s1 xs where b: "kinit demo_kend demo_kmem = Inr s0" "uvmcreate s0 = (root, s1)"
    "user_inv demo_kend 0x100000 0x5000 s1 root xs" "amap (mem s1) root = (\<lambda>_. 0)" "3 \<le> length xs" by (rule demo_user_inv)
  have pg: "PGROUNDDOWN 0x1ff0 = 0x1000" by (simp add: PGROUNDDOWN_def)
  have "\<exists>s2. copyout demo_kend 0x5000 root root 0x1ff0 [1, 2, 3, 4] s1 = Inr (0, s2)"
    using b(3) _ _ _ _ b(5) by (rule copyout_lazy_ok) (use b(4) in \<open>simp_all add: pg mapped_def\<close>)
  then obtain s2 where c: "copyout demo_kend 0x5000 root root 0x1ff0 [1, 2, 3, 4] s1 = Inr (0, s2)" ..
  have l: "length [1, 2, 3, 4 :: u8] < 2 ^ 64" and l4: "length [1, 2, 3, 4 :: u8] = 4" by simp_all
  from copyout_copyin_roundtrip [OF b(3) l c, unfolded l4] b(1,2) c show ?thesis by blast
qed

end
