(* ===== verification/Kstate.thy ===== *)
theory Kstate
  imports Log Ucopy
begin

text \<open>
  The tables of the kernel above the log: in-memory inodes and the super block (\<^verbatim>\<open>fs.c\<close>), open files
  and device switch (\<^verbatim>\<open>file.c\<close>), pipes (\<^verbatim>\<open>pipe.c\<close>), the console input buffer (\<^verbatim>\<open>console.c\<close>), the
  transmitter state of the serial line (\<^verbatim>\<open>uart.c\<close>) and processes (\<^verbatim>\<open>proc.c\<close>), in one record that
  extends the state of the log. A pointer into a table is the index of the entry, a null
  pointer is \<open>None\<close>; a page used as \<^verbatim>\<open>struct pipe\<close> is an entry of \<open>pipes\<close> at the address that
  \<^verbatim>\<open>kalloc\<close> returned. Then the operations of \<^verbatim>\<open>proc.c\<close> the other components call: \<^verbatim>\<open>wakeup\<close>,
  \<^verbatim>\<open>sleep\<close> up to the switch to the scheduler, and the copies between kernel and user space.
\<close>

section \<open>State\<close>

abbreviation NINODE :: nat where "NINODE \<equiv> 50"
abbreviation NFILE :: nat where "NFILE \<equiv> 100"
abbreviation NPROC :: nat where "NPROC \<equiv> 64"
abbreviation NOFILE :: nat where "NOFILE \<equiv> 16"
abbreviation NDEV :: nat where "NDEV \<equiv> 10"
abbreviation ROOTDEV :: u32 where "ROOTDEV \<equiv> 1"
abbreviation ROOTINO :: u32 where "ROOTINO \<equiv> 1"
abbreviation NDIRECT :: nat where "NDIRECT \<equiv> 12"
abbreviation NINDIRECT :: nat where "NINDIRECT \<equiv> 256"
abbreviation MAXFILE :: nat where "MAXFILE \<equiv> 268"
abbreviation DIRSIZ :: nat where "DIRSIZ \<equiv> 14"
abbreviation T_DIR :: u16 where "T_DIR \<equiv> 1"
abbreviation T_FILE :: u16 where "T_FILE \<equiv> 2"
abbreviation T_DEVICE :: u16 where "T_DEVICE \<equiv> 3"

record superblock =
  sb_magic :: u32
  sb_size :: u32
  sb_nblocks :: u32
  sb_ninodes :: u32
  sb_nlog :: u32
  sb_logstart :: u32
  sb_inodestart :: u32
  sb_bmapstart :: u32

record inode =
  i_dev :: u32
  i_inum :: u32
  i_ref :: int
  i_lock :: sleeplock
  i_valid :: bool
  i_type :: u16
  i_major :: u16
  i_minor :: u16
  i_nlink :: u16
  i_size :: u32
  i_addrs :: "u32 list"

datatype file_type = FD_NONE | FD_PIPE | FD_INODE | FD_DEVICE

record ofile =
  f_type :: file_type
  f_ref :: int
  f_readable :: bool
  f_writable :: bool
  f_pipe :: u64
  f_ip :: "nat option"
  f_off :: u32
  f_major :: u16

datatype devfn = ConsoleDev

record pipe =
  pi_data :: "u8 list"
  pi_nread :: u32
  pi_nwrite :: u32
  pi_readopen :: bool
  pi_writeopen :: bool

record cons =
  cons_buf :: "u8 list"
  cons_r :: u32
  cons_w :: u32
  cons_e :: u32

datatype procstate = UNUSED | USED | SLEEPING | RUNNABLE | RUNNING | ZOMBIE

text \<open>Sleep channels are addresses of kernel objects; one constructor for each object that is used.\<close>

datatype chan = PipeRead u64 | PipeWrite u64 | ConsRead | TxChan | ProcChan nat | Ticks | DiskFree | DiskBuf nat

record kcontext =
  c_ra :: u64
  c_sp :: u64

record proc =
  p_state :: procstate
  p_chan :: "chan option"
  p_killed :: bool
  p_xstate :: u32
  p_pid :: u32
  p_parent :: "nat option"
  p_kstack :: u64
  p_sz :: u64
  p_pagetable :: u64
  p_trapframe :: u64
  p_context :: kcontext
  p_ofile :: "nat option list"
  p_cwd :: "nat option"
  p_name :: "u8 list"

text \<open>The statistics that \<^verbatim>\<open>sysfile.c\<close>, \<^verbatim>\<open>sysproc.c\<close>, \<^verbatim>\<open>syscall.c\<close>, \<^verbatim>\<open>trap.c\<close> and \<^verbatim>\<open>exec.c\<close> keep, and the two static
  variables of \<^verbatim>\<open>sys_fork\<close>.\<close>

record file_stats =
  open_count :: u64
  close_count :: u64
  read_count :: u64
  write_count :: u64
  link_count :: u64
  unlink_count :: u64
  mkdir_count :: u64
  failed_ops :: u64

record proc_stats =
  exit_count :: u64
  getpid_count :: u64
  fork_count :: u64
  wait_count :: u64
  sbrk_count :: u64
  pause_count :: u64
  kill_count :: u64
  uptime_count :: u64
  failed_operations :: u64

record syscall_stats =
  syscall_count :: "u64 list"
  total_calls :: u64
  failed_calls :: u64

record trap_stats =
  trap_syscall_count :: u64
  pagefault_count :: u64
  interrupt_count :: u64
  exception_count :: u64
  unknown_trap_count :: u64

record exec_stats =
  total_execs :: u64
  failed_execs :: u64
  security_violations :: u64

record kstats =
  file_stats_of :: file_stats
  proc_stats_of :: proc_stats
  syscall_stats_of :: syscall_stats
  trap_stats_of :: trap_stats
  exec_stats_of :: exec_stats
  recent_forks :: u32
  last_fork_time :: u64

record kernel = log_state +
  sb :: superblock
  itable :: "nat \<Rightarrow> inode"
  ftable :: "nat \<Rightarrow> ofile"
  devsw_read :: "nat \<Rightarrow> devfn option"
  devsw_write :: "nat \<Rightarrow> devfn option"
  pipes :: "u64 \<Rightarrow> pipe"
  consb :: cons
  tx_busy :: bool
  uart_out :: "u8 list"
  procs :: "nat \<Rightarrow> proc"
  me :: "nat option"
  nextpid :: u32
  initproc :: "nat option"
  ticks :: u32
  stats :: kstats

definition upd_inode :: "nat \<Rightarrow> (inode \<Rightarrow> inode) \<Rightarrow> kernel \<Rightarrow> kernel" where
  "upd_inode i f s = s\<lparr>itable := (itable s)(i := f (itable s i))\<rparr>"

definition upd_file :: "nat \<Rightarrow> (ofile \<Rightarrow> ofile) \<Rightarrow> kernel \<Rightarrow> kernel" where
  "upd_file i f s = s\<lparr>ftable := (ftable s)(i := f (ftable s i))\<rparr>"

definition upd_pipe :: "u64 \<Rightarrow> (pipe \<Rightarrow> pipe) \<Rightarrow> kernel \<Rightarrow> kernel" where
  "upd_pipe a f s = s\<lparr>pipes := (pipes s)(a := f (pipes s a))\<rparr>"

definition upd_proc :: "nat \<Rightarrow> (proc \<Rightarrow> proc) \<Rightarrow> kernel \<Rightarrow> kernel" where
  "upd_proc i f s = s\<lparr>procs := (procs s)(i := f (procs s i))\<rparr>"

definition upd_kstats :: "(kstats \<Rightarrow> kstats) \<Rightarrow> kernel \<Rightarrow> kernel" where
  "upd_kstats f s = s\<lparr>stats := f (stats s)\<rparr>"

section \<open>Operations shared by the components\<close>

text \<open>\<^verbatim>\<open>myproc()\<close>, dereferenced.\<close>

definition myproc :: "kernel \<Rightarrow> proc res" where
  "myproc s = (case me s of None \<Rightarrow> Inl Undef | Some i \<Rightarrow> Inr (procs s i))"

text \<open>A call that may sleep runs up to its return or to the next \<^verbatim>\<open>sleep\<close>; the number of bytes it has
  handled and the bytes waiting in a local buffer are what it continues with when it runs again.\<close>

datatype 'a outcome = Ret 'a | Sleep nat "u8 list"

text \<open>\<^verbatim>\<open>sched\<close> gives the processor back to the scheduler. Its checks that the caller holds exactly its
  own lock with interrupts off are about the locks of \<^verbatim>\<open>Locks\<close>.\<close>

definition sched :: "kernel \<Rightarrow> kernel res" where
  "sched s =
     rbind (myproc s) (\<lambda>p. if p_state p = RUNNING then Inl (Panic ''sched RUNNING'') else Inr (s\<lparr>me := None\<rparr>))"

text \<open>\<^verbatim>\<open>sleep\<close> up to the switch; \<^verbatim>\<open>p->chan = 0\<close> when the process runs again is part of \<open>run_proc\<close>.\<close>

definition sleep :: "chan \<Rightarrow> kernel \<Rightarrow> kernel res" where
  "sleep ch s =
     (case me s of None \<Rightarrow> Inl Undef
      | Some i \<Rightarrow> sched (upd_proc i (\<lambda>p. p\<lparr>p_chan := Some ch, p_state := SLEEPING\<rparr>) s))"

definition wakeup :: "chan \<Rightarrow> kernel \<Rightarrow> kernel" where
  "wakeup ch s =
     fold (\<lambda>i s. if me s \<noteq> Some i \<and> p_state (procs s i) = SLEEPING \<and> p_chan (procs s i) = Some ch
                 then upd_proc i (\<lambda>p. p\<lparr>p_state := RUNNABLE\<rparr>) s else s) [0..<NPROC] s"

definition killed :: "proc \<Rightarrow> bool" where
  "killed p = p_killed p"

text \<open>The other side of a copy: a user address of the running process, a kernel address, or a
  variable of the caller, whose bytes are passed or returned.\<close>

datatype place = Uva u64 | Kva u64 | Var "u8 list"

fun advance :: "u32 \<Rightarrow> place \<Rightarrow> place" where
  "advance m (Uva a) = Uva (a + ucast m)"
| "advance m (Kva a) = Kva (a + ucast m)"
| "advance m (Var bs) = Var (drop (unat m) bs)"

fun either_copyout :: "u64 \<Rightarrow> place \<Rightarrow> u8 list \<Rightarrow> kernel \<Rightarrow> (int \<times> u8 list \<times> kernel) res" where
  "either_copyout kend (Uva dst) src s =
     rbind (myproc s) (\<lambda>p.
     rbind (copyout kend (p_sz p) (p_pagetable p) (p_pagetable p) dst src s) (\<lambda>(r, s1). Inr (r, [], s1)))"
| "either_copyout kend (Kva dst) src s = Inr (0, [], memmove_from_buf dst src s)"
| "either_copyout kend (Var _) src s = Inr (0, src, s)"

fun either_copyin :: "u64 \<Rightarrow> place \<Rightarrow> nat \<Rightarrow> kernel \<Rightarrow> (int \<times> u8 list \<times> kernel) res" where
  "either_copyin kend (Uva src) len s =
     rbind (myproc s) (\<lambda>p. copyin kend (p_sz p) (p_pagetable p) (p_pagetable p) src len s)"
| "either_copyin kend (Kva src) len s = (case memmove_to_buf src len s of (bs, s1) \<Rightarrow> Inr (0, bs, s1))"
| "either_copyin kend (Var bs) len s = Inr (0, take len bs, s)"

end
