(* ===== verification/Fs.thy ===== *)
theory Fs
  imports Kstate
begin

text \<open>
  The file system operations, \<^verbatim>\<open>src/kernel/fs.c\<close>: block allocator, inodes, file contents,
  directories and path names, each a definition of the same name over the state of \<^verbatim>\<open>Kstate\<close>.
  A section under \<^verbatim>\<open>itable.lock\<close> is one step, an inode whose sleep lock is taken is the outcome
  \<open>Blocked\<close>. Disk blocks and the structures inside them (\<^verbatim>\<open>superblock\<close>, \<^verbatim>\<open>dinode\<close>, \<^verbatim>\<open>dirent\<close>) are
  byte lists read and written field by field. \<^verbatim>\<open>path\<close> is the bytes of the C string before its
  NUL, and \<^verbatim>\<open>name\<close> a buffer of \<^verbatim>\<open>DIRSIZ\<close> bytes. The properties are in the theories that follow.
\<close>

section \<open>Super block and block allocator\<close>

abbreviation BPB :: nat where "BPB \<equiv> 8192"
abbreviation IPB :: nat where "IPB \<equiv> 16"

definition read_superblock :: "u8 list \<Rightarrow> superblock" where
  "read_superblock bs = \<lparr>sb_magic = get_field 4 0 bs, sb_size = get_field 4 4 bs, sb_nblocks = get_field 4 8 bs,
     sb_ninodes = get_field 4 12 bs, sb_nlog = get_field 4 16 bs, sb_logstart = get_field 4 20 bs,
     sb_inodestart = get_field 4 24 bs, sb_bmapstart = get_field 4 28 bs\<rparr>"

definition readsb :: "u32 \<Rightarrow> kernel \<Rightarrow> (superblock \<times> kernel) res" where
  "readsb dev s =
     rbind (bread dev 1 s) (\<lambda>(bp, s1). rbind (brelse bp s1) (\<lambda>s2. Inr (read_superblock (get_data bp s1), s2)))"

definition IBLOCK :: "u32 \<Rightarrow> superblock \<Rightarrow> u32" where
  "IBLOCK i b = i div 16 + sb_inodestart b"

definition BBLOCK :: "u32 \<Rightarrow> superblock \<Rightarrow> u32" where
  "BBLOCK i b = i div 8192 + sb_bmapstart b"

definition bzero :: "u32 \<Rightarrow> u32 \<Rightarrow> kernel \<Rightarrow> kernel res" where
  "bzero dev bno s =
     rbind (bread dev bno s) (\<lambda>(bp, s1).
     rbind (log_write bp (set_data bp (replicate BSIZE 0) s1)) (brelse bp))"

text \<open>The bit of the block \<open>bi\<close> in a bitmap block: \<^verbatim>\<open>data[bi/8]\<close> and the mask \<^verbatim>\<open>1 << (bi % 8)\<close>.\<close>

definition bit_mask :: "nat \<Rightarrow> u8" where
  "bit_mask bi = push_bit (bi mod 8) 1"

definition bit_free :: "u8 list \<Rightarrow> nat \<Rightarrow> bool" where
  "bit_free bs bi \<longleftrightarrow> and (bs ! (bi div 8)) (bit_mask bi) = 0"

definition bit_mark :: "nat \<Rightarrow> u8 list \<Rightarrow> u8 list" where
  "bit_mark bi bs = bs[bi div 8 := or (bs ! (bi div 8)) (bit_mask bi)]"

definition bit_clear :: "nat \<Rightarrow> u8 list \<Rightarrow> u8 list" where
  "bit_clear bi bs = bs[bi div 8 := and (bs ! (bi div 8)) (not (bit_mask bi))]"

text \<open>The outer loop of \<^verbatim>\<open>balloc\<close> from \<^verbatim>\<open>b\<close>; \<^verbatim>\<open>b += BPB\<close> past the range of \<^verbatim>\<open>int\<close> is undefined.\<close>

function balloc_loop :: "u32 \<Rightarrow> nat \<Rightarrow> kernel \<Rightarrow> (u32 \<times> kernel) res" where
  "balloc_loop dev b s =
     (if \<not> b < unat (sb_size (sb s)) then Inr (0, s)
      else rbind (bread dev (BBLOCK (of_nat b) (sb s)) s) (\<lambda>(bp, s1).
           case find (bit_free (get_data bp s1)) [0..<min BPB (unat (sb_size (sb s)) - b)] of
             Some bi \<Rightarrow>
               rbind (log_write bp (set_data bp (bit_mark bi (get_data bp s1)) s1)) (\<lambda>s2.
               rbind (brelse bp s2) (\<lambda>s3.
               rbind (bzero dev (of_nat (b + bi)) s3) (\<lambda>s4. Inr (of_nat (b + bi), s4))))
           | None \<Rightarrow>
               rbind (brelse bp s1) (\<lambda>s2.
               if 2 ^ 31 \<le> b + BPB then Inl Undef else balloc_loop dev (b + BPB) s2)))"
  by pat_completeness auto
termination
  by (relation "measure (\<lambda>(dev, b, s). 2 ^ 31 - b)") auto

declare balloc_loop.simps [simp del]

definition balloc :: "u32 \<Rightarrow> kernel \<Rightarrow> (u32 \<times> kernel) res" where
  "balloc dev s = balloc_loop dev 0 s"

definition bfree :: "u32 \<Rightarrow> u32 \<Rightarrow> kernel \<Rightarrow> kernel res" where
  "bfree dev b s =
     rbind (bread dev (BBLOCK b (sb s)) s) (\<lambda>(bp, s1).
     let bi = unat b mod BPB
     in if bit_free (get_data bp s1) bi then Inl (Panic ''freeing free block'')
        else rbind (log_write bp (set_data bp (bit_clear bi (get_data bp s1)) s1)) (brelse bp))"

section \<open>Inodes\<close>

definition iinit :: "kernel \<Rightarrow> kernel" where
  "iinit s = fold (\<lambda>i. upd_inode i (\<lambda>I. I\<lparr>i_lock := initsleeplock\<rparr>)) [0..<NINODE] s"

text \<open>\<^verbatim>\<open>struct dinode\<close> at byte \<open>64 * (inum % IPB)\<close> of its block.\<close>

definition dinode_off :: "u32 \<Rightarrow> nat" where
  "dinode_off inum = 64 * (unat inum mod IPB)"

definition load_dinode :: "nat \<Rightarrow> u8 list \<Rightarrow> inode \<Rightarrow> inode" where
  "load_dinode off bs I = I\<lparr>i_type := get_field 2 off bs, i_major := get_field 2 (off + 2) bs,
     i_minor := get_field 2 (off + 4) bs, i_nlink := get_field 2 (off + 6) bs, i_size := get_field 4 (off + 8) bs,
     i_addrs := map (\<lambda>i. get_field 4 (off + 12 + 4 * i) bs) [0..<NDIRECT + 1]\<rparr>"

definition store_dinode :: "nat \<Rightarrow> inode \<Rightarrow> u8 list \<Rightarrow> u8 list" where
  "store_dinode off I bs =
     put_bytes (off + 12) (concat (map (le_bytes 4) (i_addrs I)))
       (put_field 4 (off + 8) (i_size I) (put_field 2 (off + 6) (i_nlink I)
         (put_field 2 (off + 4) (i_minor I) (put_field 2 (off + 2) (i_major I) (put_field 2 off (i_type I) bs)))))"

definition iget :: "u32 \<Rightarrow> u32 \<Rightarrow> kernel \<Rightarrow> (nat \<times> kernel) res" where
  "iget dev inum s =
     (case find (\<lambda>i. 0 < i_ref (itable s i) \<and> i_dev (itable s i) = dev \<and> i_inum (itable s i) = inum) [0..<NINODE] of
        Some i \<Rightarrow> Inr (i, upd_inode i (\<lambda>I. I\<lparr>i_ref := i_ref I + 1\<rparr>) s)
      | None \<Rightarrow>
         (case find (\<lambda>i. i_ref (itable s i) = 0) [0..<NINODE] of
            None \<Rightarrow> Inl (Panic ''iget: no inodes'')
          | Some i \<Rightarrow> Inr (i, upd_inode i (\<lambda>I. I\<lparr>i_dev := dev, i_inum := inum, i_ref := 1, i_valid := False\<rparr>) s)))"

text \<open>The loop of \<^verbatim>\<open>ialloc\<close> from \<^verbatim>\<open>inum\<close>.\<close>

function ialloc_loop :: "u32 \<Rightarrow> u16 \<Rightarrow> nat \<Rightarrow> nat \<Rightarrow> kernel \<Rightarrow> (nat option \<times> kernel) res" where
  "ialloc_loop dev ty ninodes inum s =
     (if \<not> inum < ninodes then Inr (None, s)
      else rbind (bread dev (IBLOCK (of_nat inum) (sb s)) s) (\<lambda>(bp, s1).
           let off = dinode_off (of_nat inum); bs = get_data bp s1
           in if (get_field 2 off bs :: u16) = 0
              then rbind (log_write bp (set_data bp (put_field 2 off ty (put_bytes off (replicate 64 0) bs)) s1)) (\<lambda>s2.
                   rbind (brelse bp s2) (\<lambda>s3. rbind (iget dev (of_nat inum) s3) (\<lambda>(ip, s4). Inr (Some ip, s4))))
              else rbind (brelse bp s1) (ialloc_loop dev ty ninodes (inum + 1))))"
  by pat_completeness auto
termination
  by (relation "measure (\<lambda>(dev, ty, ninodes, inum, s). ninodes - inum)") auto

declare ialloc_loop.simps [simp del]

definition ialloc :: "u32 \<Rightarrow> u16 \<Rightarrow> kernel \<Rightarrow> (nat option \<times> kernel) res" where
  "ialloc dev ty s = ialloc_loop dev ty (unat (sb_ninodes (sb s))) 1 s"

definition iupdate :: "nat \<Rightarrow> kernel \<Rightarrow> kernel res" where
  "iupdate ip s =
     rbind (bread (i_dev (itable s ip)) (IBLOCK (i_inum (itable s ip)) (sb s)) s) (\<lambda>(bp, s1).
     rbind (log_write bp (set_data bp (store_dinode (dinode_off (i_inum (itable s ip))) (itable s ip) (get_data bp s1)) s1))
       (brelse bp))"

definition idup :: "nat \<Rightarrow> kernel \<Rightarrow> nat \<times> kernel" where
  "idup ip s = (ip, upd_inode ip (\<lambda>I. I\<lparr>i_ref := i_ref I + 1\<rparr>) s)"

definition ilock :: "nat option \<Rightarrow> kernel \<Rightarrow> kernel res" where
  "ilock ipp s =
     (case ipp of None \<Rightarrow> Inl (Panic ''ilock'')
      | Some ip \<Rightarrow>
         if i_ref (itable s ip) < 1 then Inl (Panic ''ilock'')
         else rbind (acquiresleep (cur_pid s) (i_lock (itable s ip))) (\<lambda>l.
              let s1 = upd_inode ip (\<lambda>I. I\<lparr>i_lock := l\<rparr>) s
              in if i_valid (itable s1 ip) then Inr s1
                 else rbind (bread (i_dev (itable s1 ip)) (IBLOCK (i_inum (itable s1 ip)) (sb s1)) s1) (\<lambda>(bp, s2).
                      let s3 = upd_inode ip (load_dinode (dinode_off (i_inum (itable s2 ip))) (get_data bp s2)) s2
                      in rbind (brelse bp s3) (\<lambda>s4.
                         let s5 = upd_inode ip (\<lambda>I. I\<lparr>i_valid := True\<rparr>) s4
                         in if i_type (itable s5 ip) = 0 then Inl (Panic ''ilock: no type'') else Inr s5))))"

definition iunlock :: "nat option \<Rightarrow> kernel \<Rightarrow> kernel res" where
  "iunlock ipp s =
     (case ipp of None \<Rightarrow> Inl (Panic ''iunlock'')
      | Some ip \<Rightarrow>
         if \<not> holdingsleep (cur_pid s) (i_lock (itable s ip)) \<or> i_ref (itable s ip) < 1 then Inl (Panic ''iunlock'')
         else Inr (upd_inode ip (\<lambda>I. I\<lparr>i_lock := releasesleep (i_lock I)\<rparr>) s))"

section \<open>Inode content\<close>

definition bmap_slot :: "nat \<Rightarrow> nat \<Rightarrow> kernel \<Rightarrow> (u32 \<times> kernel) res" where
  "bmap_slot ip i s =
     (if i_addrs (itable s ip) ! i = 0
      then rbind (balloc (i_dev (itable s ip)) s) (\<lambda>(addr, s1).
           if addr = 0 then Inr (0, s1)
           else Inr (addr, upd_inode ip (\<lambda>I. I\<lparr>i_addrs := (i_addrs I)[i := addr]\<rparr>) s1))
      else Inr (i_addrs (itable s ip) ! i, s))"

definition bmap :: "nat \<Rightarrow> u32 \<Rightarrow> kernel \<Rightarrow> (u32 \<times> kernel) res" where
  "bmap ip bn s =
     (if unat bn < NDIRECT then bmap_slot ip (unat bn) s
      else let j = unat bn - NDIRECT
      in if j < NINDIRECT
         then rbind (bmap_slot ip NDIRECT s) (\<lambda>(ind, s1).
              if ind = 0 then Inr (0, s1)
              else rbind (bread (i_dev (itable s1 ip)) ind s1) (\<lambda>(bp, s2).
                   rbind (let addr = get_field 4 (4 * j) (get_data bp s2)
                          in if addr = 0
                             then rbind (balloc (i_dev (itable s2 ip)) s2) (\<lambda>(new, s3).
                                  if new = 0 then Inr (new, s3)
                                  else rbind (log_write bp (set_data bp (put_field 4 (4 * j) new (get_data bp s3)) s3))
                                         (\<lambda>s4. Inr (new, s4)))
                             else Inr (addr, s2)) (\<lambda>(addr, s5).
                   rbind (brelse bp s5) (\<lambda>s6. Inr (addr, s6)))))
         else Inl (Panic ''bmap: out of range''))"

definition itrunc_direct :: "nat \<Rightarrow> nat \<Rightarrow> kernel \<Rightarrow> kernel res" where
  "itrunc_direct ip i s =
     (if i_addrs (itable s ip) ! i \<noteq> 0
      then rbind (bfree (i_dev (itable s ip)) (i_addrs (itable s ip) ! i) s) (\<lambda>s1.
           Inr (upd_inode ip (\<lambda>I. I\<lparr>i_addrs := (i_addrs I)[i := 0]\<rparr>) s1))
      else Inr s)"

definition itrunc_entry :: "nat \<Rightarrow> nat \<Rightarrow> nat \<Rightarrow> kernel \<Rightarrow> kernel res" where
  "itrunc_entry ip bp j s =
     (let a = get_field 4 (4 * j) (get_data bp s) in if a \<noteq> 0 then bfree (i_dev (itable s ip)) a s else Inr s)"

definition itrunc :: "nat \<Rightarrow> kernel \<Rightarrow> kernel res" where
  "itrunc ip s =
     rbind (rfold (itrunc_direct ip) [0..<NDIRECT] s) (\<lambda>s1.
     rbind (if i_addrs (itable s1 ip) ! NDIRECT \<noteq> 0
            then rbind (bread (i_dev (itable s1 ip)) (i_addrs (itable s1 ip) ! NDIRECT) s1) (\<lambda>(bp, s2).
                 rbind (rfold (itrunc_entry ip bp) [0..<NINDIRECT] s2) (\<lambda>s3.
                 rbind (brelse bp s3) (\<lambda>s4.
                 rbind (bfree (i_dev (itable s4 ip)) (i_addrs (itable s4 ip) ! NDIRECT) s4) (\<lambda>s5.
                 Inr (upd_inode ip (\<lambda>I. I\<lparr>i_addrs := (i_addrs I)[NDIRECT := 0]\<rparr>) s5)))))
            else Inr s1) (\<lambda>s6.
     iupdate ip (upd_inode ip (\<lambda>I. I\<lparr>i_size := 0\<rparr>) s6)))"

definition iput :: "nat \<Rightarrow> kernel \<Rightarrow> kernel res" where
  "iput ip s =
     rbind (if i_ref (itable s ip) = 1 \<and> i_valid (itable s ip) \<and> i_nlink (itable s ip) = 0
            then rbind (acquiresleep (cur_pid s) (i_lock (itable s ip))) (\<lambda>l.
                 rbind (itrunc ip (upd_inode ip (\<lambda>I. I\<lparr>i_lock := l\<rparr>) s)) (\<lambda>s1.
                 rbind (iupdate ip (upd_inode ip (\<lambda>I. I\<lparr>i_type := 0\<rparr>) s1)) (\<lambda>s2.
                 Inr (upd_inode ip (\<lambda>I. I\<lparr>i_valid := False, i_lock := releasesleep (i_lock I)\<rparr>) s2))))
            else Inr s) (\<lambda>s3.
     Inr (upd_inode ip (\<lambda>I. I\<lparr>i_ref := i_ref I - 1\<rparr>) s3))"

definition iunlockput :: "nat \<Rightarrow> kernel \<Rightarrow> kernel res" where
  "iunlockput ip s = rbind (iunlock (Some ip) s) (iput ip)"

definition ireclaim_one :: "u32 \<Rightarrow> nat \<Rightarrow> kernel \<Rightarrow> kernel res" where
  "ireclaim_one dev inum s =
     rbind (bread dev (IBLOCK (of_nat inum) (sb s)) s) (\<lambda>(bp, s1).
     let off = dinode_off (of_nat inum); bs = get_data bp s1
     in rbind (if (get_field 2 off bs :: u16) \<noteq> 0 \<and> (get_field 2 (off + 6) bs :: u16) = 0
               then rbind (iget dev (of_nat inum) s1) (\<lambda>(ip, s2). Inr (Some ip, s2))
               else Inr (None, s1)) (\<lambda>(ipp, s3).
        rbind (brelse bp s3) (\<lambda>s4.
        case ipp of None \<Rightarrow> Inr s4
        | Some ip \<Rightarrow>
            rbind (begin_op s4) (\<lambda>s5. rbind (ilock (Some ip) s5) (\<lambda>s6. rbind (iunlock (Some ip) s6) (\<lambda>s7.
            rbind (iput ip s7) end_op))))))"

definition ireclaim :: "u32 \<Rightarrow> kernel \<Rightarrow> kernel res" where
  "ireclaim dev s = rfold (ireclaim_one dev) [1..<unat (sb_ninodes (sb s))] s"

definition fsinit :: "u32 \<Rightarrow> kernel \<Rightarrow> kernel res" where
  "fsinit dev s =
     rbind (readsb dev s) (\<lambda>(b, s1).
     let s2 = s1\<lparr>sb := b\<rparr>
     in if sb_magic (sb s2) \<noteq> 0x10203040 then Inl (Panic ''invalid file system'')
        else rbind (initlog dev (sb_logstart (sb s2)) s2) (ireclaim dev))"

record stat =
  st_dev :: u32
  st_ino :: u32
  st_type :: u16
  st_nlink :: u16
  st_size :: u64

definition stati :: "nat \<Rightarrow> kernel \<Rightarrow> stat" where
  "stati ip s = (let I = itable s ip in \<lparr>st_dev = i_dev I, st_ino = i_inum I, st_type = i_type I,
     st_nlink = i_nlink I, st_size = ucast (i_size I)\<rparr>)"

text \<open>The loops of \<^verbatim>\<open>readi\<close> and \<^verbatim>\<open>writei\<close> from \<^verbatim>\<open>tot\<close>. The chunk \<^verbatim>\<open>min(n - tot, BSIZE - off % BSIZE)\<close> is
  never empty, so both end.\<close>

definition chunk :: "u32 \<Rightarrow> u32 \<Rightarrow> u32 \<Rightarrow> u32" where
  "chunk off n tot = min (n - tot) (1024 - off mod 1024)"

lemma chunk_bounds:
  assumes "tot < n"
  shows "unat (chunk off n tot) = min (unat n - unat tot) (1024 - unat off mod 1024)"
    and "0 < unat (chunk off n tot)" and "unat (tot + chunk off n tot) = unat tot + unat (chunk off n tot)"
    and "unat tot + unat (chunk off n tot) \<le> unat n"
proof -
  have m: "unat (off mod 1024) = unat off mod 1024" by (simp add: unat_mod)
  have lt: "unat off mod 1024 < 1024" by simp
  have a: "unat (n - tot) = unat n - unat tot" using assms by (simp add: unat_sub word_less_nat_alt word_le_nat_alt)
  have b: "unat (1024 - off mod 1024) = 1024 - unat off mod 1024"
    using lt m by (simp add: unat_sub word_le_nat_alt)
  show u: "unat (chunk off n tot) = min (unat n - unat tot) (1024 - unat off mod 1024)"
    unfolding chunk_def min_def word_le_nat_alt a b by (simp add: a b)
  show "0 < unat (chunk off n tot)" using assms lt by (simp add: u word_less_nat_alt)
  show le: "unat tot + unat (chunk off n tot) \<le> unat n" using assms by (simp add: u word_less_nat_alt)
  show "unat (tot + chunk off n tot) = unat tot + unat (chunk off n tot)"
    using le unat32_less [of n] by (simp add: unat_word_ariths)
qed

function readi_loop :: "u64 \<Rightarrow> nat \<Rightarrow> place \<Rightarrow> u32 \<Rightarrow> u32 \<Rightarrow> u32 \<Rightarrow> kernel \<Rightarrow> (u32 \<times> u8 list \<times> kernel) res" where
  "readi_loop kend ip dst off n tot s =
     (if \<not> tot < n then Inr (tot, [], s)
      else rbind (bmap ip (off div 1024) s) (\<lambda>(addr, s1).
           if addr = 0 then Inr (tot, [], s1)
           else rbind (bread (i_dev (itable s1 ip)) addr s1) (\<lambda>(bp, s2).
                let m = chunk off n tot
                in rbind (either_copyout kend dst (take (unat m) (drop (unat (off mod 1024)) (get_data bp s2))) s2) (\<lambda>(r, out, s3).
                   rbind (brelse bp s3) (\<lambda>s4.
                   if r = -1 then Inr (-1, out, s4)
                   else rbind (readi_loop kend ip (advance m dst) (off + m) n (tot + m) s4) (\<lambda>(t, out', s5).
                        Inr (t, out @ out', s5)))))))"
  by pat_completeness auto
termination
  by (relation "measure (\<lambda>(kend, ip, dst, off, n, tot, s). unat n - unat tot)")
    (use chunk_bounds in \<open>auto simp: word_less_nat_alt\<close>)

declare readi_loop.simps [simp del]

text \<open>The returned bytes are those copied to a variable of the caller (\<open>dst = Var _\<close>).\<close>

definition readi :: "u64 \<Rightarrow> nat \<Rightarrow> place \<Rightarrow> u32 \<Rightarrow> u32 \<Rightarrow> kernel \<Rightarrow> (u32 \<times> u8 list \<times> kernel) res" where
  "readi kend ip dst off n s =
     (if i_size (itable s ip) < off \<or> off + n < off then Inr (0, [], s)
      else let n' = (if i_size (itable s ip) < off + n then i_size (itable s ip) - off else n)
           in readi_loop kend ip dst off n' 0 s)"

text \<open>The result has \<^verbatim>\<open>tot\<close> and the final \<^verbatim>\<open>off\<close>. A failing \<^verbatim>\<open>either_copyin\<close> has stored some bytes in the
  buffer already.\<close>

function writei_loop :: "u64 \<Rightarrow> nat \<Rightarrow> place \<Rightarrow> u32 \<Rightarrow> u32 \<Rightarrow> u32 \<Rightarrow> kernel \<Rightarrow> (u32 \<times> u32 \<times> kernel) res" where
  "writei_loop kend ip src off n tot s =
     (if \<not> tot < n then Inr (tot, off, s)
      else rbind (bmap ip (off div 1024) s) (\<lambda>(addr, s1).
           if addr = 0 then Inr (tot, off, s1)
           else rbind (bread (i_dev (itable s1 ip)) addr s1) (\<lambda>(bp, s2).
                let m = chunk off n tot
                in rbind (either_copyin kend src (unat m) s2) (\<lambda>(r, bs, s3).
                   let s4 = set_data bp (put_bytes (unat (off mod 1024)) bs (get_data bp s3)) s3
                   in if r = -1 then rbind (brelse bp s4) (\<lambda>s5. Inr (tot, off, s5))
                      else rbind (log_write bp s4) (\<lambda>s5. rbind (brelse bp s5) (\<lambda>s6.
                           writei_loop kend ip (advance m src) (off + m) n (tot + m) s6))))))"
  by pat_completeness auto
termination
  by (relation "measure (\<lambda>(kend, ip, src, off, n, tot, s). unat n - unat tot)")
    (use chunk_bounds in \<open>auto simp: word_less_nat_alt\<close>)

declare writei_loop.simps [simp del]

definition writei :: "u64 \<Rightarrow> nat \<Rightarrow> place \<Rightarrow> u32 \<Rightarrow> u32 \<Rightarrow> kernel \<Rightarrow> (u32 \<times> kernel) res" where
  "writei kend ip src off n s =
     (if i_size (itable s ip) < off \<or> off + n < off then Inr (-1, s)
      else if of_nat (MAXFILE * BSIZE) < off + n then Inr (-1, s)
      else rbind (writei_loop kend ip src off n 0 s) (\<lambda>(tot, off', s1).
           let s2 = (if i_size (itable s1 ip) < off' then upd_inode ip (\<lambda>I. I\<lparr>i_size := off'\<rparr>) s1 else s1)
           in rbind (iupdate ip s2) (\<lambda>s3. Inr (tot, s3))))"

section \<open>Directories\<close>

text \<open>The byte at \<open>i\<close> of a buffer or C string, with a NUL after it.\<close>

definition char_at :: "u8 list \<Rightarrow> nat \<Rightarrow> u8" where
  "char_at bs i = (if i < length bs then bs ! i else 0)"

definition namecmp :: "u8 list \<Rightarrow> u8 list \<Rightarrow> int" where
  "namecmp p q = strncmp_loop DIRSIZ (char_at p) (char_at q) 0"

definition de_inum :: "u8 list \<Rightarrow> u16" where
  "de_inum de = get_field 2 0 de"

definition de_name :: "u8 list \<Rightarrow> u8 list" where
  "de_name de = take DIRSIZ (drop 2 de)"

lemma readi_no_wrap: "readi kend ip dst off n s = Inr (n, r) \<Longrightarrow> 0 < n \<Longrightarrow> off \<le> off + n"
  by (auto simp: readi_def not_less split: if_splits)

text \<open>The loop of \<^verbatim>\<open>dirlookup\<close> from \<^verbatim>\<open>off\<close>: the inode and the offset of the entry.\<close>

function dirlookup_loop :: "u64 \<Rightarrow> nat \<Rightarrow> u8 list \<Rightarrow> u32 \<Rightarrow> kernel \<Rightarrow> ((nat \<times> u32) option \<times> kernel) res" where
  "dirlookup_loop kend dp name off s =
     (if \<not> off < i_size (itable s dp) then Inr (None, s)
      else rbind (readi kend dp (Var []) off 16 s) (\<lambda>(r, de, s1).
           if r \<noteq> 16 then Inl (Panic ''dirlookup read'')
           else if de_inum de = 0 then dirlookup_loop kend dp name (off + 16) s1
           else if namecmp name (de_name de) = 0
           then rbind (iget (i_dev (itable s1 dp)) (ucast (de_inum de)) s1) (\<lambda>(ip, s2). Inr (Some (ip, off), s2))
           else dirlookup_loop kend dp name (off + 16) s1))"
  by pat_completeness auto

lemma off_advance:
  assumes "(off :: u32) \<le> off + 16"
  shows "4294967296 - unat (off + 16) < 4294967296 - unat off"
proof -
  have "unat off < 4294967296" using unat32_less [of off] by simp
  then have "unat (off + 16) = unat off + 16 \<and> unat off + 16 < 4294967296"
    using assms by (auto simp: word_le_nat_alt unat_word_ariths mod_if split: if_splits)
  then show ?thesis by linarith
qed

termination dirlookup_loop
  by (relation "measure (\<lambda>(kend, dp, name, off, s). 2 ^ 32 - unat off)")
    (auto intro!: off_advance dest!: readi_no_wrap)

declare dirlookup_loop.simps [simp del]

definition dirlookup :: "u64 \<Rightarrow> nat \<Rightarrow> u8 list \<Rightarrow> kernel \<Rightarrow> ((nat \<times> u32) option \<times> kernel) res" where
  "dirlookup kend dp name s =
     (if i_type (itable s dp) \<noteq> T_DIR then Inl (Panic ''dirlookup not DIR'') else dirlookup_loop kend dp name 0 s)"

fun strncpy_buf :: "nat \<Rightarrow> u8 list \<Rightarrow> u8 list" where
  "strncpy_buf 0 t = []"
| "strncpy_buf (Suc n) t =
     (if char_at t 0 = 0 then replicate (Suc n) 0 else char_at t 0 # strncpy_buf n (tl t))"

text \<open>The loop of \<^verbatim>\<open>dirlink\<close> that looks for an empty entry: the offset where it stops.\<close>

function dirlink_loop :: "u64 \<Rightarrow> nat \<Rightarrow> u32 \<Rightarrow> kernel \<Rightarrow> (u32 \<times> kernel) res" where
  "dirlink_loop kend dp off s =
     (if \<not> off < i_size (itable s dp) then Inr (off, s)
      else rbind (readi kend dp (Var []) off 16 s) (\<lambda>(r, de, s1).
           if r \<noteq> 16 then Inl (Panic ''dirlink read'')
           else if de_inum de = 0 then Inr (off, s1)
           else dirlink_loop kend dp (off + 16) s1))"
  by pat_completeness auto
termination
  by (relation "measure (\<lambda>(kend, dp, off, s). 2 ^ 32 - unat off)")
    (auto intro!: off_advance dest!: readi_no_wrap)

declare dirlink_loop.simps [simp del]

definition dirlink :: "u64 \<Rightarrow> nat \<Rightarrow> u8 list \<Rightarrow> u32 \<Rightarrow> kernel \<Rightarrow> (int \<times> kernel) res" where
  "dirlink kend dp name inum s =
     rbind (dirlookup kend dp name s) (\<lambda>(found, s1).
     case found of Some (ip, _) \<Rightarrow> rbind (iput ip s1) (\<lambda>s2. Inr (-1, s2))
     | None \<Rightarrow>
         rbind (dirlink_loop kend dp 0 s1) (\<lambda>(off, s2).
         let de = le_bytes 2 (ucast inum :: u16) @ strncpy_buf DIRSIZ name
         in rbind (writei kend dp (Var de) off 16 s2) (\<lambda>(r, s3).
            if r \<noteq> 16 then Inr (-1, s3) else Inr (0, s3))))"

section \<open>Paths\<close>

abbreviation slash :: u8 where "slash \<equiv> 47"

definition skipelem :: "u8 list \<Rightarrow> u8 list \<Rightarrow> (u8 list \<times> u8 list) option" where
  "skipelem path name =
     (let p = dropWhile (\<lambda>c. c = slash) path
      in if p = [] then None
         else let e = takeWhile (\<lambda>c. c \<noteq> slash) p; q = dropWhile (\<lambda>c. c \<noteq> slash) p
              in Some (dropWhile (\<lambda>c. c = slash) q,
                   if DIRSIZ \<le> length e then put_bytes 0 (take DIRSIZ e) name else put_bytes 0 (e @ [0]) name))"

lemma skipelem_shorter: "skipelem path name = Some (path', name') \<Longrightarrow> length path' < length path"
proof -
  assume a: "skipelem path name = Some (path', name')"
  let ?p = "dropWhile (\<lambda>c. c = slash) path"
  have p: "?p \<noteq> []" "path' = dropWhile (\<lambda>c. c = slash) (dropWhile (\<lambda>c. c \<noteq> slash) ?p)"
    using a by (auto simp: skipelem_def Let_def split: if_splits)
  have hd: "hd ?p \<noteq> slash" using hd_dropWhile [OF p(1)] .
  then have "length (dropWhile (\<lambda>c. c \<noteq> slash) ?p) < length ?p"
    using p(1) length_dropWhile_le by (cases ?p) (auto simp: less_Suc_eq_le)
  moreover have "length path' \<le> length (dropWhile (\<lambda>c. c \<noteq> slash) ?p)" unfolding p(2) by (rule length_dropWhile_le)
  ultimately show ?thesis using length_dropWhile_le [of "\<lambda>c. c = slash" path] by linarith
qed

text \<open>The loop of \<^verbatim>\<open>namex\<close>; \<^verbatim>\<open>name\<close> is returned with the inode.\<close>

function namex_loop :: "u64 \<Rightarrow> bool \<Rightarrow> u8 list \<Rightarrow> u8 list \<Rightarrow> nat \<Rightarrow> kernel \<Rightarrow> (nat option \<times> u8 list \<times> kernel) res" where
  "namex_loop kend parent path name ip s =
     (case skipelem path name of
        None \<Rightarrow>
          if parent then rbind (iput ip s) (\<lambda>s1. Inr (None, name, s1)) else Inr (Some ip, name, s)
      | Some (path', name') \<Rightarrow>
          rbind (ilock (Some ip) s) (\<lambda>s1.
          if i_type (itable s1 ip) \<noteq> T_DIR then rbind (iunlockput ip s1) (\<lambda>s2. Inr (None, name', s2))
          else if parent \<and> path' = [] then rbind (iunlock (Some ip) s1) (\<lambda>s2. Inr (Some ip, name', s2))
          else rbind (dirlookup kend ip name' s1) (\<lambda>(found, s2).
               case found of
                 None \<Rightarrow> rbind (iunlockput ip s2) (\<lambda>s3. Inr (None, name', s3))
               | Some (nxt, _) \<Rightarrow> rbind (iunlockput ip s2) (namex_loop kend parent path' name' nxt))))"
  by pat_completeness auto
termination
  by (relation "measure (\<lambda>(kend, parent, path, name, ip, s). length path)") (auto dest: skipelem_shorter)

declare namex_loop.simps [simp del]

definition namex :: "u64 \<Rightarrow> u8 list \<Rightarrow> bool \<Rightarrow> u8 list \<Rightarrow> kernel \<Rightarrow> (nat option \<times> u8 list \<times> kernel) res" where
  "namex kend path parent name s =
     rbind (if char_at path 0 = slash then iget ROOTDEV ROOTINO s
            else rbind (myproc s) (\<lambda>p. case p_cwd p of None \<Rightarrow> Inl Undef | Some cwd \<Rightarrow> Inr (idup cwd s))) (\<lambda>(ip, s1).
     namex_loop kend parent path name ip s1)"

definition namei :: "u64 \<Rightarrow> u8 list \<Rightarrow> kernel \<Rightarrow> (nat option \<times> kernel) res" where
  "namei kend path s = rbind (namex kend path False (replicate DIRSIZ 0) s) (\<lambda>(ip, _, s1). Inr (ip, s1))"

definition nameiparent :: "u64 \<Rightarrow> u8 list \<Rightarrow> u8 list \<Rightarrow> kernel \<Rightarrow> (nat option \<times> u8 list \<times> kernel) res" where
  "nameiparent kend path name s = namex kend path True name s"

end
