(* ===== verification/Pipe.thy ===== *)
theory Pipe
  imports Kstate
begin

text \<open>
  Pipes, \<^verbatim>\<open>src/kernel/pipe.c\<close>. A section under the pipe's lock that ends in \<^verbatim>\<open>sleep\<close> returns \<open>Sleep i []\<close>
  with the number \<^verbatim>\<open>i\<close> of bytes moved so far, and the call goes on from there when it is woken.
\<close>

abbreviation PIPESIZE :: nat where "PIPESIZE \<equiv> 512"

definition pipeclose :: "u64 \<Rightarrow> u64 \<Rightarrow> bool \<Rightarrow> kernel \<Rightarrow> kernel res" where
  "pipeclose kend pi writable s =
     (let s1 = (if writable then wakeup (PipeRead pi) (upd_pipe pi (\<lambda>P. P\<lparr>pi_writeopen := False\<rparr>) s)
                else wakeup (PipeWrite pi) (upd_pipe pi (\<lambda>P. P\<lparr>pi_readopen := False\<rparr>) s))
      in if \<not> pi_readopen (pipes s1 pi) \<and> \<not> pi_writeopen (pipes s1 pi) then kfree kend pi s1 else Inr s1)"

text \<open>\<^verbatim>\<open>pi->data[pi->nwrite++ % PIPESIZE] = ch\<close> and \<^verbatim>\<open>pi->data[pi->nread++ % PIPESIZE]\<close>.\<close>

definition pipe_put :: "u8 \<Rightarrow> pipe \<Rightarrow> pipe" where
  "pipe_put ch P = P\<lparr>pi_data := (pi_data P)[unat (pi_nwrite P mod 512) := ch], pi_nwrite := pi_nwrite P + 1\<rparr>"

definition pipe_head :: "pipe \<Rightarrow> u8" where
  "pipe_head P = pi_data P ! unat (pi_nread P mod 512)"

definition pipe_advance :: "pipe \<Rightarrow> pipe" where
  "pipe_advance P = P\<lparr>pi_nread := pi_nread P + 1\<rparr>"

function pipewrite_loop :: "u64 \<Rightarrow> u64 \<Rightarrow> u64 \<Rightarrow> int \<Rightarrow> nat \<Rightarrow> kernel \<Rightarrow> (int outcome \<times> kernel) res" where
  "pipewrite_loop kend pi addr n i s =
     (if \<not> int i < n then Inr (Ret (int i), wakeup (PipeRead pi) s)
      else rbind (myproc s) (\<lambda>pr.
           if \<not> pi_readopen (pipes s pi) \<or> killed pr then Inr (Ret (-1), s)
           else if pi_nwrite (pipes s pi) = pi_nread (pipes s pi) + 512
           then rbind (sleep (PipeWrite pi) (wakeup (PipeRead pi) s)) (\<lambda>s1. Inr (Sleep i [], s1))
           else rbind (copyin kend (p_sz pr) (p_pagetable pr) (p_pagetable pr) (addr + of_nat i) 1 s) (\<lambda>(r, bs, s1).
                if r = -1 then Inr (Ret (int i), wakeup (PipeRead pi) s1)
                else pipewrite_loop kend pi addr n (i + 1) (upd_pipe pi (pipe_put (hd bs)) s1))))"
  by pat_completeness auto
termination
  by (relation "measure (\<lambda>(kend, pi, addr, n, i, s). nat n - i)") auto

declare pipewrite_loop.simps [simp del]

definition pipewrite :: "u64 \<Rightarrow> u64 \<Rightarrow> u64 \<Rightarrow> int \<Rightarrow> kernel \<Rightarrow> (int outcome \<times> kernel) res" where
  "pipewrite kend pi addr n s = pipewrite_loop kend pi addr n 0 s"

function piperead_loop :: "u64 \<Rightarrow> u64 \<Rightarrow> u64 \<Rightarrow> int \<Rightarrow> nat \<Rightarrow> kernel \<Rightarrow> (int outcome \<times> kernel) res" where
  "piperead_loop kend pi addr n i s =
     (if \<not> int i < n \<or> pi_nread (pipes s pi) = pi_nwrite (pipes s pi) then Inr (Ret (int i), wakeup (PipeWrite pi) s)
      else rbind (myproc s) (\<lambda>pr.
           rbind (copyout kend (p_sz pr) (p_pagetable pr) (p_pagetable pr) (addr + of_nat i) [pipe_head (pipes s pi)]
                   (upd_pipe pi pipe_advance s)) (\<lambda>(r, s1).
           if r = -1 then Inr (Ret (int i), wakeup (PipeWrite pi) s1)
           else piperead_loop kend pi addr n (i + 1) s1)))"
  by pat_completeness auto
termination
  by (relation "measure (\<lambda>(kend, pi, addr, n, i, s). nat n - i)") auto

declare piperead_loop.simps [simp del]

definition piperead :: "u64 \<Rightarrow> u64 \<Rightarrow> u64 \<Rightarrow> int \<Rightarrow> kernel \<Rightarrow> (int outcome \<times> kernel) res" where
  "piperead kend pi addr n s =
     (if pi_nread (pipes s pi) = pi_nwrite (pipes s pi) \<and> pi_writeopen (pipes s pi)
      then rbind (myproc s) (\<lambda>pr.
           if killed pr then Inr (Ret (-1), s)
           else rbind (sleep (PipeRead pi) s) (\<lambda>s1. Inr (Sleep 0 [], s1)))
      else piperead_loop kend pi addr n 0 s)"

end
