(* ===== verification/Console.thy ===== *)
theory Console
  imports Kstate
begin

text \<open>
  The console driver, \<^verbatim>\<open>src/kernel/console.c\<close>, and the serial line under it, \<^verbatim>\<open>src/kernel/uart.c\<close>. The
  device is seen through the bytes written to its transmit register (\<open>uart_out\<close>), the bytes its
  receive register delivers and the transmitter-idle bit of its status register, the last two
  being arguments of \<open>uartintr\<close>. The busy wait of \<^verbatim>\<open>uartputc_sync\<close> ends when the device is idle.
  \<^verbatim>\<open>procdump\<close> only prints.
\<close>

section \<open>Serial line\<close>

definition uartputc_sync :: "u8 \<Rightarrow> kernel \<Rightarrow> kernel" where
  "uartputc_sync c s = s\<lparr>uart_out := uart_out s @ [c]\<rparr>"

text \<open>The part of the buffer that is left when \<^verbatim>\<open>uartwrite\<close> goes to sleep, or nothing.\<close>

fun uartwrite :: "u8 list \<Rightarrow> kernel \<Rightarrow> (u8 list \<times> kernel) res" where
  "uartwrite [] s = Inr ([], s)"
| "uartwrite (c # cs) s =
     (if tx_busy s then rbind (sleep TxChan s) (\<lambda>s1. Inr (c # cs, s1))
      else uartwrite cs (s\<lparr>uart_out := uart_out s @ [c], tx_busy := True\<rparr>))"

section \<open>Console\<close>

abbreviation INPUT_BUF_SIZE :: u32 where "INPUT_BUF_SIZE \<equiv> 128"

datatype putc = Backspace | Char u8

fun consputc :: "putc \<Rightarrow> kernel \<Rightarrow> kernel" where
  "consputc Backspace s = uartputc_sync 8 (uartputc_sync 32 (uartputc_sync 8 s))"
| "consputc (Char c) s = uartputc_sync c s"

text \<open>The loop of \<^verbatim>\<open>consolewrite\<close> with \<open>i\<close> bytes copied from the caller, of which \<open>buf\<close> is not yet sent.\<close>

function consolewrite_loop :: "u64 \<Rightarrow> place \<Rightarrow> int \<Rightarrow> nat \<Rightarrow> u8 list \<Rightarrow> kernel \<Rightarrow> (int outcome \<times> kernel) res" where
  "consolewrite_loop kend src n i buf s =
     rbind (uartwrite buf s) (\<lambda>(rest, s1).
     if rest \<noteq> [] then Inr (Sleep i rest, s1)
     else if \<not> int i < n then Inr (Ret (int i), s1)
     else let nn = min 32 (nat n - i)
          in rbind (either_copyin kend (advance (of_nat i) src) nn s1) (\<lambda>(r, bs, s2).
             if r = -1 then Inr (Ret (int i), s2)
             else consolewrite_loop kend src n (i + nn) bs s2))"
  by pat_completeness auto
termination
  by (relation "measure (\<lambda>(kend, src, n, i, buf, s). nat n - i)") auto

declare consolewrite_loop.simps [simp del]

definition consolewrite :: "u64 \<Rightarrow> place \<Rightarrow> int \<Rightarrow> kernel \<Rightarrow> (int outcome \<times> kernel) res" where
  "consolewrite kend src n s = (if n \<le> 0 then Inr (Ret 0, s) else consolewrite_loop kend src n 0 [] s)"

definition upd_cons :: "(cons \<Rightarrow> cons) \<Rightarrow> kernel \<Rightarrow> kernel" where
  "upd_cons f s = s\<lparr>consb := f (consb s)\<rparr>"

text \<open>The loop of \<^verbatim>\<open>consoleread\<close> with \<open>i = target - n\<close> bytes delivered so far.\<close>

function consoleread_loop :: "u64 \<Rightarrow> place \<Rightarrow> nat \<Rightarrow> nat \<Rightarrow> kernel \<Rightarrow> (int outcome \<times> kernel) res" where
  "consoleread_loop kend dst target i s =
     (if \<not> i < target then Inr (Ret (int i), s)
      else if cons_r (consb s) = cons_w (consb s)
      then rbind (myproc s) (\<lambda>pr.
           if killed pr then Inr (Ret (-1), s)
           else rbind (sleep ConsRead s) (\<lambda>s1. Inr (Sleep i [], s1)))
      else let c = cons_buf (consb s) ! unat (cons_r (consb s) mod 128);
               s1 = upd_cons (\<lambda>C. C\<lparr>cons_r := cons_r C + 1\<rparr>) s
           in if c = 4
              then Inr (Ret (int i), if 0 < i then upd_cons (\<lambda>C. C\<lparr>cons_r := cons_r C - 1\<rparr>) s1 else s1)
              else rbind (either_copyout kend (advance (of_nat i) dst) [c] s1) (\<lambda>(r, _, s2).
                   if r = -1 then Inr (Ret (int i), s2)
                   else if c = 10 then Inr (Ret (int (i + 1)), s2)
                   else consoleread_loop kend dst target (i + 1) s2))"
  by pat_completeness auto
termination
  by (relation "measure (\<lambda>(kend, dst, target, i, s). target - i)") auto

declare consoleread_loop.simps [simp del]

definition consoleread :: "u64 \<Rightarrow> place \<Rightarrow> int \<Rightarrow> kernel \<Rightarrow> (int outcome \<times> kernel) res" where
  "consoleread kend dst n s = (if n \<le> 0 then Inr (Ret 0, s) else consoleread_loop kend dst (nat n) 0 s)"

text \<open>The kill-line loop: every round erases one character, so at most the \<open>unat (e - w)\<close> characters
  being edited.\<close>

fun kill_line :: "nat \<Rightarrow> kernel \<Rightarrow> kernel" where
  "kill_line 0 s = s"
| "kill_line (Suc k) s =
     (if cons_e (consb s) \<noteq> cons_w (consb s)
         \<and> cons_buf (consb s) ! unat ((cons_e (consb s) - 1) mod 128) \<noteq> 10
      then kill_line k (consputc Backspace (upd_cons (\<lambda>C. C\<lparr>cons_e := cons_e C - 1\<rparr>) s))
      else s)"

definition consoleintr :: "u8 \<Rightarrow> kernel \<Rightarrow> kernel" where
  "consoleintr c s =
     (if c = 16 then s
      else if c = 21 then kill_line (unat (cons_e (consb s) - cons_w (consb s))) s
      else if c = 8 \<or> c = 127
      then if cons_e (consb s) \<noteq> cons_w (consb s)
           then consputc Backspace (upd_cons (\<lambda>C. C\<lparr>cons_e := cons_e C - 1\<rparr>) s) else s
      else if c \<noteq> 0 \<and> cons_e (consb s) - cons_r (consb s) < INPUT_BUF_SIZE
      then let c' = (if c = 13 then 10 else c);
               s1 = consputc (Char c') s;
               s2 = upd_cons (\<lambda>C. C\<lparr>cons_buf := (cons_buf C)[unat (cons_e C mod 128) := c'], cons_e := cons_e C + 1\<rparr>) s1
           in if c' = 10 \<or> c' = 4 \<or> cons_e (consb s2) - cons_r (consb s2) = INPUT_BUF_SIZE
              then wakeup ConsRead (upd_cons (\<lambda>C. C\<lparr>cons_w := cons_e C\<rparr>) s2) else s2
      else s)"

definition consoleinit :: "kernel \<Rightarrow> kernel" where
  "consoleinit s =
     (upd_cons (\<lambda>C. C\<lparr>cons_r := 0, cons_w := 0, cons_e := 0\<rparr>) s)
       \<lparr>devsw_read := (devsw_read s)(1 \<mapsto> ConsoleDev), devsw_write := (devsw_write s)(1 \<mapsto> ConsoleDev)\<rparr>"

text \<open>One interrupt of the serial line: whether the transmitter is idle, and the bytes that \<^verbatim>\<open>uartgetc\<close>
  delivers before it returns -1.\<close>

definition uartintr :: "bool \<Rightarrow> u8 list \<Rightarrow> kernel \<Rightarrow> kernel" where
  "uartintr idle input s =
     fold consoleintr input (if idle then wakeup TxChan (s\<lparr>tx_busy := False\<rparr>) else s)"

end
