(* ===== verification/File.thy ===== *)
theory File
  imports Fs Pipe Console
begin

text \<open>
  Open files, \<^verbatim>\<open>src/kernel/file.c\<close>, and \<^verbatim>\<open>pipealloc\<close> of \<^verbatim>\<open>src/kernel/pipe.c\<close>, which needs them. A call on
  a pipe or device that goes to sleep returns the outcome \<open>Sleep\<close> of the pipe or device.
\<close>

section \<open>The table of open files\<close>

definition clear_file :: "int \<Rightarrow> ofile \<Rightarrow> ofile" where
  "clear_file r F = F\<lparr>f_ref := r, f_type := FD_NONE, f_readable := False, f_writable := False, f_pipe := 0,
     f_ip := None, f_off := 0, f_major := 0\<rparr>"

definition fileinit :: "kernel \<Rightarrow> kernel" where
  "fileinit s = fold (\<lambda>i. upd_file i (clear_file 0)) [0..<NFILE] s"

definition filealloc :: "kernel \<Rightarrow> nat option \<times> kernel" where
  "filealloc s =
     (case find (\<lambda>i. f_ref (ftable s i) = 0) [0..<NFILE] of
        Some i \<Rightarrow> (Some i, upd_file i (clear_file 1) s)
      | None \<Rightarrow> (None, s))"

definition filedup :: "nat option \<Rightarrow> kernel \<Rightarrow> (nat option \<times> kernel) res" where
  "filedup fp s =
     (case fp of None \<Rightarrow> Inr (None, s)
      | Some f \<Rightarrow>
         if f_ref (ftable s f) < 1 then Inl (Panic ''filedup'')
         else Inr (Some f, upd_file f (\<lambda>F. F\<lparr>f_ref := f_ref F + 1\<rparr>) s))"

definition fileclose :: "u64 \<Rightarrow> nat option \<Rightarrow> kernel \<Rightarrow> kernel res" where
  "fileclose kend fp s =
     (case fp of None \<Rightarrow> Inr s
      | Some f \<Rightarrow>
         if f_ref (ftable s f) < 1 then Inl (Panic ''fileclose'')
         else let s1 = upd_file f (\<lambda>F. F\<lparr>f_ref := f_ref F - 1\<rparr>) s
              in if 0 < f_ref (ftable s1 f) then Inr s1
                 else let ff = ftable s1 f; s2 = upd_file f (clear_file 0) s1
                      in if f_type ff = FD_PIPE then pipeclose kend (f_pipe ff) (f_writable ff) s2
                         else if f_type ff = FD_INODE \<or> f_type ff = FD_DEVICE
                         then rbind (begin_op s2) (\<lambda>s3.
                              case f_ip ff of None \<Rightarrow> Inl Undef | Some ip \<Rightarrow> rbind (iput ip s3) end_op)
                         else Inr s2)"

section \<open>Metadata, reading and writing\<close>

text \<open>\<^verbatim>\<open>struct stat\<close> as it lies in memory; the four padding bytes before \<^verbatim>\<open>size\<close> are not initialised.\<close>

definition stat_bytes :: "u8 list \<Rightarrow> stat \<Rightarrow> u8 list" where
  "stat_bytes padding st = le_bytes 4 (st_dev st) @ le_bytes 4 (st_ino st) @ le_bytes 2 (st_type st)
     @ le_bytes 2 (st_nlink st) @ take 4 padding @ le_bytes 8 (st_size st)"

definition filestat :: "u64 \<Rightarrow> u8 list \<Rightarrow> nat option \<Rightarrow> u64 \<Rightarrow> kernel \<Rightarrow> (int \<times> kernel) res" where
  "filestat kend padding fp addr s =
     (case fp of None \<Rightarrow> Inr (-1, s)
      | Some f \<Rightarrow>
         let F = ftable s f
         in if f_type F = FD_INODE \<or> f_type F = FD_DEVICE
            then (case f_ip F of None \<Rightarrow> Inr (-1, s)
                  | Some ip \<Rightarrow>
                     rbind (ilock (Some ip) s) (\<lambda>s1.
                     let st = stati ip s1
                     in rbind (iunlock (Some ip) s1) (\<lambda>s2.
                        rbind (myproc s2) (\<lambda>p.
                        rbind (copyout kend (p_sz p) (p_pagetable p) (p_pagetable p) addr (stat_bytes padding st) s2) (\<lambda>(r, s3).
                        if r < 0 then Inr (-1, s3) else Inr (0, s3))))))
            else Inr (-1, s))"

definition dev_read :: "u64 \<Rightarrow> devfn \<Rightarrow> u64 \<Rightarrow> int \<Rightarrow> kernel \<Rightarrow> (int outcome \<times> kernel) res" where
  "dev_read kend d addr n = (case d of ConsoleDev \<Rightarrow> consoleread kend (Uva addr) n)"

definition dev_write :: "u64 \<Rightarrow> devfn \<Rightarrow> u64 \<Rightarrow> int \<Rightarrow> kernel \<Rightarrow> (int outcome \<times> kernel) res" where
  "dev_write kend d addr n = (case d of ConsoleDev \<Rightarrow> consolewrite kend (Uva addr) n)"

definition dev_of :: "(nat \<Rightarrow> devfn option) \<Rightarrow> u16 \<Rightarrow> devfn option" where
  "dev_of sw mj = (if sint mj < 0 \<or> sint mj \<ge> int NDEV then None else sw (unat mj))"

definition fileread :: "u64 \<Rightarrow> nat option \<Rightarrow> u64 \<Rightarrow> int \<Rightarrow> kernel \<Rightarrow> (int outcome \<times> kernel) res" where
  "fileread kend fp addr n s =
     (case fp of None \<Rightarrow> Inr (Ret (-1), s)
      | Some f \<Rightarrow>
         let F = ftable s f
         in if \<not> f_readable F then Inr (Ret (-1), s)
            else if n < 0 then Inr (Ret (-1), s)
            else if n = 0 then Inr (Ret 0, s)
            else case f_type F of
                   FD_PIPE \<Rightarrow> piperead kend (f_pipe F) addr n s
                 | FD_DEVICE \<Rightarrow>
                    (case dev_of (devsw_read s) (f_major F) of None \<Rightarrow> Inr (Ret (-1), s)
                     | Some d \<Rightarrow> dev_read kend d addr n s)
                 | FD_INODE \<Rightarrow>
                    (case f_ip F of None \<Rightarrow> Inr (Ret (-1), s)
                     | Some ip \<Rightarrow>
                        rbind (ilock (Some ip) s) (\<lambda>s1.
                        rbind (readi kend ip (Uva addr) (f_off (ftable s1 f)) (word_of_int n) s1) (\<lambda>(r, _, s2).
                        let s3 = (if 0 < sint r then upd_file f (\<lambda>F. F\<lparr>f_off := f_off F + r\<rparr>) s2 else s2)
                        in rbind (iunlock (Some ip) s3) (\<lambda>s4. Inr (Ret (sint r), s4)))))
                 | FD_NONE \<Rightarrow> Inl (Panic ''fileread''))"

text \<open>The loop of \<^verbatim>\<open>filewrite\<close> from \<^verbatim>\<open>i\<close>; at most three blocks are written in one transaction. The
  result is the final \<^verbatim>\<open>i\<close>.\<close>

abbreviation WRITE_MAX :: nat where "WRITE_MAX \<equiv> 3072"

function filewrite_loop :: "u64 \<Rightarrow> nat \<Rightarrow> nat \<Rightarrow> u64 \<Rightarrow> nat \<Rightarrow> nat \<Rightarrow> kernel \<Rightarrow> (nat \<times> kernel) res" where
  "filewrite_loop kend f ip addr n i s =
     (if \<not> i < n then Inr (i, s)
      else let n1 = min (n - i) WRITE_MAX
           in rbind (begin_op s) (\<lambda>s1. rbind (ilock (Some ip) s1) (\<lambda>s2.
              rbind (writei kend ip (Uva (addr + of_nat i)) (f_off (ftable s2 f)) (of_nat n1) s2) (\<lambda>(r, s3).
              let s4 = (if 0 < sint r then upd_file f (\<lambda>F. F\<lparr>f_off := f_off F + r\<rparr>) s3 else s3)
              in rbind (iunlock (Some ip) s4) (\<lambda>s5. rbind (end_op s5) (\<lambda>s6.
                 if sint r \<noteq> int n1 then Inr (i, s6) else filewrite_loop kend f ip addr n (i + n1) s6))))))"
  by pat_completeness auto
termination
  by (relation "measure (\<lambda>(kend, f, ip, addr, n, i, s). n - i)") auto

declare filewrite_loop.simps [simp del]

definition filewrite :: "u64 \<Rightarrow> nat option \<Rightarrow> u64 \<Rightarrow> int \<Rightarrow> kernel \<Rightarrow> (int outcome \<times> kernel) res" where
  "filewrite kend fp addr n s =
     (case fp of None \<Rightarrow> Inr (Ret (-1), s)
      | Some f \<Rightarrow>
         let F = ftable s f
         in if \<not> f_writable F then Inr (Ret (-1), s)
            else if n < 0 then Inr (Ret (-1), s)
            else if n = 0 then Inr (Ret 0, s)
            else case f_type F of
                   FD_PIPE \<Rightarrow> pipewrite kend (f_pipe F) addr n s
                 | FD_DEVICE \<Rightarrow>
                    (case dev_of (devsw_write s) (f_major F) of None \<Rightarrow> Inr (Ret (-1), s)
                     | Some d \<Rightarrow> dev_write kend d addr n s)
                 | FD_INODE \<Rightarrow>
                    (case f_ip F of None \<Rightarrow> Inr (Ret (-1), s)
                     | Some ip \<Rightarrow>
                        rbind (filewrite_loop kend f ip addr (nat n) 0 s) (\<lambda>(i, s1).
                        Inr (Ret (if int i = n then n else -1), s1)))
                 | FD_NONE \<Rightarrow> Inl (Panic ''filewrite''))"

section \<open>Creating a pipe\<close>

text \<open>The page of \<^verbatim>\<open>struct pipe\<close> comes from \<^verbatim>\<open>kalloc\<close>; its data bytes are not initialised.\<close>

definition pipealloc_bad :: "u64 \<Rightarrow> u64 \<Rightarrow> nat option \<Rightarrow> nat option \<Rightarrow> kernel \<Rightarrow> (int \<times> nat option \<times> nat option \<times> kernel) res" where
  "pipealloc_bad kend pi f0 f1 s =
     rbind (if pi \<noteq> 0 then kfree kend pi s else Inr s) (\<lambda>s1.
     rbind (if f0 \<noteq> None then fileclose kend f0 s1 else Inr s1) (\<lambda>s2.
     rbind (if f1 \<noteq> None then fileclose kend f1 s2 else Inr s2) (\<lambda>s3. Inr (-1, f0, f1, s3))))"

definition pipealloc :: "u64 \<Rightarrow> kernel \<Rightarrow> (int \<times> nat option \<times> nat option \<times> kernel) res" where
  "pipealloc kend s =
     (case filealloc s of (f0, s1) \<Rightarrow>
      case f0 of None \<Rightarrow> pipealloc_bad kend 0 None None s1
      | Some i0 \<Rightarrow>
         (case filealloc s1 of (f1, s2) \<Rightarrow>
          case f1 of None \<Rightarrow> pipealloc_bad kend 0 f0 None s2
          | Some i1 \<Rightarrow>
             (case kalloc s2 of (pi, s3) \<Rightarrow>
              if pi = 0 then pipealloc_bad kend 0 f0 f1 s3
              else let s4 = upd_pipe pi (\<lambda>P. P\<lparr>pi_readopen := True, pi_writeopen := True, pi_nwrite := 0, pi_nread := 0\<rparr>) s3;
                       s5 = upd_file i0 (\<lambda>F. F\<lparr>f_type := FD_PIPE, f_readable := True, f_writable := False, f_pipe := pi\<rparr>) s4;
                       s6 = upd_file i1 (\<lambda>F. F\<lparr>f_type := FD_PIPE, f_readable := False, f_writable := True, f_pipe := pi\<rparr>) s5
                   in Inr (0, f0, f1, s6))))"

end
