(* ===== verification/Freewalk.thy ===== *)
theory Freewalk
  imports Uvm
begin

text \<open>
  Freeing a whole address space: \<^verbatim>\<open>freewalk\<close> and \<^verbatim>\<open>uvmfree\<close> of \<^verbatim>\<open>src/kernel/vm.c\<close>. The recursion over
  table pages ends because the pages of a tree are distinct, and every page goes back to
  the free list exactly once.
\<close>

section \<open>Trees of table pages without leaves\<close>

fun dir_tree :: "nat \<Rightarrow> memory \<Rightarrow> u64 \<Rightarrow> u64 set \<Rightarrow> bool" where
  "dir_tree 0 m a T \<longleftrightarrow> T = {a} \<and> (\<forall>i < 512. entry m a i AND PTE_V = 0)"
| "dir_tree (Suc d) m a T \<longleftrightarrow> (\<exists>F.
     (\<forall>i < 512. if entry m a i AND PTE_V \<noteq> 0
        then entry m a i AND (PTE_R OR PTE_W OR PTE_X) = 0 \<and> dir_tree d m (PTE2PA (entry m a i)) (F i)
        else F i = {})
     \<and> (\<forall>i < 512. a \<notin> F i) \<and> (\<forall>i < 512. \<forall>j < 512. i \<noteq> j \<longrightarrow> F i \<inter> F j = {})
     \<and> T = insert a (\<Union>i \<in> {i. i < 512}. F i))"

lemma dir_tree_root: "dir_tree d m a T \<Longrightarrow> a \<in> T"
  by (cases d) auto

lemma dir_tree_cong:
  assumes "dir_tree d m a T" and "\<forall>p \<in> T. page_aligned p" and "\<And>x. PGROUNDDOWN x \<in> T \<Longrightarrow> m' x = m x"
  shows "dir_tree d m' a T"
  using assms
proof (induction d arbitrary: a T)
  case 0
  have "entry m' a i = entry m a i" if "i < 512" for i
    using that 0 by (intro entry_cong) (auto simp: in_page_iff)
  then show ?case using 0(1) by simp
next
  case (Suc d)
  obtain F where F: "\<forall>i < 512. if entry m a i AND PTE_V \<noteq> 0
        then entry m a i AND (PTE_R OR PTE_W OR PTE_X) = 0 \<and> dir_tree d m (PTE2PA (entry m a i)) (F i)
        else F i = {}"
     "\<forall>i < 512. a \<notin> F i" "\<forall>i < 512. \<forall>j < 512. i \<noteq> j \<longrightarrow> F i \<inter> F j = {}"
     "T = insert a (\<Union>i \<in> {i. i < 512}. F i)"
    using Suc(2) by auto
  have e: "entry m' a i = entry m a i" if "i < 512" for i
    using that Suc(3,4) F(4) by (intro entry_cong) (auto simp: in_page_iff)
  have sub: "F i \<subseteq> T" if "i < 512" for i using that F(4) by auto
  have "if entry m' a i AND PTE_V \<noteq> 0
        then entry m' a i AND (PTE_R OR PTE_W OR PTE_X) = 0 \<and> dir_tree d m' (PTE2PA (entry m' a i)) (F i)
        else F i = {}" if i: "i < 512" for i
  proof -
    have "dir_tree d m' b (F i)" if "dir_tree d m b (F i)" for b
      using that by (rule Suc.IH) (use sub [OF i] Suc(3,4) in auto)
    then show ?thesis using F(1) [rule_format, OF i] by (simp add: e [OF i] split: if_splits)
  qed
  then show ?case unfolding dir_tree.simps using F(2-4) by (intro exI [of _ F] conjI) blast+
qed

text \<open>The pages that \<^verbatim>\<open>freewalk\<close> still has to free when it has reached index \<open>i\<close>.\<close>

lemma freewalk_loop_end:
  assumes "free_list kend s xs" and "valid_kalloc_ptr kend a" "a \<notin> set xs"
  obtains s' where "freewalk_from kend a 512 s = Some (Inr s')" "free_list kend s' (a # xs)"
    "page_update a s s'" "kmem.more s' = kmem.more s"
  using free_list_kfree [OF assms] by (metis freewalk_from.simps less_irrefl)

lemma freewalk_leaf_table:
  assumes "\<forall>j < 512. entry (mem s) a j AND PTE_V = 0" and "i \<le> 512"
  shows "freewalk_from kend a i s = freewalk_from kend a 512 s"
  using assms(2)
proof (induction "512 - unat i" arbitrary: i)
  case 0
  then have "i = 512" by (simp add: word_le_nat_alt word_unat_eq_iff)
  then show ?case by simp
next
  case (Suc n)
  then have lt: "i < 512" by (simp add: word_less_nat_alt)
  then have u: "unat (i + 1) = Suc (unat i)" by (simp add: word_less_nat_alt unat_word_ariths)
  have "freewalk_from kend a i s = freewalk_from kend a (i + 1) s"
    using assms(1) lt by (subst freewalk_from.simps) (simp add: entry_def Let_def)
  also have "\<dots> = freewalk_from kend a 512 s"
    using Suc lt u by (intro Suc(1)) (simp_all add: word_le_nat_alt word_less_nat_alt)
  finally show ?case .
qed

definition freed :: "u64 \<Rightarrow> u64 set \<Rightarrow> 'a kmem_scheme \<Rightarrow> u64 list \<Rightarrow> 'a kmem_scheme \<Rightarrow> u64 list \<Rightarrow> bool" where
  "freed kend T s xs s' ys \<longleftrightarrow> free_list kend s' ys \<and> set ys = T \<union> set xs
     \<and> (\<forall>x. PGROUNDDOWN x \<notin> T \<longrightarrow> mem s' x = mem s x) \<and> kmem.more s' = kmem.more s"

lemma freed_page:
  "free_list kend s' (a # xs) \<Longrightarrow> page_aligned a \<Longrightarrow> page_update a s s' \<Longrightarrow> kmem.more s' = kmem.more s \<Longrightarrow>
   freed kend {a} s xs s' (a # xs)"
  by (simp add: freed_def page_update_def in_page_iff)

text \<open>Clearing an entry of \<open>a\<close> after the pages \<open>U\<close> were freed.\<close>

lemma clear_entry_frame:
  assumes "freed kend U s xs s1 ys" and "valid_kalloc_ptr kend a" "a \<notin> set ys" "a \<notin> U" and "i < 512"
  defines "s2 \<equiv> upd_mem (store64 (a + 8 * i) 0) s1"
  shows "free_list kend s2 ys" and "PGROUNDDOWN x \<notin> insert a U \<Longrightarrow> mem s2 x = mem s x"
    and "kmem.more s2 = kmem.more s" and "j < 512 \<Longrightarrow> j \<noteq> i \<Longrightarrow> entry (mem s2) a j = entry (mem s) a j"
proof -
  have al: "page_aligned a" using valid_kalloc_ptrD [OF assms(2)] by simp
  have out: "mem s2 x = mem s1 x" if "PGROUNDDOWN x \<noteq> a" for x
  proof -
    have "\<not> in_region a PGSIZE x" using that al by (simp add: in_page_iff)
    then have "\<not> in_region (a + 8 * i) 8 x" using entry_region [OF assms(5)] by blast
    then show ?thesis by (simp add: s2_def store64_outside)
  qed
  show "free_list kend s2 ys"
  proof (rule free_list_frame)
    show fl: "free_list kend s1 ys" using assms(1) by (simp add: freed_def)
    fix p x assume p: "p \<in> set ys" "in_region p PGSIZE x"
    then have "page_aligned p" using fl valid_kalloc_ptrD by (auto simp: free_list_def)
    then have "PGROUNDDOWN x = p" using p(2) in_page_iff by blast
    then show "mem s2 x = mem s1 x" using out p(1) assms(3) by metis
  qed (simp_all add: s2_def)
  show "PGROUNDDOWN x \<notin> insert a U \<Longrightarrow> mem s2 x = mem s x" using out assms(1) by (simp add: freed_def)
  show "kmem.more s2 = kmem.more s" using assms(1) by (simp add: s2_def freed_def)
  assume j: "j < 512" "j \<noteq> i"
  have "entry (mem s2) a j = entry (mem s1) a j" unfolding s2_def using j assms(5) by (simp add: entry_store_index)
  also have "\<dots> = entry (mem s) a j"
    using j(1) al assms(1,4) by (intro entry_cong) (auto simp: freed_def in_page_iff)
  finally show "entry (mem s2) a j = entry (mem s) a j" .
qed

lemma freewalk_level:
  assumes IH: "\<And>s b T xs. dir_tree d (mem (s :: 'a kmem_scheme)) b T \<Longrightarrow> free_list kend s xs \<Longrightarrow> T \<subseteq> Collect (valid_kalloc_ptr kend) \<Longrightarrow>
      T \<inter> set xs = {} \<Longrightarrow> \<exists>s' ys. freewalk_from kend b 0 s = Some (Inr s') \<and> freed kend T s xs s' ys"
    and F: "\<forall>j < 512. a \<notin> F j" "\<forall>j < 512. \<forall>k < 512. j \<noteq> k \<longrightarrow> F j \<inter> F k = {}"
      "\<forall>j < 512. F j \<subseteq> Collect (valid_kalloc_ptr kend)" "valid_kalloc_ptr kend a"
    and "i \<le> 512" and "free_list kend (s :: 'a kmem_scheme) xs"
    and "insert a (\<Union>j \<in> {j. i \<le> j \<and> j < 512}. F j) \<inter> set xs = {}"
    and "\<forall>j. i \<le> j \<longrightarrow> j < 512 \<longrightarrow> (if entry (mem s) a j AND PTE_V \<noteq> 0
        then entry (mem s) a j AND (PTE_R OR PTE_W OR PTE_X) = 0 \<and> dir_tree d (mem s) (PTE2PA (entry (mem s) a j)) (F j)
        else F j = {})"
  shows "\<exists>s' ys. freewalk_from kend a i s = Some (Inr s')
    \<and> freed kend (insert a (\<Union>j \<in> {j. i \<le> j \<and> j < 512}. F j)) s xs s' ys"
  using assms(6-9)
proof (induction "512 - unat i" arbitrary: i s xs)
  case 0
  then have i: "i = 512" by (simp add: word_le_nat_alt word_unat_eq_iff)
  then have e: "(\<Union>j \<in> {j. i \<le> j \<and> j < 512}. F j) = {}" by auto
  have "a \<notin> set xs" using 0(4) by auto
  from 0(3) F(4) this obtain s' where "freewalk_from kend a 512 s = Some (Inr s')" "free_list kend s' (a # xs)"
    "page_update a s s'" "kmem.more s' = kmem.more s"
    by (rule freewalk_loop_end)
  moreover from this have "freed kend {a} s xs s' (a # xs)" using valid_kalloc_ptrD [OF F(4)] by (intro freed_page) auto
  ultimately show ?case unfolding e using i by blast
next
  case (Suc n)
  then have lt: "i < 512" by (simp add: word_less_nat_alt)
  then have u: "unat (i + 1) = Suc (unat i)" by (simp add: word_less_nat_alt unat_word_ariths)
  have dec: "n = 512 - unat (i + 1)" "i + 1 \<le> 512" using Suc(2) lt u by (simp_all add: word_le_nat_alt word_less_nat_alt)
  have range: "{j. i \<le> j \<and> j < 512} = insert i {j. i + 1 \<le> j \<and> j < 512}"
    using lt u by (auto simp: word_le_nat_alt word_less_nat_alt word_unat_eq_iff)
  have up: "i \<le> j \<and> j \<noteq> i" if "i + 1 \<le> j" for j using that u by (auto simp: word_le_nat_alt)
  let ?R = "\<Union>j \<in> {j. i + 1 \<le> j \<and> j < 512}. F j"
  have T: "insert a (\<Union>j \<in> {j. i \<le> j \<and> j < 512}. F j) = insert a (F i \<union> ?R)" unfolding range by auto
  have ei: "load64 (mem s) (a + 8 * i) = entry (mem s) a i" by (simp add: entry_def)
  show ?case
  proof (cases "entry (mem s) a i AND PTE_V = 0")
    case True
    have Fi: "F i = {}" using Suc(6) lt True by auto
    have "freewalk_from kend a i s = freewalk_from kend a (i + 1) s"
      using lt True by (subst freewalk_from.simps) (simp add: ei Let_def)
    moreover have "\<exists>s' ys. freewalk_from kend a (i + 1) s = Some (Inr s') \<and> freed kend (insert a ?R) s xs s' ys"
      using Suc(5) up unfolding T by (intro Suc(1) [OF dec Suc(4)]) (use Suc(6) up in auto)
    ultimately show ?thesis unfolding T Fi by simp
  next
    case False
    then have c: "entry (mem s) a i AND (PTE_R OR PTE_W OR PTE_X) = 0" "dir_tree d (mem s) (PTE2PA (entry (mem s) a i)) (F i)"
      using Suc(6) lt by (auto split: if_splits)
    have Fv: "F i \<subseteq> Collect (valid_kalloc_ptr kend)" "F i \<inter> set xs = {}" using F(3) lt Suc(5) unfolding T by auto
    obtain s1 ys where s1: "freewalk_from kend (PTE2PA (entry (mem s) a i)) 0 s = Some (Inr s1)" "freed kend (F i) s xs s1 ys"
      using IH [OF c(2) Suc(4) Fv] by blast
    have ys: "set ys = F i \<union> set xs" using s1(2) by (simp add: freed_def)
    have ay: "a \<notin> set ys" "a \<notin> F i" using ys F(1) lt Suc(5) by auto
    define s2 where "s2 = upd_mem (store64 (a + 8 * i) 0) s1"
    note fr = clear_entry_frame [OF s1(2) F(4) ay lt, folded s2_def]
    have l: "freewalk_from kend a i s = freewalk_from kend a (i + 1) s2"
      using lt False c(1) s1(1) by (subst freewalk_from.simps) (simp add: ei Let_def s2_def)
    have dj: "F j \<inter> insert a (F i) = {}" if "j < 512" "j \<noteq> i" for j using that F(1,2) lt by auto
    have "?R \<inter> insert a (F i) = {}" using dj up by blast
    then have d2: "insert a ?R \<inter> set ys = {}" using ys ay Suc(5) unfolding T by auto
    have ch: "\<forall>j. i + 1 \<le> j \<longrightarrow> j < 512 \<longrightarrow> (if entry (mem s2) a j AND PTE_V \<noteq> 0
        then entry (mem s2) a j AND (PTE_R OR PTE_W OR PTE_X) = 0 \<and> dir_tree d (mem s2) (PTE2PA (entry (mem s2) a j)) (F j)
        else F j = {})"
    proof (intro allI impI)
      fix j assume j: "i + 1 \<le> j" "j < 512"
      have t: "dir_tree d (mem s2) b (F j)" if "dir_tree d (mem s) b (F j)" for b
        using that by (rule dir_tree_cong) (use F(3) j up [of j] dj [of j] fr(2) valid_kalloc_ptrD in blast)+
      show "if entry (mem s2) a j AND PTE_V \<noteq> 0
        then entry (mem s2) a j AND (PTE_R OR PTE_W OR PTE_X) = 0 \<and> dir_tree d (mem s2) (PTE2PA (entry (mem s2) a j)) (F j)
        else F j = {}"
        using Suc(6) up [OF j(1)] j(2) t by (simp add: fr(4) split: if_splits)
    qed
    obtain s' zs where s': "freewalk_from kend a (i + 1) s2 = Some (Inr s')" "freed kend (insert a ?R) s2 ys s' zs"
      using Suc(1) [OF dec fr(1) d2 ch] by blast
    have "freed kend (insert a (F i \<union> ?R)) s xs s' zs"
      using s'(2) ys fr(2,3) unfolding freed_def by auto
    then show ?thesis unfolding T l using s'(1) by blast
  qed
qed

lemma freewalk_tree:
  assumes "dir_tree d (mem s) a T" and "free_list kend s xs" and "T \<subseteq> Collect (valid_kalloc_ptr kend)" and "T \<inter> set xs = {}"
  shows "\<exists>s' ys. freewalk_from kend a 0 s = Some (Inr s') \<and> freed kend T s xs s' ys"
  using assms
proof (induction d arbitrary: s a T xs)
  case 0
  then have T: "T = {a}" "\<forall>i < 512. entry (mem s) a i AND PTE_V = 0" by auto
  have v: "valid_kalloc_ptr kend a" "a \<notin> set xs" using 0 T(1) by auto
  from 0(2) v obtain s' where f: "freewalk_from kend a 512 s = Some (Inr s')" "free_list kend s' (a # xs)"
    "page_update a s s'" "kmem.more s' = kmem.more s"
    by (rule freewalk_loop_end)
  have "freewalk_from kend a 0 s = freewalk_from kend a 512 s" using T(2) by (intro freewalk_leaf_table) simp_all
  moreover have "freed kend {a} s xs s' (a # xs)" using f valid_kalloc_ptrD [OF v(1)] by (intro freed_page) auto
  ultimately show ?case using f(1) T(1) by auto
next
  case (Suc d)
  obtain F where F: "\<forall>i < 512. if entry (mem s) a i AND PTE_V \<noteq> 0
        then entry (mem s) a i AND (PTE_R OR PTE_W OR PTE_X) = 0 \<and> dir_tree d (mem s) (PTE2PA (entry (mem s) a i)) (F i)
        else F i = {}"
     "\<forall>i < 512. a \<notin> F i" "\<forall>i < 512. \<forall>j < 512. i \<noteq> j \<longrightarrow> F i \<inter> F j = {}"
     "T = insert a (\<Union>i \<in> {i. i < 512}. F i)"
    using Suc(2) by auto
  have T: "T = insert a (\<Union>j \<in> {j. 0 \<le> j \<and> j < 512}. F j)" using F(4) by simp
  have v: "\<forall>j < 512. F j \<subseteq> Collect (valid_kalloc_ptr kend)" "valid_kalloc_ptr kend a" using Suc(4) F(4) by auto
  show ?case unfolding T
    by (rule freewalk_level [OF Suc.IH F(2,3) v]) (use Suc(3,5) F(1) in \<open>simp_all add: F(4)\<close>)
qed

lemma node_append: "node m a (p @ q) = (case node m a p of None \<Rightarrow> None | Some b \<Rightarrow> node m b q)"
  by (induction p arbitrary: a) (auto split: option.split)

definition below :: "memory \<Rightarrow> u64 \<Rightarrow> u64 list \<Rightarrow> u64 set" where
  "below m root p = {b. \<exists>q. is_path (p @ q) \<and> node m root (p @ q) = Some b}"

definition no_leaf :: "memory \<Rightarrow> u64 \<Rightarrow> bool" where
  "no_leaf m root \<longleftrightarrow> (\<forall>i j k a. i < 512 \<longrightarrow> j < 512 \<longrightarrow> k < 512 \<longrightarrow> node m root [i, j] = Some a \<longrightarrow> entry m a k AND PTE_V = 0)"

lemma below_tree_step:
  assumes wf: "wf_pt kend m root" and p: "is_path p" "length p < 2" "node m root p = Some a"
    and IH: "\<And>i b. i < 512 \<Longrightarrow> node m root (p @ [i]) = Some b \<Longrightarrow> dir_tree d m b (below m root (p @ [i]))"
  shows "dir_tree (Suc d) m a (below m root p)"
proof -
  have snoc: "is_path (p @ [i])" if "i < 512" for i using that p by (auto simp: is_path_def)
  have nd: "node m root (p @ [i]) = child m a i" for i using p(3) by (simp add: node_append split: option.split)
  have inj: "r = r'" if "is_path r" "is_path r'" "node m root r = Some b" "node m root r' = Some b" for r r' b
    using wf_ptD(2) [OF wf that] .
  have split: "below m root p = insert a (\<Union>i \<in> {i. i < 512}. below m root (p @ [i]))"
  proof (intro equalityI subsetI)
    fix b assume "b \<in> below m root p"
    then obtain q where q: "is_path (p @ q)" "node m root (p @ q) = Some b" by (auto simp: below_def)
    show "b \<in> insert a (\<Union>i \<in> {i. i < 512}. below m root (p @ [i]))"
    proof (cases q)
      case (Cons i q')
      then have "i < 512" using q(1) by (auto simp: is_path_def)
      then show ?thesis using Cons q by (auto simp: below_def)
    qed (use q p in simp)
  next
    fix b assume "b \<in> insert a (\<Union>i \<in> {i. i < 512}. below m root (p @ [i]))"
    then show "b \<in> below m root p" using p unfolding below_def by (auto intro: exI [of _ "[]"])
  qed
  have ent: "if entry m a i AND PTE_V \<noteq> 0
      then entry m a i AND (PTE_R OR PTE_W OR PTE_X) = 0 \<and> dir_tree d m (PTE2PA (entry m a i)) (below m root (p @ [i]))
      else below m root (p @ [i]) = {}" if i: "i < 512" for i
  proof (cases "entry m a i AND PTE_V = 0")
    case True
    then have "node m root (p @ [i]) = None" using nd by (simp add: child_def)
    then have "node m root ((p @ [i]) @ q) = None" for q by (subst node_append) simp
    then show ?thesis using True by (simp add: below_def)
  next
    case False
    then show ?thesis using wf p i IH [OF i] nd [of i] unfolding wf_pt_def dir_ok_def by (simp add: child_def)
  qed
  have fresh: "a \<notin> below m root (p @ [i])" if "i < 512" for i
  proof
    assume "a \<in> below m root (p @ [i])"
    then obtain q where "is_path ((p @ [i]) @ q)" "node m root ((p @ [i]) @ q) = Some a" by (auto simp: below_def)
    then have "p = (p @ [i]) @ q" using inj [OF p(1) _ p(3)] by blast
    then show False by simp
  qed
  have disj: "below m root (p @ [i]) \<inter> below m root (p @ [j]) = {}" if "i \<noteq> j" for i j
  proof (rule ccontr)
    assume "below m root (p @ [i]) \<inter> below m root (p @ [j]) \<noteq> {}"
    then obtain b q r where "is_path ((p @ [i]) @ q)" "node m root ((p @ [i]) @ q) = Some b"
      "is_path ((p @ [j]) @ r)" "node m root ((p @ [j]) @ r) = Some b" by (auto simp: below_def)
    then have "(p @ [i]) @ q = (p @ [j]) @ r" using inj by blast
    then show False using that by simp
  qed
  show ?thesis unfolding dir_tree.simps
    by (rule exI [of _ "\<lambda>i. below m root (p @ [i])"]) (use ent fresh disj split in blast)
qed

lemma tree_of_pt:
  assumes wf: "wf_pt kend m root" and nl: "no_leaf m root"
  shows "dir_tree 2 m root (tables m root)"
proof -
  have 0: "dir_tree 0 m b (below m root [i, j])" if "i < 512" "j < 512" "node m root [i, j] = Some b" for i j b
  proof -
    have q: "is_path ([i, j] @ q) \<longleftrightarrow> q = []" for q using that by (cases q) auto
    have "below m root [i, j] = {b}" using that(3) unfolding below_def q by (auto simp del: node.simps)
    then show ?thesis using nl that unfolding no_leaf_def by auto
  qed
  have 1: "dir_tree (Suc 0) m b (below m root [i])" if "i < 512" "node m root [i] = Some b" for i b
    by (rule below_tree_step [OF wf _ _ that(2)]) (use that(1) 0 in \<open>simp_all del: node.simps dir_tree.simps\<close>)
  have "dir_tree (Suc (Suc 0)) m root (below m root [])"
    by (rule below_tree_step [OF wf]) (use 1 in \<open>simp_all del: dir_tree.simps node.simps(2)\<close>)
  moreover have "below m root [] = tables m root" by (simp add: below_def tables_def)
  ultimately show ?thesis by (simp only: numeral_2_eq_2)
qed

lemma PX_join:
  assumes "i < 256" "j < 512" "k < (512 :: u64)"
  obtains va where "page_aligned va" "va < MAXVA" "PX 2 va = i" "PX 1 va = j" "PX 0 va = k"
proof -
  let ?va = "push_bit 30 i OR push_bit 21 j OR push_bit 12 k"
  have i: "n < 8" if "bit i n" for n
    by (rule ccontr) (use that word_high_bits [of i 8 n] assms(1) in \<open>simp add: word_less_nat_alt\<close>)
  have j: "n < 9" if "bit j n" for n
    by (rule ccontr) (use that word_high_bits [of j 9 n] assms(2) in \<open>simp add: word_less_nat_alt\<close>)
  have k: "n < 9" if "bit k n" for n
    by (rule ccontr) (use that word_high_bits [of k 9 n] assms(3) in \<open>simp add: word_less_nat_alt\<close>)
  have b: "bit ?va n \<longleftrightarrow> n < 64 \<and> (30 \<le> n \<and> bit i (n - 30) \<or> 21 \<le> n \<and> bit j (n - 21) \<or> 12 \<le> n \<and> bit k (n - 12))" for n
    by (auto simp: bit_simps)
  have "\<not> bit ?va n" if "38 \<le> n" for n unfolding b using that i [of "n - 30"] j [of "n - 21"] k [of "n - 12"] by auto
  then have "unat ?va < 2 ^ 38" by (rule word_bounded_bits)
  then have lt: "?va < MAXVA" by (simp add: word_less_nat_alt MAXVA_def)
  have "take_bit 12 ?va = 0" by (rule bit_word_eqI) (auto simp: bit_simps)
  then have al: "page_aligned ?va" by (simp add: page_aligned_def take_bit_eq_mod)
  have "PX 2 ?va = i"
  proof (rule bit_word_eqI)
    fix n assume "n < LENGTH(64)"
    show "bit (PX 2 ?va) n = bit i n" unfolding bit_PX b
      using i [of n] j [of "9 + n"] k [of "18 + n"] by auto
  qed
  moreover have "PX 1 ?va = j"
  proof (rule bit_word_eqI)
    fix n assume "n < LENGTH(64)"
    show "bit (PX 1 ?va) n = bit j n" unfolding bit_PX b
      using j [of n] k [of "9 + n"] by auto
  qed
  moreover have "PX 0 ?va = k"
  proof (rule bit_word_eqI)
    fix n assume "n < LENGTH(64)"
    show "bit (PX 0 ?va) n = bit k n" unfolding bit_PX b using k [of n] by auto
  qed
  ultimately show thesis using that al lt by blast
qed

lemma no_leaf_unmapped:
  assumes wf: "wf_pt kend m root" and "\<And>va. \<not> mapped m root va"
  shows "no_leaf m root"
  unfolding no_leaf_def
proof (intro allI impI)
  fix i j k a :: u64 assume b: "i < 512" "j < 512" "k < 512" and n: "node m root [i, j] = Some a"
  then have "child m root i \<noteq> None" by (auto split: option.splits)
  then have "entry m root i AND PTE_V \<noteq> 0" by (auto simp: child_def split: if_splits)
  then have "i < 256" using wf b(1) unfolding wf_pt_def dir_ok_def by (auto dest: spec [of _ "[]"])
  with b(2,3) obtain va where v: "page_aligned va" "va < MAXVA" "PX 2 va = i" "PX 1 va = j" "PX 0 va = k"
    using PX_join by metis
  have "amap m root va = entry m a k" using v n by (simp add: amap_def leaf_def del: node.simps)
  then show "entry m a k AND PTE_V = 0" using assms(2) [of va] by (simp add: mapped_def)
qed

section \<open>Freeing an address space\<close>

lemma uvmfree_spec:
  assumes inv: "as_inv kend lim s root xs" and lim: "page_aligned lim" "sz \<le> lim"
    and all: "\<And>va. mapped (mem s) root va \<Longrightarrow> va < sz"
  obtains s' ys where "uvmfree kend root sz s = Inr s'" "free_list kend s' ys"
    "set ys = owned (mem s) root lim xs" "\<forall>x. PGROUNDDOWN x \<notin> owned (mem s) root lim xs \<longrightarrow> mem s' x = mem s x"
    "kmem.more s' = kmem.more s"
proof -
  obtain s1 ys where u: "(if 0 < sz then uvmunmap kend root 0 (PGROUNDUP sz div 4096) True s else Inr s) = Inr s1"
    "as_step kend lim root s xs s1 ys" "\<And>va. \<not> mapped (mem s1) root va"
  proof (cases "0 < sz")
    case True
    have l38: "unat sz \<le> 2 ^ 38"
      using as_invD(2) [OF inv] lim(2) by (simp add: MAXVA_def word_le_nat_alt)
    have b: "PGROUNDUP sz \<le> lim" using aligned_PGROUNDUP_le(1) [OF lim(1) l38] lim(2) by simp
    from inv page_aligned_PGROUNDUP b show thesis
    proof (rule uvmunmap_from_0)
      fix s1 ys assume w: "uvmunmap kend root 0 (PGROUNDUP sz div 4096) True s = Inr s1" "as_step kend lim root s xs s1 ys"
        "rolled_back root 0 (PGROUNDUP sz) (mem s) (mem s1)"
      have "va < PGROUNDUP sz" if "mapped (mem s) root va" for va
        using aligned_PGROUNDUP_le(2) [of va sz] mapped_aligned [OF that] all [OF that] l38 by simp
      then have "\<not> mapped (mem s1) root va" for va
        using w(3) unfolding rolled_back_def mapped_def by (cases "mapped (mem s) root va") (auto simp: mapped_def)
      then show thesis using that [of s1 ys] w(1,2) True by simp
    qed
  next
    case False
    then have "\<not> mapped (mem s) root va" for va using all [of va] by (metis not_less_zero word_gt_0 word_not_simps(1))
    then show thesis using that [of s xs] as_step_refl [OF inv] False by simp
  qed
  note inv1 = as_step_inv [OF u(2)]
  have fr: "frames (mem s1) root lim = {}" using u(3) by (simp add: frames_def vdom_def)
  have own: "tables (mem s1) root \<union> set ys = owned (mem s) root lim xs"
    using u(2) fr by (simp add: as_step_def owned_def)
  have t: "dir_tree 2 (mem s1) root (tables (mem s1) root)"
    using tree_of_pt [OF as_invD(3) [OF inv1] no_leaf_unmapped [OF as_invD(3) [OF inv1] u(3)]] .
  have "tables (mem s1) root \<subseteq> Collect (valid_kalloc_ptr kend)" using as_invD(3) [OF inv1] by (simp add: wf_pt_def)
  from freewalk_tree [OF t as_invD(4) [OF inv1] this as_invD(6) [OF inv1]]
  obtain s' zs where w: "freewalk_from kend root 0 s1 = Some (Inr s')" "freed kend (tables (mem s1) root) s1 ys s' zs" by blast
  show thesis
  proof (rule that)
    show "uvmfree kend root sz s = Inr s'" using w(1) unfolding uvmfree_def u(1) by (simp add: freewalk_def)
    show "free_list kend s' zs" using w(2) by (simp add: freed_def)
    show "set zs = owned (mem s) root lim xs" using w(2) own by (simp add: freed_def)
    show "kmem.more s' = kmem.more s" using w(2) u(2) by (simp add: freed_def as_step_def)
    show "\<forall>x. PGROUNDDOWN x \<notin> owned (mem s) root lim xs \<longrightarrow> mem s' x = mem s x"
    proof (intro allI impI)
      fix x assume x: "PGROUNDDOWN x \<notin> owned (mem s) root lim xs"
      then have "mem s' x = mem s1 x" using w(2) own by (auto simp: freed_def)
      then show "mem s' x = mem s x" using x u(2) by (simp add: as_step_def)
    qed
  qed
qed

section \<open>Properties\<close>

text \<open>C22. \<^verbatim>\<open>uvmfree\<close> of an address space all of whose pages lie below \<^verbatim>\<open>sz\<close> terminates without a
  panic, and afterwards the free list holds exactly the pages it held before together with
  every user page and every table page of the address space, each once. Nothing else changes.\<close>

theorem uvmfree_no_leak:
  assumes "as_inv kend lim s root xs" and "page_aligned lim" "sz \<le> lim"
    and "\<forall>va. mapped (mem s) root va \<longrightarrow> va < sz"
  shows "\<exists>s' ys. uvmfree kend root sz s = Inr s' \<and> free_list kend s' ys \<and> distinct ys
    \<and> set ys = set xs \<union> tables (mem s) root \<union> frames (mem s) root lim
    \<and> free_pages s' = of_nat (length ys)
    \<and> (\<forall>x. PGROUNDDOWN x \<notin> set ys \<longrightarrow> mem s' x = mem s x)"
proof -
  from assms(1-3) assms(4) [rule_format] obtain s' ys where u: "uvmfree kend root sz s = Inr s'" "free_list kend s' ys"
    "set ys = owned (mem s) root lim xs" "\<forall>x. PGROUNDDOWN x \<notin> owned (mem s) root lim xs \<longrightarrow> mem s' x = mem s x"
    by (rule uvmfree_spec)
  have "distinct ys" "free_pages s' = of_nat (length ys)" using u(2) by (simp_all add: free_list_def)
  moreover have "owned (mem s) root lim xs = set xs \<union> tables (mem s) root \<union> frames (mem s) root lim"
    by (auto simp: owned_def)
  ultimately show ?thesis using u by (intro exI [of _ s'] exI [of _ ys]) simp
qed

theorem uvmfree_no_leak_witness:
  "\<exists>s0 root s1 r s2 xs s' ys. kinit demo_kend demo_kmem = Inr s0 \<and> uvmcreate s0 = (root, s1)
    \<and> uvmalloc demo_kend root 0 0x3000 4 s1 = Inr (r, s2)
    \<and> uvmfree demo_kend root 0x3000 s2 = Inr s' \<and> free_list demo_kend s' ys
    \<and> set ys = set xs \<union> tables (mem s2) root \<union> frames (mem s2) root 0x100000"
proof -
  let ?L = "0x100000 :: u64"
  from demo_pages(1,3) obtain s0 root s1 xs where b: "kinit demo_kend demo_kmem = Inr s0" "uvmcreate s0 = (root, s1)"
    "pt_inv demo_kend s1 root xs" "amap (mem s1) root = (\<lambda>_. 0)"
    by (rule boot_pagetable)
  have inv: "as_inv demo_kend ?L s1 root xs" by (rule as_inv_empty(1) [OF b(3,4) demo_pages(4)])
  have "(0 :: u64) \<le> 0x3000" "(0x3000 :: u64) \<le> ?L" "ucast (PTE_R OR PTE_U) OR 4 < (1024 :: u32)"
    "\<forall>va. 0 \<le> va \<longrightarrow> va < 0x3000 \<longrightarrow> amap (mem s1) root va = 0"
    using b(4) by (simp_all add: PTE_R_def PTE_U_def)
  from uvmalloc_spec [OF inv demo_pages(5) this(1,2) refl this(3,4)] obtain r s2 ys
    where a: "uvmalloc demo_kend root 0 0x3000 4 s1 = Inr (r, s2)" "as_step demo_kend ?L root s1 xs s2 ys"
    "r = 0x3000 \<and> grown root 0 0x3000 (ucast (PTE_R OR PTE_U) OR 4) (mem s1) (mem s2) \<or> r = 0 \<and> amap (mem s2) root = amap (mem s1) root"
    by blast
  have "\<forall>va. mapped (mem s2) root va \<longrightarrow> va < 0x3000"
    using a(3) b(4) unfolding mapped_def grown_def by (auto split: if_splits)
  from uvmfree_no_leak [OF as_step_inv [OF a(2)] demo_pages(5) \<open>0x3000 \<le> ?L\<close> this] b(1,2) a(1)
  show ?thesis by blast
qed

end
