(* ===== verification/Proc.thy ===== *)
theory Proc
  imports File Freewalk
begin

text \<open>
  Processes, \<^verbatim>\<open>src/kernel/proc.c\<close>: allocation and freeing of process slots, fork, exit, wait, kill and
  the scheduler's choice. A section under \<^verbatim>\<open>p->lock\<close> or \<^verbatim>\<open>wait_lock\<close> is one step. The addresses
  \<^verbatim>\<open>trampoline\<close> and \<^verbatim>\<open>forkret\<close> are parameters; registers saved in the trapframe lie in the page
  \<^verbatim>\<open>p->trapframe\<close>. \<^verbatim>\<open>sleep\<close>, \<^verbatim>\<open>wakeup\<close>, \<^verbatim>\<open>sched\<close> and the copies are in \<^verbatim>\<open>Kstate\<close>.
\<close>

section \<open>Operations\<close>

definition procinit :: "kernel \<Rightarrow> kernel" where
  "procinit s = fold (\<lambda>i. upd_proc i (\<lambda>p. p\<lparr>p_state := UNUSED, p_kstack := KSTACK i\<rparr>)) [0..<NPROC] s"

definition allocpid :: "kernel \<Rightarrow> u32 \<times> kernel" where
  "allocpid s = (nextpid s, s\<lparr>nextpid := nextpid s + 1\<rparr>)"

definition proc_pagetable :: "u64 \<Rightarrow> u64 \<Rightarrow> u64 \<Rightarrow> kernel \<Rightarrow> (u64 \<times> kernel) res" where
  "proc_pagetable kend trampoline trapframe s =
     (case uvmcreate s of (pagetable, s1) \<Rightarrow>
      if pagetable = 0 then Inr (0, s1)
      else rbind (mappages pagetable TRAMPOLINE 4096 trampoline (ucast (or PTE_R PTE_X)) s1) (\<lambda>(r, s2).
           if r < 0 then rbind (uvmfree kend pagetable 0 s2) (\<lambda>s3. Inr (0, s3))
           else rbind (mappages pagetable TRAPFRAME 4096 trapframe (ucast (or PTE_R PTE_W)) s2) (\<lambda>(r, s3).
                if r < 0
                then rbind (uvmunmap kend pagetable TRAMPOLINE 1 False s3) (\<lambda>s4.
                     rbind (uvmfree kend pagetable 0 s4) (\<lambda>s5. Inr (0, s5)))
                else Inr (pagetable, s3))))"

definition proc_freepagetable :: "u64 \<Rightarrow> u64 \<Rightarrow> u64 \<Rightarrow> kernel \<Rightarrow> kernel res" where
  "proc_freepagetable kend pagetable sz s =
     rbind (uvmunmap kend pagetable TRAMPOLINE 1 False s) (\<lambda>s1.
     rbind (uvmunmap kend pagetable TRAPFRAME 1 False s1) (uvmfree kend pagetable sz))"

definition freeproc :: "u64 \<Rightarrow> nat \<Rightarrow> kernel \<Rightarrow> kernel res" where
  "freeproc kend i s =
     rbind (if p_trapframe (procs s i) \<noteq> 0 then kfree kend (p_trapframe (procs s i)) s else Inr s) (\<lambda>s1.
     let s2 = upd_proc i (\<lambda>p. p\<lparr>p_trapframe := 0\<rparr>) s1
     in rbind (if p_pagetable (procs s2 i) \<noteq> 0
               then proc_freepagetable kend (p_pagetable (procs s2 i)) (p_sz (procs s2 i)) s2 else Inr s2) (\<lambda>s3.
        Inr (upd_proc i (\<lambda>p. p\<lparr>p_pagetable := 0, p_sz := 0, p_pid := 0, p_parent := None, p_name := (p_name p)[0 := 0],
              p_chan := None, p_killed := False, p_xstate := 0, p_state := UNUSED\<rparr>) s3)))"

definition allocproc :: "u64 \<Rightarrow> u64 \<Rightarrow> u64 \<Rightarrow> kernel \<Rightarrow> (nat option \<times> kernel) res" where
  "allocproc kend trampoline forkret s =
     (case find (\<lambda>i. p_state (procs s i) = UNUSED) [0..<NPROC] of
        None \<Rightarrow> Inr (None, s)
      | Some i \<Rightarrow>
         (case allocpid s of (pid, s1) \<Rightarrow>
          case kalloc (upd_proc i (\<lambda>p. p\<lparr>p_pid := pid, p_state := USED\<rparr>) s1) of (tf, s2) \<Rightarrow>
          let s3 = upd_proc i (\<lambda>p. p\<lparr>p_trapframe := tf\<rparr>) s2
          in if tf = 0 then rbind (freeproc kend i s3) (\<lambda>s4. Inr (None, s4))
             else rbind (proc_pagetable kend trampoline tf s3) (\<lambda>(pt, s4).
                  let s5 = upd_proc i (\<lambda>p. p\<lparr>p_pagetable := pt\<rparr>) s4
                  in if pt = 0 then rbind (freeproc kend i s5) (\<lambda>s6. Inr (None, s6))
                     else Inr (Some i, upd_proc i (\<lambda>p. p\<lparr>p_context := \<lparr>c_ra = forkret, c_sp = p_kstack p + 4096\<rparr>\<rparr>) s5))))"

definition userinit :: "u64 \<Rightarrow> u64 \<Rightarrow> u64 \<Rightarrow> kernel \<Rightarrow> kernel res" where
  "userinit kend trampoline forkret s =
     rbind (allocproc kend trampoline forkret s) (\<lambda>(pp, s1).
     case pp of None \<Rightarrow> Inl Undef
     | Some i \<Rightarrow>
         rbind (namei kend [slash] (s1\<lparr>initproc := Some i\<rparr>)) (\<lambda>(cwd, s2).
         Inr (upd_proc i (\<lambda>p. p\<lparr>p_cwd := cwd, p_state := RUNNABLE\<rparr>) s2)))"

definition growproc :: "u64 \<Rightarrow> int \<Rightarrow> kernel \<Rightarrow> (int \<times> kernel) res" where
  "growproc kend n s =
     (case me s of None \<Rightarrow> Inl Undef
      | Some i \<Rightarrow>
         let p = procs s i; sz = p_sz p
         in if 0 < n
            then rbind (uvmalloc kend (p_pagetable p) sz (sz + word_of_int n) (ucast PTE_W) s) (\<lambda>(sz', s1).
                 if sz' = 0 then Inr (-1, s1) else Inr (0, upd_proc i (\<lambda>p. p\<lparr>p_sz := sz'\<rparr>) s1))
            else if n < 0
            then rbind (uvmdealloc kend (p_pagetable p) sz (sz + word_of_int n) s) (\<lambda>(sz', s1).
                 Inr (0, upd_proc i (\<lambda>p. p\<lparr>p_sz := sz'\<rparr>) s1))
            else Inr (0, upd_proc i (\<lambda>p. p\<lparr>p_sz := sz\<rparr>) s))"

text \<open>\<^verbatim>\<open>safestrcpy(dst, t, n)\<close> into a buffer.\<close>

definition safestrcpy_buf :: "nat \<Rightarrow> u8 list \<Rightarrow> u8 list \<Rightarrow> u8 list" where
  "safestrcpy_buf n t dst = put_bytes 0 (takeWhile (\<lambda>c. c \<noteq> 0) (take (n - 1) t) @ [0]) dst"

definition dup_ofile :: "nat \<Rightarrow> nat \<Rightarrow> nat \<Rightarrow> kernel \<Rightarrow> kernel res" where
  "dup_ofile i np fd s =
     (if p_ofile (procs s i) ! fd \<noteq> None
      then rbind (filedup (p_ofile (procs s i) ! fd) s) (\<lambda>(f, s1).
           Inr (upd_proc np (\<lambda>p. p\<lparr>p_ofile := (p_ofile p)[fd := f]\<rparr>) s1))
      else Inr s)"

abbreviation TF_A0 :: u64 where "TF_A0 \<equiv> 112"

definition kfork :: "u64 \<Rightarrow> u64 \<Rightarrow> u64 \<Rightarrow> kernel \<Rightarrow> (int \<times> kernel) res" where
  "kfork kend trampoline forkret s =
     (case me s of None \<Rightarrow> Inl Undef
      | Some i \<Rightarrow>
         rbind (allocproc kend trampoline forkret s) (\<lambda>(npp, s1).
         case npp of None \<Rightarrow> Inr (-1, s1)
         | Some np \<Rightarrow>
            rbind (uvmcopy kend (p_pagetable (procs s1 i)) (p_pagetable (procs s1 np)) (p_sz (procs s1 i)) s1) (\<lambda>(r, s2).
            if r < 0 then rbind (freeproc kend np s2) (\<lambda>s3. Inr (-1, s3))
            else
              let s3 = upd_proc np (\<lambda>p. p\<lparr>p_sz := p_sz (procs s2 i)\<rparr>) s2;
                  ptf = p_trapframe (procs s3 i); ctf = p_trapframe (procs s3 np);
                  s4 = upd_mem (store_bytes ctf (load_bytes ptf 288 (mem s3))) s3;
                  s5 = upd_mem (store64 (ctf + TF_A0) 0) s4
              in rbind (rfold (dup_ofile i np) [0..<NOFILE] s5) (\<lambda>s6.
                 case p_cwd (procs s6 i) of None \<Rightarrow> Inl Undef
                 | Some cwd \<Rightarrow>
                    (case idup cwd s6 of (c, s7) \<Rightarrow>
                     let s8 = upd_proc np (\<lambda>p. p\<lparr>p_cwd := Some c, p_name := safestrcpy_buf 16 (p_name (procs s7 i)) (p_name p)\<rparr>) s7;
                         pid = p_pid (procs s8 np);
                         s9 = upd_proc np (\<lambda>p. p\<lparr>p_parent := Some i\<rparr>) s8
                     in Inr (sint pid, upd_proc np (\<lambda>p. p\<lparr>p_state := RUNNABLE\<rparr>) s9))))))"

definition wakeup_proc :: "nat option \<Rightarrow> kernel \<Rightarrow> kernel" where
  "wakeup_proc pp s = (case pp of None \<Rightarrow> s | Some i \<Rightarrow> wakeup (ProcChan i) s)"

definition reparent :: "nat \<Rightarrow> kernel \<Rightarrow> kernel" where
  "reparent i s =
     fold (\<lambda>j s. if p_parent (procs s j) = Some i
                 then wakeup_proc (initproc s) (upd_proc j (\<lambda>p. p\<lparr>p_parent := initproc s\<rparr>) s) else s) [0..<NPROC] s"

definition close_ofile :: "u64 \<Rightarrow> nat \<Rightarrow> nat \<Rightarrow> kernel \<Rightarrow> kernel res" where
  "close_ofile kend i fd s =
     (if p_ofile (procs s i) ! fd \<noteq> None
      then rbind (fileclose kend (p_ofile (procs s i) ! fd) s) (\<lambda>s1.
           Inr (upd_proc i (\<lambda>p. p\<lparr>p_ofile := (p_ofile p)[fd := None]\<rparr>) s1))
      else Inr s)"

definition kexit :: "u64 \<Rightarrow> u32 \<Rightarrow> kernel \<Rightarrow> kernel res" where
  "kexit kend status s =
     (case me s of None \<Rightarrow> Inl Undef
      | Some i \<Rightarrow>
         if initproc s = Some i then Inl (Panic ''init exiting'')
         else rbind (rfold (close_ofile kend i) [0..<NOFILE] s) (\<lambda>s1.
              rbind (begin_op s1) (\<lambda>s2.
              case p_cwd (procs s2 i) of None \<Rightarrow> Inl Undef
              | Some cwd \<Rightarrow>
                 rbind (iput cwd s2) (\<lambda>s3. rbind (end_op s3) (\<lambda>s4.
                 let s5 = reparent i (upd_proc i (\<lambda>p. p\<lparr>p_cwd := None\<rparr>) s4);
                     s6 = wakeup_proc (p_parent (procs s5 i)) s5
                 in sched (upd_proc i (\<lambda>p. p\<lparr>p_xstate := status, p_state := ZOMBIE\<rparr>) s6))))))"

definition kwait :: "u64 \<Rightarrow> u64 \<Rightarrow> kernel \<Rightarrow> (int outcome \<times> kernel) res" where
  "kwait kend addr s =
     (case me s of None \<Rightarrow> Inl Undef
      | Some i \<Rightarrow>
        (case find (\<lambda>j. p_parent (procs s j) = Some i \<and> p_state (procs s j) = ZOMBIE) [0..<NPROC] of
           Some j \<Rightarrow>
             rbind (if addr \<noteq> 0
                    then copyout kend (p_sz (procs s i)) (p_pagetable (procs s i)) (p_pagetable (procs s i)) addr
                           (le_bytes 4 (p_xstate (procs s j))) s
                    else Inr (0, s)) (\<lambda>(r, s1).
             if r < 0 then Inr (Ret (-1), s1)
             else rbind (freeproc kend j s1) (\<lambda>s2. Inr (Ret (sint (p_pid (procs s j))), s2)))
         | None \<Rightarrow>
             if (\<forall>j \<in> set [0..<NPROC]. p_parent (procs s j) \<noteq> Some i) \<or> killed (procs s i) then Inr (Ret (-1), s)
             else rbind (sleep (ProcChan i) s) (\<lambda>s1. Inr (Sleep 0 [], s1))))"

text \<open>The scheduler switches to a process that is ready; the rest of its loop only searches for one.\<close>

definition run_proc :: "nat \<Rightarrow> kernel \<Rightarrow> kernel" where
  "run_proc i s = (upd_proc i (\<lambda>p. p\<lparr>p_state := RUNNING, p_chan := None\<rparr>) s)\<lparr>me := Some i, cur_pid := p_pid (procs s i)\<rparr>"

definition scheduler :: "nat \<Rightarrow> kernel \<Rightarrow> (nat \<times> kernel) option" where
  "scheduler from s =
     (case find (\<lambda>i. p_state (procs s i) = RUNNABLE) ([from..<NPROC] @ [0..<from]) of
        None \<Rightarrow> None | Some i \<Rightarrow> Some (i, run_proc i s))"

definition yield :: "kernel \<Rightarrow> kernel res" where
  "yield s = (case me s of None \<Rightarrow> Inl Undef | Some i \<Rightarrow> sched (upd_proc i (\<lambda>p. p\<lparr>p_state := RUNNABLE\<rparr>) s))"

definition kkill :: "u32 \<Rightarrow> kernel \<Rightarrow> int \<times> kernel" where
  "kkill pid s =
     (case find (\<lambda>i. p_pid (procs s i) = pid) [0..<NPROC] of
        None \<Rightarrow> (-1, s)
      | Some i \<Rightarrow>
         (0, upd_proc i (\<lambda>p. if p_state p = SLEEPING then p\<lparr>p_killed := True, p_state := RUNNABLE\<rparr>
                             else p\<lparr>p_killed := True\<rparr>) s))"

definition setkilled :: "nat \<Rightarrow> kernel \<Rightarrow> kernel" where
  "setkilled i s = upd_proc i (\<lambda>p. p\<lparr>p_killed := True\<rparr>) s"

end
