(* ===== verification/Sysarg.thy ===== *)
theory Sysarg
  imports Proc
begin

text \<open>
  The arguments of system calls, the first half of \<^verbatim>\<open>src/kernel/syscall.c\<close>: reading the argument
  registers from the trap frame of the running process and fetching words and strings from its
  memory. A C string in a buffer of the kernel stack is the list of bytes copied into it. The debug
  output is not modelled.
\<close>

section \<open>Trap frame\<close>

text \<open>Offsets of the saved registers in \<^verbatim>\<open>struct trapframe\<close> (\<^verbatim>\<open>proc.h\<close>).\<close>

abbreviation TF_KERNEL_SP :: u64 where "TF_KERNEL_SP \<equiv> 8"
abbreviation TF_KERNEL_TRAP :: u64 where "TF_KERNEL_TRAP \<equiv> 16"
abbreviation TF_EPC :: u64 where "TF_EPC \<equiv> 24"
abbreviation TF_KERNEL_HARTID :: u64 where "TF_KERNEL_HARTID \<equiv> 32"
abbreviation TF_SP :: u64 where "TF_SP \<equiv> 48"
abbreviation TF_A1 :: u64 where "TF_A1 \<equiv> 120"
abbreviation TF_A7 :: u64 where "TF_A7 \<equiv> 168"

definition tf_get :: "u64 \<Rightarrow> kernel \<Rightarrow> u64 res" where
  "tf_get off s = rbind (myproc s) (\<lambda>p. Inr (load64 (mem s) (p_trapframe p + off)))"

definition tf_set :: "u64 \<Rightarrow> u64 \<Rightarrow> kernel \<Rightarrow> kernel res" where
  "tf_set off v s = rbind (myproc s) (\<lambda>p. Inr (upd_mem (store64 (p_trapframe p + off) v) s))"

section \<open>Fetching\<close>

definition fetchaddr :: "u64 \<Rightarrow> u64 \<Rightarrow> kernel \<Rightarrow> (int \<times> u64 \<times> kernel) res" where
  "fetchaddr kend addr s =
     rbind (myproc s) (\<lambda>p.
     if p_sz p \<le> addr \<or> p_sz p < addr + 8 then Inr (-1, 0, s)
     else rbind (copyin kend (p_sz p) (p_pagetable p) (p_pagetable p) addr 8 s) (\<lambda>(r, bs, s1).
          if r \<noteq> 0 then Inr (-1, 0, s1) else Inr (0, le_word bs, s1)))"

text \<open>\<^verbatim>\<open>strlen\<close> of a buffer on the kernel stack.\<close>

definition strlen_buf :: "u8 list \<Rightarrow> kernel \<Rightarrow> nat \<times> kernel" where
  "strlen_buf bs s =
     (strlen_loop (char_at bs) 0, upd_stats (\<lambda>t. t\<lparr>strlen_calls := strlen_calls t + 1\<rparr>) s)"

definition fetchstr :: "u64 \<Rightarrow> nat \<Rightarrow> kernel \<Rightarrow> (int \<times> u8 list \<times> kernel) res" where
  "fetchstr addr mx s =
     rbind (myproc s) (\<lambda>p.
     rbind (copyinstr (p_pagetable p) addr mx s) (\<lambda>(r, buf).
     if r < 0 then Inr (-1, buf, s)
     else case strlen_buf buf s of (len, s1) \<Rightarrow> Inr (int len, buf, s1)))"

definition argraw :: "nat \<Rightarrow> kernel \<Rightarrow> u64 res" where
  "argraw n s = (if n < 6 then tf_get (TF_A0 + 8 * of_nat n) s else Inl (Panic ''argraw''))"

definition argint :: "nat \<Rightarrow> kernel \<Rightarrow> int res" where
  "argint n s = rbind (argraw n s) (\<lambda>v. Inr (sint (ucast v :: u32)))"

definition argaddr :: "nat \<Rightarrow> kernel \<Rightarrow> u64 res" where
  "argaddr n s = argraw n s"

definition argstr :: "nat \<Rightarrow> nat \<Rightarrow> kernel \<Rightarrow> (int \<times> u8 list \<times> kernel) res" where
  "argstr n mx s = rbind (argaddr n s) (\<lambda>addr. fetchstr addr mx s)"

text \<open>The string in a buffer: the bytes before the terminating zero.\<close>

definition cstring :: "u8 list \<Rightarrow> u8 list" where
  "cstring bs = takeWhile (\<lambda>c. c \<noteq> 0) bs"

abbreviation MAXPATH :: nat where "MAXPATH \<equiv> 128"
abbreviation MAXARG :: nat where "MAXARG \<equiv> 32"

section \<open>What a system call is told\<close>

lemma strlen_loop_cstring:
  assumes "n \<le> length (cstring bs)" and "length (cstring bs) \<le> 4096" and "length (cstring bs) < length bs"
  shows "strlen_loop (char_at bs) n = length (cstring bs)"
  using assms(1)
proof (induction "length (cstring bs) - n" arbitrary: n)
  case 0
  then have n: "n = length (cstring bs)" by simp
  have "bs ! length (takeWhile (\<lambda>c. c \<noteq> 0) bs) = 0"
    using assms(3) nth_length_takeWhile [of "\<lambda>c. c \<noteq> 0" bs] by (simp add: cstring_def)
  then have "char_at bs n = 0" using assms(3) n by (simp add: char_at_def cstring_def)
  then show ?case using n by (subst strlen_loop.simps) simp
next
  case (Suc k)
  then have n: "n < length (cstring bs)" by simp
  then have "bs ! n \<noteq> 0" and "n < length bs"
    using set_takeWhileD [of "bs ! n" "\<lambda>c. c \<noteq> 0" bs] takeWhile_nth [of n "\<lambda>c. c \<noteq> 0" bs] assms(3)
    by (metis cstring_def nth_mem) (use n assms(3) in linarith)
  moreover have "\<not> 4096 < n" using n assms(2) by simp
  ultimately show ?case using Suc.hyps(1) [of "Suc n"] Suc.hyps(2) n
    by (simp add: strlen_loop.simps [of _ n] char_at_def)
qed

lemma cstring_append_zero: "0 \<notin> set bs \<Longrightarrow> cstring (bs @ [0]) = bs"
  by (simp add: cstring_def takeWhile_append)

text \<open>A string that \<^verbatim>\<open>fetchstr\<close> accepts is the string the process has at that address, it is shorter
  than the buffer and its length is returned.\<close>

lemma fetchstr_spec:
  assumes "me s = Some i" and "user_inv kend lim psz s (p_pagetable (procs s i)) xs" and "mx \<le> 4096"
  obtains r bs s' where "fetchstr addr mx s = Inr (r, bs, s')" and "log_state.more s' = log_state.more s"
    and "r = -1 \<or> (\<exists>n < mx. r = int n \<and> ustring (mem s) (p_pagetable (procs s i)) addr n
                    \<and> cstring bs = ubytes (mem s) (p_pagetable (procs s i)) addr n)"
    and "(\<exists>n < mx. ustring (mem s) (p_pagetable (procs s i)) addr n) \<longrightarrow> 0 \<le> r"
proof -
  let ?r = "p_pagetable (procs s i)"
  obtain r bs where c: "copyinstr ?r addr mx s = Inr (r, bs)"
    and d: "(\<exists>n < mx. ustring (mem s) ?r addr n \<and> r = 0 \<and> bs = ubytes (mem s) ?r addr n @ [0])
       \<or> r = -1 \<and> (\<forall>n < mx. \<not> ustring (mem s) ?r addr n)"
    using copyinstr_spec [OF assms(2), of addr mx] by blast
  from d show ?thesis
  proof
    assume "\<exists>n < mx. ustring (mem s) ?r addr n \<and> r = 0 \<and> bs = ubytes (mem s) ?r addr n @ [0]"
    then obtain n where n: "n < mx" "ustring (mem s) ?r addr n" "r = 0" "bs = ubytes (mem s) ?r addr n @ [0]" by blast
    have z: "0 \<notin> set (ubytes (mem s) ?r addr n)" and l: "length (ubytes (mem s) ?r addr n) = n"
      using n(2) by (auto simp: ustring_def ubytes_def)
    have b: "cstring bs = ubytes (mem s) ?r addr n" using cstring_append_zero [OF z] n(4) by simp
    have "strlen_loop (char_at bs) 0 = n"
      using strlen_loop_cstring [of 0 bs] n(1,4) assms(3) l b by simp
    then have "fetchstr addr mx s
        = Inr (int n, bs, upd_stats (\<lambda>t. t\<lparr>strlen_calls := strlen_calls t + 1\<rparr>) s)"
      using assms(1) c n(3) by (simp add: fetchstr_def myproc_def strlen_buf_def)
    from that [OF this] show ?thesis using n b by (auto simp: upd_stats_def)
  next
    assume e: "r = -1 \<and> (\<forall>n < mx. \<not> ustring (mem s) ?r addr n)"
    then have "fetchstr addr mx s = Inr (-1, bs, s)"
      using assms(1) c by (simp add: fetchstr_def myproc_def)
    from that [OF this] show ?thesis using e by auto
  qed
qed

end
