(* ===== verification/Exec.thy ===== *)
theory Exec
  imports Sysarg
begin

text \<open>
  Program loading, \<^verbatim>\<open>src/kernel/exec.c\<close>: validation of the ELF headers, loading of the segments, the
  user stack with the arguments, and the switch of the process to the new image. The label \<^verbatim>\<open>bad\<close> is
  \<open>exec_bad\<close>; its argument \<open>ipv\<close> is the local variable \<^verbatim>\<open>ip\<close>, with \<open>None\<close> for a variable that has not
  been assigned, so that reading it there is undefined. The headers are the bytes read from the
  file. Debug output is not modelled.
\<close>

section \<open>Headers\<close>

abbreviation ELF_MAGIC :: u32 where "ELF_MAGIC \<equiv> 0x464C457F"
abbreviation MAX_EXEC_SIZE :: u64 where "MAX_EXEC_SIZE \<equiv> 268435456"
abbreviation MAX_ARG_LEN :: nat where "MAX_ARG_LEN \<equiv> 4096"
abbreviation ELF_PROG_LOAD :: u32 where "ELF_PROG_LOAD \<equiv> 1"
abbreviation ELF_PROG_FLAG_EXEC :: u32 where "ELF_PROG_FLAG_EXEC \<equiv> 1"
abbreviation ELF_PROG_FLAG_WRITE :: u32 where "ELF_PROG_FLAG_WRITE \<equiv> 2"
abbreviation ELF_PROG_FLAG_READ :: u32 where "ELF_PROG_FLAG_READ \<equiv> 4"

record elfhdr =
  e_magic :: u32
  e_entry :: u64
  e_phoff :: u64
  e_ehsize :: u16
  e_phnum :: u16

definition read_elfhdr :: "u8 list \<Rightarrow> elfhdr" where
  "read_elfhdr bs = \<lparr>e_magic = get_field 4 0 bs, e_entry = get_field 8 24 bs, e_phoff = get_field 8 32 bs,
     e_ehsize = get_field 2 52 bs, e_phnum = get_field 2 56 bs\<rparr>"

record proghdr =
  ph_type :: u32
  ph_flags :: u32
  ph_off :: u64
  ph_vaddr :: u64
  ph_filesz :: u64
  ph_memsz :: u64

definition read_proghdr :: "u8 list \<Rightarrow> proghdr" where
  "read_proghdr bs = \<lparr>ph_type = get_field 4 0 bs, ph_flags = get_field 4 4 bs, ph_off = get_field 8 8 bs,
     ph_vaddr = get_field 8 16 bs, ph_filesz = get_field 8 32 bs, ph_memsz = get_field 8 40 bs\<rparr>"

definition flags2perm :: "u32 \<Rightarrow> u32" where
  "flags2perm flags =
     (if sint flags < 0 \<or> 7 < sint flags then 0
      else let perm = (if flags AND ELF_PROG_FLAG_EXEC \<noteq> 0 then ucast PTE_X else 0);
               perm = (if flags AND ELF_PROG_FLAG_WRITE \<noteq> 0 then perm OR ucast PTE_W else perm);
               perm = (if flags AND ELF_PROG_FLAG_READ \<noteq> 0 then perm OR ucast PTE_R else perm)
           in if perm AND ucast (PTE_R OR PTE_W OR PTE_X) \<noteq> 0 then perm OR ucast PTE_U else perm)"

definition validate_elf_header :: "elfhdr \<Rightarrow> int" where
  "validate_elf_header elf =
     (if e_magic elf \<noteq> ELF_MAGIC then -1
      else if e_phnum elf = 0 \<or> 16 < e_phnum elf then -1
      else if e_entry elf = 0 \<or> MAXVA \<le> e_entry elf then -1
      else if e_phoff elf < 64 \<or> MAX_EXEC_SIZE < e_phoff elf then -1
      else if e_ehsize elf \<noteq> 64 then -1
      else 0)"

definition upd_exec_stats :: "(exec_stats \<Rightarrow> exec_stats) \<Rightarrow> kernel \<Rightarrow> kernel" where
  "upd_exec_stats f = upd_kstats (\<lambda>t. t\<lparr>exec_stats_of := f (exec_stats_of t)\<rparr>)"

definition validate_program_header :: "proghdr \<Rightarrow> kernel \<Rightarrow> int \<times> kernel" where
  "validate_program_header ph s =
     (if ph_type ph \<noteq> ELF_PROG_LOAD then (0, s)
      else if ph_memsz ph < ph_filesz ph then (-1, s)
      else if ph_vaddr ph + ph_memsz ph < ph_vaddr ph then (-1, s)
      else if ph_vaddr ph mod 4096 \<noteq> 0 then (-1, s)
      else if MAXVA \<le> ph_vaddr ph \<or> MAXVA \<le> ph_vaddr ph + ph_memsz ph then (-1, s)
      else if ph_flags ph AND (ELF_PROG_FLAG_WRITE OR ELF_PROG_FLAG_EXEC) = (ELF_PROG_FLAG_WRITE OR ELF_PROG_FLAG_EXEC)
      then (-1, upd_exec_stats (\<lambda>t. t\<lparr>security_violations := security_violations t + 1\<rparr>) s)
      else if MAX_EXEC_SIZE < ph_off ph then (-1, s)
      else (1, s))"

section \<open>Loading segments\<close>

text \<open>The loop of \<^verbatim>\<open>loadseg\<close> from \<^verbatim>\<open>i\<close>. When \<^verbatim>\<open>i += PGSIZE\<close> wraps around every page has been read, and
  the loop starts again from the first one for ever.\<close>

function loadseg_loop :: "u64 \<Rightarrow> u64 \<Rightarrow> u64 \<Rightarrow> nat \<Rightarrow> u32 \<Rightarrow> u32 \<Rightarrow> u32 \<Rightarrow> kernel \<Rightarrow> (int \<times> kernel) res" where
  "loadseg_loop kend pagetable va ip offset sz i s =
     (if \<not> i < sz then Inr (0, s)
      else rbind (walkaddr pagetable (va + ucast i) s) (\<lambda>pa.
           if pa = 0 then Inr (-1, s)
           else let n = (if sz - i < 4096 then sz - i else 4096)
                in rbind (readi kend ip (Kva pa) (offset + i) n s) (\<lambda>(r, _, s1).
                   if r \<noteq> n then Inr (-1, s1)
                   else if i + 4096 < i then Inl Diverges
                   else loadseg_loop kend pagetable va ip offset sz (i + 4096) s1)))"
  by pat_completeness auto

lemma page_advance:
  assumes "\<not> (i :: u32) + 4096 < i"
  shows "2 ^ 32 - unat (i + 4096) < 2 ^ 32 - unat i"
proof -
  have "i < i + 4096" using assms by (simp add: not_less order.strict_iff_order)
  then have "unat i < unat (i + 4096)" by (simp add: word_less_nat_alt)
  then show ?thesis using unat32_less [of "i + 4096"] by linarith
qed

termination loadseg_loop
  by (relation "measure (\<lambda>(kend, pagetable, va, ip, offset, sz, i, s). 2 ^ 32 - unat i)")
    (use page_advance in auto)

declare loadseg_loop.simps [simp del]

text \<open>The test \<^verbatim>\<open>offset + sz > ip->size\<close> is in 32 bits.\<close>

definition loadseg :: "u64 \<Rightarrow> u64 \<Rightarrow> u64 \<Rightarrow> nat option \<Rightarrow> u32 \<Rightarrow> u32 \<Rightarrow> kernel \<Rightarrow> (int \<times> kernel) res" where
  "loadseg kend pagetable va ipp offset sz s =
     (if pagetable = 0 then Inr (-1, s)
      else case ipp of None \<Rightarrow> Inr (-1, s)
      | Some ip \<Rightarrow>
         if va mod 4096 \<noteq> 0 then Inr (-1, s)
         else if sz = 0 then Inr (0, s)
         else if i_size (itable s ip) \<le> offset \<or> i_size (itable s ip) < offset + sz then Inr (-1, s)
         else loadseg_loop kend pagetable va ip offset sz 0 s)"

text \<open>The loop over the program headers, with \<open>n\<close> headers left at \<^verbatim>\<open>off\<close>. The result tells whether all of
  them were loaded, and has the final \<^verbatim>\<open>sz\<close>.\<close>

fun exec_load :: "u64 \<Rightarrow> u64 \<Rightarrow> nat \<Rightarrow> u32 \<Rightarrow> nat \<Rightarrow> u64 \<Rightarrow> kernel \<Rightarrow> (bool \<times> u64 \<times> kernel) res" where
  "exec_load kend pagetable ip off 0 sz s = Inr (True, sz, s)"
| "exec_load kend pagetable ip off (Suc n) sz s =
     rbind (readi kend ip (Var []) off 56 s) (\<lambda>(r, bs, s1).
     if r \<noteq> 56 then Inr (False, sz, s1)
     else let ph = read_proghdr bs
          in case validate_program_header ph s1 of (v, s2) \<Rightarrow>
             if v < 0 then Inr (False, sz, s2)
             else if v = 0 then exec_load kend pagetable ip (off + 56) n sz s2
             else rbind (uvmalloc kend pagetable sz (ph_vaddr ph + ph_memsz ph) (flags2perm (ph_flags ph)) s2) (\<lambda>(sz1, s3).
                  if sz1 = 0 then Inr (False, sz, s3)
                  else rbind (if 0 < ph_filesz ph
                              then loadseg kend pagetable (ph_vaddr ph) (Some ip) (ucast (ph_off ph)) (ucast (ph_filesz ph)) s3
                              else Inr (0, s3)) (\<lambda>(r, s4).
                       if r < 0 then Inr (False, sz1, s4)
                       else exec_load kend pagetable ip (off + 56) n sz1 s4)))"

section \<open>Arguments\<close>

text \<open>\<^verbatim>\<open>argv\<close> is an array of kernel addresses that a null entry ends. Counting the arguments: \<open>None\<close> when
  there are too many or one is too long.\<close>

fun exec_count :: "u64 list \<Rightarrow> nat \<Rightarrow> kernel \<Rightarrow> (nat option \<times> kernel) res" where
  "exec_count [] argc s = Inl Undef"
| "exec_count (a # as) argc s =
     (if a = 0 then Inr (Some argc, s)
      else if MAXARG \<le> argc then Inr (None, s)
      else case strlen a s of (len, s1) \<Rightarrow>
           if MAX_ARG_LEN < len then Inr (None, s1) else exec_count as (argc + 1) s1)"

text \<open>Copying the strings to the stack below \<^verbatim>\<open>sp\<close>: the new stack pointer and the addresses, \<open>None\<close> when the
  stack is full or a copy fails.\<close>

fun exec_push :: "u64 \<Rightarrow> u64 \<Rightarrow> u64 \<Rightarrow> u64 list \<Rightarrow> u64 \<Rightarrow> u64 list \<Rightarrow> kernel \<Rightarrow> ((u64 \<times> u64 list) option \<times> kernel) res" where
  "exec_push kend pagetable stackbase [] sp ustack s = Inr (Some (sp, ustack), s)"
| "exec_push kend pagetable stackbase (a # as) sp ustack s =
     (case strlen a s of (len, s1) \<Rightarrow>
      let sp1 = sp - of_nat (len + 1); sp2 = sp1 - sp1 mod 16
      in if sp2 < stackbase then Inr (None, s1)
         else rbind (myproc s1) (\<lambda>p.
              rbind (copyout kend (p_sz p) (p_pagetable p) pagetable sp2 (load_bytes a (len + 1) (mem s1)) s1) (\<lambda>(r, s2).
              if r < 0 then Inr (None, s2)
              else exec_push kend pagetable stackbase as sp2 (ustack @ [sp2]) s2)))"

section \<open>kexec\<close>

definition exec_bad :: "u64 \<Rightarrow> u64 \<Rightarrow> u64 \<Rightarrow> nat option option \<Rightarrow> kernel \<Rightarrow> (int \<times> kernel) res" where
  "exec_bad kend pagetable sz ipv s =
     rbind (if pagetable \<noteq> 0 then proc_freepagetable kend pagetable sz s else Inr s) (\<lambda>s1.
     case ipv of None \<Rightarrow> Inl Undef
     | Some ipp \<Rightarrow>
        rbind (case ipp of Some ip \<Rightarrow> rbind (iunlockput ip s1) end_op | None \<Rightarrow> Inr s1) (\<lambda>s2.
        Inr (-1, upd_exec_stats (\<lambda>t. t\<lparr>failed_execs := failed_execs t + 1\<rparr>) s2)))"

text \<open>From the open file to the loaded segments: the page table, the size and the entry point.\<close>

definition exec_image :: "u64 \<Rightarrow> u64 \<Rightarrow> nat \<Rightarrow> kernel \<Rightarrow> ((int \<times> kernel) + (u64 \<times> u64 \<times> u64 \<times> kernel)) res" where
  "exec_image kend trampoline ip s =
     (let bad = (\<lambda>pt sz s. rbind (exec_bad kend pt sz (Some (Some ip)) s) (\<lambda>r. Inr (Inl r)))
      in if i_type (itable s ip) \<noteq> T_FILE then bad 0 0 s
         else if MAX_EXEC_SIZE < ucast (i_size (itable s ip)) then bad 0 0 s
         else if i_size (itable s ip) < 64 then bad 0 0 s
         else rbind (readi kend ip (Var []) 0 64 s) (\<lambda>(r, bs, s1).
              if r \<noteq> 64 then bad 0 0 s1
              else let elf = read_elfhdr bs
                   in if validate_elf_header elf < 0 then bad 0 0 s1
                      else rbind (myproc s1) (\<lambda>p.
                           rbind (proc_pagetable kend trampoline (p_trapframe p) s1) (\<lambda>(pt, s2).
                           if pt = 0 then bad 0 0 s2
                           else rbind (exec_load kend pt ip (ucast (e_phoff elf)) (unat (e_phnum elf)) 0 s2) (\<lambda>(ok, sz, s3).
                                if \<not> ok then bad pt sz s3
                                else rbind (iunlockput ip s3) (\<lambda>s4. rbind (end_op s4) (\<lambda>s5.
                                     Inr (Inr (pt, sz, e_entry elf, s5)))))))))"

text \<open>The bytes of the path after its last slash.\<close>

definition last_elem :: "u8 list \<Rightarrow> u8 list" where
  "last_elem path = rev (takeWhile (\<lambda>c. c \<noteq> slash) (rev path))"

text \<open>The stack, the arguments and the commit to the new image.\<close>

definition exec_commit :: "u64 \<Rightarrow> u8 list \<Rightarrow> u64 \<Rightarrow> u64 \<Rightarrow> u64 \<Rightarrow> nat \<Rightarrow> u64 \<Rightarrow> kernel \<Rightarrow> (int \<times> kernel) res" where
  "exec_commit kend path pt sz epc argc sp s =
     (case me s of None \<Rightarrow> Inl Undef
      | Some i \<Rightarrow>
         rbind (tf_set TF_A1 sp s) (\<lambda>s1.
         let s2 = upd_proc i (\<lambda>p. p\<lparr>p_name := safestrcpy_buf 16 (last_elem path) (p_name p)\<rparr>)
                    (upd_stats (\<lambda>t. t\<lparr>safestrcpy_calls := safestrcpy_calls t + 1\<rparr>) s1);
             oldpt = p_pagetable (procs s2 i); oldsz = p_sz (procs s2 i);
             s3 = upd_proc i (\<lambda>p. p\<lparr>p_pagetable := pt, p_sz := sz\<rparr>) s2
         in rbind (tf_set TF_EPC epc s3) (\<lambda>s4. rbind (tf_set TF_SP sp s4) (\<lambda>s5.
            rbind (proc_freepagetable kend oldpt oldsz s5) (\<lambda>s6. Inr (int argc, s6))))))"

definition exec_start :: "u64 \<Rightarrow> u8 list \<Rightarrow> u64 list \<Rightarrow> u64 \<Rightarrow> u64 \<Rightarrow> u64 \<Rightarrow> kernel \<Rightarrow> (int \<times> kernel) res" where
  "exec_start kend path argv pt sz0 epc s =
     (let bad = (\<lambda>sz s. exec_bad kend pt sz (Some None) s); sz = PGROUNDUP sz0
      in rbind (uvmalloc kend pt sz (sz + 2 * 4096) (ucast PTE_W) s) (\<lambda>(sz1, s1).
         if sz1 = 0 then bad sz s1
         else rbind (uvmclear pt (sz1 - 2 * 4096) s1) (\<lambda>s2.
              let stackbase = sz1 - 4096
              in rbind (exec_count argv 0 s2) (\<lambda>(n, s3).
                 case n of None \<Rightarrow> bad sz1 s3
                 | Some argc \<Rightarrow>
                    rbind (exec_push kend pt stackbase (take argc argv) sz1 [] s3) (\<lambda>(r, s4).
                    case r of None \<Rightarrow> bad sz1 s4
                    | Some (sp, ustack) \<Rightarrow>
                       if MAXARG \<le> argc then Inl Undef
                       else let sp1 = sp - of_nat ((argc + 1) * 8); sp2 = sp1 - sp1 mod 16
                            in if sp2 < stackbase then bad sz1 s4
                               else rbind (myproc s4) (\<lambda>p.
                                    rbind (copyout kend (p_sz p) (p_pagetable p) pt sp2
                                             (concat (map (le_bytes 8) (ustack @ [0]))) s4) (\<lambda>(r, s5).
                                    if r < 0 then bad sz1 s5
                                    else exec_commit kend path pt sz1 epc argc sp2 s5)))))))"

definition kexec :: "u64 \<Rightarrow> u64 \<Rightarrow> u8 list option \<Rightarrow> u64 list option \<Rightarrow> kernel \<Rightarrow> (int \<times> kernel) res" where
  "kexec kend trampoline pathp argvp s =
     (let s0 = upd_exec_stats (\<lambda>t. t\<lparr>total_execs := total_execs t + 1\<rparr>) s
      in case pathp of None \<Rightarrow> exec_bad kend 0 0 None s0
      | Some path \<Rightarrow>
        case argvp of None \<Rightarrow> exec_bad kend 0 0 None s0
        | Some argv \<Rightarrow>
          (case strlen_buf path s0 of (path_len, s1) \<Rightarrow>
           if path_len = 0 \<or> MAXPATH \<le> path_len then exec_bad kend 0 0 None s1
           else if list_ex (\<lambda>c. c < 0x20 \<or> 0x7E < c) (take path_len path) then exec_bad kend 0 0 None s1
           else rbind (begin_op s1) (\<lambda>s2.
                rbind (namei kend path s2) (\<lambda>(ipp, s3).
                case ipp of
                  None \<Rightarrow> rbind (end_op s3) (exec_bad kend 0 0 (Some None))
                | Some ip \<Rightarrow>
                   rbind (ilock (Some ip) s3) (\<lambda>s4.
                   rbind (exec_image kend trampoline ip s4) (\<lambda>r.
                   case r of Inl bad \<Rightarrow> Inr bad
                   | Inr (pt, sz, epc, s5) \<Rightarrow> exec_start kend path argv pt sz epc s5))))))"

end
