(* ===== verification/Sysfile.thy ===== *)
theory Sysfile
  imports Exec
begin

text \<open>
  The file system calls, \<^verbatim>\<open>src/kernel/sysfile.c\<close>: file descriptors of the running process, and the
  handlers that check the arguments and call \<^verbatim>\<open>file.c\<close>, \<^verbatim>\<open>fs.c\<close>, \<^verbatim>\<open>pipe.c\<close> and \<^verbatim>\<open>exec.c\<close>. Every handler returns the
  value it stores in \<^verbatim>\<open>a0\<close>, or the outcome \<open>Sleep\<close> of a pipe or the console. The statistics are part of the
  state; the debug output is not.
\<close>

section \<open>Statistics\<close>

definition upd_file_stats :: "(file_stats \<Rightarrow> file_stats) \<Rightarrow> kernel \<Rightarrow> kernel" where
  "upd_file_stats f = upd_kstats (\<lambda>t. t\<lparr>file_stats_of := f (file_stats_of t)\<rparr>)"

definition file_stats_init :: "kernel \<Rightarrow> kernel" where
  "file_stats_init = upd_file_stats (\<lambda>_. \<lparr>open_count = 0, close_count = 0, read_count = 0, write_count = 0,
     link_count = 0, unlink_count = 0, mkdir_count = 0, failed_ops = 0\<rparr>)"

definition count_failed :: "kernel \<Rightarrow> kernel" where
  "count_failed = upd_file_stats (\<lambda>t. t\<lparr>failed_ops := failed_ops t + 1\<rparr>)"

text \<open>The failure return of most handlers: count it and return -1.\<close>

definition sys_fail :: "kernel \<Rightarrow> (u64 outcome \<times> kernel) res" where
  "sys_fail s = Inr (Ret (-1), count_failed s)"

definition as_u64 :: "(int outcome \<times> kernel) res \<Rightarrow> (u64 outcome \<times> kernel) res" where
  "as_u64 r = rbind r (\<lambda>(v, s). Inr (case v of Ret n \<Rightarrow> Ret (word_of_int n) | Sleep k bs \<Rightarrow> Sleep k bs, s))"

text \<open>\<^verbatim>\<open>memset\<close> of a variable on the kernel stack is counted by \<^verbatim>\<open>string.c\<close>.\<close>

definition count_memset :: "kernel \<Rightarrow> kernel" where
  "count_memset = upd_stats (\<lambda>t. t\<lparr>memset_calls := memset_calls t + 1\<rparr>)"

section \<open>File descriptors\<close>

definition validate_fd :: "int \<Rightarrow> proc \<Rightarrow> bool" where
  "validate_fd fd p = (if fd < 0 \<or> int NOFILE \<le> fd then False else p_ofile p ! nat fd \<noteq> None)"

text \<open>The descriptor and the open file, or nothing for -1.\<close>

definition argfd :: "nat \<Rightarrow> kernel \<Rightarrow> ((nat \<times> nat option) option \<times> kernel) res" where
  "argfd n s =
     rbind (argint n s) (\<lambda>fd. rbind (myproc s) (\<lambda>p.
     if \<not> validate_fd fd p then Inr (None, count_failed s)
     else Inr (Some (nat fd, p_ofile p ! nat fd), s)))"

definition set_ofile :: "nat \<Rightarrow> nat option \<Rightarrow> kernel \<Rightarrow> kernel res" where
  "set_ofile fd f s =
     (case me s of None \<Rightarrow> Inl Undef
      | Some i \<Rightarrow> Inr (upd_proc i (\<lambda>p. p\<lparr>p_ofile := (p_ofile p)[fd := f]\<rparr>) s))"

definition fdalloc :: "nat option \<Rightarrow> kernel \<Rightarrow> (nat option \<times> kernel) res" where
  "fdalloc f s =
     rbind (myproc s) (\<lambda>p.
     case find (\<lambda>fd. p_ofile p ! fd = None) [0..<NOFILE] of
       Some fd \<Rightarrow> rbind (set_ofile fd f s) (\<lambda>s1. Inr (Some fd, s1))
     | None \<Rightarrow> Inr (None, count_failed s))"

section \<open>Calls on open files\<close>

definition sys_dup :: "kernel \<Rightarrow> (u64 outcome \<times> kernel) res" where
  "sys_dup s =
     rbind (argfd 0 s) (\<lambda>(a, s1).
     case a of None \<Rightarrow> Inr (Ret (-1), s1)
     | Some (_, f) \<Rightarrow>
        rbind (fdalloc f s1) (\<lambda>(d, s2).
        case d of None \<Rightarrow> Inr (Ret (-1), s2)
        | Some fd \<Rightarrow> rbind (filedup f s2) (\<lambda>(_, s3). Inr (Ret (of_nat fd), s3))))"

definition sys_read :: "u64 \<Rightarrow> kernel \<Rightarrow> (u64 outcome \<times> kernel) res" where
  "sys_read kend s =
     (let s0 = upd_file_stats (\<lambda>t. t\<lparr>read_count := read_count t + 1\<rparr>) s
      in rbind (argaddr 1 s0) (\<lambda>p. rbind (argint 2 s0) (\<lambda>n.
         if n < 0 \<or> 1024 * 1024 < n then sys_fail s0
         else rbind (argfd 0 s0) (\<lambda>(a, s1).
              case a of None \<Rightarrow> Inr (Ret (-1), s1)
              | Some (_, f) \<Rightarrow> as_u64 (fileread kend f p n s1)))))"

definition sys_write :: "u64 \<Rightarrow> kernel \<Rightarrow> (u64 outcome \<times> kernel) res" where
  "sys_write kend s =
     (let s0 = upd_file_stats (\<lambda>t. t\<lparr>write_count := write_count t + 1\<rparr>) s
      in rbind (argaddr 1 s0) (\<lambda>p. rbind (argint 2 s0) (\<lambda>n.
         if n < 0 \<or> 1024 * 1024 < n then sys_fail s0
         else rbind (argfd 0 s0) (\<lambda>(a, s1).
              case a of None \<Rightarrow> Inr (Ret (-1), s1)
              | Some (_, f) \<Rightarrow> as_u64 (filewrite kend f p n s1)))))"

definition sys_close :: "u64 \<Rightarrow> kernel \<Rightarrow> (u64 outcome \<times> kernel) res" where
  "sys_close kend s =
     rbind (argfd 0 (upd_file_stats (\<lambda>t. t\<lparr>close_count := close_count t + 1\<rparr>) s)) (\<lambda>(a, s1).
     case a of None \<Rightarrow> Inr (Ret (-1), s1)
     | Some (fd, f) \<Rightarrow>
        rbind (set_ofile fd None s1) (\<lambda>s2. rbind (fileclose kend f s2) (\<lambda>s3. Inr (Ret 0, s3))))"

definition sys_fstat :: "u64 \<Rightarrow> u8 list \<Rightarrow> kernel \<Rightarrow> (u64 outcome \<times> kernel) res" where
  "sys_fstat kend padding s =
     rbind (argaddr 1 s) (\<lambda>st. rbind (argfd 0 s) (\<lambda>(a, s1).
     case a of None \<Rightarrow> Inr (Ret (-1), s1)
     | Some (_, f) \<Rightarrow> rbind (filestat kend padding f st s1) (\<lambda>(r, s2). Inr (Ret (word_of_int r), s2))))"

section \<open>Directories\<close>

abbreviation empty_name :: "u8 list" where "empty_name \<equiv> replicate DIRSIZ 0"
abbreviation dot :: u8 where "dot \<equiv> 46"

definition link_bad :: "nat \<Rightarrow> kernel \<Rightarrow> (u64 outcome \<times> kernel) res" where
  "link_bad ip s =
     rbind (ilock (Some ip) s) (\<lambda>s1.
     rbind (iupdate ip (upd_inode ip (\<lambda>I. I\<lparr>i_nlink := i_nlink I - 1\<rparr>) s1)) (\<lambda>s2.
     rbind (iunlockput ip s2) (\<lambda>s3. rbind (end_op s3) sys_fail)))"

definition sys_link :: "u64 \<Rightarrow> kernel \<Rightarrow> (u64 outcome \<times> kernel) res" where
  "sys_link kend s =
     rbind (argstr 0 MAXPATH (upd_file_stats (\<lambda>t. t\<lparr>link_count := link_count t + 1\<rparr>) s)) (\<lambda>(r0, old, s1).
     if r0 < 0 then sys_fail s1
     else rbind (argstr 1 MAXPATH s1) (\<lambda>(r1, new, s2).
     if r1 < 0 then sys_fail s2
     else rbind (begin_op s2) (\<lambda>s3. rbind (namei kend (cstring old) s3) (\<lambda>(ipp, s4).
     case ipp of None \<Rightarrow> rbind (end_op s4) sys_fail
     | Some ip \<Rightarrow>
        rbind (ilock (Some ip) s4) (\<lambda>s5.
        if i_type (itable s5 ip) = T_DIR
        then rbind (iunlockput ip s5) (\<lambda>s6. rbind (end_op s6) sys_fail)
        else rbind (iupdate ip (upd_inode ip (\<lambda>I. I\<lparr>i_nlink := i_nlink I + 1\<rparr>) s5)) (\<lambda>s6.
             rbind (iunlock (Some ip) s6) (\<lambda>s7.
             rbind (nameiparent kend (cstring new) empty_name s7) (\<lambda>(dpp, name, s8).
             case dpp of None \<Rightarrow> link_bad ip s8
             | Some dp \<Rightarrow>
                rbind (ilock (Some dp) s8) (\<lambda>s9.
                rbind (if i_dev (itable s9 dp) \<noteq> i_dev (itable s9 ip) then Inr (-1, s9)
                       else dirlink kend dp name (i_inum (itable s9 ip)) s9) (\<lambda>(r, s10).
                if r < 0 then rbind (iunlockput dp s10) (link_bad ip)
                else rbind (iunlockput dp s10) (\<lambda>s11. rbind (iput ip s11) (\<lambda>s12.
                     rbind (end_op s12) (\<lambda>s13. Inr (Ret 0, s13))))))))))))))"

function isdirempty_loop :: "u64 \<Rightarrow> nat \<Rightarrow> u32 \<Rightarrow> kernel \<Rightarrow> (bool \<times> kernel) res" where
  "isdirempty_loop kend dp off s =
     (if \<not> off < i_size (itable s dp) then Inr (True, s)
      else rbind (readi kend dp (Var []) off 16 s) (\<lambda>(r, de, s1).
           if r \<noteq> 16 then Inl (Panic ''isdirempty: readi'')
           else if de_inum de \<noteq> 0 then Inr (False, s1)
           else isdirempty_loop kend dp (off + 16) s1))"
  by pat_completeness auto
termination
  by (relation "measure (\<lambda>(kend, dp, off, s). 2 ^ 32 - unat off)")
    (auto intro!: off_advance dest!: readi_no_wrap)

declare isdirempty_loop.simps [simp del]

definition isdirempty :: "u64 \<Rightarrow> nat \<Rightarrow> kernel \<Rightarrow> (bool \<times> kernel) res" where
  "isdirempty kend dp s = isdirempty_loop kend dp 32 s"

definition unlink_bad :: "nat \<Rightarrow> kernel \<Rightarrow> (u64 outcome \<times> kernel) res" where
  "unlink_bad dp s = rbind (iunlockput dp s) (\<lambda>s1. rbind (end_op s1) sys_fail)"

text \<open>From the removal of the directory entry on.\<close>

definition unlink_entry :: "u64 \<Rightarrow> nat \<Rightarrow> nat \<Rightarrow> u32 \<Rightarrow> kernel \<Rightarrow> (u64 outcome \<times> kernel) res" where
  "unlink_entry kend dp ip off s =
     rbind (writei kend dp (Var (replicate 16 0)) off 16 (count_memset s)) (\<lambda>(r, s1).
     if r \<noteq> 16 then Inl (Panic ''unlink: writei'')
     else rbind (if i_type (itable s1 ip) = T_DIR
                 then iupdate dp (upd_inode dp (\<lambda>I. I\<lparr>i_nlink := i_nlink I - 1\<rparr>) s1) else Inr s1) (\<lambda>s2.
          rbind (iunlockput dp s2) (\<lambda>s3.
          rbind (iupdate ip (upd_inode ip (\<lambda>I. I\<lparr>i_nlink := i_nlink I - 1\<rparr>) s3)) (\<lambda>s4.
          rbind (iunlockput ip s4) (\<lambda>s5. rbind (end_op s5) (\<lambda>s6. Inr (Ret 0, s6)))))))"

definition sys_unlink :: "u64 \<Rightarrow> kernel \<Rightarrow> (u64 outcome \<times> kernel) res" where
  "sys_unlink kend s =
     rbind (argstr 0 MAXPATH (upd_file_stats (\<lambda>t. t\<lparr>unlink_count := unlink_count t + 1\<rparr>) s)) (\<lambda>(r0, path, s1).
     if r0 < 0 then sys_fail s1
     else rbind (begin_op s1) (\<lambda>s2. rbind (nameiparent kend (cstring path) empty_name s2) (\<lambda>(dpp, name, s3).
     case dpp of None \<Rightarrow> rbind (end_op s3) sys_fail
     | Some dp \<Rightarrow>
        rbind (ilock (Some dp) s3) (\<lambda>s4.
        if namecmp name [dot] = 0 \<or> namecmp name [dot, dot] = 0 then unlink_bad dp s4
        else rbind (dirlookup kend dp name s4) (\<lambda>(found, s5).
             case found of None \<Rightarrow> unlink_bad dp s5
             | Some (ip, off) \<Rightarrow>
                rbind (ilock (Some ip) s5) (\<lambda>s6.
                if sint (i_nlink (itable s6 ip)) < 1 then Inl (Panic ''unlink: nlink < 1'')
                else rbind (if i_type (itable s6 ip) = T_DIR then isdirempty kend ip s6 else Inr (True, s6)) (\<lambda>(empty, s7).
                     if \<not> empty then rbind (iunlockput ip s7) (unlink_bad dp)
                     else unlink_entry kend dp ip off s7)))))))"

definition create_fail :: "nat \<Rightarrow> nat \<Rightarrow> kernel \<Rightarrow> (nat option \<times> kernel) res" where
  "create_fail dp ip s =
     rbind (iupdate ip (upd_inode ip (\<lambda>I. I\<lparr>i_nlink := 0\<rparr>) s)) (\<lambda>s1.
     rbind (iunlockput ip s1) (\<lambda>s2. rbind (iunlockput dp s2) (\<lambda>s3. Inr (None, s3))))"

text \<open>The rest of \<^verbatim>\<open>create\<close> when the name is not in the directory.\<close>

definition create_new :: "u64 \<Rightarrow> nat \<Rightarrow> u8 list \<Rightarrow> u16 \<Rightarrow> u16 \<Rightarrow> u16 \<Rightarrow> kernel \<Rightarrow> (nat option \<times> kernel) res" where
  "create_new kend dp name ty mj mn s =
     rbind (ialloc (i_dev (itable s dp)) ty s) (\<lambda>(ipp, s1).
     case ipp of None \<Rightarrow> rbind (iunlockput dp s1) (\<lambda>s2. Inr (None, s2))
     | Some ip \<Rightarrow>
        rbind (ilock (Some ip) s1) (\<lambda>s2.
        rbind (iupdate ip (upd_inode ip (\<lambda>I. I\<lparr>i_major := mj, i_minor := mn, i_nlink := 1\<rparr>) s2)) (\<lambda>s3.
        rbind (if ty = T_DIR
               then rbind (dirlink kend ip [dot] (i_inum (itable s3 ip)) s3) (\<lambda>(r, s4).
                    if r < 0 then Inr (r, s4) else dirlink kend ip [dot, dot] (i_inum (itable s4 dp)) s4)
               else Inr (0, s3)) (\<lambda>(r, s4).
        if r < 0 then create_fail dp ip s4
        else rbind (dirlink kend dp name (i_inum (itable s4 ip)) s4) (\<lambda>(r, s5).
             if r < 0 then create_fail dp ip s5
             else rbind (if ty = T_DIR then iupdate dp (upd_inode dp (\<lambda>I. I\<lparr>i_nlink := i_nlink I + 1\<rparr>) s5)
                         else Inr s5) (\<lambda>s6.
                  rbind (iunlockput dp s6) (\<lambda>s7. Inr (Some ip, s7))))))))"

definition create :: "u64 \<Rightarrow> u8 list \<Rightarrow> u16 \<Rightarrow> u16 \<Rightarrow> u16 \<Rightarrow> kernel \<Rightarrow> (nat option \<times> kernel) res" where
  "create kend path ty mj mn s =
     rbind (nameiparent kend path empty_name s) (\<lambda>(dpp, name, s1).
     case dpp of None \<Rightarrow> Inr (None, s1)
     | Some dp \<Rightarrow>
        rbind (ilock (Some dp) s1) (\<lambda>s2. rbind (dirlookup kend dp name s2) (\<lambda>(found, s3).
        case found of
          Some (ip, _) \<Rightarrow>
            rbind (iunlockput dp s3) (\<lambda>s4. rbind (ilock (Some ip) s4) (\<lambda>s5.
            if ty = T_FILE \<and> (i_type (itable s5 ip) = T_FILE \<or> i_type (itable s5 ip) = T_DEVICE) then Inr (Some ip, s5)
            else rbind (iunlockput ip s5) (\<lambda>s6. Inr (None, s6))))
        | None \<Rightarrow> create_new kend dp name ty mj mn s3)))"

section \<open>Opening and creating\<close>

abbreviation O_RDONLY :: int where "O_RDONLY \<equiv> 0"
abbreviation O_WRONLY :: u32 where "O_WRONLY \<equiv> 0x001"
abbreviation O_RDWR :: u32 where "O_RDWR \<equiv> 0x002"
abbreviation O_CREATE :: u32 where "O_CREATE \<equiv> 0x200"
abbreviation O_TRUNC :: u32 where "O_TRUNC \<equiv> 0x400"

definition open_fail :: "nat \<Rightarrow> kernel \<Rightarrow> (u64 outcome \<times> kernel) res" where
  "open_fail ip s = rbind (iunlockput ip s) (\<lambda>s1. rbind (end_op s1) sys_fail)"

text \<open>\<^verbatim>\<open>omode & flag\<close>.\<close>

definition has_mode :: "int \<Rightarrow> u32 \<Rightarrow> bool" where
  "has_mode omode flag \<longleftrightarrow> word_of_int omode AND flag \<noteq> 0"

text \<open>From the allocation of the open file on.\<close>

definition open_file :: "u64 \<Rightarrow> nat \<Rightarrow> int \<Rightarrow> kernel \<Rightarrow> (u64 outcome \<times> kernel) res" where
  "open_file kend ip omode s =
     (case filealloc s of (fp, s1) \<Rightarrow>
      case fp of None \<Rightarrow> open_fail ip s1
      | Some f \<Rightarrow>
         rbind (fdalloc (Some f) s1) (\<lambda>(d, s2).
         case d of None \<Rightarrow> rbind (fileclose kend (Some f) s2) (open_fail ip)
         | Some fd \<Rightarrow>
            let I = itable s2 ip;
                s3 = (if i_type I = T_DEVICE then upd_file f (\<lambda>F. F\<lparr>f_type := FD_DEVICE, f_major := i_major I\<rparr>) s2
                      else upd_file f (\<lambda>F. F\<lparr>f_type := FD_INODE, f_off := 0\<rparr>) s2);
                s4 = upd_file f (\<lambda>F. F\<lparr>f_ip := Some ip, f_readable := \<not> has_mode omode O_WRONLY,
                       f_writable := has_mode omode O_WRONLY \<or> has_mode omode O_RDWR\<rparr>) s3
            in rbind (if has_mode omode O_TRUNC \<and> i_type I = T_FILE then itrunc ip s4 else Inr s4) (\<lambda>s5.
               rbind (iunlock (Some ip) s5) (\<lambda>s6. rbind (end_op s6) (\<lambda>s7. Inr (Ret (of_nat fd), s7))))))"

definition sys_open :: "u64 \<Rightarrow> kernel \<Rightarrow> (u64 outcome \<times> kernel) res" where
  "sys_open kend s =
     (let s0 = upd_file_stats (\<lambda>t. t\<lparr>open_count := open_count t + 1\<rparr>) s
      in rbind (argint 1 s0) (\<lambda>omode. rbind (argstr 0 MAXPATH s0) (\<lambda>(n, path, s1).
         if n < 0 then sys_fail s1
         else if n \<le> 0 \<or> int MAXPATH \<le> n then sys_fail s1
         else rbind (begin_op s1) (\<lambda>s2.
              rbind (if has_mode omode O_CREATE then create kend (cstring path) T_FILE 0 0 s2
                     else rbind (namei kend (cstring path) s2) (\<lambda>(ipp, s3).
                          case ipp of None \<Rightarrow> Inr (None, s3)
                          | Some ip \<Rightarrow> rbind (ilock (Some ip) s3) (\<lambda>s4. Inr (Some ip, s4)))) (\<lambda>(ipp, s3).
              case ipp of None \<Rightarrow> rbind (end_op s3) sys_fail
              | Some ip \<Rightarrow>
                 if \<not> has_mode omode O_CREATE \<and> i_type (itable s3 ip) = T_DIR \<and> omode \<noteq> O_RDONLY then open_fail ip s3
                 else if i_type (itable s3 ip) = T_DEVICE
                         \<and> (sint (i_major (itable s3 ip)) < 0 \<or> int NDEV \<le> sint (i_major (itable s3 ip)))
                 then open_fail ip s3
                 else open_file kend ip omode s3)))))"

definition sys_mkdir :: "u64 \<Rightarrow> kernel \<Rightarrow> (u64 outcome \<times> kernel) res" where
  "sys_mkdir kend s =
     rbind (begin_op (upd_file_stats (\<lambda>t. t\<lparr>mkdir_count := mkdir_count t + 1\<rparr>) s)) (\<lambda>s1.
     rbind (argstr 0 MAXPATH s1) (\<lambda>(r, path, s2).
     rbind (if r < 0 then Inr (None, s2) else create kend (cstring path) T_DIR 0 0 s2) (\<lambda>(ipp, s3).
     case ipp of None \<Rightarrow> rbind (end_op s3) sys_fail
     | Some ip \<Rightarrow> rbind (iunlockput ip s3) (\<lambda>s4. rbind (end_op s4) (\<lambda>s5. Inr (Ret 0, s5))))))"

definition sys_mknod :: "u64 \<Rightarrow> kernel \<Rightarrow> (u64 outcome \<times> kernel) res" where
  "sys_mknod kend s =
     rbind (begin_op s) (\<lambda>s1. rbind (argint 1 s1) (\<lambda>major. rbind (argint 2 s1) (\<lambda>minor.
     rbind (argstr 0 MAXPATH s1) (\<lambda>(r, path, s2).
     rbind (if r < 0 then Inr (None, s2)
            else create kend (cstring path) T_DEVICE (word_of_int major) (word_of_int minor) s2) (\<lambda>(ipp, s3).
     case ipp of None \<Rightarrow> rbind (end_op s3) sys_fail
     | Some ip \<Rightarrow> rbind (iunlockput ip s3) (\<lambda>s4. rbind (end_op s4) (\<lambda>s5. Inr (Ret 0, s5))))))))"

definition sys_chdir :: "u64 \<Rightarrow> kernel \<Rightarrow> (u64 outcome \<times> kernel) res" where
  "sys_chdir kend s =
     rbind (begin_op s) (\<lambda>s1. rbind (argstr 0 MAXPATH s1) (\<lambda>(r, path, s2).
     rbind (if r < 0 then Inr (None, s2) else namei kend (cstring path) s2) (\<lambda>(ipp, s3).
     case ipp of None \<Rightarrow> rbind (end_op s3) (\<lambda>s4. Inr (Ret (-1), s4))
     | Some ip \<Rightarrow>
        rbind (ilock (Some ip) s3) (\<lambda>s4.
        if i_type (itable s4 ip) \<noteq> T_DIR
        then rbind (iunlockput ip s4) (\<lambda>s5. rbind (end_op s5) (\<lambda>s6. Inr (Ret (-1), s6)))
        else rbind (iunlock (Some ip) s4) (\<lambda>s5.
             case me s5 of None \<Rightarrow> Inl Undef
             | Some i \<Rightarrow>
                (case p_cwd (procs s5 i) of None \<Rightarrow> Inl Undef
                 | Some cwd \<Rightarrow> rbind (iput cwd s5) (\<lambda>s6. rbind (end_op s6) (\<lambda>s7.
                     Inr (Ret 0, upd_proc i (\<lambda>p. p\<lparr>p_cwd := Some ip\<rparr>) s7)))))))))"

section \<open>Programs and pipes\<close>

definition kfree_all :: "u64 \<Rightarrow> u64 list \<Rightarrow> kernel \<Rightarrow> kernel res" where
  "kfree_all kend pages s = rfold (kfree kend) pages s"

text \<open>Fetching the arguments from \<^verbatim>\<open>argv[i]\<close> on; the pages allocated so far are \<open>argv\<close>. The result tells
  whether the null entry was found.\<close>

function exec_args :: "u64 \<Rightarrow> u64 \<Rightarrow> nat \<Rightarrow> u64 list \<Rightarrow> kernel \<Rightarrow> (bool \<times> u64 list \<times> kernel) res" where
  "exec_args kend uargv i argv s =
     (if MAXARG \<le> i then Inr (False, argv, s)
      else rbind (fetchaddr kend (uargv + 8 * of_nat i) s) (\<lambda>(r, uarg, s1).
           if r < 0 then Inr (False, argv, s1)
           else if uarg = 0 then Inr (True, argv, s1)
           else case kalloc s1 of (page, s2) \<Rightarrow>
                if page = 0 then Inr (False, argv, s2)
                else rbind (myproc s2) (\<lambda>p. rbind (copyinstr (p_pagetable p) uarg 4096 s2) (\<lambda>(r, bs).
                     let s3 = upd_mem (store_bytes page bs) s2
                     in if r < 0 then Inr (False, argv @ [page], s3)
                        else exec_args kend uargv (i + 1) (argv @ [page]) (snd (strlen page s3))))))"
  by pat_completeness auto
termination
  by (relation "measure (\<lambda>(kend, uargv, i, argv, s). MAXARG - i)") auto

declare exec_args.simps [simp del]

definition sys_exec :: "u64 \<Rightarrow> u64 \<Rightarrow> kernel \<Rightarrow> (u64 outcome \<times> kernel) res" where
  "sys_exec kend trampoline s =
     rbind (argaddr 1 s) (\<lambda>uargv. rbind (argstr 0 MAXPATH s) (\<lambda>(r, path, s1).
     if r < 0 then Inr (Ret (-1), s1)
     else rbind (exec_args kend uargv 0 [] (count_memset s1)) (\<lambda>(ok, argv, s2).
          if ok
          then rbind (kexec kend trampoline (Some (cstring path)) (Some (argv @ replicate (MAXARG - length argv) 0)) s2) (\<lambda>(ret, s3).
               rbind (kfree_all kend argv s3) (\<lambda>s4. Inr (Ret (word_of_int ret), s4)))
          else rbind (kfree_all kend argv s2) sys_fail)))"

definition pipe_fail :: "u64 \<Rightarrow> nat option \<Rightarrow> nat option \<Rightarrow> kernel \<Rightarrow> (u64 outcome \<times> kernel) res" where
  "pipe_fail kend rfile wfile s = rbind (fileclose kend rfile s) (\<lambda>s1. rbind (fileclose kend wfile s1) sys_fail)"

definition sys_pipe :: "u64 \<Rightarrow> kernel \<Rightarrow> (u64 outcome \<times> kernel) res" where
  "sys_pipe kend s =
     rbind (argaddr 0 s) (\<lambda>fdarray. rbind (pipealloc kend s) (\<lambda>(r, rfile, wfile, s1).
     if r < 0 then sys_fail s1
     else rbind (fdalloc rfile s1) (\<lambda>(d0, s2).
          case d0 of None \<Rightarrow> pipe_fail kend rfile wfile s2
          | Some fd0 \<Rightarrow>
             rbind (fdalloc wfile s2) (\<lambda>(d1, s3).
             case d1 of None \<Rightarrow> rbind (set_ofile fd0 None s3) (pipe_fail kend rfile wfile)
             | Some fd1 \<Rightarrow>
                rbind (myproc s3) (\<lambda>p.
                rbind (copyout kend (p_sz p) (p_pagetable p) (p_pagetable p) fdarray (le_bytes 4 (of_nat fd0 :: u32)) s3) (\<lambda>(r0, s4).
                rbind (if r0 < 0 then Inr (r0, s4)
                       else copyout kend (p_sz p) (p_pagetable p) (p_pagetable p) (fdarray + 4) (le_bytes 4 (of_nat fd1 :: u32)) s4) (\<lambda>(r1, s5).
                if r1 < 0
                then rbind (set_ofile fd0 None s5) (\<lambda>s6. rbind (set_ofile fd1 None s6) (pipe_fail kend rfile wfile))
                else Inr (Ret 0, s5))))))))"

end
