(* ===== verification/Sysproc.thy ===== *)
theory Sysproc
  imports Sysarg
begin

text \<open>
  The process system calls, \<^verbatim>\<open>src/kernel/sysproc.c\<close>. The value of the cycle counter that \<^verbatim>\<open>r_time()\<close>
  reads is an argument. \<open>sys_pause\<close> that goes to sleep returns \<open>Sleep\<close> with its local variable \<^verbatim>\<open>ticks0\<close>, and
  continues with \<open>pause_loop\<close> from there. Debug output is not modelled.
\<close>

section \<open>Handlers\<close>

definition upd_proc_stats :: "(proc_stats \<Rightarrow> proc_stats) \<Rightarrow> kernel \<Rightarrow> kernel" where
  "upd_proc_stats f = upd_kstats (\<lambda>t. t\<lparr>proc_stats_of := f (proc_stats_of t)\<rparr>)"

definition proc_stats_init :: "kernel \<Rightarrow> kernel" where
  "proc_stats_init = upd_proc_stats (\<lambda>_. \<lparr>exit_count = 0, getpid_count = 0, fork_count = 0, wait_count = 0,
     sbrk_count = 0, pause_count = 0, kill_count = 0, uptime_count = 0, failed_operations = 0\<rparr>)"

definition proc_fail :: "kernel \<Rightarrow> kernel" where
  "proc_fail = upd_proc_stats (\<lambda>t. t\<lparr>failed_operations := failed_operations t + 1\<rparr>)"

definition sys_exit :: "u64 \<Rightarrow> kernel \<Rightarrow> kernel res" where
  "sys_exit kend s =
     (let s0 = upd_proc_stats (\<lambda>t. t\<lparr>exit_count := exit_count t + 1\<rparr>) s
      in rbind (argint 0 s0) (\<lambda>n. kexit kend (word_of_int n) s0))"

definition sys_getpid :: "kernel \<Rightarrow> (u64 \<times> kernel) res" where
  "sys_getpid s =
     (let s0 = upd_proc_stats (\<lambda>t. t\<lparr>getpid_count := getpid_count t + 1\<rparr>) s
      in rbind (myproc s0) (\<lambda>p. Inr (scast (p_pid p), s0)))"

text \<open>The check for fork bombs: \<open>None\<close> when the call is refused.\<close>

definition fork_allowed :: "u64 \<Rightarrow> kernel \<Rightarrow> kernel option" where
  "fork_allowed now s =
     (if now - last_fork_time (stats s) < 1000000
      then let s1 = upd_kstats (\<lambda>t. t\<lparr>recent_forks := recent_forks t + 1\<rparr>) s
           in if 10 < sint (recent_forks (stats s1)) then None
              else Some (upd_kstats (\<lambda>t. t\<lparr>last_fork_time := now\<rparr>) s1)
      else Some (upd_kstats (\<lambda>t. t\<lparr>recent_forks := 0, last_fork_time := now\<rparr>) s))"

text \<open>\<^verbatim>\<open>recent_forks++\<close> stays when the call is refused.\<close>

definition sys_fork :: "u64 \<Rightarrow> u64 \<Rightarrow> u64 \<Rightarrow> u64 \<Rightarrow> kernel \<Rightarrow> (u64 \<times> kernel) res" where
  "sys_fork kend trampoline forkret now s =
     (let s0 = upd_proc_stats (\<lambda>t. t\<lparr>fork_count := fork_count t + 1\<rparr>) s
      in case fork_allowed now s0 of
           None \<Rightarrow> Inr (-1, proc_fail (upd_kstats (\<lambda>t. t\<lparr>recent_forks := recent_forks t + 1\<rparr>) s0))
         | Some s1 \<Rightarrow>
            rbind (kfork kend trampoline forkret s1) (\<lambda>(pid, s2).
            Inr (word_of_int pid, if pid < 0 then proc_fail s2 else s2)))"

definition sys_wait :: "u64 \<Rightarrow> kernel \<Rightarrow> (u64 outcome \<times> kernel) res" where
  "sys_wait kend s =
     (let s0 = upd_proc_stats (\<lambda>t. t\<lparr>wait_count := wait_count t + 1\<rparr>) s
      in rbind (argaddr 0 s0) (\<lambda>p. rbind (myproc s0) (\<lambda>proc.
         if p \<noteq> 0 \<and> (p_sz proc \<le> p \<or> p_sz proc < p + 4) then Inr (Ret (-1), proc_fail s0)
         else rbind (kwait kend p s0) (\<lambda>(r, s1).
              Inr (case r of Ret n \<Rightarrow> Ret (word_of_int n) | Sleep k bs \<Rightarrow> Sleep k bs, s1)))))"

abbreviation SBRK_EAGER :: int where "SBRK_EAGER \<equiv> 1"

definition sys_sbrk :: "u64 \<Rightarrow> kernel \<Rightarrow> (u64 \<times> kernel) res" where
  "sys_sbrk kend s =
     (let s0 = upd_proc_stats (\<lambda>t. t\<lparr>sbrk_count := sbrk_count t + 1\<rparr>) s
      in case me s0 of None \<Rightarrow> Inl Undef
      | Some i \<Rightarrow>
         rbind (argint 0 s0) (\<lambda>n. rbind (argint 1 s0) (\<lambda>t.
         let addr = p_sz (procs s0 i)
         in if 100 * 1024 * 1024 < n then Inr (-1, proc_fail s0)
            else if 512 * 1024 * 1024 < addr + word_of_int n then Inr (-1, proc_fail s0)
            else if 0 < n \<and> addr + word_of_int n < addr then Inr (-1, proc_fail s0)
            else if t = SBRK_EAGER \<or> n < 0
            then rbind (growproc kend n s0) (\<lambda>(r, s1).
                 if r < 0 then Inr (-1, proc_fail s1) else Inr (addr, s1))
            else if addr + word_of_int n < addr then Inr (-1, proc_fail s0)
            else Inr (addr, upd_proc i (\<lambda>p. p\<lparr>p_sz := p_sz p + word_of_int n\<rparr>) s0))))"

definition pause_loop :: "u32 \<Rightarrow> u32 \<Rightarrow> kernel \<Rightarrow> (u64 outcome \<times> kernel) res" where
  "pause_loop ticks0 n s =
     (if ticks s - ticks0 < n
      then rbind (myproc s) (\<lambda>p.
           if killed p then Inr (Ret (-1), s)
           else rbind (sleep Ticks s) (\<lambda>s1. Inr (Sleep (unat ticks0) [], s1)))
      else Inr (Ret 0, s))"

definition pause_ticks :: "int \<Rightarrow> u32" where
  "pause_ticks n = (let n = (if n < 0 then 0 else n) in if 100000 < n then 100000 else word_of_int n)"

definition sys_pause :: "kernel \<Rightarrow> (u64 outcome \<times> kernel) res" where
  "sys_pause s =
     (let s0 = upd_proc_stats (\<lambda>t. t\<lparr>pause_count := pause_count t + 1\<rparr>) s
      in rbind (argint 0 s0) (\<lambda>n. pause_loop (ticks s0) (pause_ticks n) s0))"

definition sys_kill :: "kernel \<Rightarrow> (u64 \<times> kernel) res" where
  "sys_kill s =
     (let s0 = upd_proc_stats (\<lambda>t. t\<lparr>kill_count := kill_count t + 1\<rparr>) s
      in rbind (argint 0 s0) (\<lambda>pid.
         if pid = 1 then Inr (-1, proc_fail s0)
         else if pid \<le> 0 \<or> 32768 < pid then Inr (-1, proc_fail s0)
         else case kkill (word_of_int pid) s0 of (r, s1) \<Rightarrow> Inr (word_of_int r, s1)))"

definition sys_uptime :: "kernel \<Rightarrow> u64 \<times> kernel" where
  "sys_uptime s = (ucast (ticks s), upd_proc_stats (\<lambda>t. t\<lparr>uptime_count := uptime_count t + 1\<rparr>) s)"

end
