(* ===== verification/Syscall.thy ===== *)
theory Syscall
  imports Sysfile Sysproc
begin

text \<open>
  System call dispatch, the second half of \<^verbatim>\<open>src/kernel/syscall.c\<close>: the table of handlers by the numbers of
  \<^verbatim>\<open>src/kernel/syscall.h\<close>, and \<open>syscall\<close>, which counts the call, runs the handler and stores its result in
  the saved register \<^verbatim>\<open>a0\<close>. A handler that goes to sleep or exits does not return to \<^verbatim>\<open>syscall\<close> yet or at
  all. Debug output is not modelled.
\<close>

section \<open>Dispatch\<close>

datatype sysret = Returned u64 | Suspended nat "u8 list" | Exited

definition plain :: "(u64 \<times> kernel) res \<Rightarrow> (sysret \<times> kernel) res" where
  "plain r = rbind r (\<lambda>(v, s). Inr (Returned v, s))"

definition may_sleep :: "(u64 outcome \<times> kernel) res \<Rightarrow> (sysret \<times> kernel) res" where
  "may_sleep r = rbind r (\<lambda>(v, s). Inr (case v of Ret n \<Rightarrow> Returned n | Sleep k bs \<Rightarrow> Suspended k bs, s))"

text \<open>What the handlers take from outside the sources: the symbols \<^verbatim>\<open>end\<close>, \<^verbatim>\<open>trampoline\<close> and \<^verbatim>\<open>forkret\<close> of the linked
  kernel, the bytes that happen to be in the padding of \<^verbatim>\<open>struct stat\<close>, and the cycle counter.\<close>

record env =
  e_kend :: u64
  e_trampoline :: u64
  e_forkret :: u64
  e_padding :: "u8 list"
  e_now :: u64

definition syscalls :: "env \<Rightarrow> int \<Rightarrow> (kernel \<Rightarrow> (sysret \<times> kernel) res) option" where
  "syscalls e = map_of
     [(1, \<lambda>s. plain (sys_fork (e_kend e) (e_trampoline e) (e_forkret e) (e_now e) s)),
      (2, \<lambda>s. rbind (sys_exit (e_kend e) s) (\<lambda>s1. Inr (Exited, s1))),
      (3, \<lambda>s. may_sleep (sys_wait (e_kend e) s)),
      (4, \<lambda>s. may_sleep (sys_pipe (e_kend e) s)),
      (5, \<lambda>s. may_sleep (sys_read (e_kend e) s)),
      (6, \<lambda>s. plain (sys_kill s)),
      (7, \<lambda>s. may_sleep (sys_exec (e_kend e) (e_trampoline e) s)),
      (8, \<lambda>s. may_sleep (sys_fstat (e_kend e) (e_padding e) s)),
      (9, \<lambda>s. may_sleep (sys_chdir (e_kend e) s)),
      (10, \<lambda>s. may_sleep (sys_dup s)),
      (11, \<lambda>s. plain (sys_getpid s)),
      (12, \<lambda>s. plain (sys_sbrk (e_kend e) s)),
      (13, \<lambda>s. may_sleep (sys_pause s)),
      (14, \<lambda>s. plain (Inr (sys_uptime s))),
      (15, \<lambda>s. may_sleep (sys_open (e_kend e) s)),
      (16, \<lambda>s. may_sleep (sys_write (e_kend e) s)),
      (17, \<lambda>s. may_sleep (sys_mknod (e_kend e) s)),
      (18, \<lambda>s. may_sleep (sys_unlink (e_kend e) s)),
      (19, \<lambda>s. may_sleep (sys_link (e_kend e) s)),
      (20, \<lambda>s. may_sleep (sys_mkdir (e_kend e) s)),
      (21, \<lambda>s. may_sleep (sys_close (e_kend e) s))]"

abbreviation NSYSCALLS :: int where "NSYSCALLS \<equiv> 22"

definition upd_syscall_stats :: "(syscall_stats \<Rightarrow> syscall_stats) \<Rightarrow> kernel \<Rightarrow> kernel" where
  "upd_syscall_stats f = upd_kstats (\<lambda>t. t\<lparr>syscall_stats_of := f (syscall_stats_of t)\<rparr>)"

definition syscall_stats_init :: "kernel \<Rightarrow> kernel" where
  "syscall_stats_init = upd_syscall_stats (\<lambda>_. \<lparr>syscall_count = replicate 22 0, total_calls = 0, failed_calls = 0\<rparr>)"

definition count_syscall :: "int \<Rightarrow> kernel \<Rightarrow> kernel" where
  "count_syscall num = upd_syscall_stats (\<lambda>t.
     let t1 = t\<lparr>total_calls := total_calls t + 1\<rparr>
     in if 0 < num \<and> num < NSYSCALLS
        then t1\<lparr>syscall_count := (syscall_count t1)[nat num := syscall_count t1 ! nat num + 1]\<rparr> else t1)"

definition syscall :: "env \<Rightarrow> kernel \<Rightarrow> (sysret \<times> kernel) res" where
  "syscall e s =
     rbind (tf_get TF_A7 s) (\<lambda>a7.
     let num = sint (ucast a7 :: u32); s1 = count_syscall num s
     in case (if 0 < num \<and> num < NSYSCALLS then syscalls e num else None) of
          Some handler \<Rightarrow>
            rbind (handler s1) (\<lambda>(r, s2).
            case r of Returned v \<Rightarrow> rbind (tf_set TF_A0 v s2) (\<lambda>s3. Inr (Returned v, s3))
            | _ \<Rightarrow> Inr (r, s2))
        | None \<Rightarrow>
            rbind (tf_set TF_A0 (-1) s1) (\<lambda>s2.
            Inr (Returned (-1), upd_syscall_stats (\<lambda>t. t\<lparr>failed_calls := failed_calls t + 1\<rparr>) s2)))"

end
