(* ===== verification/Virtio.thy ===== *)
theory Virtio
  imports Kstate
begin

text \<open>
  The disk driver, \<^verbatim>\<open>src/kernel/virtio_disk.c\<close>, with the data structures of \<^verbatim>\<open>src/kernel/virtio.h\<close>. The state
  is \<open>vdisk\<close> beside the kernel, whose buffers the driver reads and marks. Addresses in descriptors are
  symbolic: a request header \<^verbatim>\<open>&disk.ops[i]\<close>, the data of a buffer or a status byte \<^verbatim>\<open>&disk.info[i].status\<close>.
  The device is not part of the sources: the values its registers return depend on the writes made
  so far and are given by the argument \<open>mmio\<close>, and what it does with the rings is a hypothesis of
  the properties. \<^verbatim>\<open>virtio_disk_rw\<close> is split at its sleeps; \<open>rw_wait\<close> and \<open>rw_alloc\<close> are the two loops.
  The cycle counter is an argument. Debug output is not modelled.
\<close>

section \<open>State\<close>

abbreviation NUM :: nat where "NUM \<equiv> 8"

datatype daddr = Nowhere | OpsOf nat | DataOf nat | StatusOf nat

record virtq_desc =
  d_addr :: daddr
  d_len :: u32
  d_flags :: u16
  d_next :: u16

abbreviation VRING_DESC_F_NEXT :: u16 where "VRING_DESC_F_NEXT \<equiv> 1"
abbreviation VRING_DESC_F_WRITE :: u16 where "VRING_DESC_F_WRITE \<equiv> 2"

record virtio_blk_req =
  r_type :: u32
  r_reserved :: u32
  r_sector :: u64

definition VIRTIO_BLK_T_IN :: u32 where "VIRTIO_BLK_T_IN = 0"
definition VIRTIO_BLK_T_OUT :: u32 where "VIRTIO_BLK_T_OUT = 1"

record virtio_stats =
  read_requests :: u64
  write_requests :: u64
  completed_ops :: u64
  vfailed_ops :: u64
  interrupts :: u64
  descriptor_alloc_failures :: u64
  total_bytes_read :: u64
  total_bytes_written :: u64
  max_queue_depth :: u64
  avg_response_time :: u64

text \<open>\<open>avail_idx\<close> and \<open>used_ring_idx\<close> are \<^verbatim>\<open>disk.avail->idx\<close> and \<^verbatim>\<open>disk.used->idx\<close>; \<open>reg_writes\<close> is what has been
  written to the registers.\<close>

record vdisk =
  desc :: "virtq_desc list"
  avail_idx :: u16
  avail_ring :: "u16 list"
  used_ring_idx :: u16
  used_ring :: "u32 list"
  free :: "bool list"
  used_idx :: u16
  info_b :: "nat option list"
  info_status :: "u8 list"
  ops :: "virtio_blk_req list"
  vstats :: virtio_stats
  start_time :: "u64 list"
  total_time :: u64
  operation_count :: u64
  reg_writes :: "(u32 \<times> u32) list"

definition upd_vstats :: "(virtio_stats \<Rightarrow> virtio_stats) \<Rightarrow> vdisk \<Rightarrow> vdisk" where
  "upd_vstats f v = v\<lparr>vstats := f (vstats v)\<rparr>"

definition upd_desc :: "nat \<Rightarrow> (virtq_desc \<Rightarrow> virtq_desc) \<Rightarrow> vdisk \<Rightarrow> vdisk" where
  "upd_desc i f v = v\<lparr>desc := (desc v)[i := f (desc v ! i)]\<rparr>"

definition virtio_stats_init :: "vdisk \<Rightarrow> vdisk" where
  "virtio_stats_init = upd_vstats (\<lambda>_. \<lparr>read_requests = 0, write_requests = 0, completed_ops = 0, vfailed_ops = 0,
     interrupts = 0, descriptor_alloc_failures = 0, total_bytes_read = 0, total_bytes_written = 0, max_queue_depth = 0,
     avg_response_time = 0\<rparr>)"

section \<open>Registers\<close>

type_synonym mmio = "(u32 \<times> u32) list \<Rightarrow> u32 \<Rightarrow> u32"

definition validate_virtio_reg :: "u32 \<Rightarrow> bool" where
  "validate_virtio_reg offset = (if 0x100 < offset then False else True)"

definition safe_read_reg :: "mmio \<Rightarrow> u32 \<Rightarrow> vdisk \<Rightarrow> u32" where
  "safe_read_reg mmio offset v = (if \<not> validate_virtio_reg offset then 0 else mmio (reg_writes v) offset)"

definition safe_write_reg :: "u32 \<Rightarrow> u32 \<Rightarrow> vdisk \<Rightarrow> vdisk" where
  "safe_write_reg offset val v =
     (if \<not> validate_virtio_reg offset then v else v\<lparr>reg_writes := reg_writes v @ [(offset, val)]\<rparr>)"

text \<open>Clearing the feature bits that the driver does not use.\<close>

definition driver_features :: "u32 \<Rightarrow> u32" where
  "driver_features f =
     fold (\<lambda>b f. f AND NOT (push_bit b 1)) [5, 7, 11, 12, 27, 29, 28] f"

definition queue_addresses :: "u64 \<Rightarrow> u64 \<Rightarrow> u64 \<Rightarrow> (u32 \<times> u32) list" where
  "queue_addresses d a u =
     [(0x080, ucast d), (0x084, ucast (drop_bit 32 d)), (0x090, ucast a), (0x094, ucast (drop_bit 32 a)),
      (0x0a0, ucast u), (0x0a4, ucast (drop_bit 32 u))]"

definition zero_desc :: virtq_desc where
  "zero_desc = \<lparr>d_addr = Nowhere, d_len = 0, d_flags = 0, d_next = 0\<rparr>"

text \<open>From the allocation of the queue memory on; the three pages are zeroed.\<close>

definition virtio_init_queue :: "u32 \<Rightarrow> vdisk \<Rightarrow> 'a kmem_scheme \<Rightarrow> (vdisk \<times> 'a kmem_scheme) res" where
  "virtio_init_queue status v s =
     (case kalloc s of (d, s1) \<Rightarrow> case kalloc s1 of (a, s2) \<Rightarrow> case kalloc s2 of (u, s3) \<Rightarrow>
      if d = 0 \<or> a = 0 \<or> u = 0 then Inl (Panic ''virtio disk kalloc'')
      else let s4 = snd (memset u 0 4096 (snd (memset a 0 4096 (snd (memset d 0 4096 s3)))));
               v1 = v\<lparr>desc := replicate NUM zero_desc, avail_idx := 0, avail_ring := replicate NUM 0, used_ring_idx := 0,
                      used_ring := replicate NUM 0\<rparr>;
               v2 = safe_write_reg 0x038 (of_nat NUM) v1;
               v3 = fold (\<lambda>(r, x). safe_write_reg r x) (queue_addresses d a u) v2;
               v4 = (safe_write_reg 0x044 0x1 v3)\<lparr>free := replicate NUM True\<rparr>
           in Inr (safe_write_reg 0x070 (status OR 4) v4, s4))"

definition virtio_disk_init :: "mmio \<Rightarrow> vdisk \<Rightarrow> 'a kmem_scheme \<Rightarrow> (vdisk \<times> 'a kmem_scheme) res" where
  "virtio_disk_init mmio v s =
     (let v0 = virtio_stats_init v
      in if safe_read_reg mmio 0x000 v0 \<noteq> 0x74726976 \<or> safe_read_reg mmio 0x004 v0 \<noteq> 2
            \<or> safe_read_reg mmio 0x008 v0 \<noteq> 2 \<or> safe_read_reg mmio 0x00c v0 \<noteq> 0x554d4551
         then Inl (Panic ''could not find virtio disk'')
         else let v1 = safe_write_reg 0x070 0 v0;
                  v2 = safe_write_reg 0x070 1 v1;
                  v3 = safe_write_reg 0x070 3 v2;
                  v4 = safe_write_reg 0x020 (driver_features (safe_read_reg mmio 0x010 v3)) v3;
                  v5 = safe_write_reg 0x070 11 v4;
                  status = safe_read_reg mmio 0x070 v5
              in if status AND 8 = 0 then Inl (Panic ''virtio disk FEATURES_OK unset'')
                 else let v6 = safe_write_reg 0x030 0 v5
                      in if safe_read_reg mmio 0x044 v6 \<noteq> 0 then Inl (Panic ''virtio disk should not be ready'')
                         else let max = safe_read_reg mmio 0x034 v6
                              in if max = 0 then Inl (Panic ''virtio disk has no queue 0'')
                                 else if max < of_nat NUM then Inl (Panic ''virtio disk max queue too short'')
                                 else virtio_init_queue status v6 s)"

section \<open>Descriptors\<close>

definition alloc_desc :: "vdisk \<Rightarrow> nat option \<times> vdisk" where
  "alloc_desc v =
     (case find (\<lambda>i. free v ! i) [0..<NUM] of
        Some i \<Rightarrow> (Some i, v\<lparr>free := (free v)[i := False]\<rparr>)
      | None \<Rightarrow> (None, upd_vstats (\<lambda>t. t\<lparr>descriptor_alloc_failures := descriptor_alloc_failures t + 1\<rparr>) v))"

definition free_desc :: "nat \<Rightarrow> vdisk \<times> kernel \<Rightarrow> (vdisk \<times> kernel) res" where
  "free_desc i x =
     (case x of (v, s) \<Rightarrow>
      if NUM \<le> i then Inl (Panic ''free_desc 1'')
      else if free v ! i then Inl (Panic ''free_desc 2'')
      else Inr ((upd_desc i (\<lambda>_. zero_desc) v)\<lparr>free := (free v)[i := True]\<rparr>, wakeup DiskFree s))"

text \<open>The loop of \<^verbatim>\<open>free_chain\<close> with \<^verbatim>\<open>count\<close> descriptors freed so far.\<close>

function vfree_chain_loop :: "nat \<Rightarrow> nat \<Rightarrow> vdisk \<times> kernel \<Rightarrow> (vdisk \<times> kernel) res" where
  "vfree_chain_loop count i x =
     (if NUM \<le> i then Inl Undef
      else let flag = d_flags (desc (fst x) ! i); nxt = unat (d_next (desc (fst x) ! i))
           in rbind (free_desc i x) (\<lambda>x1.
              if flag AND VRING_DESC_F_NEXT \<noteq> 0
              then if NUM < count + 1 then Inr x1 else vfree_chain_loop (count + 1) nxt x1
              else Inr x1))"
  by pat_completeness auto
termination
  by (relation "measure (\<lambda>(count, i, x). NUM + 1 - count)") auto

declare vfree_chain_loop.simps [simp del]

definition vfree_chain :: "nat \<Rightarrow> vdisk \<times> kernel \<Rightarrow> (vdisk \<times> kernel) res" where
  "vfree_chain i x = vfree_chain_loop 0 i x"

text \<open>The loop of \<^verbatim>\<open>alloc3_desc\<close> with the descriptors \<open>idx\<close> allocated so far.\<close>

function alloc3_loop :: "nat list \<Rightarrow> vdisk \<times> kernel \<Rightarrow> (nat list option \<times> vdisk \<times> kernel) res" where
  "alloc3_loop idx x =
     (if \<not> length idx < 3 then Inr (Some idx, x)
      else case alloc_desc (fst x) of (d, v) \<Rightarrow>
           case d of None \<Rightarrow> rbind (rfold free_desc idx (v, snd x)) (\<lambda>x1. Inr (None, x1))
           | Some i \<Rightarrow> alloc3_loop (idx @ [i]) (v, snd x))"
  by pat_completeness auto
termination
  by (relation "measure (\<lambda>(idx, x). 3 - length idx)") auto

declare alloc3_loop.simps [simp del]

definition alloc3_desc :: "vdisk \<times> kernel \<Rightarrow> (nat list option \<times> vdisk \<times> kernel) res" where
  "alloc3_desc x = alloc3_loop [] x"

definition get_queue_depth :: "vdisk \<Rightarrow> nat" where
  "get_queue_depth v = length (filter (\<lambda>i. \<not> free v ! i) [0..<NUM])"

section \<open>Requests\<close>

text \<open>Where \<^verbatim>\<open>virtio_disk_rw\<close> has arrived: it has returned, it sleeps for descriptors, or it sleeps until the request
  at descriptor \<open>i\<close> has finished; with the values of \<^verbatim>\<open>timeout\<close> and \<^verbatim>\<open>start_time\<close>.\<close>

datatype rw = RwDone | RwNoDesc nat | RwWait nat nat u64

definition rw_count :: "bool \<Rightarrow> vdisk \<Rightarrow> vdisk" where
  "rw_count wr v =
     (let v1 = upd_vstats (\<lambda>t. if wr then t\<lparr>write_requests := write_requests t + 1, total_bytes_written := total_bytes_written t + 1024\<rparr>
                 else t\<lparr>read_requests := read_requests t + 1, total_bytes_read := total_bytes_read t + 1024\<rparr>) v;
          queue_depth = of_nat (get_queue_depth v1)
      in upd_vstats (\<lambda>t. if max_queue_depth t < queue_depth then t\<lparr>max_queue_depth := queue_depth\<rparr> else t) v1)"

text \<open>\<^verbatim>\<open>b->blockno * (BSIZE / 512)\<close> is computed in 32 bits.\<close>

definition sector_of :: "u32 \<Rightarrow> u64" where
  "sector_of blockno = ucast (blockno * 2)"

definition format_request :: "nat \<Rightarrow> nat \<Rightarrow> nat \<Rightarrow> nat \<Rightarrow> bool \<Rightarrow> u64 \<Rightarrow> vdisk \<Rightarrow> vdisk" where
  "format_request i0 i1 i2 b wr sector v =
     (let v1 = v\<lparr>ops := (ops v)[i0 := \<lparr>r_type = (if wr then VIRTIO_BLK_T_OUT else VIRTIO_BLK_T_IN), r_reserved = 0,
                   r_sector = sector\<rparr>]\<rparr>;
          v2 = upd_desc i0 (\<lambda>_. \<lparr>d_addr = OpsOf i0, d_len = 16, d_flags = VRING_DESC_F_NEXT, d_next = of_nat i1\<rparr>) v1;
          v3 = upd_desc i1 (\<lambda>_. \<lparr>d_addr = DataOf b, d_len = 1024,
                 d_flags = (if wr then 0 else VRING_DESC_F_WRITE) OR VRING_DESC_F_NEXT, d_next = of_nat i2\<rparr>) v2;
          v4 = v3\<lparr>info_status := (info_status v3)[i0 := 0xff]\<rparr>
      in upd_desc i2 (\<lambda>_. \<lparr>d_addr = StatusOf i0, d_len = 1, d_flags = VRING_DESC_F_WRITE, d_next = 0\<rparr>) v4)"

text \<open>From the completion of the request on. \<^verbatim>\<open>start_time\<close> is kept in \<open>start\<close>.\<close>

definition rw_finish :: "nat \<Rightarrow> u64 \<Rightarrow> u64 \<Rightarrow> vdisk \<times> kernel \<Rightarrow> (rw \<times> vdisk \<times> kernel) res" where
  "rw_finish i0 start now x =
     (case x of (v, s) \<Rightarrow>
      let v1 = (if start \<noteq> 0 then v\<lparr>total_time := total_time v + (now - start), operation_count := operation_count v + 1\<rparr> else v);
          v2 = v1\<lparr>info_b := (info_b v1)[i0 := None]\<rparr>
      in rbind (vfree_chain i0 (v2, s)) (\<lambda>(v3, s1).
         Inr (RwDone, upd_vstats (\<lambda>t. t\<lparr>completed_ops := completed_ops t + 1\<rparr>) v3, s1)))"

definition rw_wait :: "nat \<Rightarrow> nat \<Rightarrow> nat \<Rightarrow> u64 \<Rightarrow> u64 \<Rightarrow> vdisk \<times> kernel \<Rightarrow> (rw \<times> vdisk \<times> kernel) res" where
  "rw_wait b i0 timeout start now x =
     (if b_disk (bufs (snd x) b) then rbind (sleep (DiskBuf b) (snd x)) (\<lambda>s1. Inr (RwWait i0 timeout start, fst x, s1))
      else rw_finish i0 start now x)"

text \<open>Woken from the sleep of \<open>rw_wait\<close>.\<close>

definition rw_resume :: "nat \<Rightarrow> nat \<Rightarrow> nat \<Rightarrow> u64 \<Rightarrow> u64 \<Rightarrow> vdisk \<times> kernel \<Rightarrow> (rw \<times> vdisk \<times> kernel) res" where
  "rw_resume b i0 timeout start now x =
     (if 10000 < timeout + 1
      then rw_finish i0 start now (upd_vstats (\<lambda>t. t\<lparr>vfailed_ops := vfailed_ops t + 1\<rparr>) (fst x), snd x)
      else rw_wait b i0 (timeout + 1) start now x)"

definition rw_submit :: "nat list \<Rightarrow> nat \<Rightarrow> bool \<Rightarrow> u64 \<Rightarrow> vdisk \<times> kernel \<Rightarrow> vdisk \<times> kernel" where
  "rw_submit idx b wr now x =
     (case x of (v, s) \<Rightarrow>
      let i0 = idx ! 0;
          v1 = v\<lparr>start_time := (start_time v)[i0 := now]\<rparr>;
          v2 = format_request i0 (idx ! 1) (idx ! 2) b wr (sector_of (b_blockno (bufs s b))) v1;
          s1 = upd_buf b (\<lambda>B. B\<lparr>b_disk := True\<rparr>) s;
          v3 = v2\<lparr>info_b := (info_b v2)[i0 := Some b]\<rparr>;
          v4 = v3\<lparr>avail_ring := (avail_ring v3)[unat (avail_idx v3 mod 8) := of_nat i0]\<rparr>;
          v5 = v4\<lparr>avail_idx := avail_idx v4 + 1\<rparr>
      in (safe_write_reg 0x050 0 v5, s1))"

definition rw_alloc :: "nat \<Rightarrow> bool \<Rightarrow> nat \<Rightarrow> u64 \<Rightarrow> vdisk \<times> kernel \<Rightarrow> (rw \<times> vdisk \<times> kernel) res" where
  "rw_alloc b wr timeout now x =
     rbind (alloc3_desc x) (\<lambda>(d, x1).
     case d of
       Some idx \<Rightarrow> rw_wait b (idx ! 0) 0 now now (rw_submit idx b wr now x1)
     | None \<Rightarrow>
        if 1000 < timeout + 1
        then Inr (RwDone, upd_vstats (\<lambda>t. t\<lparr>vfailed_ops := vfailed_ops t + 1\<rparr>) (fst x1), snd x1)
        else rbind (sleep DiskFree (snd x1)) (\<lambda>s1. Inr (RwNoDesc (timeout + 1), fst x1, s1)))"

definition virtio_disk_rw :: "nat \<Rightarrow> bool \<Rightarrow> u64 \<Rightarrow> vdisk \<times> kernel \<Rightarrow> (rw \<times> vdisk \<times> kernel) res" where
  "virtio_disk_rw b wr now x = rw_alloc b wr 0 now (rw_count wr (fst x), snd x)"

section \<open>Interrupts\<close>

text \<open>The loop of \<^verbatim>\<open>virtio_disk_intr\<close> with \<^verbatim>\<open>processed\<close> completions handled so far.\<close>

function intr_loop :: "nat \<Rightarrow> vdisk \<times> kernel \<Rightarrow> (vdisk \<times> kernel) res" where
  "intr_loop processed x =
     (case x of (v, s) \<Rightarrow>
      if used_idx v = used_ring_idx v then Inr (v, s)
      else let ident = used_ring v ! unat (used_idx v mod 8)
           in if int NUM \<le> sint ident then Inr (v, s)
              else if sint ident < 0 then Inl Undef
              else if info_status v ! unat ident \<noteq> 0 then Inl (Panic ''virtio_disk_intr status'')
              else let s1 = (case info_b v ! unat ident of None \<Rightarrow> s
                             | Some b \<Rightarrow> wakeup (DiskBuf b) (upd_buf b (\<lambda>B. B\<lparr>b_disk := False\<rparr>) s));
                       x1 = (v\<lparr>used_idx := used_idx v + 1\<rparr>, s1)
                   in if NUM < processed + 1 then Inr x1 else intr_loop (processed + 1) x1)"
  by pat_completeness auto
termination
  by (relation "measure (\<lambda>(processed, x). NUM + 1 - processed)") auto

declare intr_loop.simps [simp del]

definition virtio_disk_intr :: "mmio \<Rightarrow> vdisk \<times> kernel \<Rightarrow> (vdisk \<times> kernel) res" where
  "virtio_disk_intr mmio x =
     (case x of (v, s) \<Rightarrow>
      let v1 = upd_vstats (\<lambda>t. t\<lparr>interrupts := interrupts t + 1\<rparr>) v;
          v2 = safe_write_reg 0x064 (safe_read_reg mmio 0x060 v1 AND 0x3) v1
      in intr_loop 0 (v2, s))"

end
