(* ===== verification/Trap.thy ===== *)
theory Trap
  imports Syscall Virtio
begin

text \<open>
  Traps and interrupts, \<^verbatim>\<open>src/kernel/trap.c\<close>, with \<^verbatim>\<open>src/kernel/plic.c\<close> seen through the interrupt number it
  claims. \<open>hart\<close> holds the control registers of the processor. A trap from user space ends in a
  return to user space (\<open>ToUser\<close> with the value for \<^verbatim>\<open>satp\<close>), or the process gives up the processor
  because it sleeps, yields or exits (\<open>OffCpu\<close>); it continues with \<open>usertrap_tail\<close> or \<open>usertrap_return\<close> when it
  runs again. What the devices present (the claimed interrupt, the bytes of the serial line, the
  registers of the disk) and the cycle counter are arguments. Debug output is not modelled.
\<close>

section \<open>Registers\<close>

record hart =
  sstatus :: u64
  sepc :: u64
  scause :: u64
  stval :: u64
  stvec :: u64
  satp :: u64
  stimecmp :: u64
  hartid :: u64

definition SSTATUS_SPP :: u64 where "SSTATUS_SPP = 0x100"
definition SSTATUS_SPIE :: u64 where "SSTATUS_SPIE = 0x20"
definition SSTATUS_SIE :: u64 where "SSTATUS_SIE = 0x2"

definition intr_on :: "hart \<Rightarrow> hart" where
  "intr_on h = h\<lparr>sstatus := sstatus h OR SSTATUS_SIE\<rparr>"

definition intr_off :: "hart \<Rightarrow> hart" where
  "intr_off h = h\<lparr>sstatus := sstatus h AND NOT SSTATUS_SIE\<rparr>"

definition intr_get :: "hart \<Rightarrow> bool" where
  "intr_get h \<longleftrightarrow> sstatus h AND SSTATUS_SIE \<noteq> 0"

text \<open>Symbols of the linked kernel.\<close>

record vectors =
  kernelvec :: u64
  uservec :: u64
  usertrap_addr :: u64

text \<open>What the devices present to one trap.\<close>

record devices =
  claimed :: u32
  tx_idle :: bool
  rx_bytes :: "u8 list"
  disk_regs :: mmio

definition upd_trap_stats :: "(trap_stats \<Rightarrow> trap_stats) \<Rightarrow> kernel \<Rightarrow> kernel" where
  "upd_trap_stats f = upd_kstats (\<lambda>t. t\<lparr>trap_stats_of := f (trap_stats_of t)\<rparr>)"

definition trapinit :: "kernel \<Rightarrow> kernel" where
  "trapinit = upd_trap_stats (\<lambda>_. \<lparr>trap_syscall_count = 0, pagefault_count = 0, interrupt_count = 0,
     exception_count = 0, unknown_trap_count = 0\<rparr>)"

definition trapinithart :: "vectors \<Rightarrow> hart \<Rightarrow> hart" where
  "trapinithart ve h = h\<lparr>stvec := kernelvec ve\<rparr>"

section \<open>Interrupts\<close>

definition clockintr :: "u64 \<Rightarrow> hart \<Rightarrow> kernel \<Rightarrow> hart \<times> kernel" where
  "clockintr now h s =
     (h\<lparr>stimecmp := now + 1000000\<rparr>, if hartid h = 0 then wakeup Ticks (s\<lparr>ticks := ticks s + 1\<rparr>) else s)"

abbreviation UART0_IRQ :: u32 where "UART0_IRQ \<equiv> 10"
abbreviation VIRTIO0_IRQ :: u32 where "VIRTIO0_IRQ \<equiv> 1"

text \<open>\<^verbatim>\<open>plic_complete\<close> only writes the number back to the interrupt controller.\<close>

definition devintr :: "u64 \<Rightarrow> devices \<Rightarrow> hart \<Rightarrow> vdisk \<times> kernel \<Rightarrow> (nat \<times> hart \<times> vdisk \<times> kernel) res" where
  "devintr now d h x =
     (if scause h = 0x8000000000000009
      then if claimed d = UART0_IRQ then Inr (1, h, fst x, uartintr (tx_idle d) (rx_bytes d) (snd x))
           else if claimed d = VIRTIO0_IRQ then rbind (virtio_disk_intr (disk_regs d) x) (\<lambda>x1. Inr (1, h, x1))
           else Inr (1, h, x)
      else if scause h = 0x8000000000000005
      then (case clockintr now h (snd x) of (h1, s1) \<Rightarrow> Inr (2, h1, fst x, s1))
      else Inr (0, h, x))"

section \<open>Traps from user space\<close>

datatype trapret = ToUser u64 | OffCpu

definition prepare_return :: "env \<Rightarrow> vectors \<Rightarrow> hart \<Rightarrow> kernel \<Rightarrow> (hart \<times> kernel) res" where
  "prepare_return e ve h s =
     (let h1 = (intr_off h)\<lparr>stvec := TRAMPOLINE + (uservec ve - e_trampoline e)\<rparr>
      in rbind (myproc s) (\<lambda>p.
         rbind (tf_set 0 (satp h1) s) (\<lambda>s1.
         rbind (tf_set TF_KERNEL_SP (p_kstack p + 4096) s1) (\<lambda>s2.
         rbind (tf_set TF_KERNEL_TRAP (usertrap_addr ve) s2) (\<lambda>s3.
         rbind (tf_set TF_KERNEL_HARTID (hartid h1) s3) (\<lambda>s4.
         rbind (tf_get TF_KERNEL_SP s4) (\<lambda>ksp.
         if ksp = 0 then Inl (Panic ''prepare_return: invalid kernel stack'')
         else rbind (tf_get 0 s4) (\<lambda>ksatp.
              if ksatp = 0 then Inl (Panic ''prepare_return: invalid kernel page table'')
              else let h2 = h1\<lparr>sstatus := (sstatus h1 AND NOT SSTATUS_SPP) OR SSTATUS_SPIE\<rparr>
                   in rbind (tf_get TF_EPC s4) (\<lambda>epc. Inr (h2\<lparr>sepc := epc\<rparr>, s4))))))))))"

definition usertrap_return :: "env \<Rightarrow> vectors \<Rightarrow> hart \<Rightarrow> vdisk \<times> kernel \<Rightarrow> (trapret \<times> hart \<times> vdisk \<times> kernel) res" where
  "usertrap_return e ve h x =
     rbind (prepare_return e ve h (snd x)) (\<lambda>(h1, s1).
     rbind (myproc s1) (\<lambda>p. Inr (ToUser (MAKE_SATP (p_pagetable p)), h1, fst x, s1)))"

text \<open>The end of \<^verbatim>\<open>usertrap\<close>: exit when killed, yield after a timer interrupt.\<close>

definition usertrap_tail :: "env \<Rightarrow> vectors \<Rightarrow> nat \<Rightarrow> hart \<Rightarrow> vdisk \<times> kernel \<Rightarrow> (trapret \<times> hart \<times> vdisk \<times> kernel) res" where
  "usertrap_tail e ve which_dev h x =
     rbind (myproc (snd x)) (\<lambda>p.
     if killed p then rbind (kexit (e_kend e) (-1) (snd x)) (\<lambda>s1. Inr (OffCpu, h, fst x, s1))
     else if which_dev = 2 then rbind (yield (snd x)) (\<lambda>s1. Inr (OffCpu, h, fst x, s1))
     else usertrap_return e ve h x)"

text \<open>The branch for system calls.\<close>

definition usertrap_syscall :: "env \<Rightarrow> vectors \<Rightarrow> hart \<Rightarrow> vdisk \<times> kernel \<Rightarrow> (trapret \<times> hart \<times> vdisk \<times> kernel) res" where
  "usertrap_syscall e ve h x =
     (let s = upd_trap_stats (\<lambda>t. t\<lparr>trap_syscall_count := trap_syscall_count t + 1\<rparr>) (snd x)
      in rbind (myproc s) (\<lambda>p.
         if killed p then rbind (kexit (e_kend e) (-1) s) (\<lambda>s1. Inr (OffCpu, h, fst x, s1))
         else rbind (tf_get TF_EPC s) (\<lambda>epc. rbind (tf_set TF_EPC (epc + 4) s) (\<lambda>s1.
              let h1 = intr_on h
              in rbind (syscall e s1) (\<lambda>(r, s2).
                 case r of Returned _ \<Rightarrow> usertrap_tail e ve 0 h1 (fst x, s2)
                 | _ \<Rightarrow> Inr (OffCpu, h1, fst x, s2))))))"

definition usertrap :: "env \<Rightarrow> vectors \<Rightarrow> devices \<Rightarrow> hart \<Rightarrow> vdisk \<times> kernel \<Rightarrow> (trapret \<times> hart \<times> vdisk \<times> kernel) res" where
  "usertrap e ve d h x =
     (if sstatus h AND SSTATUS_SPP \<noteq> 0 then Inl (Panic ''usertrap: not from user mode'')
      else let h1 = h\<lparr>stvec := kernelvec ve\<rparr>
           in rbind (tf_set TF_EPC (sepc h1) (snd x)) (\<lambda>s1.
              if scause h1 = 8 then usertrap_syscall e ve h1 (fst x, s1)
              else rbind (devintr (e_now e) d h1 (fst x, s1)) (\<lambda>(which_dev, h2, v2, s2).
                   if which_dev \<noteq> 0
                   then usertrap_tail e ve which_dev h2
                          (v2, upd_trap_stats (\<lambda>t. t\<lparr>interrupt_count := interrupt_count t + 1\<rparr>) s2)
                   else rbind (myproc s2) (\<lambda>p.
                        rbind (if scause h2 = 15 \<or> scause h2 = 13
                               then vmfault (e_kend e) (p_sz p) (p_pagetable p) (p_pagetable p) (stval h2) s2
                               else Inr (0, s2)) (\<lambda>(r, s3).
                        if r \<noteq> 0
                        then usertrap_tail e ve 0 h2
                               (v2, upd_trap_stats (\<lambda>t. t\<lparr>pagefault_count := pagefault_count t + 1\<rparr>) s3)
                        else case me s3 of None \<Rightarrow> Inl Undef
                             | Some i \<Rightarrow> usertrap_tail e ve 0 h2
                                 (v2, setkilled i (upd_trap_stats (\<lambda>t. t\<lparr>exception_count := exception_count t + 1,
                                        unknown_trap_count := unknown_trap_count t + 1\<rparr>) s3)))))))"

section \<open>Traps from the kernel\<close>

text \<open>After a yield the trap registers are restored when the kernel thread runs again.\<close>

definition kerneltrap :: "u64 \<Rightarrow> devices \<Rightarrow> hart \<Rightarrow> vdisk \<times> kernel \<Rightarrow> (hart \<times> vdisk \<times> kernel) res" where
  "kerneltrap now d h x =
     (if sstatus h AND SSTATUS_SPP = 0 then Inl (Panic ''kerneltrap: not from supervisor mode'')
      else if intr_get h then Inl (Panic ''kerneltrap: interrupts enabled'')
      else rbind (devintr now d h x) (\<lambda>(which_dev, h1, v1, s1).
           if which_dev = 0 then Inl (Panic ''kerneltrap'')
           else rbind (if which_dev = 2 \<and> me s1 \<noteq> None then yield s1 else Inr s1) (\<lambda>s2.
                Inr (h1\<lparr>sepc := sepc h, sstatus := sstatus h\<rparr>, v1, s2))))"

end
