(* ===== verification/Boot.thy ===== *)
theory Boot
  imports Trap
begin

text \<open>
  Start-up: \<^verbatim>\<open>src/kernel/start.c\<close> in machine mode, \<^verbatim>\<open>src/kernel/main.c\<close>, the initialisation of the interrupt controller
  (\<^verbatim>\<open>src/kernel/plic.c\<close>) and of the serial line (\<^verbatim>\<open>uartinit\<close>), and \<^verbatim>\<open>forkret\<close> of \<^verbatim>\<open>src/kernel/proc.c\<close>, where every process
  starts and the first one loads \<^verbatim>\<open>/init\<close>. Writes to device registers are lists of addresses and values.
\<close>

section \<open>Machine mode\<close>

record mregs =
  mstatus :: u64
  mepc :: u64
  m_satp :: u64
  medeleg :: u64
  mideleg :: u64
  sie :: u64
  mie :: u64
  menvcfg :: u64
  mcounteren :: u64
  m_stimecmp :: u64
  pmpaddr0 :: u64
  pmpcfg0 :: u64
  mhartid :: u64
  tp :: u64

definition MSTATUS_MPP_MASK :: u64 where "MSTATUS_MPP_MASK = push_bit 11 3"
definition MSTATUS_MPP_S :: u64 where "MSTATUS_MPP_S = push_bit 11 1"
definition SIE_SEIE :: u64 where "SIE_SEIE = push_bit 9 1"
definition SIE_STIE :: u64 where "SIE_STIE = push_bit 5 1"
definition MIE_STIE :: u64 where "MIE_STIE = push_bit 5 1"

definition timerinit :: "u64 \<Rightarrow> mregs \<Rightarrow> mregs" where
  "timerinit now m =
     m\<lparr>mie := mie m OR MIE_STIE, menvcfg := menvcfg m OR push_bit 63 1, mcounteren := mcounteren m OR 2,
       m_stimecmp := now + 1000000\<rparr>"

text \<open>Up to the \<^verbatim>\<open>mret\<close> to \<^verbatim>\<open>main\<close>; \<^verbatim>\<open>id\<close> is an \<^verbatim>\<open>int\<close>.\<close>

definition start :: "u64 \<Rightarrow> u64 \<Rightarrow> mregs \<Rightarrow> mregs" where
  "start main now m =
     (let m1 = m\<lparr>mstatus := (mstatus m AND NOT MSTATUS_MPP_MASK) OR MSTATUS_MPP_S\<rparr>;
          m2 = m1\<lparr>mepc := main, m_satp := 0, medeleg := 0xffff, mideleg := 0xffff, sie := sie m1 OR SIE_SEIE OR SIE_STIE,
                  pmpaddr0 := 0x3fffffffffffff, pmpcfg0 := 0xf\<rparr>;
          m3 = timerinit now m2
      in m3\<lparr>tp := scast (ucast (mhartid m3) :: u32)\<rparr>)"

section \<open>Devices\<close>

definition plicinit :: "(u64 \<times> u32) list" where
  "plicinit = [(PLIC + 10 * 4, 1), (PLIC + 1 * 4, 1)]"

definition PLIC_SENABLE :: "u64 \<Rightarrow> u64" where "PLIC_SENABLE hart = PLIC + 0x2080 + hart * 0x100"
definition PLIC_SPRIORITY :: "u64 \<Rightarrow> u64" where "PLIC_SPRIORITY hart = PLIC + 0x201000 + hart * 0x2000"
definition PLIC_SCLAIM :: "u64 \<Rightarrow> u64" where "PLIC_SCLAIM hart = PLIC + 0x201004 + hart * 0x2000"

definition plicinithart :: "u64 \<Rightarrow> (u64 \<times> u32) list" where
  "plicinithart hart = [(PLIC_SENABLE hart, push_bit 10 1 OR push_bit 1 1), (PLIC_SPRIORITY hart, 0)]"

text \<open>\<open>rd\<close> is what the registers of the controller return.\<close>

definition plic_claim :: "(u64 \<Rightarrow> u32) \<Rightarrow> u64 \<Rightarrow> u32" where
  "plic_claim rd hart = rd (PLIC_SCLAIM hart)"

definition plic_complete :: "u64 \<Rightarrow> u32 \<Rightarrow> (u64 \<times> u32) list" where
  "plic_complete hart irq = [(PLIC_SCLAIM hart, irq)]"

definition uartinit :: "(u64 \<times> u8) list" where
  "uartinit = [(UART0 + 1, 0x00), (UART0 + 3, push_bit 7 1), (UART0, 0x03), (UART0 + 1, 0x00), (UART0 + 3, 3),
     (UART0 + 2, 1 OR push_bit 1 3), (UART0 + 1, push_bit 1 1 OR 1)]"

definition uartgetc :: "u8 \<Rightarrow> u8 \<Rightarrow> int" where
  "uartgetc lsr rhr = (if lsr AND 1 \<noteq> 0 then uint rhr else -1)"

section \<open>The kernel starts\<close>

record boot =
  b_hart :: hart
  b_vdisk :: vdisk
  b_kernel :: kernel
  b_kpgtbl :: u64
  b_plic :: "(u64 \<times> u32) list"
  b_uart :: "(u64 \<times> u8) list"
  b_started :: bool

text \<open>\<^verbatim>\<open>main\<close> on hart 0 up to the scheduler, without the messages; \<open>etext\<close> is the end of the kernel text.\<close>

definition main0 :: "env \<Rightarrow> u64 \<Rightarrow> vectors \<Rightarrow> mmio \<Rightarrow> boot \<Rightarrow> boot res" where
  "main0 e etext ve mmio z =
     (let h = b_hart z; s0 = consoleinit (b_kernel z)
      in rbind (kinit (e_kend e) s0) (\<lambda>s1.
         rbind (kvminit etext (e_trampoline e) s1) (\<lambda>(kpgtbl, s2).
         let h1 = h\<lparr>satp := kvminithart kpgtbl\<rparr>;
             s3 = trapinit (procinit s2);
             h2 = trapinithart ve h1;
             s4 = fileinit (iinit (binit s3))
         in rbind (virtio_disk_init mmio (b_vdisk z) s4) (\<lambda>(v, s5).
            rbind (userinit (e_kend e) (e_trampoline e) (e_forkret e) s5) (\<lambda>s6.
            Inr (z\<lparr>b_hart := h2, b_vdisk := v, b_kernel := s6, b_kpgtbl := kpgtbl,
                   b_plic := b_plic z @ plicinit @ plicinithart (hartid h2), b_uart := b_uart z @ uartinit,
                   b_started := True\<rparr>))))))"

text \<open>On the other harts, once \<^verbatim>\<open>started\<close> is set.\<close>

definition main_other :: "vectors \<Rightarrow> boot \<Rightarrow> boot res" where
  "main_other ve z =
     (if \<not> b_started z then Inl Blocked
      else let h1 = trapinithart ve ((b_hart z)\<lparr>satp := kvminithart (b_kpgtbl z)\<rparr>)
           in Inr (z\<lparr>b_hart := h1, b_plic := b_plic z @ plicinithart (hartid h1)\<rparr>))"

section \<open>The first instructions of a process\<close>

abbreviation init_path :: "u8 list" where "init_path \<equiv> [47, 105, 110, 105, 116]"

text \<open>\<open>argv0\<close> is the address of the string \<^verbatim>\<open>/init\<close> in the kernel; \<open>first\<close> the static variable.\<close>

definition forkret :: "env \<Rightarrow> vectors \<Rightarrow> u64 \<Rightarrow> bool \<Rightarrow> hart \<Rightarrow> vdisk \<times> kernel \<Rightarrow> (bool \<times> trapret \<times> hart \<times> vdisk \<times> kernel) res" where
  "forkret e ve argv0 first h x =
     rbind (if first
            then rbind (fsinit ROOTDEV (snd x)) (\<lambda>s1.
                 rbind (kexec (e_kend e) (e_trampoline e) (Some init_path) (Some [argv0, 0]) s1) (\<lambda>(r, s2).
                 rbind (tf_set TF_A0 (word_of_int r) s2) (\<lambda>s3.
                 rbind (tf_get TF_A0 s3) (\<lambda>a0. if a0 = -1 then Inl (Panic ''exec'') else Inr s3))))
            else Inr (snd x)) (\<lambda>s4.
     rbind (usertrap_return e ve h (fst x, s4)) (\<lambda>r. Inr (False, r)))"

end
