(* ===== verification/FsTx.thy ===== *)
theory FsTx
  imports Fs
begin

text \<open>
  What a system call inside a transaction sees of the disk: \<open>view d s\<close> is the contents of every block
  through the cache and the log. \<open>txn d s L H\<close> says that the blocks \<open>L\<close> have been logged, the blocks
  \<open>H\<close> are locked by the caller and the cache and log are consistent with that. The lemmas give the
  effect of \<^verbatim>\<open>bread\<close>, \<^verbatim>\<open>brelse\<close> and \<^verbatim>\<open>log_write\<close> on the view; everything above is proved from them.
\<close>

section \<open>The fields above the buffer cache\<close>

definition tables_of :: "kernel \<Rightarrow> superblock \<times> (nat \<Rightarrow> inode) \<times> (nat \<Rightarrow> ofile) \<times> (nat \<Rightarrow> devfn option)
    \<times> (nat \<Rightarrow> devfn option) \<times> (u64 \<Rightarrow> pipe) \<times> cons \<times> bool \<times> u8 list \<times> (nat \<Rightarrow> proc) \<times> nat option \<times> u32 \<times> nat option \<times> u32 \<times> kstats" where
  "tables_of s = (sb s, itable s, ftable s, devsw_read s, devsw_write s, pipes s, consb s, tx_busy s, uart_out s,
     procs s, me s, nextpid s, initproc s, ticks s, stats s)"

text \<open>Everything but the cache, the log and memory; and with memory and the page allocator, but without
  the call counters of \<^verbatim>\<open>string.c\<close>.\<close>

definition upper :: "kernel \<Rightarrow> _" where
  "upper s = (cur_pid s, log_start s, log_dev s, outstanding s, committing s, tables_of s)"

definition high :: "kernel \<Rightarrow> _" where
  "high s = (mem s, freelist s, free_pages s, total_allocated s, total_freed s, current_allocated s, upper s)"

lemmas high_defs = high_def upper_def tables_of_def

lemma upper_fields:
  "upper s' = upper s \<Longrightarrow> sb s' = sb s \<and> itable s' = itable s \<and> ftable s' = ftable s \<and> procs s' = procs s
     \<and> me s' = me s \<and> pipes s' = pipes s \<and> cur_pid s' = cur_pid s \<and> log_start s' = log_start s \<and> outstanding s' = outstanding s
     \<and> committing s' = committing s \<and> log_dev s' = log_dev s"
  by (simp add: upper_def tables_of_def)

lemma high_upper: "high s' = high s \<Longrightarrow> upper s' = upper s"
  by (simp add: high_def)

lemma high_fields:
  "high s' = high s \<Longrightarrow> mem s' = mem s \<and> sb s' = sb s \<and> itable s' = itable s \<and> ftable s' = ftable s \<and> procs s' = procs s
     \<and> me s' = me s \<and> pipes s' = pipes s \<and> cur_pid s' = cur_pid s \<and> log_start s' = log_start s"
  by (simp add: high_defs)

lemma rest_high: "bio_rest s' = bio_rest s \<Longrightarrow> high s' = high s"
  by (cases s rule: kernel.cases; cases s' rule: kernel.cases) (simp add: bio_rest_def high_defs kmem.truncate_def)

lemma log_write_high:
  assumes "log_write b s = Inr s'"
  shows "high s' = high s"
proof (cases "first_index (\<lambda>x. x = b_blockno (bufs s b)) (take (nat (lh_n s)) (lh_block s))")
  case None
  define s1 where "s1 = s\<lparr>lh_block := (lh_block s)[nat (lh_n s) := b_blockno (bufs s b)]\<rparr>"
  obtain s2 where s2: "bpin b s1 = Inr s2" "s' = s2\<lparr>lh_n := lh_n s2 + 1\<rparr>"
    using assms None by (auto simp: s1_def log_write_def rbind_Inr_iff Let_def split: if_splits)
  have "high s2 = high s1" using rest_high [OF bpin_rest [OF s2(1)]] .
  then show ?thesis by (simp add: s2(2) s1_def high_defs)
next
  case (Some i)
  then have "i < nat (lh_n s)" using first_index_SomeD by fastforce
  then show ?thesis
    using assms Some by (auto simp: log_write_def Let_def high_defs split: if_splits)
qed

section \<open>The transaction invariant\<close>

abbreviation view :: "u32 \<Rightarrow> kernel \<Rightarrow> u32 \<Rightarrow> u8 list" where
  "view d s \<equiv> c_view (cache_of d s)"

definition txn :: "u32 \<Rightarrow> kernel \<Rightarrow> u32 set \<Rightarrow> u32 set \<Rightarrow> bool" where
  "txn d s L H \<longleftrightarrow> (\<exists>bl. tx_ok d s bl \<and> set bl = L) \<and> c_held (cache_of d s) = H \<and> finite H
     \<and> (\<forall>k. c_ref (cache_of d s) k = of_bool (k \<in> L) + of_bool (k \<in> H))
     \<and> c_room (cache_of d s) + card (L \<union> H) = NBUF
     \<and> (\<forall>k. length (view d s k) = BSIZE) \<and> (\<forall>k. k \<notin> L \<longrightarrow> view d s k = disk s k)"

lemma txnD:
  assumes "txn d s L H"
  shows "binv d s" and "log_dev s = d" and "finite L" and "finite H" and "c_held (cache_of d s) = H"
    and "length (view d s k) = BSIZE" and "card L \<le> LOGBLOCKS" and "k \<in> L \<Longrightarrow> \<not> log_area (log_start s) k"
    and "d \<noteq> 0" and "card (L \<union> H) \<le> NBUF"
  using assms by (auto simp: txn_def tx_ok_def binv_def distinct_card)

text \<open>The blocks that the operations find in a locked buffer.\<close>

definition has_buf :: "u32 \<Rightarrow> kernel \<Rightarrow> nat \<Rightarrow> u32 \<Rightarrow> bool" where
  "has_buf d s b k \<longleftrightarrow> buf_at d s b k \<and> k \<in> c_held (cache_of d s)"

lemma tx_data: "txn d s L H \<Longrightarrow> has_buf d s b k \<Longrightarrow> get_data b s = view d s k"
  unfolding has_buf_def by (rule bc.get) (auto dest: txnD)

lemma tx_read:
  assumes t: "txn d s L H" and k: "k \<notin> H" and sp: "k \<in> L \<or> card (L \<union> H) < NBUF"
  obtains b s' where "bread d k s = Inr (b, s')" and "txn d s' L (insert k H)" and "view d s' = view d s"
    and "high s' = high s" and "has_buf d s' b k" and "\<And>b' k'. has_buf d s b' k' \<Longrightarrow> has_buf d s' b' k'"
proof -
  obtain bl where bl: "tx_ok d s bl" "set bl = L" using t by (auto simp: txn_def)
  note tD = txnD [OF t]
  have r: "c_ref (cache_of d s) k' = of_bool (k' \<in> L) + of_bool (k' \<in> H)" for k' using t by (simp add: txn_def)
  have rm: "c_room (cache_of d s) + card (L \<union> H) = NBUF" using t by (simp add: txn_def)
  have cr: "can_read k (cache_of d s)"
    using k sp rm tD(5) by (auto simp: can_read_def r)
  obtain b s' where s': "bread d k s = Inr (b, s')" "binv d s'" "cache_of d s' = spec_bread k (cache_of d s)" "buf_at d s' b k"
    "bio_rest s' = bio_rest s" "\<forall>b' k'. buf_at d s b' k' \<longrightarrow> k' \<in> c_held (cache_of d s) \<longrightarrow> buf_at d s' b' k'"
    using bc.read [OF tD(1) cr] by blast
  note h = rest_high [OF s'(5)]
  have "tx_ok d s' bl" by (rule tx_ok_rest [OF bl(1) s'(2,5)]) (use bl r in \<open>simp add: s'(3) spec_bread_def\<close>)
  moreover have "card (L \<union> insert k H) = (if k \<in> L then card (L \<union> H) else Suc (card (L \<union> H)))"
    using k tD(3,4) by (simp add: insert_absorb)
  then have "c_room (cache_of d s') + card (L \<union> insert k H) = NBUF"
    using rm sp k by (auto simp: s'(3) spec_bread_def r)
  moreover have "disk s' = disk s" using arg_cong [OF s'(3), of c_disk] by (simp add: spec_bread_def)
  ultimately have "txn d s' L (insert k H)"
    using t bl(2) tD(4,5) k log_fields_rest [OF s'(5)] unfolding txn_def by (auto simp: s'(3) spec_bread_def)
  then show ?thesis
    using that [OF s'(1)] s'(3,4,6) h by (auto simp: has_buf_def spec_bread_def)
qed

lemma tx_release:
  assumes t: "txn d s L H" and b: "has_buf d s b k"
  obtains s' where "brelse b s = Inr s'" and "txn d s' L (H - {k})" and "view d s' = view d s" and "high s' = high s"
    and "\<And>b' k'. has_buf d s b' k' \<Longrightarrow> k' \<noteq> k \<Longrightarrow> has_buf d s' b' k'"
proof -
  obtain bl where bl: "tx_ok d s bl" "set bl = L" using t by (auto simp: txn_def)
  note tD = txnD [OF t]
  have r: "c_ref (cache_of d s) k' = of_bool (k' \<in> L) + of_bool (k' \<in> H)" for k' using t by (simp add: txn_def)
  have rm: "c_room (cache_of d s) + card (L \<union> H) = NBUF" using t by (simp add: txn_def)
  have kH: "k \<in> H" "buf_at d s b k" "k \<in> c_held (cache_of d s)" using b tD(5) by (auto simp: has_buf_def)
  have "can_unref k (cache_of d s)" using t kH(1) by (auto simp: can_unref_def r txn_def)
  then obtain s' where s': "brelse b s = Inr s'" "binv d s'" "cache_of d s' = spec_brelse k (cache_of d s)"
    "bio_rest s' = bio_rest s" "buf_at d s' = buf_at d s"
    using bc.release [OF tD(1) kH(2,3)] by blast
  note h = rest_high [OF s'(4)]
  have "tx_ok d s' bl" by (rule tx_ok_rest [OF bl(1) s'(2,4)]) (use bl r kH in \<open>auto simp: s'(3) spec_defs\<close>)
  moreover have "L \<union> H = (if k \<in> L then L \<union> (H - {k}) else insert k (L \<union> (H - {k})))" using kH(1) by auto
  then have "card (L \<union> H) = (if k \<in> L then card (L \<union> (H - {k})) else Suc (card (L \<union> (H - {k}))))"
    using tD(3,4) by (metis DiffD2 UnE card_insert_disjoint finite_Diff finite_UnI insertI1)
  then have "c_room (cache_of d s') + card (L \<union> (H - {k})) = NBUF"
    using rm kH(1) by (auto simp: s'(3) spec_defs r)
  moreover have "disk s' = disk s" using arg_cong [OF s'(3), of c_disk] by (simp add: spec_defs)
  ultimately have "txn d s' L (H - {k})"
    using t bl(2) tD(4,5) kH(1) log_fields_rest [OF s'(4)] unfolding txn_def by (auto simp: s'(3) spec_defs r)
  then show ?thesis
    using that [OF s'(1)] s'(3,5) h by (auto simp: has_buf_def spec_defs)
qed

text \<open>Changing a locked buffer and logging it.\<close>

lemma tx_write:
  assumes t: "txn d s L H" and b: "has_buf d s b k" and v: "length v = BSIZE" and na: "\<not> log_area (log_start s) k"
    and sp: "card L < LOGBLOCKS" and op: "1 \<le> outstanding s"
  obtains s' where "log_write b (set_data b v s) = Inr s'" and "txn d s' (insert k L) H"
    and "view d s' = (view d s)(k := v)" and "high s' = high s" and "\<And>b' k'. has_buf d s' b' k' = has_buf d s b' k'"
proof -
  obtain bl where bl: "tx_ok d s bl" "set bl = L" using t by (auto simp: txn_def)
  note tD = txnD [OF t]
  have r: "c_ref (cache_of d s) k' = of_bool (k' \<in> L) + of_bool (k' \<in> H)" for k' using t by (simp add: txn_def)
  have rm: "c_room (cache_of d s) + card (L \<union> H) = NBUF" using t by (simp add: txn_def)
  have kH: "k \<in> H" "buf_at d s b k" "k \<in> c_held (cache_of d s)" using b tD(5) by (auto simp: has_buf_def)
  define s1 where "s1 = set_data b v s"
  have p: "binv d s1" "cache_of d s1 = spec_set k v (cache_of d s)" "bio_rest s1 = bio_rest s" "buf_at d s1 = buf_at d s"
    using bc.put [OF tD(1) kH(2,3), of v] by (auto simp: s1_def)
  note f = log_fields_rest [OF p(3)]
  have t1: "tx_ok d s1 bl" by (rule tx_ok_rest [OF bl(1) p(1,3)]) (use bl r in \<open>simp add: p(2) spec_set_def\<close>)
  have len: "length bl < LOGBLOCKS" using sp bl by (auto simp: tx_ok_def distinct_card)
  have o: "1 \<le> outstanding s1" using op f by simp
  have "\<exists>s'. log_write b s1 = Inr s' \<and> tx_ok d s' (if k \<in> set bl then bl else bl @ [k])
    \<and> cache_of d s' = (if k \<in> set bl then cache_of d s1 else spec_bpin k (cache_of d s1))
    \<and> buf_at d s' = buf_at d s1 \<and> outstanding s' = outstanding s1 \<and> log_start s' = log_start s1"
    by (rule log_write_spec [OF t1 _ _ _ o len]) (use kH na f r in \<open>auto simp: p spec_set_def\<close>)
  then obtain s' where s': "log_write b s1 = Inr s'" "tx_ok d s' (if k \<in> L then bl else bl @ [k])"
    "cache_of d s' = (if k \<in> L then cache_of d s1 else spec_bpin k (cache_of d s1))"
    "buf_at d s' = buf_at d s1" "outstanding s' = outstanding s1"
    using bl(2) by auto
  have h: "high s' = high s" using log_write_high [OF s'(1)] rest_high [OF p(3)] by simp
  have "set (if k \<in> L then bl else bl @ [k]) = insert k L" using bl(2) by auto
  moreover have "L \<union> H = insert k L \<union> H" using kH(1) by auto
  moreover have "disk s' = disk s" using arg_cong [OF s'(3), of c_disk] arg_cong [OF p(2), of c_disk]
    by (simp add: spec_defs split: if_splits)
  ultimately have "txn d s' (insert k L) H"
    using t s'(2,5) o v r rm kH unfolding txn_def
    by (auto simp: s'(3) p(2) spec_defs)
  then show ?thesis
    using that [of s'] s' p(2,4) h by (auto simp: s1_def has_buf_def spec_defs)
qed

section \<open>Reading and changing one block\<close>

lemma tx_peek:
  assumes t: "txn d s L H" and k: "k \<notin> H" and sp: "card (L \<union> H) < NBUF"
  obtains b s1 s' where "bread d k s = Inr (b, s1)" and "get_data b s1 = view d s k" and "high s1 = high s"
    and "brelse b s1 = Inr s'" and "txn d s' L H" and "view d s' = view d s" and "high s' = high s"
    and "\<And>b' k'. has_buf d s b' k' \<Longrightarrow> has_buf d s' b' k'"
proof -
  obtain b s1 where r: "bread d k s = Inr (b, s1)" "txn d s1 L (insert k H)" "view d s1 = view d s"
    "high s1 = high s" "has_buf d s1 b k" "\<And>b' k'. has_buf d s b' k' \<Longrightarrow> has_buf d s1 b' k'"
    using tx_read [OF t k] sp by blast
  have "insert k H - {k} = H" using k by auto
  moreover have "k' \<noteq> k" if "has_buf d s b' k'" for b' k' using that k txnD(5) [OF t] by (auto simp: has_buf_def)
  ultimately show ?thesis
    using tx_release [OF r(2,5)] tx_data [OF r(2,5)] r that by metis
qed

lemma tx_modify:
  assumes t: "txn d s L H" and k: "k \<notin> H" and sp: "card (L \<union> H) < NBUF" and na: "\<not> log_area (log_start s) k"
    and v: "length (f (view d s k)) = BSIZE" and op: "1 \<le> outstanding s"
  obtains b s1 s2 s' where "bread d k s = Inr (b, s1)" and "get_data b s1 = view d s k" and "high s1 = high s"
    and "log_write b (set_data b (f (view d s k)) s1) = Inr s2"
    and "brelse b s2 = Inr s'" and "txn d s' (insert k L) H"
    and "view d s' = (view d s)(k := f (view d s k))" and "high s' = high s"
    and "\<And>b' k'. has_buf d s b' k' \<Longrightarrow> has_buf d s' b' k'"
proof -
  obtain b s1 where r: "bread d k s = Inr (b, s1)" "txn d s1 L (insert k H)" "view d s1 = view d s"
    "high s1 = high s" "has_buf d s1 b k" "\<And>b' k'. has_buf d s b' k' \<Longrightarrow> has_buf d s1 b' k'"
    using tx_read [OF t k] sp by blast
  have "card L \<le> card (L \<union> H)" using txnD(3,4) [OF t] by (simp add: card_mono)
  then have c: "card L < LOGBLOCKS" using sp by simp
  have na1: "\<not> log_area (log_start s1) k" using na high_fields [OF r(4)] by simp
  have op1: "1 \<le> outstanding s1" using op upper_fields [OF high_upper [OF r(4)]] by simp
  obtain s2 where w: "log_write b (set_data b (f (view d s k)) s1) = Inr s2" "txn d s2 (insert k L) (insert k H)"
    "view d s2 = (view d s)(k := f (view d s k))" "high s2 = high s1" "\<And>b' k'. has_buf d s2 b' k' = has_buf d s1 b' k'"
    using tx_write [OF r(2,5) v na1 c op1] r(3) by metis
  have b2: "has_buf d s2 b k" using w(5) r(5) by simp
  obtain s' where s': "brelse b s2 = Inr s'" "txn d s' (insert k L) (insert k H - {k})" "view d s' = view d s2"
    "high s' = high s2" "\<And>b' k'. has_buf d s2 b' k' \<Longrightarrow> k' \<noteq> k \<Longrightarrow> has_buf d s' b' k'"
    using tx_release [OF w(2) b2] by metis
  have "k' \<noteq> k" if "has_buf d s b' k'" for b' k' using that k txnD(5) [OF t] by (auto simp: has_buf_def)
  moreover have "insert k H - {k} = H" using k by auto
  ultimately show ?thesis
    using that [OF r(1) _ r(4) w(1) s'(1)] tx_data [OF r(2,5)] r w s' by simp
qed

end
