(* ===== verification/FsBlock.thy ===== *)
theory FsBlock
  imports FsTx
begin

text \<open>
  The block allocator of \<^verbatim>\<open>fs.c\<close> against the free bitmap: \<open>in_use B V b\<close> is the bit of block \<open>b\<close> in the
  view \<open>V\<close> of a disk with super block \<open>B\<close>.
\<close>

section \<open>Bits of a bitmap block\<close>

lemma bit_mask_bit: "bit (bit_mask i) k \<longleftrightarrow> k = i mod 8"
  by (auto simp: bit_mask_def bit_simps)

lemma bit_free_bit: "bit_free bs i \<longleftrightarrow> \<not> bit (bs ! (i div 8)) (i mod 8)"
proof
  assume "bit_free bs i"
  then have "\<not> bit (and (bs ! (i div 8)) (bit_mask i)) (i mod 8)" by (simp add: bit_free_def)
  then show "\<not> bit (bs ! (i div 8)) (i mod 8)" by (simp add: bit_simps bit_mask_bit)
next
  assume n: "\<not> bit (bs ! (i div 8)) (i mod 8)"
  show "bit_free bs i"
    unfolding bit_free_def by (rule bit_word_eqI) (use n in \<open>auto simp: bit_simps bit_mask_bit\<close>)
qed

lemma bit_index_eq: "(i :: nat) div 8 = j div 8 \<Longrightarrow> i mod 8 = j mod 8 \<Longrightarrow> i = j"
  by (metis div_mult_mod_eq)

lemma bit_free_mark: "i div 8 < length bs \<Longrightarrow> bit_free (bit_mark i bs) j \<longleftrightarrow> j \<noteq> i \<and> bit_free bs j"
  using bit_index_eq [of i j]
  by (auto simp: bit_free_bit bit_mark_def nth_list_update bit_simps bit_mask_bit)

lemma bit_free_clear: "i div 8 < length bs \<Longrightarrow> bit_free (bit_clear i bs) j \<longleftrightarrow> j = i \<or> bit_free bs j"
  using bit_index_eq [of i j]
  by (auto simp: bit_free_bit bit_clear_def nth_list_update bit_simps bit_mask_bit)

lemma length_bit_mark [simp]: "length (bit_mark i bs) = length bs" "length (bit_clear i bs) = length bs"
  by (simp_all add: bit_mark_def bit_clear_def)

section \<open>Layout of the disk\<close>

definition data_start :: "superblock \<Rightarrow> nat" where
  "data_start B = unat (sb_bmapstart B) + (unat (sb_size B) - 1) div BPB + 1"

definition layout_ok :: "superblock \<Rightarrow> bool" where
  "layout_ok B \<longleftrightarrow> 0 < unat (sb_size B) \<and> unat (sb_size B) + BPB \<le> 2 ^ 31 \<and> 2 \<le> unat (sb_logstart B)
     \<and> unat (sb_logstart B) + 31 \<le> unat (sb_inodestart B)
     \<and> unat (sb_inodestart B) + unat (sb_ninodes B) div IPB + 1 \<le> unat (sb_bmapstart B)
     \<and> data_start B \<le> unat (sb_size B)"

definition data_blk :: "superblock \<Rightarrow> u32 \<Rightarrow> bool" where
  "data_blk B b \<longleftrightarrow> data_start B \<le> unat b \<and> unat b < unat (sb_size B)"

definition in_use :: "superblock \<Rightarrow> (u32 \<Rightarrow> u8 list) \<Rightarrow> u32 \<Rightarrow> bool" where
  "in_use B V b \<longleftrightarrow> \<not> bit_free (V (BBLOCK b B)) (unat b mod BPB)"

definition bitmap_blks :: "superblock \<Rightarrow> u32 set" where
  "bitmap_blks B = {BBLOCK b B |b. unat b < unat (sb_size B)}"

text \<open>Every block before the data area is marked as used.\<close>

definition meta_used :: "superblock \<Rightarrow> (u32 \<Rightarrow> u8 list) \<Rightarrow> bool" where
  "meta_used B V \<longleftrightarrow> (\<forall>b. unat b < data_start B \<longrightarrow> in_use B V b)"

lemma unat_BBLOCK:
  assumes "layout_ok B" and "unat b < unat (sb_size B)"
  shows "unat (BBLOCK b B) = unat b div BPB + unat (sb_bmapstart B)" and "unat (BBLOCK b B) < data_start B"
    and "unat (sb_bmapstart B) \<le> unat (BBLOCK b B)"
proof -
  have d: "unat b div BPB \<le> (unat (sb_size B) - 1) div BPB" using assms(2) by (intro div_le_mono) simp
  have l: "data_start B \<le> unat (sb_size B)" "unat (sb_size B) < 2 ^ 32"
    using assms(1) unat32_less [of "sb_size B"] by (simp_all add: layout_ok_def)
  then have "unat b div BPB + unat (sb_bmapstart B) < 2 ^ 32" using d by (simp add: data_start_def)
  then show e: "unat (BBLOCK b B) = unat b div BPB + unat (sb_bmapstart B)"
    by (simp add: BBLOCK_def unat_word_ariths unat_div)
  show "unat (BBLOCK b B) < data_start B" using d by (simp add: e data_start_def)
  show "unat (sb_bmapstart B) \<le> unat (BBLOCK b B)" by (simp add: e)
qed

lemma not_log_area:
  assumes "layout_ok B" and "unat (sb_logstart B) + 31 \<le> unat k"
  shows "\<not> log_area (sb_logstart B) k"
proof -
  have "unat (k - sb_logstart B) = unat k - unat (sb_logstart B)"
    using assms(2) by (intro unat_sub) (simp add: word_le_nat_alt)
  then show ?thesis using assms(2) by (simp add: log_area_def)
qed

lemma bitmap_not_log: "layout_ok B \<Longrightarrow> unat b < unat (sb_size B) \<Longrightarrow> \<not> log_area (sb_logstart B) (BBLOCK b B)"
  using unat_BBLOCK(3) [of B b] by (intro not_log_area) (auto simp: layout_ok_def)

lemma data_not_log: "layout_ok B \<Longrightarrow> data_blk B b \<Longrightarrow> \<not> log_area (sb_logstart B) b"
  by (intro not_log_area) (auto simp: layout_ok_def data_blk_def data_start_def)

lemma data_not_bitmap: "layout_ok B \<Longrightarrow> data_blk B a \<Longrightarrow> unat b < unat (sb_size B) \<Longrightarrow> a \<noteq> BBLOCK b B"
  using unat_BBLOCK(2) [of B b] by (auto simp: data_blk_def)

lemma bit_index_less: "unat (b :: u32) mod BPB div 8 < BSIZE"
  by (simp add: less_mult_imp_div_less)

text \<open>Two blocks with the same bit are the same block.\<close>

lemma BBLOCK_inj:
  assumes "layout_ok B" and "unat a < unat (sb_size B)" and "unat b < unat (sb_size B)"
    and "BBLOCK a B = BBLOCK b B" and "unat a mod BPB = unat b mod BPB"
  shows "a = b"
proof -
  have "unat a div BPB = unat b div BPB"
    using unat_BBLOCK(1) [OF assms(1,2)] unat_BBLOCK(1) [OF assms(1,3)] assms(4) by simp
  then have "unat a = unat b" using assms(5) by (metis div_mult_mod_eq)
  then show ?thesis by (simp add: word_unat_eq_iff)
qed

text \<open>The view after a block has been marked, cleared, or given new contents.\<close>

definition mark_blk :: "superblock \<Rightarrow> u32 \<Rightarrow> (u32 \<Rightarrow> u8 list) \<Rightarrow> u32 \<Rightarrow> u8 list" where
  "mark_blk B a V = V(BBLOCK a B := bit_mark (unat a mod BPB) (V (BBLOCK a B)))"

definition clear_blk :: "superblock \<Rightarrow> u32 \<Rightarrow> (u32 \<Rightarrow> u8 list) \<Rightarrow> u32 \<Rightarrow> u8 list" where
  "clear_blk B a V = V(BBLOCK a B := bit_clear (unat a mod BPB) (V (BBLOCK a B)))"

lemma in_use_mark:
  assumes "layout_ok B" and "unat a < unat (sb_size B)" and "unat b < unat (sb_size B)" and "length (V (BBLOCK a B)) = BSIZE"
  shows "in_use B (mark_blk B a V) b \<longleftrightarrow> b = a \<or> in_use B V b"
proof -
  have i: "unat a mod BPB div 8 < length (V (BBLOCK a B))" using assms(4) bit_index_less [of a] by simp
  show ?thesis
    using BBLOCK_inj [OF assms(1-3)] by (auto simp: in_use_def mark_blk_def bit_free_mark [OF i])
qed

lemma in_use_clear:
  assumes "layout_ok B" and "unat a < unat (sb_size B)" and "unat b < unat (sb_size B)" and "length (V (BBLOCK a B)) = BSIZE"
  shows "in_use B (clear_blk B a V) b \<longleftrightarrow> b \<noteq> a \<and> in_use B V b"
proof -
  have i: "unat a mod BPB div 8 < length (V (BBLOCK a B))" using assms(4) bit_index_less [of a] by simp
  show ?thesis
    using BBLOCK_inj [OF assms(1-3)] by (auto simp: in_use_def clear_blk_def bit_free_clear [OF i])
qed

lemma in_use_data: "layout_ok B \<Longrightarrow> data_blk B a \<Longrightarrow> unat b < unat (sb_size B) \<Longrightarrow> in_use B (V(a := v)) b = in_use B V b"
  using data_not_bitmap [of B a b] by (auto simp: in_use_def)

section \<open>Allocating and freeing a block\<close>

text \<open>A transaction on a formatted disk.\<close>

definition fs_ok :: "u32 \<Rightarrow> kernel \<Rightarrow> u32 set \<Rightarrow> u32 set \<Rightarrow> bool" where
  "fs_ok d s L H \<longleftrightarrow> txn d s L H \<and> layout_ok (sb s) \<and> log_start s = sb_logstart (sb s) \<and> meta_used (sb s) (view d s)
     \<and> 1 \<le> outstanding s"

lemma fs_okD:
  assumes "fs_ok d s L H"
  shows "txn d s L H" and "layout_ok (sb s)" and "log_start s = sb_logstart (sb s)" and "meta_used (sb s) (view d s)"
    and "length (view d s k) = BSIZE" and "1 \<le> outstanding s"
  using assms txnD(6) by (auto simp: fs_ok_def)

lemma fs_ok_high:
  assumes "fs_ok d s L H" and "txn d s' L' H'" and "high s' = high s" and "meta_used (sb s) (view d s')"
  shows "fs_ok d s' L' H'"
  using assms high_fields [OF assms(3)] upper_fields [OF high_upper [OF assms(3)]] by (simp add: fs_ok_def)

lemma meta_used_mark:
  assumes "layout_ok B" and "meta_used B V" and "unat a < unat (sb_size B)" and "length (V (BBLOCK a B)) = BSIZE"
  shows "meta_used B (mark_blk B a V)"
  unfolding meta_used_def
proof (intro allI impI)
  fix b :: u32 assume b: "unat b < data_start B"
  then have "unat b < unat (sb_size B)" using assms(1) by (simp add: layout_ok_def)
  then show "in_use B (mark_blk B a V) b"
    using assms b in_use_mark [of B a b V] by (simp add: meta_used_def)
qed

lemma meta_used_data:
  assumes "layout_ok B" and "meta_used B V" and "data_blk B a"
  shows "meta_used B (V(a := v))"
  unfolding meta_used_def
proof (intro allI impI)
  fix b :: u32 assume b: "unat b < data_start B"
  then have "unat b < unat (sb_size B)" using assms(1) by (simp add: layout_ok_def)
  then show "in_use B (V(a := v)) b" using assms b in_use_data [OF assms(1,3)] by (simp add: meta_used_def)
qed

lemma bzero_spec:
  assumes f: "fs_ok d s L H" and a: "data_blk (sb s) a" "a \<notin> H" and sp: "card (L \<union> H) < NBUF"
  obtains s' where "bzero d a s = Inr s'" and "fs_ok d s' (insert a L) H" and "high s' = high s"
    and "view d s' = (view d s)(a := replicate BSIZE 0)" and "\<And>b' k'. has_buf d s b' k' \<Longrightarrow> has_buf d s' b' k'"
proof -
  note D = fs_okD [OF f]
  have na: "\<not> log_area (log_start s) a" using data_not_log [OF D(2) a(1)] D(3) by simp
  have ln: "length (replicate BSIZE (0 :: u8)) = BSIZE" by simp
  obtain b s1 s2 s' where m: "bread d a s = Inr (b, s1)" "log_write b (set_data b (replicate BSIZE 0) s1) = Inr s2"
    "brelse b s2 = Inr s'" "txn d s' (insert a L) H" "view d s' = (view d s)(a := replicate BSIZE 0)" "high s' = high s"
    "\<And>b' k'. has_buf d s b' k' \<Longrightarrow> has_buf d s' b' k'"
    using tx_modify [where f = "\<lambda>_. replicate BSIZE 0", OF D(1) a(2) sp na ln D(6)] by metis
  have "bzero d a s = Inr s'" using m(1-3) by (simp add: bzero_def)
  moreover have "fs_ok d s' (insert a L) H"
    by (rule fs_ok_high [OF f m(4,6)]) (simp add: m(5) meta_used_data [OF D(2,4) a(1)])
  ultimately show ?thesis using that m(5-7) by blast
qed

definition fresh_blk :: "superblock \<Rightarrow> u32 \<Rightarrow> (u32 \<Rightarrow> u8 list) \<Rightarrow> (u32 \<Rightarrow> u8 list) \<Rightarrow> bool" where
  "fresh_blk B a V V' \<longleftrightarrow> data_blk B a \<and> \<not> in_use B V a \<and> (\<forall>b. unat b < unat a \<longrightarrow> in_use B V b)
     \<and> V' = (mark_blk B a V)(a := replicate BSIZE 0)"

text \<open>The blocks that share the bitmap block of \<open>b\<close>.\<close>

lemma same_bitmap_blk:
  fixes c :: u32
  assumes "b mod BPB = 0" and "b \<le> unat c" and "unat c < b + BPB"
  shows "unat c mod BPB = unat c - b" and "BBLOCK c B = BBLOCK (of_nat b) B"
proof -
  obtain q where q: "b = BPB * q" using assms(1) by auto
  define i where "i = unat c - b"
  have i: "unat c = BPB * q + i" "i < BPB" using assms(2,3) q by (auto simp: i_def)
  then have "(BPB * q + i) mod BPB = i" by simp
  then show "unat c mod BPB = unat c - b" using i(1) i_def by metis
  have "unat (of_nat b :: u32) = b" using assms(2) unat32_less [of c] by (intro unat_of_nat32) linarith
  then have "c div 8192 = of_nat b div 8192" using i q by (simp add: word_unat_eq_iff unat_div)
  then show "BBLOCK c B = BBLOCK (of_nat b) B" by (simp add: BBLOCK_def)
qed

lemma first_free:
  assumes b: "b mod BPB = 0"
    and f: "find (bit_free (V (BBLOCK (of_nat b) B))) [0..<min BPB (unat (sb_size B) - b)] = Some i"
    and before: "\<forall>c. unat c < b \<longrightarrow> in_use B V c" and m: "meta_used B V"
  defines "a \<equiv> (of_nat (b + i) :: u32)"
  shows "BBLOCK a B = BBLOCK (of_nat b) B" and "unat a mod BPB = i" and "data_blk B a"
    and "\<not> in_use B V a" and "\<forall>c. unat c < unat a \<longrightarrow> in_use B V c"
proof -
  have i: "i < BPB" "b + i < unat (sb_size B)" "bit_free (V (BBLOCK (of_nat b) B)) i"
    "\<And>j. j < i \<Longrightarrow> \<not> bit_free (V (BBLOCK (of_nat b) B)) j"
    using f by (auto simp: find_Some_iff)
  have ua: "unat a = b + i" unfolding a_def using i(2) unat32_less [of "sb_size B"] by (intro unat_of_nat32) linarith
  have ar: "b \<le> unat a" "unat a < b + BPB" using i(1) by (simp_all add: ua)
  show e: "BBLOCK a B = BBLOCK (of_nat b) B" by (rule same_bitmap_blk(2) [OF b ar])
  show mi: "unat a mod BPB = i" using same_bitmap_blk(1) [OF b ar] by (simp add: ua)
  show fr: "\<not> in_use B V a" using i(3) by (simp add: in_use_def e mi)
  then show "data_blk B a" using m i(2) by (auto simp: data_blk_def meta_used_def ua not_less [symmetric])
  show "\<forall>c. unat c < unat a \<longrightarrow> in_use B V c"
  proof (intro allI impI)
    fix c :: u32 assume c: "unat c < unat a"
    show "in_use B V c"
    proof (cases "unat c < b")
      case False
      then have cr: "b \<le> unat c" "unat c < b + BPB" "unat c - b < i" using c i(1) by (auto simp: ua)
      then show ?thesis using same_bitmap_blk [OF b cr(1,2)] i(4) by (simp add: in_use_def)
    qed (use before in simp)
  qed
qed

lemma none_free:
  assumes b: "b mod BPB = 0"
    and f: "find (bit_free (V (BBLOCK (of_nat b) B))) [0..<min BPB (unat (sb_size B) - b)] = None"
    and before: "\<forall>c. unat c < b \<longrightarrow> in_use B V c"
  shows "\<forall>c. unat c < unat (sb_size B) \<longrightarrow> unat c < b + BPB \<longrightarrow> in_use B V c"
proof (intro allI impI)
  fix c :: u32 assume c: "unat c < unat (sb_size B)" "unat c < b + BPB"
  show "in_use B V c"
  proof (cases "unat c < b")
    case False
    then have "b \<le> unat c" by simp
    note sb = same_bitmap_blk [OF b this c(2)]
    have "unat c - b < min BPB (unat (sb_size B) - b)" using False c by auto
    then have "\<not> bit_free (V (BBLOCK (of_nat b) B)) (unat c - b)" using f by (simp add: find_None_iff)
    then show ?thesis by (simp add: in_use_def sb)
  qed (use before in simp)
qed

lemma balloc_loop_spec:
  assumes "fs_ok d s L H" and "b mod BPB = 0" and "\<forall>c. unat c < unat (sb_size (sb s)) \<longrightarrow> unat c < b \<longrightarrow> in_use (sb s) (view d s) c"
    and "H \<inter> bitmap_blks (sb s) = {}" and "\<forall>k \<in> H. in_use (sb s) (view d s) k"
    and "card (L \<union> H \<union> bitmap_blks (sb s)) < NBUF"
  shows "\<exists>a s' L'. balloc_loop d b s = Inr (a, s') \<and> fs_ok d s' L' H \<and> high s' = high s
    \<and> (\<forall>b k. has_buf d s b k \<longrightarrow> has_buf d s' b k)
    \<and> (a = 0 \<and> (\<forall>c. unat c < unat (sb_size (sb s)) \<longrightarrow> in_use (sb s) (view d s) c) \<and> view d s' = view d s \<and> L' = L
       \<or> fresh_blk (sb s) a (view d s) (view d s') \<and> L' = insert a (insert (BBLOCK a (sb s)) L))"
  using assms
proof (induction "2 ^ 31 - b" arbitrary: b s rule: less_induct)
  case less
  note f = less.prems(1) and b = less.prems(2) and before = less.prems(3) and H = less.prems(4,5) and sp = less.prems(6)
  note D = fs_okD [OF f]
  let ?B = "sb s" let ?V = "view d s"
  show ?case
  proof (cases "b < unat (sb_size ?B)")
    case False
    then show ?thesis using f before by (intro exI [of _ 0] exI [of _ s] exI [of _ L]) (auto simp: balloc_loop.simps)
  next
    case bs: True
    have ub: "unat (of_nat b :: u32) = b" using bs unat32_less [of "sb_size ?B"] by (intro unat_of_nat32) linarith
    have bef: "\<forall>c. unat c < b \<longrightarrow> in_use ?B ?V c" using before bs by auto
    have mem: "BBLOCK (of_nat b) ?B \<in> bitmap_blks ?B" using bs ub by (auto simp: bitmap_blks_def)
    then have nH: "BBLOCK (of_nat b) ?B \<notin> H" using H(1) by auto
    have c1: "card (L \<union> H) < NBUF" by (rule le_less_trans [OF card_mono sp]) auto
    show ?thesis
    proof (cases "find (bit_free (?V (BBLOCK (of_nat b) ?B))) [0..<min BPB (unat (sb_size ?B) - b)]")
      case None
      obtain bp s1 s2 where p: "bread d (BBLOCK (of_nat b) ?B) s = Inr (bp, s1)" "get_data bp s1 = ?V (BBLOCK (of_nat b) ?B)"
        "high s1 = high s" "brelse bp s1 = Inr s2" "txn d s2 L H" "view d s2 = ?V" "high s2 = high s"
        "\<And>b' k'. has_buf d s b' k' \<Longrightarrow> has_buf d s2 b' k'"
        using tx_peek [OF D(1) nH c1] by metis
      have sb2: "sb s2 = ?B" using high_fields [OF p(7)] by simp
      have guard: "\<not> 2 ^ 31 \<le> b + BPB" using bs D(2) by (simp add: layout_ok_def)
      have unf: "balloc_loop d b s = balloc_loop d (b + BPB) s2"
        using bs p(1,2,4) None guard by (simp add: balloc_loop.simps [of d b])
      have f2: "fs_ok d s2 L H" by (rule fs_ok_high [OF f p(5,7)]) (use D(4) in \<open>simp add: p(6)\<close>)
      have nf: "\<forall>c. unat c < unat (sb_size ?B) \<longrightarrow> unat c < b + BPB \<longrightarrow> in_use ?B ?V c"
        by (rule none_free [OF b None bef])
      have lt: "2 ^ 31 - (b + BPB) < 2 ^ 31 - b" using guard by simp
      have md: "(b + BPB) mod BPB = 0" using b by simp
      from less.hyps [OF lt f2 md, unfolded sb2 p(6), OF nf H sp]
      obtain a s' L' where r: "balloc_loop d (b + BPB) s2 = Inr (a, s')" "fs_ok d s' L' H" "high s' = high s2"
        "\<forall>b k. has_buf d s2 b k \<longrightarrow> has_buf d s' b k"
        "a = 0 \<and> (\<forall>c. unat c < unat (sb_size ?B) \<longrightarrow> in_use ?B ?V c) \<and> view d s' = ?V \<and> L' = L
          \<or> fresh_blk ?B a ?V (view d s') \<and> L' = insert a (insert (BBLOCK a ?B) L)"
        by blast
      show ?thesis using r p(7,8) unf by (intro exI [of _ a] exI [of _ s'] exI [of _ L']) auto
    next
      case (Some i)
      note ff = first_free [OF b Some bef D(4)]
      define a where "a = (of_nat (b + i) :: u32)"
      note ff = ff [folded a_def]
      have bi: "bit_mark i (?V (BBLOCK (of_nat b) ?B)) = bit_mark (unat a mod BPB) (?V (BBLOCK a ?B))" by (simp add: ff(1,2))
      have as: "unat a < unat (sb_size ?B)" using ff(3) by (simp add: data_blk_def)
      have na: "\<not> log_area (log_start s) (BBLOCK (of_nat b) ?B)"
        using bitmap_not_log [OF D(2), of "of_nat b"] D(3) bs ub by simp
      have ln: "length (bit_mark i (?V (BBLOCK (of_nat b) ?B))) = BSIZE" by (simp add: D(5))
      obtain bp s1 s2 s3 where p: "bread d (BBLOCK (of_nat b) ?B) s = Inr (bp, s1)" "get_data bp s1 = ?V (BBLOCK (of_nat b) ?B)"
        "log_write bp (set_data bp (bit_mark i (?V (BBLOCK (of_nat b) ?B))) s1) = Inr s2" "brelse bp s2 = Inr s3"
        "txn d s3 (insert (BBLOCK (of_nat b) ?B) L) H"
        "view d s3 = ?V(BBLOCK (of_nat b) ?B := bit_mark i (?V (BBLOCK (of_nat b) ?B)))" "high s3 = high s"
        "\<And>b' k'. has_buf d s b' k' \<Longrightarrow> has_buf d s3 b' k'"
        using tx_modify [where f = "bit_mark i", OF D(1) nH c1 na ln D(6)] by metis
      have v3: "view d s3 = mark_blk ?B a ?V" unfolding mark_blk_def p(6) by (simp add: ff(1,2))
      have f3: "fs_ok d s3 (insert (BBLOCK a ?B) L) H"
        by (rule fs_ok_high [OF f p(5) [folded ff(1)] p(7)]) (simp add: v3 meta_used_mark [OF D(2,4) as D(5)])
      have sb3: "sb s3 = ?B" using high_fields [OF p(7)] by simp
      have aH: "a \<notin> H" using H(2) ff(4) by auto
      have "insert (BBLOCK a ?B) L \<union> H \<subseteq> L \<union> H \<union> bitmap_blks ?B" using mem ff(1) by auto
      then have c3: "card (insert (BBLOCK a ?B) L \<union> H) < NBUF" by (rule le_less_trans [OF card_mono sp, rotated]) auto
      obtain s4 where z: "bzero d a s3 = Inr s4" "fs_ok d s4 (insert a (insert (BBLOCK a ?B) L)) H" "high s4 = high s3"
        "view d s4 = (view d s3)(a := replicate BSIZE 0)" "\<And>b' k'. has_buf d s3 b' k' \<Longrightarrow> has_buf d s4 b' k'"
        using bzero_spec [OF f3 _ aH c3] ff(3) sb3 by metis
      have "balloc_loop d b s = Inr (a, s4)"
        using bs p(1-4) Some z(1) by (simp add: balloc_loop.simps [of d b] a_def)
      moreover have "fresh_blk ?B a ?V (view d s4)" using ff(3-5) by (simp add: fresh_blk_def z(4) v3)
      ultimately show ?thesis using z(2,3,5) p(7,8)
        by (intro exI [of _ a] exI [of _ s4] exI [of _ "insert a (insert (BBLOCK a ?B) L)"]) auto
    qed
  qed
qed

lemma balloc_spec:
  assumes "fs_ok d s L H" and "H \<inter> bitmap_blks (sb s) = {}" and "\<forall>k \<in> H. in_use (sb s) (view d s) k"
    and "card (L \<union> H \<union> bitmap_blks (sb s)) < NBUF"
  obtains (full) s' where "balloc d s = Inr (0, s')" and "fs_ok d s' L H" and "high s' = high s" and "view d s' = view d s"
      and "\<And>b k. has_buf d s b k \<Longrightarrow> has_buf d s' b k"
      and "\<And>c. unat c < unat (sb_size (sb s)) \<Longrightarrow> in_use (sb s) (view d s) c"
  | (ok) a s' where "balloc d s = Inr (a, s')" and "fs_ok d s' (insert a (insert (BBLOCK a (sb s)) L)) H" and "high s' = high s"
      and "fresh_blk (sb s) a (view d s) (view d s')" and "\<And>b k. has_buf d s b k \<Longrightarrow> has_buf d s' b k"
proof -
  have "\<exists>a s' L'. balloc_loop d 0 s = Inr (a, s') \<and> fs_ok d s' L' H \<and> high s' = high s
    \<and> (\<forall>b k. has_buf d s b k \<longrightarrow> has_buf d s' b k)
    \<and> (a = 0 \<and> (\<forall>c. unat c < unat (sb_size (sb s)) \<longrightarrow> in_use (sb s) (view d s) c) \<and> view d s' = view d s \<and> L' = L
       \<or> fresh_blk (sb s) a (view d s) (view d s') \<and> L' = insert a (insert (BBLOCK a (sb s)) L))"
    by (rule balloc_loop_spec [OF assms(1) _ _ assms(2-4)]) simp_all
  then show ?thesis using full ok by (auto simp: balloc_def)
qed

lemma fresh_nonzero: "fresh_blk B a V V' \<Longrightarrow> a \<noteq> 0"
  by (auto simp: fresh_blk_def data_blk_def data_start_def)

lemma meta_used_clear:
  assumes "layout_ok B" and "meta_used B V" and "data_blk B a" and "length (V (BBLOCK a B)) = BSIZE"
  shows "meta_used B (clear_blk B a V)"
  unfolding meta_used_def
proof (intro allI impI)
  fix b :: u32 assume b: "unat b < data_start B"
  then have "unat b < unat (sb_size B)" "b \<noteq> a" using assms(1,3) by (auto simp: layout_ok_def data_blk_def)
  then show "in_use B (clear_blk B a V) b"
    using assms b in_use_clear [of B a b V] by (simp add: meta_used_def data_blk_def)
qed

lemma bfree_spec:
  assumes f: "fs_ok d s L H" and a: "data_blk (sb s) a" and H: "H \<inter> bitmap_blks (sb s) = {}" and sp: "card (L \<union> H) < NBUF"
  shows "\<not> in_use (sb s) (view d s) a \<Longrightarrow> bfree d a s = Inl (Panic ''freeing free block'')"
    and "in_use (sb s) (view d s) a \<Longrightarrow> \<exists>s'. bfree d a s = Inr s' \<and> fs_ok d s' (insert (BBLOCK a (sb s)) L) H
      \<and> high s' = high s \<and> view d s' = clear_blk (sb s) a (view d s) \<and> (\<forall>b k. has_buf d s b k \<longrightarrow> has_buf d s' b k)"
proof -
  note D = fs_okD [OF f]
  let ?B = "sb s" let ?V = "view d s" let ?k = "BBLOCK a ?B" let ?i = "unat a mod BPB"
  have as: "unat a < unat (sb_size ?B)" using a by (simp add: data_blk_def)
  then have kH: "?k \<notin> H" using H by (auto simp: bitmap_blks_def)
  show "bfree d a s = Inl (Panic ''freeing free block'')" if free: "\<not> in_use ?B ?V a"
  proof -
    obtain b s1 where "bread d ?k s = Inr (b, s1)" "get_data b s1 = ?V ?k"
      using tx_peek [OF D(1) kH sp] by metis
    then show ?thesis using free by (simp add: bfree_def in_use_def)
  qed
  have na: "\<not> log_area (log_start s) ?k" using bitmap_not_log [OF D(2) as] D(3) by simp
  have ln: "length (bit_clear ?i (?V ?k)) = BSIZE" by (simp add: D(5))
  obtain b s1 s2 s' where m: "bread d ?k s = Inr (b, s1)" "get_data b s1 = ?V ?k"
    "log_write b (set_data b (bit_clear ?i (?V ?k)) s1) = Inr s2" "brelse b s2 = Inr s'" "txn d s' (insert ?k L) H"
    "view d s' = ?V(?k := bit_clear ?i (?V ?k))" "high s' = high s" "\<And>b' k'. has_buf d s b' k' \<Longrightarrow> has_buf d s' b' k'"
    using tx_modify [where f = "bit_clear ?i", OF D(1) kH sp na ln D(6)] by metis
  have v: "view d s' = clear_blk ?B a ?V" by (simp add: m(6) clear_blk_def)
  have "fs_ok d s' (insert ?k L) H"
    by (rule fs_ok_high [OF f m(5,7)]) (simp add: v meta_used_clear [OF D(2,4) a D(5)])
  then show "\<exists>s'. bfree d a s = Inr s' \<and> fs_ok d s' (insert ?k L) H \<and> high s' = high s
    \<and> view d s' = clear_blk ?B a ?V \<and> (\<forall>b k. has_buf d s b k \<longrightarrow> has_buf d s' b k)" if "in_use ?B ?V a"
    using that m v by (intro exI [of _ s']) (simp add: bfree_def in_use_def)
qed

end
