(* ===== verification/FsFile.thy ===== *)
theory FsFile
  imports FsBlock
begin

text \<open>
  The contents of a file as bytes: \<open>slot V A j\<close> is the block with index \<open>j\<close> of the file with address
  list \<open>A\<close> on a disk that reads as \<open>V\<close>, the index 268 standing for the indirect block, and
  \<open>fbyte V A i\<close> its byte \<open>i\<close>, zero in a hole. The lemmas show what \<^verbatim>\<open>bmap\<close>, \<^verbatim>\<open>readi\<close>, \<^verbatim>\<open>writei\<close> and \<^verbatim>\<open>itrunc\<close> do to
  these, to the free bitmap and to every other block.
\<close>

section \<open>Blocks and bytes of a file\<close>

abbreviation IND :: nat where "IND \<equiv> 268"

definition slot :: "(u32 \<Rightarrow> u8 list) \<Rightarrow> u32 list \<Rightarrow> nat \<Rightarrow> u32" where
  "slot V A j =
     (if j = IND then A ! NDIRECT else if j < NDIRECT then A ! j
      else if A ! NDIRECT = 0 then 0 else get_field 4 (4 * (j - NDIRECT)) (V (A ! NDIRECT)))"

definition blocks :: "(u32 \<Rightarrow> u8 list) \<Rightarrow> u32 list \<Rightarrow> u32 set" where
  "blocks V A = slot V A ` {..IND} - {0}"

definition fbyte :: "(u32 \<Rightarrow> u8 list) \<Rightarrow> u32 list \<Rightarrow> nat \<Rightarrow> u8" where
  "fbyte V A i = (let a = slot V A (i div BSIZE) in if a = 0 then 0 else V a ! (i mod BSIZE))"

text \<open>Every block of the file is a data block in use, and no block is used twice.\<close>

definition file_ok :: "superblock \<Rightarrow> (u32 \<Rightarrow> u8 list) \<Rightarrow> u32 list \<Rightarrow> bool" where
  "file_ok B V A \<longleftrightarrow> length A = NDIRECT + 1 \<and> (\<forall>k \<in> blocks V A. data_blk B k \<and> in_use B V k)
     \<and> (\<forall>i \<le> IND. \<forall>j \<le> IND. slot V A i \<noteq> 0 \<longrightarrow> slot V A i = slot V A j \<longrightarrow> i = j)"

text \<open>What allocation may change: the file keeps its blocks and bytes, the bitmap gains exactly the new
  blocks of the file, and no block outside the bitmap, the free blocks and the indirect block
  of the file is touched.\<close>

definition extends :: "superblock \<Rightarrow> (u32 \<Rightarrow> u8 list) \<Rightarrow> u32 list \<Rightarrow> (u32 \<Rightarrow> u8 list) \<Rightarrow> u32 list \<Rightarrow> bool" where
  "extends B V A V' A' \<longleftrightarrow> (\<forall>j \<le> IND. slot V A j \<noteq> 0 \<longrightarrow> slot V' A' j = slot V A j)
     \<and> (\<forall>i < MAXFILE * BSIZE. fbyte V' A' i = fbyte V A i)
     \<and> (\<forall>k. unat k < unat (sb_size B) \<longrightarrow> in_use B V' k = (in_use B V k \<or> k \<in> blocks V' A'))
     \<and> (\<forall>k. k \<notin> bitmap_blks B \<longrightarrow> k \<notin> {A ! NDIRECT} - {0} \<longrightarrow> \<not> (data_blk B k \<and> \<not> in_use B V k) \<longrightarrow> V' k = V k)
     \<and> (\<forall>k \<in> blocks V' A' - blocks V A. data_blk B k \<and> \<not> in_use B V k)"

lemma extends_refl: "file_ok B V A \<Longrightarrow> extends B V A V A"
  by (auto simp: extends_def file_ok_def)

lemma slot_blocks: "j \<le> IND \<Longrightarrow> slot V A j \<noteq> 0 \<Longrightarrow> slot V A j \<in> blocks V A"
  by (auto simp: blocks_def)

lemma blocksE:
  assumes "k \<in> blocks V A"
  obtains j where "j \<le> IND" and "k = slot V A j" and "k \<noteq> 0"
  using assms by (auto simp: blocks_def)

lemma extends_slot: "extends B V A V' A' \<Longrightarrow> j \<le> IND \<Longrightarrow> slot V A j \<noteq> 0 \<Longrightarrow> slot V' A' j = slot V A j"
  by (simp add: extends_def)

lemma extends_blocks:
  assumes "extends B V A V' A'"
  shows "blocks V A \<subseteq> blocks V' A'"
proof
  fix k assume "k \<in> blocks V A"
  then obtain j where j: "j \<le> IND" "k = slot V A j" "k \<noteq> 0" by (rule blocksE)
  then have "slot V' A' j = k" using extends_slot [OF assms] by simp
  then show "k \<in> blocks V' A'" using slot_blocks [OF j(1), of V' A'] j(3) by simp
qed

lemma file_okD:
  assumes "file_ok B V A"
  shows "length A = NDIRECT + 1" and "k \<in> blocks V A \<Longrightarrow> data_blk B k" and "k \<in> blocks V A \<Longrightarrow> in_use B V k"
    and "i \<le> IND \<Longrightarrow> j \<le> IND \<Longrightarrow> slot V A i \<noteq> 0 \<Longrightarrow> slot V A i = slot V A j \<Longrightarrow> i = j"
  using assms unfolding file_ok_def by blast+

lemma slot_IND [simp]: "slot V A IND = A ! NDIRECT"
  by (simp add: slot_def)

lemma ind_new:
  assumes e: "extends B V A V1 A1" and ok: "file_ok B V1 A1" and n: "A1 ! NDIRECT \<noteq> A ! NDIRECT"
  shows "data_blk B (A1 ! NDIRECT) \<and> \<not> in_use B V (A1 ! NDIRECT)"
proof -
  have z: "A ! NDIRECT = 0" using extends_slot [OF e, of IND] n by auto
  then have nz: "A1 ! NDIRECT \<noteq> 0" using n by simp
  have "A1 ! NDIRECT \<notin> blocks V A"
  proof
    assume "A1 ! NDIRECT \<in> blocks V A"
    then obtain j where j: "j \<le> IND" "A1 ! NDIRECT = slot V A j" by (rule blocksE)
    then have "slot V1 A1 j = slot V1 A1 IND" using extends_slot [OF e j(1)] nz by simp
    then have "j = IND" using file_okD(4) [OF ok j(1), of IND] nz by simp
    then show False using j(2) z nz by simp
  qed
  moreover have "A1 ! NDIRECT \<in> blocks V1 A1" using slot_blocks [of IND V1 A1] nz by simp
  ultimately show ?thesis using e file_okD(2) [OF ok] by (auto simp: extends_def)
qed

lemma extends_trans:
  assumes e1: "extends B V A V1 A1" and e2: "extends B V1 A1 V2 A2" and ok: "file_ok B V1 A1"
  shows "extends B V A V2 A2"
  unfolding extends_def
proof (intro conjI)
  show "\<forall>j \<le> IND. slot V A j \<noteq> 0 \<longrightarrow> slot V2 A2 j = slot V A j"
    using extends_slot [OF e1] extends_slot [OF e2] by (metis)
  show "\<forall>i < MAXFILE * BSIZE. fbyte V2 A2 i = fbyte V A i" using e1 e2 by (simp add: extends_def)
  show "\<forall>k. unat k < unat (sb_size B) \<longrightarrow> in_use B V2 k = (in_use B V k \<or> k \<in> blocks V2 A2)"
    using e1 e2 extends_blocks [OF e2] unfolding extends_def by blast
  show "\<forall>k. k \<notin> bitmap_blks B \<longrightarrow> k \<notin> {A ! NDIRECT} - {0} \<longrightarrow> \<not> (data_blk B k \<and> \<not> in_use B V k) \<longrightarrow> V2 k = V k"
  proof (intro allI impI)
    fix k assume k: "k \<notin> bitmap_blks B" "k \<notin> {A ! NDIRECT} - {0}" "\<not> (data_blk B k \<and> \<not> in_use B V k)"
    have "k \<notin> {A1 ! NDIRECT} - {0}" using ind_new [OF e1 ok] k(2,3) by blast
    moreover have "\<not> (data_blk B k \<and> \<not> in_use B V1 k)" using k(3) e1 by (auto simp: extends_def data_blk_def)
    ultimately show "V2 k = V k" using k e1 e2 by (simp add: extends_def)
  qed
  show "\<forall>k \<in> blocks V2 A2 - blocks V A. data_blk B k \<and> \<not> in_use B V k"
  proof
    fix k assume k: "k \<in> blocks V2 A2 - blocks V A"
    show "data_blk B k \<and> \<not> in_use B V k"
    proof (cases "k \<in> blocks V1 A1")
      case True
      then show ?thesis using k e1 by (auto simp: extends_def)
    next
      case False
      then have "data_blk B k" "\<not> in_use B V1 k" using k e2 by (auto simp: extends_def)
      then show ?thesis using e1 by (auto simp: extends_def data_blk_def)
    qed
  qed
qed

section \<open>Giving a file one more block\<close>

text \<open>The new block \<open>a\<close> comes from the allocator, which leaves the view \<open>W\<close>; besides, only the indirect
  block may have changed.\<close>

lemma fresh_in_use:
  assumes "layout_ok B" and "fresh_blk B a V W" and "length (V (BBLOCK a B)) = BSIZE" and "unat k < unat (sb_size B)"
  shows "in_use B W k \<longleftrightarrow> k = a \<or> in_use B V k"
proof -
  have a: "data_blk B a" "W = (mark_blk B a V)(a := replicate BSIZE 0)" using assms(2) by (simp_all add: fresh_blk_def)
  then have "unat a < unat (sb_size B)" by (simp add: data_blk_def)
  then show ?thesis
    using in_use_data [OF assms(1) a(1) assms(4)] in_use_mark [of B a k V] assms by (simp add: a(2))
qed

lemma fresh_other:
  assumes "fresh_blk B a V W" and "k \<noteq> a" and "k \<notin> bitmap_blks B"
  shows "W k = V k"
proof -
  have "k \<noteq> BBLOCK a B" using assms by (auto simp: bitmap_blks_def fresh_blk_def data_blk_def)
  then show ?thesis using assms by (simp add: fresh_blk_def mark_blk_def)
qed

lemma in_use_other:
  assumes "layout_ok B" and "\<And>k. V' k = W k \<or> data_blk B k" and "unat k < unat (sb_size B)"
  shows "in_use B V' k = in_use B W k"
proof -
  have "V' (BBLOCK k B) = W (BBLOCK k B)"
    using assms(2) [of "BBLOCK k B"] data_not_bitmap [OF assms(1) _ assms(3)] by blast
  then show ?thesis by (simp add: in_use_def)
qed

lemma add_slot:
  assumes l: "layout_ok B" and ok: "file_ok B V A" and fr: "fresh_blk B a V W" and len: "length (V (BBLOCK a B)) = BSIZE"
    and j0: "j0 \<le> IND" "slot V A j0 = 0" and A': "length A' = NDIRECT + 1"
    and slots: "\<And>j. j \<le> IND \<Longrightarrow> slot V' A' j = (if j = j0 then a else slot V A j)"
    and V': "\<And>k. V' k = W k \<or> k = A ! NDIRECT \<and> k \<noteq> 0"
  shows "file_ok B V' A'" and "extends B V A V' A'"
proof -
  have a: "data_blk B a" "\<not> in_use B V a" "a \<noteq> 0" using fr fresh_nonzero [OF fr] by (simp_all add: fresh_blk_def)
  have ind: "A ! NDIRECT \<noteq> 0 \<Longrightarrow> A ! NDIRECT \<in> blocks V A" using slot_blocks [of IND V A] by simp
  have iu: "in_use B V' k \<longleftrightarrow> k = a \<or> in_use B V k" if "unat k < unat (sb_size B)" for k
  proof -
    have "V' k = W k \<or> data_blk B k" for k using V' [of k] ind file_okD(2) [OF ok] by auto
    then have "in_use B V' k = in_use B W k" by (rule in_use_other [OF l _ that])
    then show ?thesis using fresh_in_use [OF l fr len that] by simp
  qed
  have bl: "blocks V' A' = insert a (blocks V A)"
  proof (intro equalityI subsetI)
    fix k assume "k \<in> blocks V' A'"
    then obtain j where "j \<le> IND" "k = slot V' A' j" "k \<noteq> 0" by (rule blocksE)
    then show "k \<in> insert a (blocks V A)" using slots slot_blocks by (metis insert_iff)
  next
    fix k assume "k \<in> insert a (blocks V A)"
    then consider "k = a" | j where "j \<le> IND" "k = slot V A j" "k \<noteq> 0" using blocksE by blast
    then show "k \<in> blocks V' A'"
      by cases (use slots j0 a(3) slot_blocks [of _ V' A'] in \<open>metis+\<close>)
  qed
  have aV: "a \<notin> blocks V A" using a(2) file_okD(3) [OF ok] by blast
  show "file_ok B V' A'"
    unfolding file_ok_def
  proof (intro conjI A' ballI allI impI)
    fix k assume "k \<in> blocks V' A'"
    then have "k = a \<or> k \<in> blocks V A" using bl by simp
    then show d: "data_blk B k" using a(1) file_okD(2) [OF ok] by auto
    then show "in_use B V' k"
      using iu \<open>k = a \<or> k \<in> blocks V A\<close> file_okD(3) [OF ok] by (auto simp: data_blk_def)
  next
    fix i j assume "i \<le> IND" "j \<le> IND" "slot V' A' i \<noteq> 0" "slot V' A' i = slot V' A' j"
    then show "i = j" using slots aV slot_blocks file_okD(4) [OF ok, of i j] by (metis a(3))
  qed
  have fb: "fbyte V' A' i = fbyte V A i" if "i < MAXFILE * BSIZE" for i
  proof -
    have ji: "i div BSIZE < IND" "i div BSIZE \<le> IND" using that by (simp_all add: less_mult_imp_div_less order_less_imp_le)
    have ni: "slot V A (i div BSIZE) \<noteq> A ! NDIRECT \<or> slot V A (i div BSIZE) = 0"
      using file_okD(4) [OF ok ji(2), of IND] ji(1) by auto
    show ?thesis
    proof (cases "i div BSIZE = j0")
      case True
      have "W a = replicate BSIZE 0" using fr by (simp add: fresh_blk_def)
      moreover have "a \<noteq> A ! NDIRECT" using aV ind a(3) by auto
      then have "V' a = W a" using V' [of a] by auto
      ultimately show ?thesis using True slots [OF ji(2)] j0 by (simp add: fbyte_def Let_def)
    next
      case False
      let ?k = "slot V A (i div BSIZE)"
      have sk: "slot V' A' (i div BSIZE) = ?k" using slots [OF ji(2)] False by simp
      show ?thesis
      proof (cases "?k = 0")
        case nz: False
        then have kb: "?k \<in> blocks V A" using slot_blocks [OF ji(2)] by simp
        then have "?k \<noteq> a" "?k \<notin> bitmap_blks B"
          using aV data_not_bitmap [OF l file_okD(2) [OF ok kb]] by (auto simp: bitmap_blks_def)
        then have "V' ?k = V ?k" using V' [of ?k] fresh_other [OF fr] ni nz by auto
        then show ?thesis by (simp add: fbyte_def Let_def sk)
      qed (simp add: fbyte_def Let_def sk)
    qed
  qed
  show "extends B V A V' A'"
    unfolding extends_def
  proof (intro conjI allI impI ballI)
    fix j assume "j \<le> IND" "slot V A j \<noteq> 0"
    then show "slot V' A' j = slot V A j" using slots j0(2) by auto
  next
    fix i assume "i < MAXFILE * BSIZE"
    then show "fbyte V' A' i = fbyte V A i" by (rule fb)
  next
    fix k :: u32 assume "unat k < unat (sb_size B)"
    then show "in_use B V' k = (in_use B V k \<or> k \<in> blocks V' A')" using iu bl file_okD(3) [OF ok] by auto
  next
    fix k assume k: "k \<notin> bitmap_blks B" "k \<notin> {A ! NDIRECT} - {0}" "\<not> (data_blk B k \<and> \<not> in_use B V k)"
    have "k \<noteq> a" using k(3) a(1,2) by blast
    then show "V' k = V k" using V' [of k] fresh_other [OF fr _ k(1)] k(2) by auto
  next
    fix k assume k: "k \<in> blocks V' A' - blocks V A"
    then show "data_blk B k" and "\<not> in_use B V k" using bl a by auto
  qed
qed

section \<open>Changing an in-memory inode\<close>

lemma upd_inode_cache [simp]:
  "cache_of d (upd_inode i f s) = cache_of d s" "binv d (upd_inode i f s) = binv d s"
  "buf_at d (upd_inode i f s) = buf_at d s"
  by (simp_all add: upd_inode_def cache_of_def binv_def buf_at_def fun_eq_iff cong: option.case_cong if_cong)

lemma upd_inode_fields [simp]:
  "itable (upd_inode i f s) = (itable s)(i := f (itable s i))" "sb (upd_inode i f s) = sb s" "disk (upd_inode i f s) = disk s"
  "cur_pid (upd_inode i f s) = cur_pid s" "log_start (upd_inode i f s) = log_start s" "log_dev (upd_inode i f s) = log_dev s"
  "lh_n (upd_inode i f s) = lh_n s" "lh_block (upd_inode i f s) = lh_block s" "outstanding (upd_inode i f s) = outstanding s"
  "committing (upd_inode i f s) = committing s" "mem (upd_inode i f s) = mem s" "kmem.truncate (upd_inode i f s) = kmem.truncate s"
  "ftable (upd_inode i f s) = ftable s" "procs (upd_inode i f s) = procs s" "me (upd_inode i f s) = me s"
  by (simp_all add: upd_inode_def kmem.truncate_def)

lemma upd_inode_tx [simp]:
  "tx_ok d (upd_inode i f s) bl = tx_ok d s bl" "txn d (upd_inode i f s) L H = txn d s L H"
  "has_buf d (upd_inode i f s) = has_buf d s" "fs_ok d (upd_inode i f s) L H = fs_ok d s L H"
  by (simp_all add: tx_ok_def txn_def has_buf_def fs_ok_def fun_eq_iff)

lemma high_upd_inode: "high s' = high s \<Longrightarrow> high (upd_inode i f s') = high (upd_inode i f s)"
  by (simp add: high_defs upd_inode_def)

lemma upd_inode_ident: "f (itable s i) = itable s i \<Longrightarrow> upd_inode i f s = s"
  by (simp add: upd_inode_def)

lemma upd_inode_twice: "upd_inode i f (upd_inode i g s) = upd_inode i (f \<circ> g) s"
  by (simp add: upd_inode_def)

abbreviation addrs_of :: "kernel \<Rightarrow> nat \<Rightarrow> u32 list" where
  "addrs_of s ip \<equiv> i_addrs (itable s ip)"

definition set_addrs :: "nat \<Rightarrow> u32 list \<Rightarrow> kernel \<Rightarrow> kernel" where
  "set_addrs ip A s = upd_inode ip (\<lambda>I. I\<lparr>i_addrs := A\<rparr>) s"

lemma set_addrs_same [simp]: "set_addrs ip (addrs_of s ip) s = s"
  by (simp add: set_addrs_def upd_inode_ident)

lemma set_addrs_twice [simp]: "set_addrs ip A (set_addrs ip A' s) = set_addrs ip A s"
  by (simp add: set_addrs_def upd_inode_twice comp_def)

lemma high_set_addrs: "high s' = high s \<Longrightarrow> high (set_addrs ip A s') = high (set_addrs ip A s)"
  unfolding set_addrs_def by (rule high_upd_inode)

lemma itable_set_addrs [simp]: "itable (set_addrs ip A s) = (itable s)(ip := (itable s ip)\<lparr>i_addrs := A\<rparr>)"
  by (simp add: set_addrs_def)

section \<open>Finding or allocating a block\<close>

text \<open>How much of the log and the cache the transaction needs: the blocks logged so far, the bitmap,
  and the indirect block of the file, existing or to come.\<close>

definition potential :: "superblock \<Rightarrow> u32 list \<Rightarrow> u32 set \<Rightarrow> nat" where
  "potential B A L = card (L \<union> bitmap_blks B \<union> ({A ! NDIRECT} - {0})) + (if A ! NDIRECT = 0 then 1 else 0)"

lemma potential_insert: "potential B A (insert a L) \<le> potential B A L + 1"
  by (simp add: potential_def card_insert_if)

lemma potential_mono: "L \<subseteq> L' \<union> bitmap_blks B \<Longrightarrow> potential B A L \<le> potential B A L'"
  unfolding potential_def by (intro add_mono card_mono) auto

lemma slot_direct: "j < NDIRECT \<Longrightarrow> slot V A j = A ! j"
  by (simp add: slot_def)

lemma get_field_zeros: "get_field k off (replicate n 0) = (0 :: 'a::len word)"
proof -
  have "take k (drop off (replicate n (0 :: u8))) = replicate (min k (n - off)) 0" by simp
  then have "bit (get_field k off (replicate n 0) :: 'a word) i = False" for i
    by (auto simp: get_field_def bit_le_word)
  then show ?thesis by (intro bit_word_eqI) simp
qed

definition slot_index :: "nat \<Rightarrow> nat" where
  "slot_index i = (if i = NDIRECT then IND else i)"

lemma slot_at_index: "i \<le> NDIRECT \<Longrightarrow> slot V A (slot_index i) = A ! i"
  by (auto simp: slot_index_def slot_direct)

lemma slot_set_direct:
  assumes l: "layout_ok B" and ok: "file_ok B V A" and fr: "fresh_blk B a V W" and i: "i \<le> NDIRECT" "A ! i = 0" and j: "j \<le> IND"
  shows "slot W (A[i := a]) j = (if j = slot_index i then a else slot V A j)"
proof -
  have len: "length A = NDIRECT + 1" using file_okD(1) [OF ok] .
  have za: "W a = replicate BSIZE 0" using fr by (simp add: fresh_blk_def)
  have g0: "get_field 4 (4 * k) (replicate BSIZE 0 :: u8 list) = (0 :: u32)" for k by (rule get_field_zeros)
  show ?thesis
  proof (cases "i = NDIRECT")
    case True
    then show ?thesis using len i j za g0 by (auto simp: slot_def slot_index_def)
  next
    case False
    then have n: "A[i := a] ! NDIRECT = A ! NDIRECT" by simp
    have "W (A ! NDIRECT) = V (A ! NDIRECT)" if nz: "A ! NDIRECT \<noteq> 0"
    proof (rule fresh_other [OF fr])
      have b: "A ! NDIRECT \<in> blocks V A" using slot_blocks [of IND V A] nz by simp
      show "A ! NDIRECT \<noteq> a" using file_okD(3) [OF ok b] fr by (auto simp: fresh_blk_def)
      show "A ! NDIRECT \<notin> bitmap_blks B" using data_not_bitmap [OF l file_okD(2) [OF ok b]] by (auto simp: bitmap_blks_def)
    qed
    then show ?thesis using False len i n by (auto simp: slot_def slot_index_def nth_list_update)
  qed
qed

text \<open>One step on the inode \<open>ip\<close> inside a transaction that only allocates.\<close>

definition file_step :: "u32 \<Rightarrow> nat \<Rightarrow> kernel \<Rightarrow> u32 set \<Rightarrow> kernel \<Rightarrow> u32 set \<Rightarrow> bool" where
  "file_step d ip s L s' L' \<longleftrightarrow> fs_ok d s' L' {} \<and> L \<subseteq> L' \<and> high s' = high (set_addrs ip (addrs_of s' ip) s)
     \<and> file_ok (sb s) (view d s') (addrs_of s' ip) \<and> extends (sb s) (view d s) (addrs_of s ip) (view d s') (addrs_of s' ip)"

lemma file_step_refl: "fs_ok d s L {} \<Longrightarrow> file_ok (sb s) (view d s) (addrs_of s ip) \<Longrightarrow> file_step d ip s L s L"
  by (simp add: file_step_def extends_refl)

lemma file_step_fields:
  assumes "file_step d ip s L s' L'"
  shows "sb s' = sb s" and "mem s' = mem s" and "procs s' = procs s" and "me s' = me s" and "cur_pid s' = cur_pid s"
    and "itable s' = (itable s)(ip := (itable s ip)\<lparr>i_addrs := addrs_of s' ip\<rparr>)" and "log_start s' = log_start s"
    and "ftable s' = ftable s"
  using high_fields [of s' "set_addrs ip (addrs_of s' ip) s"] assms by (simp_all add: file_step_def set_addrs_def)

lemma file_step_trans:
  assumes 1: "file_step d ip s L s1 L1" and 2: "file_step d ip s1 L1 s2 L2"
  shows "file_step d ip s L s2 L2"
proof -
  note f1 = file_step_fields [OF 1]
  have "high (set_addrs ip (addrs_of s2 ip) s1) = high (set_addrs ip (addrs_of s2 ip) (set_addrs ip (addrs_of s1 ip) s))"
    by (rule high_set_addrs) (use 1 in \<open>simp add: file_step_def\<close>)
  moreover have "extends (sb s) (view d s) (addrs_of s ip) (view d s2) (addrs_of s2 ip)"
    using 1 2 f1(1) by (auto simp: file_step_def intro: extends_trans)
  ultimately show ?thesis using 1 2 f1(1) by (auto simp: file_step_def)
qed

lemma card_potential: "card L \<le> potential B A L" "card (L \<union> bitmap_blks B) \<le> potential B A L"
proof -
  show "card (L \<union> bitmap_blks B) \<le> potential B A L"
    unfolding potential_def by (rule trans_le_add1, rule card_mono) auto
  then show "card L \<le> potential B A L" by (rule order_trans [OF card_mono, rotated -1]) auto
qed

lemma blocks_not_bitmap: "layout_ok B \<Longrightarrow> file_ok B V A \<Longrightarrow> k \<in> blocks V A \<Longrightarrow> k \<notin> bitmap_blks B"
  using data_not_bitmap file_okD(2) by (fastforce simp: bitmap_blks_def)

lemma fresh_step:
  assumes f: "fs_ok d s L {}" and ok: "file_ok (sb s) (view d s) (addrs_of s ip)" and i: "i \<le> NDIRECT" "addrs_of s ip ! i = 0"
    and s1: "fs_ok d s1 (insert a (insert (BBLOCK a (sb s)) L)) {}" "high s1 = high s" "fresh_blk (sb s) a (view d s) (view d s1)"
  defines "s' \<equiv> upd_inode ip (\<lambda>I. I\<lparr>i_addrs := (i_addrs I)[i := a]\<rparr>) s1"
  shows "file_step d ip s L s' (insert a (insert (BBLOCK a (sb s)) L))" and "addrs_of s' ip = (addrs_of s ip)[i := a]"
    and "slot (view d s') (addrs_of s' ip) (slot_index i) = a"
proof -
  note D = fs_okD [OF f]
  have it: "itable s1 = itable s" using high_fields [OF s1(2)] by simp
  show A: "addrs_of s' ip = (addrs_of s ip)[i := a]" by (simp add: s'_def it)
  have v: "view d s' = view d s1" by (simp add: s'_def)
  have z: "slot (view d s) (addrs_of s ip) (slot_index i) = 0" using i by (simp add: slot_at_index)
  have sl: "slot (view d s') (addrs_of s' ip) j = (if j = slot_index i then a else slot (view d s) (addrs_of s ip) j)"
    if "j \<le> IND" for j unfolding A v by (rule slot_set_direct [OF D(2) ok s1(3) i that])
  have si: "slot_index i \<le> IND" using i by (simp add: slot_index_def)
  show "slot (view d s') (addrs_of s' ip) (slot_index i) = a" using sl [OF si] by simp
  have len: "length (addrs_of s' ip) = NDIRECT + 1" using file_okD(1) [OF ok] by (simp add: A)
  have same: "view d s' k = view d s1 k \<or> k = addrs_of s ip ! NDIRECT \<and> k \<noteq> 0" for k by (simp add: v)
  note add = add_slot [OF D(2) ok s1(3) D(5) si z len sl same]
  have "high s' = high (set_addrs ip (addrs_of s' ip) s)"
    unfolding A s'_def set_addrs_def by (rule trans [OF high_upd_inode [OF s1(2)]]) (simp add: upd_inode_def it)
  moreover have "fs_ok d s' (insert a (insert (BBLOCK a (sb s)) L)) {}" using s1(1) by (simp add: s'_def)
  ultimately show "file_step d ip s L s' (insert a (insert (BBLOCK a (sb s)) L))"
    using add by (auto simp: file_step_def)
qed

lemma bitmap_blkI: "data_blk B a \<Longrightarrow> BBLOCK a B \<in> bitmap_blks B"
  by (auto simp: bitmap_blks_def data_blk_def)

lemma bmap_slot_spec:
  assumes f: "fs_ok d s L {}" and dev: "i_dev (itable s ip) = d" and ok: "file_ok (sb s) (view d s) (addrs_of s ip)"
    and i: "i \<le> NDIRECT" and sp: "potential (sb s) (addrs_of s ip) L + 1 < NBUF"
  obtains a s' L' where "bmap_slot ip i s = Inr (a, s')" and "file_step d ip s L s' L'"
    and "slot (view d s') (addrs_of s' ip) (slot_index i) = a"
    and "a \<noteq> 0 \<Longrightarrow> i \<noteq> NDIRECT \<Longrightarrow> potential (sb s) (addrs_of s' ip) (insert a L') \<le> potential (sb s) (addrs_of s ip) L + 1"
    and "potential (sb s) (addrs_of s' ip) L' \<le> potential (sb s) (addrs_of s ip) L + (if i = NDIRECT then 0 else 1)"
    and "slot (view d s) (addrs_of s ip) (slot_index i) \<noteq> 0 \<Longrightarrow> s' = s \<and> L' = L"
    and "a = 0 \<Longrightarrow> \<forall>c. unat c < unat (sb_size (sb s)) \<longrightarrow> in_use (sb s) (view d s) c"
proof (cases "addrs_of s ip ! i = 0")
  case False
  then have "bmap_slot ip i s = Inr (addrs_of s ip ! i, s)" by (simp add: bmap_slot_def)
  moreover have "slot (view d s) (addrs_of s ip) (slot_index i) = addrs_of s ip ! i"
    using i by (simp add: slot_at_index)
  ultimately show ?thesis
    using that [of "addrs_of s ip ! i" s L] file_step_refl [OF f ok] potential_insert False by auto
next
  case z: True
  have sp': "card (L \<union> {} \<union> bitmap_blks (sb s)) < NBUF" using card_potential(2) [of L "sb s" "addrs_of s ip"] sp by simp
  show ?thesis
  proof (rule balloc_spec [OF f _ _ sp'])
    fix s1 assume s1: "balloc d s = Inr (0, s1)" "fs_ok d s1 L {}" "high s1 = high s" "view d s1 = view d s"
      "\<And>c. unat c < unat (sb_size (sb s)) \<Longrightarrow> in_use (sb s) (view d s) c"
    have it: "itable s1 = itable s" using high_fields [OF s1(3)] by simp
    have "bmap_slot ip i s = Inr (0, s1)" using z s1(1) dev by (simp add: bmap_slot_def)
    moreover have "file_step d ip s L s1 L"
      using s1 ok by (simp add: file_step_def it extends_refl)
    moreover have "slot (view d s1) (addrs_of s1 ip) (slot_index i) = 0"
      using z i by (simp add: it slot_at_index)
    ultimately show ?thesis using that [of 0 s1 L] s1(5) z i by (auto simp: it s1(4) slot_at_index)
  next
    fix a s1 assume s1: "balloc d s = Inr (a, s1)" "fs_ok d s1 (insert a (insert (BBLOCK a (sb s)) L)) {}" "high s1 = high s"
      "fresh_blk (sb s) a (view d s) (view d s1)"
    define s' where "s' = upd_inode ip (\<lambda>I. I\<lparr>i_addrs := (i_addrs I)[i := a]\<rparr>) s1"
    define L' where "L' = insert a (insert (BBLOCK a (sb s)) L)"
    have a: "a \<noteq> 0" "data_blk (sb s) a" using fresh_nonzero [OF s1(4)] s1(4) by (simp_all add: fresh_blk_def)
    note st = fresh_step [OF f ok i z s1(2-4), folded s'_def L'_def]
    have b: "bmap_slot ip i s = Inr (a, s')" using z s1(1) a dev by (simp add: bmap_slot_def s'_def)
    have bm: "BBLOCK a (sb s) \<in> bitmap_blks (sb s)" by (rule bitmap_blkI [OF a(2)])
    have len: "length (addrs_of s ip) = NDIRECT + 1" using file_okD(1) [OF ok] .
    have pot: "potential (sb s) (addrs_of s' ip) L' \<le> potential (sb s) (addrs_of s ip) L + (if i = NDIRECT then 0 else 1)"
    proof (cases "i = NDIRECT")
      case True
      then have A': "addrs_of s' ip ! NDIRECT = a" using st(2) len by simp
      have "L' \<union> bitmap_blks (sb s) \<union> {a} = insert a (L \<union> bitmap_blks (sb s))" using bm by (auto simp: L'_def)
      then show ?thesis using A' a(1) True z by (simp add: potential_def card_insert_if)
    next
      case False
      then have A': "addrs_of s' ip ! NDIRECT = addrs_of s ip ! NDIRECT" using st(2) by simp
      have "potential (sb s) (addrs_of s ip) L' \<le> potential (sb s) (addrs_of s ip) (insert a L)"
        by (rule potential_mono) (use bm in \<open>auto simp: L'_def\<close>)
      then show ?thesis using potential_insert [of "sb s" "addrs_of s ip" a L] False by (simp add: potential_def A')
    qed
    have "insert a L' = L'" by (simp add: L'_def)
    moreover have "slot (view d s) (addrs_of s ip) (slot_index i) = 0" using z i by (simp add: slot_at_index)
    ultimately show ?thesis using that [OF b st(1,3)] pot a(1) by (cases "i = NDIRECT") simp_all
  qed simp_all
qed

end
