(* ===== verification/FsBmap.thy ===== *)
theory FsBmap
  imports FsFile
begin

text \<open>
  The specification of \<^verbatim>\<open>bmap\<close>: it finds the block of a file or gives the file one more, directly or
  through the indirect block, and reports a full disk as 0.
\<close>

lemma slot_indirect: "j < NINDIRECT \<Longrightarrow> A ! NDIRECT \<noteq> 0 \<Longrightarrow> slot V A (NDIRECT + j) = get_field 4 (4 * j) (V (A ! NDIRECT))"
  by (simp add: slot_def)

lemma slot_set_indirect:
  assumes l: "layout_ok B" and ok: "file_ok B V A" and fr: "fresh_blk B a V W" and nz: "A ! NDIRECT \<noteq> 0" and j: "j < NINDIRECT"
    and len: "length (V (A ! NDIRECT)) = BSIZE" and i: "i \<le> IND"
  shows "slot (W(A ! NDIRECT := put_field 4 (4 * j) a (W (A ! NDIRECT)))) A i = (if i = NDIRECT + j then a else slot V A i)"
proof -
  have b: "A ! NDIRECT \<in> blocks V A" using slot_blocks [of IND V A] nz by simp
  have "A ! NDIRECT \<noteq> a" using file_okD(3) [OF ok b] fr by (auto simp: fresh_blk_def)
  then have w: "W (A ! NDIRECT) = V (A ! NDIRECT)" using fresh_other [OF fr] blocks_not_bitmap [OF l ok b] by simp
  have g: "get_field 4 (4 * k) (put_field 4 (4 * j) a (V (A ! NDIRECT))) = (if k = j then a else get_field 4 (4 * k) (V (A ! NDIRECT)))"
    for k
  proof (cases "k = j")
    case False
    then have "4 * k + 4 \<le> 4 * j \<or> 4 * j + 4 \<le> 4 * k" by linarith
    then show ?thesis using False j len by (simp add: get_put_field_other)
  qed (use j len in simp)
  show ?thesis using nz i j by (auto simp: slot_def w g)
qed

lemma bmap_entry_spec:
  assumes f: "fs_ok d s L {}" and dev: "i_dev (itable s ip) = d" and ok: "file_ok (sb s) (view d s) (addrs_of s ip)"
    and nz: "addrs_of s ip ! NDIRECT \<noteq> 0" and j: "j < NINDIRECT" and sp: "potential (sb s) (addrs_of s ip) L + 1 < NBUF"
  defines "ind \<equiv> addrs_of s ip ! NDIRECT"
  obtains a s' L' where "rbind (bread d ind s) (\<lambda>(bp, s2).
       rbind (let addr = get_field 4 (4 * j) (get_data bp s2)
              in if addr = 0
                 then rbind (balloc (i_dev (itable s2 ip)) s2) (\<lambda>(new, s3).
                      if new = 0 then Inr (new, s3)
                      else rbind (log_write bp (set_data bp (put_field 4 (4 * j) new (get_data bp s3)) s3))
                             (\<lambda>s4. Inr (new, s4)))
                 else Inr (addr, s2)) (\<lambda>(addr, s5). rbind (brelse bp s5) (\<lambda>s6. Inr (addr, s6)))) = Inr (a, s')"
    and "file_step d ip s L s' L'" and "slot (view d s') (addrs_of s' ip) (NDIRECT + j) = a"
    and "a \<noteq> 0 \<Longrightarrow> potential (sb s) (addrs_of s' ip) (insert a L') \<le> potential (sb s) (addrs_of s ip) L + 1"
    and "potential (sb s) (addrs_of s' ip) L' \<le> potential (sb s) (addrs_of s ip) L + 1"
    and "slot (view d s) (addrs_of s ip) (NDIRECT + j) \<noteq> 0 \<Longrightarrow> view d s' = view d s \<and> high s' = high s \<and> L' = L"
    and "a = 0 \<Longrightarrow> \<forall>c. unat c < unat (sb_size (sb s)) \<longrightarrow> in_use (sb s) (view d s) c"
proof -
  note D = fs_okD [OF f]
  let ?B = "sb s" let ?V = "view d s" let ?A = "addrs_of s ip"
  have nz': "ind \<noteq> 0" using nz by (simp add: ind_def)
  have b: "ind \<in> blocks ?V ?A" using slot_blocks [of IND ?V ?A] nz by (simp add: ind_def)
  have db: "data_blk ?B ind" "in_use ?B ?V ind" "ind \<notin> bitmap_blks ?B"
    using file_okD(2,3) [OF ok b] blocks_not_bitmap [OF D(2) ok b] by auto
  have cp: "card (L \<union> {ind} \<union> bitmap_blks ?B) = potential ?B ?A L"
    using nz' by (simp add: potential_def ind_def insert_Diff_if Un_commute)
  have nk: "ind \<notin> {}" by simp
  have c1: "ind \<in> L \<or> card (L \<union> {}) < NBUF" using card_potential(1) [of L ?B ?A] sp by simp
  obtain bp s2 where r: "bread d ind s = Inr (bp, s2)" "txn d s2 L {ind}" "view d s2 = ?V" "high s2 = high s" "has_buf d s2 bp ind"
    using tx_read [OF D(1) nk] c1 by metis
  note h2 = high_fields [OF r(4)]
  have f2: "fs_ok d s2 L {ind}" by (rule fs_ok_high [OF f r(2,4)]) (use D(4) r(3) in simp)
  have dat: "get_data bp s2 = ?V ind" using tx_data [OF r(2,5)] r(3) by simp
  have sl: "slot ?V ?A (NDIRECT + j) = get_field 4 (4 * j) (?V ind)" using slot_indirect [OF j nz] by (simp add: ind_def)
  have it: "itable s2 = itable s" using h2 by simp
  have keep: "file_step d ip s L s6 L" if "fs_ok d s6 L {}" "high s6 = high s" "view d s6 = ?V" for s6
    using that ok high_fields [OF that(2)] by (simp add: file_step_def extends_refl)
  show ?thesis
  proof (cases "get_field 4 (4 * j) (?V ind) = (0 :: u32)")
    case False
    obtain s6 where s6: "brelse bp s2 = Inr s6" "txn d s6 L {}" "view d s6 = ?V" "high s6 = high s"
      using tx_release [OF r(2,5)] r(3,4) by (metis Diff_cancel)
    have f6: "fs_ok d s6 L {}" by (rule fs_ok_high [OF f s6(2,4)]) (use D(4) s6(3) in simp)
    show ?thesis
      by (rule that [of "get_field 4 (4 * j) (?V ind)" s6 L])
        (use r(1) dat False s6 keep [OF f6 s6(4,3)] sl potential_insert high_fields [OF s6(4)] in \<open>simp_all\<close>)
  next
    case z: True
    have Hb: "{ind} \<inter> bitmap_blks (sb s2) = {}" "\<forall>k \<in> {ind}. in_use (sb s2) (view d s2) k"
      "card (L \<union> {ind} \<union> bitmap_blks (sb s2)) < NBUF" using db h2 r(3) cp sp by auto
    show ?thesis
    proof (rule balloc_spec [OF f2 Hb])
      fix s3 assume s3: "balloc d s2 = Inr (0, s3)" "fs_ok d s3 L {ind}" "high s3 = high s2" "view d s3 = view d s2"
        "\<And>b k. has_buf d s2 b k \<Longrightarrow> has_buf d s3 b k"
        "\<And>c. unat c < unat (sb_size (sb s2)) \<Longrightarrow> in_use (sb s2) (view d s2) c"
      have b3: "has_buf d s3 bp ind" using s3(5) r(5) .
      obtain s6 where s6: "brelse bp s3 = Inr s6" "txn d s6 L {}" "view d s6 = ?V" "high s6 = high s"
        using tx_release [OF fs_okD(1) [OF s3(2)] b3] s3(3,4) r(3,4) by (metis Diff_cancel)
      have f6: "fs_ok d s6 L {}" by (rule fs_ok_high [OF f s6(2,4)]) (use D(4) s6(3) in simp)
      show ?thesis
        by (rule that [of 0 s6 L])
          (use r(1,3) dat z s3(1,6) s6 keep [OF f6 s6(4,3)] sl it dev h2 high_fields [OF s6(4)] in \<open>simp_all\<close>)
    next
      fix a s3 assume s3: "balloc d s2 = Inr (a, s3)" "fs_ok d s3 (insert a (insert (BBLOCK a (sb s2)) L)) {ind}" "high s3 = high s2"
        "fresh_blk (sb s2) a (view d s2) (view d s3)" "\<And>b k. has_buf d s2 b k \<Longrightarrow> has_buf d s3 b k"
      define W where "W = view d s3"
      have fr: "fresh_blk ?B a ?V W" using s3(4) h2 r(3) by (simp add: W_def)
      have a: "a \<noteq> 0" "data_blk ?B a" using fresh_nonzero [OF fr] fr by (simp_all add: fresh_blk_def)
      define L3 where "L3 = insert a (insert (BBLOCK a ?B) L)"
      have f3: "fs_ok d s3 L3 {ind}" using s3(2) h2 by (simp add: L3_def)
      have b3: "has_buf d s3 bp ind" using s3(5) r(5) .
      note D3 = fs_okD [OF f3]
      define v where "v = put_field 4 (4 * j) a (W ind)"
      have v: "length v = BSIZE" using D3(5) [of ind] j by (simp add: v_def W_def)
      have dat3: "get_data bp s3 = W ind" using tx_data [OF D3(1) b3] by (simp add: W_def)
      have h3: "high s3 = high s" using s3(3) r(4) by simp
      have na: "\<not> log_area (log_start s3) ind" using data_not_log [OF D(2) db(1)] D(3) high_fields [OF h3] by simp
      have bm: "BBLOCK a ?B \<in> bitmap_blks ?B" by (rule bitmap_blkI [OF a(2)])
      have "L3 \<subseteq> insert a (L \<union> {ind} \<union> bitmap_blks ?B)" using bm by (auto simp: L3_def)
      then have "card L3 \<le> card (insert a (L \<union> {ind} \<union> bitmap_blks ?B))" by (intro card_mono) auto
      also have "\<dots> \<le> potential ?B ?A L + 1" using cp by (simp add: card_insert_if)
      finally have c3: "card L3 < LOGBLOCKS" using sp by simp
      obtain s4 where s4: "log_write bp (set_data bp v s3) = Inr s4" "txn d s4 (insert ind L3) {ind}" "view d s4 = W(ind := v)"
        "high s4 = high s3" "\<And>b' k'. has_buf d s4 b' k' = has_buf d s3 b' k'"
        using tx_write [OF D3(1) b3 v na c3 D3(6)] unfolding W_def by metis
      obtain s6 where s6: "brelse bp s4 = Inr s6" "txn d s6 (insert ind L3) {}" "view d s6 = W(ind := v)" "high s6 = high s"
        using tx_release [OF s4(2), of bp ind] s4(3,4,5) b3 h3 by (metis Diff_cancel)
      have mu: "meta_used ?B W" using D3(4) high_fields [OF h3] by (simp add: W_def)
      have f6: "fs_ok d s6 (insert ind L3) {}"
        by (rule fs_ok_high [OF f s6(2,4)]) (use meta_used_data [OF D(2) mu db(1)] s6(3) in simp)
      have A6: "addrs_of s6 ip = ?A" using high_fields [OF s6(4)] by simp
      have sl6: "slot (view d s6) ?A i = (if i = NDIRECT + j then a else slot ?V ?A i)" if "i \<le> IND" for i
        using slot_set_indirect [OF D(2) ok fr nz j D(5) that] by (simp add: s6(3) v_def ind_def)
      have same: "view d s6 k = W k \<or> k = ?A ! NDIRECT \<and> k \<noteq> 0" for k using nz' by (simp add: s6(3) ind_def)
      have jI: "NDIRECT + j \<le> IND" and z6: "slot ?V ?A (NDIRECT + j) = 0" using j z sl by simp_all
      note add = add_slot [OF D(2) ok fr D(5) jI z6 file_okD(1) [OF ok] sl6 same]
      have st: "file_step d ip s L s6 (insert ind L3)"
        using f6 add s6(4) by (auto simp: file_step_def A6 L3_def)
      have "insert a (insert ind L3) \<union> bitmap_blks ?B \<union> ({?A ! NDIRECT} - {0}) = insert a (L \<union> {ind} \<union> bitmap_blks ?B)"
        using bm nz by (auto simp: L3_def ind_def)
      then have pot: "potential ?B ?A (insert a (insert ind L3)) \<le> potential ?B ?A L + 1"
        using cp nz by (simp add: potential_def card_insert_if)
      have "insert a (insert ind L3) = insert ind L3" by (auto simp: L3_def)
      then show ?thesis
        using pot a(1) z6 r(1) dat z s3(1) s4(1) s6(1) sl6 [OF jI] dat3 st it dev
        by (intro that [of a s6 "insert ind L3"]) (simp_all add: A6 v_def)
    qed
  qed
qed

lemma file_step_inode:
  assumes "file_step d ip s L s' L'"
  shows "i_dev (itable s' ip) = i_dev (itable s ip)" and "i_inum (itable s' ip) = i_inum (itable s ip)"
    and "i_size (itable s' ip) = i_size (itable s ip)" and "i_type (itable s' ip) = i_type (itable s ip)"
    and "i_nlink (itable s' ip) = i_nlink (itable s ip)" and "i_ref (itable s' ip) = i_ref (itable s ip)"
    and "i_lock (itable s' ip) = i_lock (itable s ip)" and "i_valid (itable s' ip) = i_valid (itable s ip)"
    and "j \<noteq> ip \<Longrightarrow> itable s' j = itable s j"
proof -
  have e: "itable s' ip = (itable s ip)\<lparr>i_addrs := addrs_of s' ip\<rparr>"
    using fun_cong [OF file_step_fields(6) [OF assms], of ip] by simp
  define A where "A = addrs_of s' ip"
  show "i_dev (itable s' ip) = i_dev (itable s ip)" "i_inum (itable s' ip) = i_inum (itable s ip)"
    "i_size (itable s' ip) = i_size (itable s ip)" "i_type (itable s' ip) = i_type (itable s ip)"
    "i_nlink (itable s' ip) = i_nlink (itable s ip)" "i_ref (itable s' ip) = i_ref (itable s ip)"
    "i_lock (itable s' ip) = i_lock (itable s ip)" "i_valid (itable s' ip) = i_valid (itable s ip)"
    using e [folded A_def] by simp_all
  show "itable s' j = itable s j" if "j \<noteq> ip" using fun_cong [OF file_step_fields(6) [OF assms], of j] that by simp
qed

lemma bmap_indirect:
  assumes "unat bn = NDIRECT + j" and "j < NINDIRECT"
  shows "bmap ip bn s = rbind (bmap_slot ip NDIRECT s) (\<lambda>(ind, s1).
      if ind = 0 then Inr (0, s1)
      else rbind (bread (i_dev (itable s1 ip)) ind s1) (\<lambda>(bp, s2).
           rbind (let addr = get_field 4 (4 * j) (get_data bp s2)
                  in if addr = 0
                     then rbind (balloc (i_dev (itable s2 ip)) s2) (\<lambda>(new, s3).
                          if new = 0 then Inr (new, s3)
                          else rbind (log_write bp (set_data bp (put_field 4 (4 * j) new (get_data bp s3)) s3))
                                 (\<lambda>s4. Inr (new, s4)))
                     else Inr (addr, s2)) (\<lambda>(addr, s5). rbind (brelse bp s5) (\<lambda>s6. Inr (addr, s6)))))"
proof -
  have "\<not> unat bn < NDIRECT" and "unat bn - NDIRECT = j" using assms by simp_all
  then show ?thesis using assms(2) by (simp add: bmap_def)
qed

lemma bmap_spec:
  assumes f: "fs_ok d s L {}" and dev: "i_dev (itable s ip) = d" and ok: "file_ok (sb s) (view d s) (addrs_of s ip)"
    and bn: "unat bn < MAXFILE" and sp: "potential (sb s) (addrs_of s ip) L + 1 < NBUF"
  obtains a s' L' where "bmap ip bn s = Inr (a, s')" and "file_step d ip s L s' L'"
    and "slot (view d s') (addrs_of s' ip) (unat bn) = a"
    and "a \<noteq> 0 \<Longrightarrow> potential (sb s) (addrs_of s' ip) (insert a L') \<le> potential (sb s) (addrs_of s ip) L + 1"
    and "potential (sb s) (addrs_of s' ip) L' \<le> potential (sb s) (addrs_of s ip) L + 1"
    and "slot (view d s) (addrs_of s ip) (unat bn) \<noteq> 0 \<Longrightarrow> view d s' = view d s \<and> high s' = high s \<and> L' = L"
    and "a = 0 \<Longrightarrow> \<forall>c. unat c < unat (sb_size (sb s)) \<longrightarrow> in_use (sb s) (view d s') c"
proof (cases "unat bn < NDIRECT")
  case True
  then have si: "slot_index (unat bn) = unat bn" and le: "unat bn \<le> NDIRECT" by (simp_all add: slot_index_def)
  show ?thesis
  proof (rule bmap_slot_spec [OF f dev ok le sp], unfold si)
    fix a s' L'
    assume r: "bmap_slot ip (unat bn) s = Inr (a, s')" "file_step d ip s L s' L'" "slot (view d s') (addrs_of s' ip) (unat bn) = a"
      "a \<noteq> 0 \<Longrightarrow> unat bn \<noteq> NDIRECT \<Longrightarrow> potential (sb s) (addrs_of s' ip) (insert a L') \<le> potential (sb s) (addrs_of s ip) L + 1"
      "potential (sb s) (addrs_of s' ip) L' \<le> potential (sb s) (addrs_of s ip) L + (if unat bn = NDIRECT then 0 else 1)"
      "slot (view d s) (addrs_of s ip) (unat bn) \<noteq> 0 \<Longrightarrow> s' = s \<and> L' = L"
      "a = 0 \<Longrightarrow> \<forall>c. unat c < unat (sb_size (sb s)) \<longrightarrow> in_use (sb s) (view d s) c"
    show ?thesis
    proof (rule that [OF _ r(2,3)])
      show "bmap ip bn s = Inr (a, s')" using r(1) True by (simp add: bmap_def)
      show "\<forall>c. unat c < unat (sb_size (sb s)) \<longrightarrow> in_use (sb s) (view d s') c" if "a = 0"
        using r(2) r(7) [OF that] by (simp add: file_step_def extends_def)
    qed (use r(4-6) True in simp_all)
  qed
next
  case False
  then obtain j where j: "unat bn = NDIRECT + j" "j < NINDIRECT"
    using bn le_Suc_ex [of NDIRECT "unat bn"] by (auto simp: not_less)
  note unf = bmap_indirect [OF j, of ip s]
  show ?thesis
  proof (rule bmap_slot_spec [OF f dev ok order_refl sp])
  fix ind s1 L1
  assume r': "bmap_slot ip NDIRECT s = Inr (ind, s1)" "file_step d ip s L s1 L1"
    "slot (view d s1) (addrs_of s1 ip) (slot_index NDIRECT) = ind"
    "potential (sb s) (addrs_of s1 ip) L1 \<le> potential (sb s) (addrs_of s ip) L + (if NDIRECT = NDIRECT then 0 else 1)"
    "slot (view d s) (addrs_of s ip) (slot_index NDIRECT) \<noteq> 0 \<Longrightarrow> s1 = s \<and> L1 = L"
    "ind = 0 \<Longrightarrow> \<forall>c. unat c < unat (sb_size (sb s)) \<longrightarrow> in_use (sb s) (view d s) c"
  have pot: "potential (sb s) (addrs_of s1 ip) L1 \<le> potential (sb s) (addrs_of s ip) L" using r'(4) by simp
  note r = r'(1-3) pot r'(5,6)
  note F = file_step_fields [OF r(2)]
  have A1: "addrs_of s1 ip ! NDIRECT = ind" using r(3) by (simp add: slot_index_def)
  have E: "extends (sb s) (view d s) (addrs_of s ip) (view d s1) (addrs_of s1 ip)" using r(2) by (simp add: file_step_def)
  have sl0: "slot (view d s1) (addrs_of s1 ip) (unat bn) = slot (view d s) (addrs_of s ip) (unat bn)"
    if "slot (view d s) (addrs_of s ip) (unat bn) \<noteq> 0" using E that bn by (simp add: extends_def)
  show ?thesis
  proof (cases "ind = 0")
    case True
    have "slot (view d s1) (addrs_of s1 ip) (unat bn) = 0" using A1 True j by (simp add: slot_def)
    moreover have "bmap ip bn s = Inr (0, s1)" unfolding unf using r(1) True by simp
    moreover have "\<forall>c. unat c < unat (sb_size (sb s)) \<longrightarrow> in_use (sb s) (view d s1) c"
      using r(6) [OF True] E by (simp add: extends_def)
    ultimately show ?thesis using that [of 0 s1 L1] r(2,4) sl0 by auto
  next
    case nz: False
    have f1: "fs_ok d s1 L1 {}" and ok1: "file_ok (sb s1) (view d s1) (addrs_of s1 ip)"
      using r(2) F(1) by (simp_all add: file_step_def)
    have dev1: "i_dev (itable s1 ip) = d" using dev file_step_inode(1) [OF r(2)] by simp
    have sp1: "potential (sb s1) (addrs_of s1 ip) L1 + 1 < NBUF" using r(4) sp F(1) by simp
    have nz1: "addrs_of s1 ip ! NDIRECT \<noteq> 0" using A1 nz by simp
    show ?thesis
    proof (rule bmap_entry_spec [OF f1 dev1 ok1 nz1 j(2) sp1], unfold A1 F(1))
      fix a s' L'
      assume q: "rbind (bread d ind s1) (\<lambda>(bp, s2).
           rbind (let addr = get_field 4 (4 * j) (get_data bp s2)
                  in if addr = 0
                     then rbind (balloc (i_dev (itable s2 ip)) s2) (\<lambda>(new, s3).
                          if new = 0 then Inr (new, s3)
                          else rbind (log_write bp (set_data bp (put_field 4 (4 * j) new (get_data bp s3)) s3))
                                 (\<lambda>s4. Inr (new, s4)))
                     else Inr (addr, s2)) (\<lambda>(addr, s5). rbind (brelse bp s5) (\<lambda>s6. Inr (addr, s6)))) = Inr (a, s')"
        "file_step d ip s1 L1 s' L'" "slot (view d s') (addrs_of s' ip) (NDIRECT + j) = a"
        "a \<noteq> 0 \<Longrightarrow> potential (sb s) (addrs_of s' ip) (insert a L') \<le> potential (sb s) (addrs_of s1 ip) L1 + 1"
        "potential (sb s) (addrs_of s' ip) L' \<le> potential (sb s) (addrs_of s1 ip) L1 + 1"
        "slot (view d s1) (addrs_of s1 ip) (NDIRECT + j) \<noteq> 0 \<Longrightarrow> view d s' = view d s1 \<and> high s' = high s1 \<and> L' = L1"
        "a = 0 \<Longrightarrow> \<forall>c. unat c < unat (sb_size (sb s)) \<longrightarrow> in_use (sb s) (view d s1) c"
      have st: "file_step d ip s L s' L'" by (rule file_step_trans [OF r(2) q(2)])
      have "bmap ip bn s = Inr (a, s')" unfolding unf using r(1) nz q(1) dev1 by simp
      moreover have "view d s' = view d s \<and> high s' = high s \<and> L' = L" if h: "slot (view d s) (addrs_of s ip) (unat bn) \<noteq> 0"
      proof -
        have "addrs_of s ip ! NDIRECT \<noteq> 0" using h j by (auto simp: slot_def split: if_splits)
        then have "s1 = s \<and> L1 = L" using r(5) by (simp add: slot_index_def)
        then show ?thesis using q(6) sl0 [OF h] h j(1) by simp
      qed
      moreover have "\<forall>c. unat c < unat (sb_size (sb s)) \<longrightarrow> in_use (sb s) (view d s') c" if "a = 0"
        using q(2) q(7) [OF that] F(1) by (simp add: file_step_def extends_def)
      moreover have "potential (sb s) (addrs_of s' ip) L' \<le> potential (sb s) (addrs_of s ip) L + 1" using q(5) r(4) by simp
      moreover have "a \<noteq> 0 \<Longrightarrow> potential (sb s) (addrs_of s' ip) (insert a L') \<le> potential (sb s) (addrs_of s ip) L + 1"
        using q(4) r(4) by force
      ultimately show ?thesis using that [of a s' L'] st q(3) j(1) by simp
    qed
  qed
qed
qed

end
