(* ===== verification/FsData.thy ===== *)
theory FsData
  imports FsBmap
begin

text \<open>
  Reading and writing the contents of a file: \<^verbatim>\<open>writei\<close> changes exactly the bytes it is given, also when
  it stops at a full disk, and \<^verbatim>\<open>readi\<close> returns them; both touch no block of any other file.
\<close>

section \<open>Memory and cache are independent\<close>

lemma more_same:
  assumes "kmem.more s' = kmem.more s"
  shows "cache_of d s' = cache_of d s" and "binv d s' = binv d s" and "buf_at d s' = buf_at d s" and "upper s' = upper s"
    and "txn d s' L H = txn d s L H" and "has_buf d s' = has_buf d s" and "fs_ok d s' L H = fs_ok d s L H"
proof -
  have e: "bufs s' = bufs s" "disk s' = disk s" "dtrace s' = dtrace s" "cur_pid s' = cur_pid s" "log_start s' = log_start s"
    "outstanding s' = outstanding s" "committing s' = committing s" "log_dev s' = log_dev s" "lh_n s' = lh_n s" "lh_block s' = lh_block s"
    and u: "upper s' = upper s"
    using assms by (cases s rule: kernel.cases; cases s' rule: kernel.cases; simp add: upper_def tables_of_def)+
  show c: "cache_of d s' = cache_of d s" and b: "binv d s' = binv d s" and a: "buf_at d s' = buf_at d s" and "upper s' = upper s"
    using u by (simp_all add: cache_of_def binv_def buf_at_def fun_eq_iff e cong: option.case_cong if_cong)
  show t: "txn d s' L H = txn d s L H" by (simp add: txn_def tx_ok_def c b e)
  show "has_buf d s' = has_buf d s" by (simp add: has_buf_def fun_eq_iff a c)
  show "fs_ok d s' L H = fs_ok d s L H" using upper_fields [OF u] by (simp add: fs_ok_def t c e)
qed

lemma stats_same [simp]:
  "cache_of d (upd_stats f s) = cache_of d s" "high (upd_stats f s) = high s" "txn d (upd_stats f s) L H = txn d s L H"
  "has_buf d (upd_stats f s) = has_buf d s" "fs_ok d (upd_stats f s) L H = fs_ok d s L H"
proof -
  have m: "kmem.more (upd_stats f s) = kmem.more s" by simp
  show "cache_of d (upd_stats f s) = cache_of d s" "txn d (upd_stats f s) L H = txn d s L H"
    "has_buf d (upd_stats f s) = has_buf d s" "fs_ok d (upd_stats f s) L H = fs_ok d s L H"
    using more_same [OF m] by simp_all
  show "high (upd_stats f s) = high s" using more_same(4) [OF m] by (simp add: high_def)
qed

section \<open>Where the bytes come from\<close>

text \<open>A source of \<open>n\<close> bytes that the kernel can read, and the bytes.\<close>

fun src_ok :: "u64 \<Rightarrow> place \<Rightarrow> nat \<Rightarrow> kernel \<Rightarrow> bool" where
  "src_ok kend (Uva a) n s \<longleftrightarrow> (\<exists>i lim xs. me s = Some i
     \<and> user_inv kend lim (p_sz (procs s i)) s (p_pagetable (procs s i)) xs
     \<and> (\<forall>j < n. user_ok (mem s) (p_pagetable (procs s i)) (PGROUNDDOWN (a + of_nat j))))"
| "src_ok kend (Kva a) n s \<longleftrightarrow> True"
| "src_ok kend (Var bs) n s \<longleftrightarrow> n \<le> length bs"

fun src_byte :: "place \<Rightarrow> kernel \<Rightarrow> nat \<Rightarrow> u8" where
  "src_byte (Uva a) s j = ubyte (mem s) (p_pagetable (procs s (the (me s)))) (a + of_nat j)"
| "src_byte (Kva a) s j = mem s (a + of_nat j)"
| "src_byte (Var bs) s j = bs ! j"

lemma user_inv_cong:
  assumes "high s' = high s"
  shows "user_inv kend lim psz s' root xs = user_inv kend lim psz s root xs"
proof -
  have e: "mem s' = mem s" "freelist s' = freelist s" "free_pages s' = free_pages s" "total_allocated s' = total_allocated s"
    "total_freed s' = total_freed s" "current_allocated s' = current_allocated s"
    using assms by (simp_all add: high_def)
  show ?thesis by (simp only: user_inv_def as_inv_def pt_inv_def free_list_def e)
qed

lemma src_cong:
  assumes "high s' = high s"
  shows "src_ok kend src n s' = src_ok kend src n s" and "src_byte src s' = src_byte src s"
proof -
  have e: "mem s' = mem s" "procs s' = procs s" "me s' = me s" using high_fields [OF assms] by simp_all
  show "src_ok kend src n s' = src_ok kend src n s" by (cases src) (simp_all only: src_ok.simps e user_inv_cong [OF assms])
  show "src_byte src s' = src_byte src s" by (rule ext, cases src) (simp_all add: e)
qed

lemma either_copyin_spec:
  assumes "src_ok kend src n s" and "m \<le> n" and "n < 2 ^ 32"
  obtains f where "either_copyin kend src m s = Inr (0, map (src_byte src s) [0..<m], upd_stats f s)"
proof (cases src)
  case (Uva a)
  obtain i lim xs where i: "me s = Some i" "user_inv kend lim (p_sz (procs s i)) s (p_pagetable (procs s i)) xs"
    "\<forall>j < n. user_ok (mem s) (p_pagetable (procs s i)) (PGROUNDDOWN (a + of_nat j))"
    using assms(1) by (auto simp: Uva)
  have m: "m < 2 ^ 64" using assms(2,3) by simp
  have "\<forall>j < m. user_ok (mem s) (p_pagetable (procs s i)) (PGROUNDDOWN (a + of_nat j))" using i(3) assms(2) by simp
  then obtain bs f where "copyin kend (p_sz (procs s i)) (p_pagetable (procs s i)) (p_pagetable (procs s i)) a m s = Inr (0, bs, upd_stats f s)"
    "length bs = m" "bs = map (\<lambda>j. ubyte (mem s) (p_pagetable (procs s i)) (a + of_nat j)) [0..<length bs]"
    using copyin_spec [OF i(2) m, of a] by auto
  then show ?thesis using that [of f] i(1) by (simp add: Uva myproc_def)
next
  case (Kva a)
  then show ?thesis
    using that [of "\<lambda>t. t\<lparr>memmove_calls := memmove_calls t + 1\<rparr>"] by (simp add: memmove_to_buf_def load_bytes_def)
next
  case (Var bs)
  then have "take m bs = map ((!) bs) [0..<m]" using assms by (intro nth_equalityI) simp_all
  then show ?thesis using that [of id] Var by (simp add: upd_stats_def)
qed

lemma src_advance:
  assumes "src_ok kend src n s" and "unat m \<le> n"
  shows "src_ok kend (advance m src) (n - unat m) s" and "src_byte (advance m src) s j = src_byte src s (unat m + j)"
proof -
  have u: "(ucast m :: u64) = of_nat (unat m)" by simp
  show "src_ok kend (advance m src) (n - unat m) s"
  proof (cases src)
    case (Uva a)
    have "user_ok (mem s) r (PGROUNDDOWN (a + ucast m + of_nat j))"
      if "\<forall>j < n. user_ok (mem s) r (PGROUNDDOWN (a + of_nat j))" "j < n - unat m" for r j
      using that(1) [rule_format, of "unat m + j"] that(2) assms(2) by (simp add: ac_simps)
    then show ?thesis using assms(1) by (auto simp: Uva)
  qed (use assms in simp_all)
  show "src_byte (advance m src) s j = src_byte src s (unat m + j)"
  proof (cases src)
    case (Var bs)
    then show ?thesis using assms by simp
  qed (simp_all add: ac_simps)
qed

section \<open>Writing one block of a file\<close>

text \<open>As \<open>extends\<close>, but the contents of the blocks of the file may change.\<close>

definition grows :: "superblock \<Rightarrow> (u32 \<Rightarrow> u8 list) \<Rightarrow> u32 list \<Rightarrow> (u32 \<Rightarrow> u8 list) \<Rightarrow> u32 list \<Rightarrow> bool" where
  "grows B V A V' A' \<longleftrightarrow> (\<forall>j \<le> IND. slot V A j \<noteq> 0 \<longrightarrow> slot V' A' j = slot V A j)
     \<and> (\<forall>k. unat k < unat (sb_size B) \<longrightarrow> in_use B V' k = (in_use B V k \<or> k \<in> blocks V' A'))
     \<and> (\<forall>k. k \<notin> bitmap_blks B \<longrightarrow> k \<notin> blocks V A \<longrightarrow> \<not> (data_blk B k \<and> \<not> in_use B V k) \<longrightarrow> V' k = V k)
     \<and> (\<forall>k \<in> blocks V' A' - blocks V A. data_blk B k \<and> \<not> in_use B V k)"

lemma extends_grows: "extends B V A V' A' \<Longrightarrow> grows B V A V' A'"
  using slot_blocks [of IND V A] by (auto simp: extends_def grows_def)

lemma grows_refl: "file_ok B V A \<Longrightarrow> grows B V A V A"
  by (rule extends_grows [OF extends_refl])

lemma grows_blocks:
  assumes "grows B V A V' A'"
  shows "blocks V A \<subseteq> blocks V' A'"
proof
  fix k assume "k \<in> blocks V A"
  then obtain j where j: "j \<le> IND" "k = slot V A j" "k \<noteq> 0" by (rule blocksE)
  then have "slot V' A' j = k" using assms by (simp add: grows_def)
  then show "k \<in> blocks V' A'" using slot_blocks [OF j(1), of V' A'] j(3) by simp
qed

lemma grows_trans:
  assumes g1: "grows B V A V1 A1" and g2: "grows B V1 A1 V2 A2"
  shows "grows B V A V2 A2"
  unfolding grows_def
proof (intro conjI)
  show "\<forall>j \<le> IND. slot V A j \<noteq> 0 \<longrightarrow> slot V2 A2 j = slot V A j" using g1 g2 unfolding grows_def by metis
  show "\<forall>k. unat k < unat (sb_size B) \<longrightarrow> in_use B V2 k = (in_use B V k \<or> k \<in> blocks V2 A2)"
    using g1 g2 grows_blocks [OF g2] unfolding grows_def by blast
  show "\<forall>k \<in> blocks V2 A2 - blocks V A. data_blk B k \<and> \<not> in_use B V k"
  proof
    fix k assume k: "k \<in> blocks V2 A2 - blocks V A"
    show "data_blk B k \<and> \<not> in_use B V k"
    proof (cases "k \<in> blocks V1 A1")
      case True
      then show ?thesis using k g1 by (auto simp: grows_def)
    next
      case False
      then have "data_blk B k" "\<not> in_use B V1 k" using k g2 by (auto simp: grows_def)
      then show ?thesis using g1 by (auto simp: grows_def data_blk_def)
    qed
  qed
  show "\<forall>k. k \<notin> bitmap_blks B \<longrightarrow> k \<notin> blocks V A \<longrightarrow> \<not> (data_blk B k \<and> \<not> in_use B V k) \<longrightarrow> V2 k = V k"
  proof (intro allI impI)
    fix k assume k: "k \<notin> bitmap_blks B" "k \<notin> blocks V A" "\<not> (data_blk B k \<and> \<not> in_use B V k)"
    have "k \<notin> blocks V1 A1" using k(2,3) g1 by (auto simp: grows_def)
    moreover have "\<not> (data_blk B k \<and> \<not> in_use B V1 k)" using k(3) g1 by (auto simp: grows_def data_blk_def)
    ultimately show "V2 k = V k" using k g1 g2 by (simp add: grows_def)
  qed
qed

lemma write_blk:
  fixes v :: "u8 list"
  assumes l: "layout_ok B" and ok: "file_ok B V A" and j: "j < IND" and a: "slot V A j = a" "a \<noteq> 0"
  defines "V' \<equiv> V(a := v)"
  shows "file_ok B V' A" and "grows B V A V' A" and "slot V' A i = slot V A i"
    and "i < MAXFILE * BSIZE \<Longrightarrow> fbyte V' A i = (if i div BSIZE = j then v ! (i mod BSIZE) else fbyte V A i)"
proof -
  have ab: "a \<in> blocks V A" using slot_blocks [of j V A] j a by simp
  note db = file_okD(2) [OF ok ab]
  have ai: "a \<noteq> A ! NDIRECT" using file_okD(4) [OF ok, of j IND] j a by auto
  show sl: "slot V' A i = slot V A i" for i using ai by (simp add: slot_def V'_def)
  have bl: "blocks V' A = blocks V A" using sl by (simp add: blocks_def)
  have iu: "in_use B V' k = in_use B V k" if "unat k < unat (sb_size B)" for k
    unfolding V'_def by (rule in_use_data [OF l db that])
  show "file_ok B V' A"
    using ok iu by (auto simp: file_ok_def sl bl data_blk_def)
  show "grows B V A V' A"
    unfolding grows_def using sl bl iu file_okD(3) [OF ok] ab by (auto simp: V'_def)
  show "fbyte V' A i = (if i div BSIZE = j then v ! (i mod BSIZE) else fbyte V A i)" if i: "i < MAXFILE * BSIZE"
  proof (cases "i div BSIZE = j")
    case False
    have "i div BSIZE \<le> IND" using i by (simp add: less_mult_imp_div_less order_less_imp_le)
    then have "slot V A (i div BSIZE) \<noteq> a" using file_okD(4) [OF ok, of j "i div BSIZE"] a False j by auto
    then show ?thesis using False by (simp add: fbyte_def sl Let_def) (simp add: V'_def)
  qed (use a in \<open>simp add: fbyte_def sl Let_def, simp add: V'_def\<close>)
qed

text \<open>The bytes \<open>f 0, \<dots>, f (n - 1)\<close> written at \<open>off\<close>.\<close>

definition wbytes :: "nat \<Rightarrow> nat \<Rightarrow> (nat \<Rightarrow> u8) \<Rightarrow> (nat \<Rightarrow> u8) \<Rightarrow> nat \<Rightarrow> u8" where
  "wbytes off n f F i = (if off \<le> i \<and> i < off + n then f (i - off) else F i)"

lemma wbytes_0 [simp]: "wbytes off 0 f F = F"
  by (auto simp: wbytes_def fun_eq_iff)

lemma wbytes_append: "wbytes (off + m) n (\<lambda>j. f (m + j)) (wbytes off m f F) = wbytes off (m + n) f F"
  by (auto simp: wbytes_def fun_eq_iff)

lemma put_bytes_block:
  assumes "length b = BSIZE" and "off mod BSIZE + m \<le> BSIZE" and "i div BSIZE = off div BSIZE"
  shows "put_bytes (off mod BSIZE) (map f [0..<m]) b ! (i mod BSIZE) = wbytes off m f (\<lambda>i. b ! (i mod BSIZE)) i"
proof -
  have i: "i mod BSIZE < BSIZE" by simp
  have eq: "off mod BSIZE \<le> i mod BSIZE \<longleftrightarrow> off \<le> i" "i mod BSIZE < off mod BSIZE + m \<longleftrightarrow> i < off + m"
    "off \<le> i \<Longrightarrow> i mod BSIZE - off mod BSIZE = i - off"
    using assms(3) div_mult_mod_eq [of i BSIZE] div_mult_mod_eq [of off BSIZE] by linarith+
  have mp: "map f [0..<m] ! (i mod BSIZE - off mod BSIZE) = f (i mod BSIZE - off mod BSIZE)"
    if "off mod BSIZE \<le> i mod BSIZE" "i mod BSIZE < off mod BSIZE + m" using that by (simp add: less_diff_conv2)
  have "put_bytes (off mod BSIZE) (map f [0..<m]) b ! (i mod BSIZE) =
      (if off mod BSIZE \<le> i mod BSIZE \<and> i mod BSIZE < off mod BSIZE + m then f (i mod BSIZE - off mod BSIZE) else b ! (i mod BSIZE))"
    using nth_put_bytes [of "off mod BSIZE" "map f [0..<m]" b "i mod BSIZE"] assms i mp by auto
  then show ?thesis using eq by (simp add: wbytes_def)
qed

section \<open>The write loop\<close>

text \<open>A step that writes the bytes \<open>f\<close> of length \<open>n\<close> at \<open>off\<close> of the file \<open>ip\<close>.\<close>

definition write_step :: "u32 \<Rightarrow> nat \<Rightarrow> kernel \<Rightarrow> u32 set \<Rightarrow> nat \<Rightarrow> nat \<Rightarrow> (nat \<Rightarrow> u8) \<Rightarrow> kernel \<Rightarrow> u32 set \<Rightarrow> bool" where
  "write_step d ip s L off n f s' L' \<longleftrightarrow> fs_ok d s' L' {} \<and> L \<subseteq> L' \<and> high s' = high (set_addrs ip (addrs_of s' ip) s)
     \<and> file_ok (sb s) (view d s') (addrs_of s' ip) \<and> grows (sb s) (view d s) (addrs_of s ip) (view d s') (addrs_of s' ip)
     \<and> (\<forall>i < MAXFILE * BSIZE. fbyte (view d s') (addrs_of s' ip) i = wbytes off n f (fbyte (view d s) (addrs_of s ip)) i)
     \<and> (\<forall>i. off \<le> i \<and> i < off + n \<and> i < MAXFILE * BSIZE \<longrightarrow> slot (view d s') (addrs_of s' ip) (i div BSIZE) \<noteq> 0)"

lemma file_step_write: "file_step d ip s L s' L' \<Longrightarrow> write_step d ip s L off 0 f s' L'"
  by (auto simp: file_step_def write_step_def extends_def intro: extends_grows)

lemma write_step_sb: "write_step d ip s L off n f s' L' \<Longrightarrow> sb s' = sb s"
  using high_fields [of s' "set_addrs ip (addrs_of s' ip) s"] by (simp add: write_step_def set_addrs_def)

lemma write_step_trans:
  assumes 1: "write_step d ip s L off m f s1 L1" and 2: "write_step d ip s1 L1 (off + m) n (\<lambda>j. f (m + j)) s2 L2"
  shows "write_step d ip s L off (m + n) f s2 L2"
proof -
  have "high (set_addrs ip (addrs_of s2 ip) s1) = high (set_addrs ip (addrs_of s2 ip) (set_addrs ip (addrs_of s1 ip) s))"
    by (rule high_set_addrs) (use 1 in \<open>simp add: write_step_def\<close>)
  moreover have "grows (sb s) (view d s) (addrs_of s ip) (view d s2) (addrs_of s2 ip)"
    using 1 2 write_step_sb [OF 1] by (auto simp: write_step_def intro: grows_trans)
  moreover have "fbyte (view d s2) (addrs_of s2 ip) i = wbytes off (m + n) f (fbyte (view d s) (addrs_of s ip)) i"
    if i: "i < MAXFILE * BSIZE" for i
  proof -
    have "wbytes (off + m) n g F i = wbytes (off + m) n g G i" if "F i = G i" for g F G using that by (simp add: wbytes_def)
    then show ?thesis
      using 1 2 i wbytes_append [of off m n f "fbyte (view d s) (addrs_of s ip)"] by (simp add: write_step_def fun_eq_iff)
  qed
  moreover have "slot (view d s2) (addrs_of s2 ip) (i div BSIZE) \<noteq> 0" if i: "off \<le> i" "i < off + (m + n)" "i < MAXFILE * BSIZE" for i
  proof (cases "i < off + m")
    case True
    have "i div BSIZE \<le> IND" using i(3) by (simp add: less_mult_imp_div_less order_less_imp_le)
    moreover have "slot (view d s1) (addrs_of s1 ip) (i div BSIZE) \<noteq> 0" using 1 i True by (simp add: write_step_def)
    ultimately show ?thesis using 2 by (simp add: write_step_def grows_def)
  qed (use 2 i in \<open>simp add: write_step_def\<close>)
  ultimately show ?thesis using 1 2 write_step_sb [OF 1] by (auto simp: write_step_def)
qed

text \<open>How many blocks a write of \<open>len\<close> bytes at \<open>off\<close> touches.\<close>

definition nblk :: "nat \<Rightarrow> nat \<Rightarrow> nat" where
  "nblk off len = (if len = 0 then 0 else (off mod BSIZE + len + 1023) div BSIZE)"

lemma nblk_step:
  fixes off :: nat
  assumes "0 < len"
  defines "m \<equiv> min len (BSIZE - off mod BSIZE)"
  shows "nblk off len = nblk (off + m) (len - m) + 1"
proof (cases "len \<le> BSIZE - off mod BSIZE")
  case True
  define o' where "o' = off mod BSIZE"
  have "o' < BSIZE" by (simp add: o'_def)
  then have "(o' + len + 1023) div BSIZE = 1" using True assms(1) unfolding o'_def [symmetric] by (simp add: div_nat_eqI)
  then show ?thesis using True assms(1) by (simp add: m_def nblk_def o'_def)
next
  case False
  define o' where "o' = off mod BSIZE"
  define r where "r = len - (BSIZE - o')"
  have o': "o' < BSIZE" by (simp add: o'_def)
  have r: "len = BSIZE - o' + r" "0 < r" using False by (auto simp: r_def o'_def)
  have m: "m = BSIZE - o'" using False by (simp add: m_def o'_def)
  have "off = BSIZE * (off div BSIZE) + o'" by (simp add: o'_def)
  then have "off + m = BSIZE * (off div BSIZE + 1)" using m o' by simp
  then have z: "(off + m) mod BSIZE = 0" by simp
  have "o' + len + 1023 = BSIZE + (r + 1023)" using r(1) o' by simp
  then have "(o' + len + 1023) div BSIZE = 1 + (r + 1023) div BSIZE" by simp
  moreover have "len - m = r" using m r by simp
  ultimately show ?thesis using r assms(1) z by (simp add: nblk_def o'_def)
qed

lemma in_block:
  fixes off :: nat
  assumes "off mod BSIZE + m \<le> BSIZE" and "off \<le> i" and "i < off + m"
  shows "i div BSIZE = off div BSIZE"
proof -
  have "BSIZE * (off div BSIZE) + off mod BSIZE = off" using mult_div_mod_eq by blast
  then have "BSIZE * (off div BSIZE) \<le> i" "i < BSIZE * (off div BSIZE) + BSIZE" using assms by linarith+
  then show ?thesis by (intro div_nat_eqI) (simp_all add: mult.commute)
qed

lemma write_one:
  assumes f: "fs_ok d s L {}" and ok: "file_ok (sb s) (view d s) (addrs_of s ip)" and a: "slot (view d s) (addrs_of s ip) j = a" "a \<noteq> 0"
    and j: "j < IND" "off div BSIZE = j" and m: "off mod BSIZE + m \<le> BSIZE" and c: "card L < NBUF"
    and s2: "bread d a s = Inr (bp, s2)" "txn d s2 L {a}" "view d s2 = view d s" "high s2 = high s" "has_buf d s2 bp a"
    and s3: "s3 = upd_stats g s2"
  obtains s5 s6 where "log_write bp (set_data bp (put_bytes (off mod BSIZE) (map fb [0..<m]) (get_data bp s3)) s3) = Inr s5"
    and "brelse bp s5 = Inr s6" and "write_step d ip s L off m fb s6 (insert a L)" and "high s6 = high s"
proof -
  note D = fs_okD [OF f]
  let ?B = "sb s" let ?V = "view d s" let ?A = "addrs_of s ip"
  define v where "v = put_bytes (off mod BSIZE) (map fb [0..<m]) (?V a)"
  have ab: "a \<in> blocks ?V ?A" using slot_blocks [of j ?V ?A] a j by simp
  note db = file_okD(2) [OF ok ab]
  have t3: "txn d s3 L {a}" "has_buf d s3 bp a" using s2(2,5) by (simp_all add: s3)
  have dat: "get_data bp s3 = ?V a" using tx_data [OF t3] s2(3) by (simp add: s3)
  have ln: "length v = BSIZE" using D(5) [of a] m by (simp add: v_def)
  have na: "\<not> log_area (log_start s3) a"
    using data_not_log [OF D(2) db] D(3) high_fields [OF s2(4)] by (simp add: s3 upd_stats_def)
  have op: "1 \<le> outstanding s3" using D(6) upper_fields [OF high_upper [OF s2(4)]] by (simp add: s3 upd_stats_def)
  obtain s5 where s5: "log_write bp (set_data bp v s3) = Inr s5" "txn d s5 (insert a L) {a}" "view d s5 = (view d s3)(a := v)"
    "high s5 = high s3" "\<And>b' k'. has_buf d s5 b' k' = has_buf d s3 b' k'"
    using tx_write [OF t3 ln na c op] by metis
  obtain s6 where s6: "brelse bp s5 = Inr s6" "txn d s6 (insert a L) {}" "view d s6 = view d s5" "high s6 = high s5"
    using tx_release [OF s5(2), of bp a] s5(5) t3(2) by (metis Diff_cancel)
  have v6: "view d s6 = ?V(a := v)" using s6(3) s5(3) s2(3) by (simp add: s3)
  have h6: "high s6 = high s" using s6(4) s5(4) s2(4) by (simp add: s3)
  have f6: "fs_ok d s6 (insert a L) {}"
    by (rule fs_ok_high [OF f s6(2) h6]) (simp add: v6 meta_used_data [OF D(2,4) db])
  note wb = write_blk [where v = v, OF D(2) ok j(1) a]
  have A6: "addrs_of s6 ip = ?A" using high_fields [OF h6] by simp
  have "fbyte (?V(a := v)) ?A i = wbytes off m fb (fbyte ?V ?A) i" if i: "i < MAXFILE * BSIZE" for i
  proof (cases "i div BSIZE = j")
    case True
    have "v ! (i mod BSIZE) = wbytes off m fb (\<lambda>i. ?V a ! (i mod BSIZE)) i"
      unfolding v_def by (rule put_bytes_block [OF D(5) m]) (use True j(2) in simp)
    moreover have "fbyte ?V ?A i = ?V a ! (i mod BSIZE)" using True a by (simp add: fbyte_def)
    ultimately show ?thesis using wb(4) [OF i] True by (simp add: wbytes_def)
  next
    case False
    have "\<not> (off \<le> i \<and> i < off + m)" using in_block [OF m] False j(2) by auto
    then show ?thesis using wb(4) [OF i] False by (auto simp: wbytes_def)
  qed
  moreover have "slot (?V(a := v)) ?A (i div BSIZE) \<noteq> 0" if "off \<le> i" "i < off + m" for i
    using wb(2) in_block [OF m that] j a by (simp add: grows_def)
  ultimately have "write_step d ip s L off m fb s6 (insert a L)"
    using f6 h6 wb(1,2) by (auto simp: write_step_def A6 v6)
  then show ?thesis using that [of s5 s6] s5(1) s6(1) h6 by (simp add: dat v_def)
qed

lemma write_step_inode:
  assumes "write_step d ip s L off n f s' L'"
  shows "itable s' = (itable s)(ip := (itable s ip)\<lparr>i_addrs := addrs_of s' ip\<rparr>)"
  using high_fields [of s' "set_addrs ip (addrs_of s' ip) s"] assms by (simp add: write_step_def set_addrs_def)

lemma user_inv_upd_inode [simp]:
  "user_inv kend lim psz (upd_inode i f s) root xs = user_inv kend lim psz s root xs"
proof -
  have e: "freelist (upd_inode i f s) = freelist s" "free_pages (upd_inode i f s) = free_pages s"
    "total_allocated (upd_inode i f s) = total_allocated s" "total_freed (upd_inode i f s) = total_freed s"
    "current_allocated (upd_inode i f s) = current_allocated s" "mem (upd_inode i f s) = mem s"
    by (simp_all add: upd_inode_def)
  show ?thesis by (simp only: user_inv_def as_inv_def pt_inv_def free_list_def e)
qed

lemma src_upd_inode [simp]:
  "src_ok kend src n (upd_inode i f s) = src_ok kend src n s" "src_byte src (upd_inode i f s) = src_byte src s"
  by (cases src; simp add: fun_eq_iff)+

lemma high_set_addrs_src:
  assumes "high s' = high (set_addrs ip A s)"
  shows "src_ok kend src n s' = src_ok kend src n s" and "src_byte src s' = src_byte src s"
  using src_cong [OF assms] by (simp_all add: set_addrs_def)

lemma writei_loop_spec:
  assumes "fs_ok d s L {}" and "i_dev (itable s ip) = d" and "file_ok (sb s) (view d s) (addrs_of s ip)"
    and "src_ok kend src (unat n - unat tot) s" and "tot \<le> n"
    and "unat off + (unat n - unat tot) \<le> MAXFILE * BSIZE"
    and "potential (sb s) (addrs_of s ip) L + nblk (unat off) (unat n - unat tot) < NBUF"
  shows "\<exists>k s' L'. writei_loop kend ip src off n tot s = Inr (tot + of_nat k, off + of_nat k, s')
    \<and> k \<le> unat n - unat tot \<and> write_step d ip s L (unat off) k (src_byte src s) s' L'
    \<and> potential (sb s) (addrs_of s' ip) L' \<le> potential (sb s) (addrs_of s ip) L + nblk (unat off) (unat n - unat tot)
    \<and> (k < unat n - unat tot \<longrightarrow> (\<forall>c. unat c < unat (sb_size (sb s)) \<longrightarrow> in_use (sb s) (view d s') c))"
  using assms
proof (induction "unat n - unat tot" arbitrary: src off tot s L rule: less_induct)
  case less
  note f = less.prems(1) and dev = less.prems(2) and ok = less.prems(3) and src = less.prems(4) and tn = less.prems(5)
    and mx = less.prems(6) and sp = less.prems(7)
  show ?case
  proof (cases "tot < n")
    case False
    then have "tot = n" using tn by simp
    then show ?thesis using file_step_write [OF file_step_refl [OF f ok]]
      by (intro exI [of _ 0] exI [of _ s] exI [of _ L]) (simp add: writei_loop.simps [of kend ip src off n])
  next
    case lt: True
    define len where "len = unat n - unat tot"
    have len: "0 < len" "len < 2 ^ 32" using lt unat32_less [of n] by (simp_all add: len_def word_less_nat_alt)
    define m where "m = chunk off n tot"
    note ch = chunk_bounds [OF lt, of off, folded m_def]
    have um: "unat m = min len (BSIZE - unat off mod BSIZE)" using ch(1) by (simp add: len_def)
    have mx': "unat off + len \<le> MAXFILE * BSIZE" using mx by (simp add: len_def)
    have um': "0 < unat m" "unat m \<le> len" using ch(2) um by simp_all
    have uo: "unat (off + m) = unat off + unat m" using um'(2) mx' by (simp add: unat_word_ariths)
    have nb: "nblk (unat off) len = nblk (unat off + unat m) (len - unat m) + 1" unfolding um by (rule nblk_step [OF len(1)])
    have bn: "unat (off div 1024) = unat off div BSIZE" by (simp add: unat_div)
    have bnm: "unat (off div 1024) < MAXFILE" unfolding bn using mx' len(1) by (intro less_mult_imp_div_less) simp
    have sp1: "potential (sb s) (addrs_of s ip) L + 1 < NBUF" using sp nb by (simp add: len_def)
    show ?thesis
    proof (rule bmap_spec [OF f dev ok bnm sp1])
      fix a s1 L1
      assume b: "bmap ip (off div 1024) s = Inr (a, s1)" "file_step d ip s L s1 L1"
        "slot (view d s1) (addrs_of s1 ip) (unat (off div 1024)) = a"
        "a \<noteq> 0 \<Longrightarrow> potential (sb s) (addrs_of s1 ip) (insert a L1) \<le> potential (sb s) (addrs_of s ip) L + 1"
        "potential (sb s) (addrs_of s1 ip) L1 \<le> potential (sb s) (addrs_of s ip) L + 1"
        "a = 0 \<Longrightarrow> \<forall>c. unat c < unat (sb_size (sb s)) \<longrightarrow> in_use (sb s) (view d s1) c"
      note F = file_step_fields [OF b(2)]
      show ?thesis
      proof (cases "a = 0")
        case True
        then have "writei_loop kend ip src off n tot s = Inr (tot, off, s1)"
          using lt b(1) by (simp add: writei_loop.simps [of kend ip src off n])
        then show ?thesis using file_step_write [OF b(2)] b(5) b(6) [OF True] nb
          by (intro exI [of _ 0] exI [of _ s1] exI [of _ L1]) (simp add: len_def)
      next
        case nz: False
        have f1: "fs_ok d s1 L1 {}" and ok1: "file_ok (sb s1) (view d s1) (addrs_of s1 ip)"
          and h1: "high s1 = high (set_addrs ip (addrs_of s1 ip) s)"
          using b(2) F(1) by (simp_all add: file_step_def)
        have dev1: "i_dev (itable s1 ip) = d" using dev file_step_inode(1) [OF b(2)] by simp
        have c1: "card L1 < NBUF" using card_potential(1) [of L1 "sb s" "addrs_of s1 ip"] b(5) sp1 by simp
        have na: "a \<notin> {}" by simp
        have cc: "a \<in> L1 \<or> card (L1 \<union> {}) < NBUF" using c1 by simp
        obtain bp s2 where s2: "bread d a s1 = Inr (bp, s2)" "txn d s2 L1 {a}" "view d s2 = view d s1" "high s2 = high s1"
          "has_buf d s2 bp a" using tx_read [OF fs_okD(1) [OF f1] na cc] by metis
        have h2: "high s2 = high (set_addrs ip (addrs_of s1 ip) s)" using s2(4) h1 by simp
        note S2 = high_set_addrs_src [OF h2]
        have src2: "src_ok kend src len s2" using src S2(1) by (simp add: len_def)
        obtain g where cin: "either_copyin kend src (unat m) s2 = Inr (0, map (src_byte src s) [0..<unat m], upd_stats g s2)"
          using either_copyin_spec [OF src2 um'(2) len(2)] S2(2) by metis
        define s3 where "s3 = upd_stats g s2"
        have om: "unat off mod BSIZE + unat m \<le> BSIZE" using um by (simp add: min_def split: if_splits)
        obtain s5 s6 where w: "log_write bp (set_data bp (put_bytes (unat off mod BSIZE) (map (src_byte src s) [0..<unat m]) (get_data bp s3)) s3) = Inr s5"
          "brelse bp s5 = Inr s6" "write_step d ip s1 L1 (unat off) (unat m) (src_byte src s) s6 (insert a L1)" "high s6 = high s1"
          by (rule write_one [OF f1 ok1 b(3) nz bnm bn [symmetric] om c1 s2 s3_def])
        have uom: "unat (off mod 1024) = unat off mod BSIZE" by (simp add: unat_mod)
        have unf: "writei_loop kend ip src off n tot s = writei_loop kend ip (advance m src) (off + m) n (tot + m) s6"
          using lt b(1) nz dev1 s2(1) cin w(1,2)
          by (simp add: writei_loop.simps [of kend ip src off n] m_def [symmetric] uom s3_def)
        have ws: "write_step d ip s L (unat off) (unat m) (src_byte src s) s6 (insert a L1)"
          using write_step_trans [of d ip s L "unat off" 0 "src_byte src s" s1 L1 "unat m" s6 "insert a L1"]
            file_step_write [OF b(2)] w(3) by simp
        have ut: "unat (tot + m) = unat tot + unat m" "tot + m \<le> n" using ch(3,4) by (simp_all add: word_le_nat_alt)
        have len': "unat n - unat (tot + m) = len - unat m" by (simp add: ut(1) len_def)
        have f6: "fs_ok d s6 (insert a L1) {}" and ok6: "file_ok (sb s6) (view d s6) (addrs_of s6 ip)"
          and h6: "high s6 = high (set_addrs ip (addrs_of s6 ip) s)"
          using ws write_step_sb [OF ws] by (simp_all add: write_step_def)
        have A6: "addrs_of s6 ip = addrs_of s1 ip" using high_fields [OF w(4)] by simp
        have dev6: "i_dev (itable s6 ip) = d" using dev1 high_fields [OF w(4)] by simp
        note S6 = high_set_addrs_src [OF h6]
        have src6: "src_ok kend (advance m src) (len - unat m) s6" "src_byte (advance m src) s6 = (\<lambda>j. src_byte src s (unat m + j))"
          using src_advance [of kend src len s6 m] src S6 um'(2) by (auto simp: len_def)
        have p6: "potential (sb s6) (addrs_of s6 ip) (insert a L1) + nblk (unat (off + m)) (len - unat m) < NBUF"
          using b(4) [OF nz] sp nb unfolding uo write_step_sb [OF ws] A6 len_def [symmetric] by linarith
        have lt6: "len - unat m < unat n - unat tot" using um' by (simp add: len_def)
        have mx6: "unat (off + m) + (len - unat m) \<le> MAXFILE * BSIZE" using mx' um'(2) by (simp add: uo)
        from less.hyps [of "tot + m" s6 "insert a L1" "advance m src" "off + m", unfolded len', OF lt6 f6 dev6 ok6 src6(1) ut(2) mx6 p6]
        obtain k s' L' where r: "writei_loop kend ip (advance m src) (off + m) n (tot + m) s6 = Inr (tot + m + of_nat k, off + m + of_nat k, s')"
          "k \<le> len - unat m" "write_step d ip s6 (insert a L1) (unat (off + m)) k (src_byte (advance m src) s6) s' L'"
          "potential (sb s6) (addrs_of s' ip) L' \<le> potential (sb s6) (addrs_of s6 ip) (insert a L1) + nblk (unat (off + m)) (len - unat m)"
          "k < len - unat m \<longrightarrow> (\<forall>c. unat c < unat (sb_size (sb s6)) \<longrightarrow> in_use (sb s6) (view d s') c)"
          by blast
        have ws': "write_step d ip s L (unat off) (unat m + k) (src_byte src s) s' L'"
          by (rule write_step_trans [OF ws]) (use r(3) in \<open>simp add: uo src6(2)\<close>)
        have "potential (sb s) (addrs_of s' ip) L' \<le> potential (sb s) (addrs_of s ip) L + nblk (unat off) len"
          using r(4) b(4) [OF nz] nb unfolding uo write_step_sb [OF ws] A6 by linarith
        moreover have "tot + m + of_nat k = tot + of_nat (unat m + k)" "off + m + of_nat k = off + of_nat (unat m + k)" by simp_all
        ultimately show ?thesis using unf r(1,2,5) ws' um'(2) write_step_sb [OF ws]
          by (intro exI [of _ "unat m + k"] exI [of _ s'] exI [of _ L']) (auto simp: len_def)
      qed
    qed
  qed
qed

end
