(* ===== verification/FsInode.thy ===== *)
theory FsInode
  imports FsData
begin

text \<open>
  On-disk inodes: \<^verbatim>\<open>iupdate\<close> and \<^verbatim>\<open>ilock\<close> encode and decode \<^verbatim>\<open>struct dinode\<close>, and \<^verbatim>\<open>writei\<close> as a whole.
\<close>

section \<open>Encoding of an inode\<close>

lemma concat_le_bytes:
  "i < length xs \<Longrightarrow> take 4 (drop (4 * i) (concat (map (le_bytes 4) xs))) = le_bytes 4 (xs ! i)"
proof (induction xs arbitrary: i)
  case (Cons x xs)
  show ?case
  proof (cases i)
    case (Suc j)
    then have "drop (4 * i) (concat (map (le_bytes 4) (x # xs))) = drop (4 * j) (concat (map (le_bytes 4) xs))" by simp
    then show ?thesis using Cons Suc by simp
  qed simp
qed simp

lemma length_concat_le: "length (concat (map (le_bytes 4) xs)) = 4 * length xs"
  by (induction xs) simp_all

lemma get_field_words:
  fixes xs :: "u32 list"
  assumes "i < length xs" and "off + 4 * length xs \<le> length bs"
  shows "get_field 4 (off + 4 * i) (put_bytes off (concat (map (le_bytes 4) xs)) bs) = xs ! i"
proof -
  have "drop (off + 4 * i) (put_bytes off (concat (map (le_bytes 4) xs)) bs)
      = drop (4 * i) (concat (map (le_bytes 4) xs) @ drop (off + 4 * length xs) bs)"
    using assms by (simp add: put_bytes_def length_concat_le)
  moreover have "take 4 (drop (4 * i) (concat (map (le_bytes 4) xs) @ r)) = le_bytes 4 (xs ! i)" for r
    using concat_le_bytes [OF assms(1)] assms(1) by (simp add: length_concat_le)
  ultimately have "take 4 (drop (off + 4 * i) (put_bytes off (concat (map (le_bytes 4) xs)) bs)) = le_bytes 4 (xs ! i)"
    by (simp only:)
  then show ?thesis by (simp add: get_field_def le_word_le_bytes)
qed

definition dinode_fields :: "inode \<Rightarrow> u16 \<times> u16 \<times> u16 \<times> u16 \<times> u32 \<times> u32 list" where
  "dinode_fields I = (i_type I, i_major I, i_minor I, i_nlink I, i_size I, i_addrs I)"

lemma length_store_dinode:
  "off + 64 \<le> length bs \<Longrightarrow> length (i_addrs I) = 13 \<Longrightarrow> length (store_dinode off I bs) = length bs"
  by (simp add: store_dinode_def length_concat_le)

lemma load_store_dinode:
  assumes "off + 64 \<le> length bs" and "length (i_addrs I) = 13"
  shows "dinode_fields (load_dinode off (store_dinode off I bs) J) = dinode_fields I"
proof -
  let ?a = "concat (map (le_bytes 4) (i_addrs I))"
  define b1 where "b1 = put_field 2 off (i_type I) bs"
  define b2 where "b2 = put_field 2 (off + 2) (i_major I) b1"
  define b3 where "b3 = put_field 2 (off + 4) (i_minor I) b2"
  define b4 where "b4 = put_field 2 (off + 6) (i_nlink I) b3"
  define b5 where "b5 = put_field 4 (off + 8) (i_size I) b4"
  have len: "length b1 = length bs" "length b2 = length bs" "length b3 = length bs" "length b4 = length bs" "length b5 = length bs"
    using assms(1) by (simp_all add: b1_def b2_def b3_def b4_def b5_def)
  have st: "store_dinode off I bs = put_bytes (off + 12) ?a b5"
    by (simp add: store_dinode_def b1_def b2_def b3_def b4_def b5_def)
  have lo: "get_field k o' (put_bytes (off + 12) ?a b5) = get_field k o' b5" if "o' + k \<le> off + 12" for k o'
    using that assms len(5) by (simp add: get_field_def take_drop_put_bytes_other length_concat_le)
  have ad: "map (\<lambda>i. get_field 4 (off + 12 + 4 * i) (put_bytes (off + 12) ?a b5)) [0..<13] = i_addrs I"
    using assms len(5) by (intro nth_equalityI) (simp_all add: get_field_words del: upt_Suc upt_rec_numeral)
  have "get_field 2 off b5 = i_type I" "get_field 2 (off + 2) b5 = i_major I" "get_field 2 (off + 4) b5 = i_minor I"
    "get_field 2 (off + 6) b5 = i_nlink I" "get_field 4 (off + 8) b5 = i_size I"
    using assms(1) len by (simp_all add: b5_def b4_def b3_def b2_def b1_def get_put_field_other)
  then show ?thesis
    using ad by (simp add: dinode_fields_def load_dinode_def st lo del: upt_Suc upt_rec_numeral)
qed

lemma load_store_other:
  assumes "off + 64 \<le> length bs" and "length (i_addrs I) = 13" and "off' + 64 \<le> off \<or> off + 64 \<le> off'"
  shows "load_dinode off' (store_dinode off I bs) J = load_dinode off' bs J"
proof -
  have g: "take k (drop (off' + i) (store_dinode off I bs)) = take k (drop (off' + i) bs)" if "i + k \<le> 64" for i k
    using that assms unfolding store_dinode_def put_field_def
    by (subst take_drop_put_bytes_other; simp add: length_concat_le; fastforce?)+
  have "map (\<lambda>i. le_word (take 4 (drop (off' + 12 + 4 * i) (store_dinode off I bs))) :: u32) [0..<13]
      = map (\<lambda>i. le_word (take 4 (drop (off' + 12 + 4 * i) bs))) [0..<13]"
    by (rule map_cong [OF refl]) (use g [of "12 + 4 * i" 4 for i] in \<open>simp add: add.assoc\<close>)
  then show ?thesis
    using g [of 0 2] g [of 2 2] g [of 4 2] g [of 6 2] g [of 8 4] by (simp add: load_dinode_def get_field_def del: upt_Suc upt_rec_numeral)
qed

section \<open>Inode blocks\<close>

lemma unat_IBLOCK:
  assumes "layout_ok B" and "unat i < unat (sb_ninodes B)"
  shows "unat (IBLOCK i B) = unat i div IPB + unat (sb_inodestart B)" and "unat (IBLOCK i B) < unat (sb_bmapstart B)"
    and "unat (sb_logstart B) + 31 \<le> unat (IBLOCK i B)"
proof -
  have d: "unat i div IPB \<le> unat (sb_ninodes B) div IPB" using assms(2) by (intro div_le_mono) simp
  have l: "unat (sb_inodestart B) + unat (sb_ninodes B) div IPB + 1 \<le> unat (sb_bmapstart B)"
    "unat (sb_logstart B) + 31 \<le> unat (sb_inodestart B)" using assms(1) by (simp_all add: layout_ok_def)
  have "unat i div IPB + unat (sb_inodestart B) < 2 ^ 32" using d l unat32_less [of "sb_bmapstart B"] by linarith
  then show e: "unat (IBLOCK i B) = unat i div IPB + unat (sb_inodestart B)"
    by (simp add: IBLOCK_def unat_word_ariths unat_div)
  show "unat (IBLOCK i B) < unat (sb_bmapstart B)" "unat (sb_logstart B) + 31 \<le> unat (IBLOCK i B)" using d l e by linarith+
qed

lemma inode_blk:
  assumes "layout_ok B" and "unat i < unat (sb_ninodes B)"
  shows "\<not> log_area (sb_logstart B) (IBLOCK i B)" and "IBLOCK i B \<notin> bitmap_blks B" and "\<not> data_blk B (IBLOCK i B)"
proof -
  show "\<not> log_area (sb_logstart B) (IBLOCK i B)" using not_log_area [OF assms(1)] unat_IBLOCK(3) [OF assms] by blast
  show "IBLOCK i B \<notin> bitmap_blks B"
    using unat_BBLOCK(3) [OF assms(1)] unat_IBLOCK(2) [OF assms] by (force simp: bitmap_blks_def)
  show "\<not> data_blk B (IBLOCK i B)" using unat_IBLOCK(2) [OF assms] by (simp add: data_blk_def data_start_def)
qed

text \<open>A change of a block that is neither a bitmap nor a data block is invisible to every file.\<close>

lemma meta_write:
  fixes V :: "u32 \<Rightarrow> u8 list" and v :: "u8 list"
  assumes l: "layout_ok B" and k: "k \<notin> bitmap_blks B" "\<not> data_blk B k"
  defines "V' \<equiv> V(k := v)"
  shows "unat b < unat (sb_size B) \<Longrightarrow> in_use B V' b = in_use B V b" and "meta_used B V \<Longrightarrow> meta_used B V'"
    and "file_ok B V A \<Longrightarrow> slot V' A j = slot V A j" and "file_ok B V A \<Longrightarrow> file_ok B V' A"
    and "file_ok B V A \<Longrightarrow> i < MAXFILE * BSIZE \<Longrightarrow> fbyte V' A i = fbyte V A i"
proof -
  show iu: "in_use B V' b = in_use B V b" if "unat b < unat (sb_size B)" for b
    using k(1) that by (auto simp: in_use_def V'_def bitmap_blks_def)
  show "meta_used B V'" if "meta_used B V"
    using that l iu by (auto simp: meta_used_def layout_ok_def)
  show sl: "slot V' A j = slot V A j" if ok: "file_ok B V A" for j
  proof (cases "A ! NDIRECT = 0")
    case False
    then have "A ! NDIRECT \<in> blocks V A" using slot_blocks [of IND V A] by simp
    then have "A ! NDIRECT \<noteq> k" using file_okD(2) [OF ok] k(2) by auto
    then show ?thesis by (simp add: slot_def V'_def)
  qed (simp add: slot_def)
  show "file_ok B V' A" if ok: "file_ok B V A"
  proof -
    have "blocks V' A = blocks V A" using sl [OF ok] by (simp add: blocks_def)
    then show ?thesis using ok iu sl [OF ok] by (auto simp: file_ok_def data_blk_def)
  qed
  show "fbyte V' A i = fbyte V A i" if ok: "file_ok B V A" and i: "i < MAXFILE * BSIZE"
  proof -
    let ?a = "slot V A (i div BSIZE)"
    have "i div BSIZE \<le> IND" using i by (simp add: less_mult_imp_div_less order_less_imp_le)
    then have "?a = 0 \<or> ?a \<noteq> k" using slot_blocks file_okD(2) [OF ok] k(2) by blast
    then show ?thesis using sl [OF ok] by (auto simp: fbyte_def Let_def V'_def)
  qed
qed


section \<open>Writing an inode back\<close>

abbreviation iblock_of :: "kernel \<Rightarrow> nat \<Rightarrow> u32" where
  "iblock_of s ip \<equiv> IBLOCK (i_inum (itable s ip)) (sb s)"

definition inode_saved :: "u32 \<Rightarrow> nat \<Rightarrow> kernel \<Rightarrow> bool" where
  "inode_saved d ip s \<longleftrightarrow>
     (\<forall>J. dinode_fields (load_dinode (dinode_off (i_inum (itable s ip))) (view d s (iblock_of s ip)) J) = dinode_fields (itable s ip))"

lemma dinode_off_bound: "dinode_off i + 64 \<le> BSIZE"
  unfolding dinode_off_def using mod_less_divisor [of IPB "unat i"] by linarith

lemma iupdate_spec:
  assumes f: "fs_ok d s L {}" and dev: "i_dev (itable s ip) = d" and i: "unat (i_inum (itable s ip)) < unat (sb_ninodes (sb s))"
    and A: "length (addrs_of s ip) = 13" and sp: "card L < NBUF"
  obtains s' where "iupdate ip s = Inr s'" and "fs_ok d s' (insert (iblock_of s ip) L) {}" and "high s' = high s"
    and "view d s' = (view d s)(iblock_of s ip := store_dinode (dinode_off (i_inum (itable s ip))) (itable s ip) (view d s (iblock_of s ip)))"
    and "inode_saved d ip s'"
proof -
  note D = fs_okD [OF f]
  note nb = inode_blk [OF D(2) i]
  let ?k = "iblock_of s ip" let ?off = "dinode_off (i_inum (itable s ip))"
  have off: "?off + 64 \<le> length (view d s ?k)" using D(5) dinode_off_bound by simp
  have na: "\<not> log_area (log_start s) ?k" using nb(1) D(3) by simp
  have nH: "?k \<notin> {}" by simp
  have c: "card (L \<union> {}) < NBUF" using sp by simp
  have ln: "length (store_dinode ?off (itable s ip) (view d s ?k)) = BSIZE" using length_store_dinode [OF off A] D(5) by simp
  obtain b s1 s2 s' where m: "bread d ?k s = Inr (b, s1)" "get_data b s1 = view d s ?k" "high s1 = high s"
    "log_write b (set_data b (store_dinode ?off (itable s ip) (view d s ?k)) s1) = Inr s2"
    "brelse b s2 = Inr s'" "txn d s' (insert ?k L) {}"
    "view d s' = (view d s)(?k := store_dinode ?off (itable s ip) (view d s ?k))" "high s' = high s"
    by (rule tx_modify [where f = "store_dinode ?off (itable s ip)", OF D(1) nH c na ln D(6)])
  have "iupdate ip s = Inr s'" using m(1,2,4,5) by (simp add: iupdate_def dev)
  moreover have "fs_ok d s' (insert ?k L) {}"
    by (rule fs_ok_high [OF f m(6,8)]) (simp add: m(7) meta_write(2) [OF D(2) nb(2,3) D(4)])
  moreover have "inode_saved d ip s'"
    using load_store_dinode [OF off A] high_fields [OF m(8)] by (simp add: inode_saved_def m(7))
  ultimately show ?thesis using that m(7,8) by blast
qed

text \<open>The whole of \<^verbatim>\<open>writei\<close>: \<open>k\<close> of the \<open>n\<close> bytes are written.\<close>

definition written :: "u32 \<Rightarrow> nat \<Rightarrow> kernel \<Rightarrow> nat \<Rightarrow> nat \<Rightarrow> (nat \<Rightarrow> u8) \<Rightarrow> kernel \<Rightarrow> u32 set \<Rightarrow> bool" where
  "written d ip s off k f s' L' \<longleftrightarrow> fs_ok d s' L' {} \<and> sb s' = sb s
     \<and> (\<exists>A sz. high s' = high (upd_inode ip (\<lambda>I. I\<lparr>i_addrs := A, i_size := sz\<rparr>) s))
     \<and> file_ok (sb s) (view d s') (addrs_of s' ip)
     \<and> grows (sb s) (view d s) (addrs_of s ip) ((view d s')(iblock_of s ip := view d s (iblock_of s ip))) (addrs_of s' ip)
     \<and> unat (i_size (itable s' ip)) = max (unat (i_size (itable s ip))) (off + k)
     \<and> (\<forall>i < MAXFILE * BSIZE. fbyte (view d s') (addrs_of s' ip) i = wbytes off k f (fbyte (view d s) (addrs_of s ip)) i)
     \<and> (\<forall>i. off \<le> i \<and> i < off + k \<longrightarrow> slot (view d s') (addrs_of s' ip) (i div BSIZE) \<noteq> 0)
     \<and> inode_saved d ip s'
     \<and> view d s' (iblock_of s ip) = store_dinode (dinode_off (i_inum (itable s ip))) (itable s' ip) (view d s (iblock_of s ip))"

lemma writei_spec:
  assumes f: "fs_ok d s L {}" and dev: "i_dev (itable s ip) = d" and i: "unat (i_inum (itable s ip)) < unat (sb_ninodes (sb s))"
    and ok: "file_ok (sb s) (view d s) (addrs_of s ip)" and src: "src_ok kend src (unat n) s"
    and off: "off \<le> i_size (itable s ip)" "unat off + unat n \<le> MAXFILE * BSIZE"
    and sp: "potential (sb s) (addrs_of s ip) L + nblk (unat off) (unat n) < NBUF"
  obtains k s' L' where "writei kend ip src off n s = Inr (of_nat k, s')" and "k \<le> unat n"
    and "written d ip s (unat off) k (src_byte src s) s' L'"
    and "card L' \<le> potential (sb s) (addrs_of s ip) L + nblk (unat off) (unat n) + 1"
    and "k < unat n \<longrightarrow> (\<forall>c. unat c < unat (sb_size (sb s)) \<longrightarrow> in_use (sb s) (view d s') c)"
proof -
  note D = fs_okD [OF f]
  have "\<exists>k s1 L1. writei_loop kend ip src off n 0 s = Inr (0 + of_nat k, off + of_nat k, s1)
    \<and> k \<le> unat n - unat (0 :: u32) \<and> write_step d ip s L (unat off) k (src_byte src s) s1 L1
    \<and> potential (sb s) (addrs_of s1 ip) L1 \<le> potential (sb s) (addrs_of s ip) L + nblk (unat off) (unat n - unat (0 :: u32))
    \<and> (k < unat n - unat (0 :: u32) \<longrightarrow> (\<forall>c. unat c < unat (sb_size (sb s)) \<longrightarrow> in_use (sb s) (view d s1) c))"
    by (rule writei_loop_spec [OF f dev ok]) (use src off sp in simp_all)
  then obtain k s1 L1 where w: "writei_loop kend ip src off n 0 s = Inr (of_nat k, off + of_nat k, s1)" "k \<le> unat n"
    "write_step d ip s L (unat off) k (src_byte src s) s1 L1"
    "potential (sb s) (addrs_of s1 ip) L1 \<le> potential (sb s) (addrs_of s ip) L + nblk (unat off) (unat n)"
    "k < unat n \<longrightarrow> (\<forall>c. unat c < unat (sb_size (sb s)) \<longrightarrow> in_use (sb s) (view d s1) c)" by auto
  have W: "fs_ok d s1 L1 {}" "high s1 = high (set_addrs ip (addrs_of s1 ip) s)" "file_ok (sb s) (view d s1) (addrs_of s1 ip)"
    "grows (sb s) (view d s) (addrs_of s ip) (view d s1) (addrs_of s1 ip)"
    "\<forall>i < MAXFILE * BSIZE. fbyte (view d s1) (addrs_of s1 ip) i = wbytes (unat off) k (src_byte src s) (fbyte (view d s) (addrs_of s ip)) i"
    "\<forall>i. unat off \<le> i \<and> i < unat off + k \<and> i < MAXFILE * BSIZE \<longrightarrow> slot (view d s1) (addrs_of s1 ip) (i div BSIZE) \<noteq> 0"
    using w(3) by (simp_all add: write_step_def)
  have B: "sb s1 = sb s" by (rule write_step_sb [OF w(3)])
  note I = write_step_inode [OF w(3)]
  define o' where "o' = off + of_nat k"
  have uo: "unat o' = unat off + k"
    using off(2) w(2) unat_of_nat32 [of k] by (simp add: o'_def unat_word_ariths)
  define sz where "sz = (if i_size (itable s ip) < o' then o' else i_size (itable s ip))"
  have usz: "unat sz = max (unat (i_size (itable s ip))) (unat off + k)" by (simp add: sz_def uo [symmetric] word_less_nat_alt max_def)
  define s2 where "s2 = upd_inode ip (\<lambda>I. I\<lparr>i_size := sz\<rparr>) s1"
  have isz: "i_size (itable s1 ip) = i_size (itable s ip)" using arg_cong [OF fun_cong [OF I, of ip], of i_size] by simp
  have s2: "s2 = (if i_size (itable s1 ip) < o' then upd_inode ip (\<lambda>I. I\<lparr>i_size := o'\<rparr>) s1 else s1)"
    unfolding s2_def sz_def isz [symmetric] by (simp add: upd_inode_ident)
  have I2: "itable s2 ip = (itable s ip)\<lparr>i_addrs := addrs_of s1 ip, i_size := sz\<rparr>"
    unfolding s2_def using fun_cong [OF I, of ip] by simp
  have f2: "fs_ok d s2 L1 {}" and dev2: "i_dev (itable s2 ip) = d"
    and i2: "unat (i_inum (itable s2 ip)) < unat (sb_ninodes (sb s2))" and A2: "length (addrs_of s2 ip) = 13"
    using W(1) dev i B file_okD(1) [OF W(3)] by (simp_all add: I2) (simp_all add: s2_def)
  have h2: "high s2 = high (upd_inode ip (\<lambda>I. I\<lparr>i_addrs := addrs_of s1 ip, i_size := sz\<rparr>) s)"
    using high_upd_inode [OF W(2), of ip "\<lambda>I. I\<lparr>i_size := sz\<rparr>"]
    unfolding set_addrs_def upd_inode_twice by (simp add: s2_def comp_def)
  have c: "card L1 \<le> potential (sb s) (addrs_of s ip) L + nblk (unat off) (unat n)"
    using card_potential(1) [of L1 "sb s" "addrs_of s1 ip"] w(4) by simp
  then have c2: "card L1 < NBUF" using sp by simp
  have ib: "iblock_of s2 ip = iblock_of s ip" by (simp add: I2) (simp add: s2_def B)
  define v where "v = store_dinode (dinode_off (i_inum (itable s2 ip))) (itable s2 ip) (view d s2 (iblock_of s2 ip))"
  obtain s3 where s3: "iupdate ip s2 = Inr s3" "fs_ok d s3 (insert (iblock_of s ip) L1) {}" "high s3 = high s2"
    "view d s3 = (view d s1)(iblock_of s ip := v)" "inode_saved d ip s3"
    using iupdate_spec [OF f2 dev2 i2 A2 c2, folded v_def] unfolding ib by (auto simp: s2_def)
  note nb = inode_blk [OF D(2) i]
  note mw = meta_write [where V = "view d s1" and v = v, OF D(2) nb(2,3), folded s3(4)]
  have h3: "sb s3 = sb s" "itable s3 ip = itable s2 ip" using high_fields [OF s3(3)] by (simp_all add: s2_def B)
  have vi: "view d s1 (iblock_of s ip) = view d s (iblock_of s ip)"
    using W(4) nb(2,3) file_okD(2) [OF ok] unfolding grows_def by blast
  then have vr: "(view d s3)(iblock_of s ip := view d s (iblock_of s ip)) = view d s1" by (auto simp: s3(4))
  have "view d s3 (iblock_of s ip) = store_dinode (dinode_off (i_inum (itable s ip))) (itable s2 ip) (view d s (iblock_of s ip))"
    unfolding s3(4) v_def ib vi [symmetric] by (simp add: I2) (simp add: s2_def)
  then have "written d ip s (unat off) k (src_byte src s) s3 (insert (iblock_of s ip) L1)"
    unfolding written_def h3 vr using s3(2,5) h2 s3(3) mw(3-5) [OF W(3)] W(3-6) off(2) w(2) usz
    by (auto simp: I2)
  moreover have "card (insert (iblock_of s ip) L1) \<le> potential (sb s) (addrs_of s ip) L + nblk (unat off) (unat n) + 1"
    using c by (simp add: card_insert_if)
  moreover have "writei kend ip src off n s = Inr (of_nat k, s3)"
    using off w(1) s3(1) unfolding s2 o'_def
    by (simp add: writei_def Let_def not_less word_le_nat_alt word_less_nat_alt unat_word_ariths)
  moreover have "\<forall>c. unat c < unat (sb_size (sb s)) \<longrightarrow> in_use (sb s) (view d s3) c" if "k < unat n"
    using w(5) that mw(1) by blast
  ultimately show ?thesis using that w(2) by blast
qed

end
