(* ===== verification/FsRead.thy ===== *)
theory FsRead
  imports FsInode
begin

text \<open>
  \<^verbatim>\<open>readi\<close>: the bytes of a file reach a kernel variable or the memory of the calling process.
\<close>

section \<open>Where the bytes go\<close>

fun dst_ok :: "u64 \<Rightarrow> place \<Rightarrow> kernel \<Rightarrow> bool" where
  "dst_ok kend (Uva a) s \<longleftrightarrow>
     (\<exists>i lim xs. me s = Some i \<and> user_inv kend lim (p_sz (procs s i)) s (p_pagetable (procs s i)) xs)"
| "dst_ok kend (Kva a) s \<longleftrightarrow> False"
| "dst_ok kend (Var bs) s \<longleftrightarrow> True"

fun is_user :: "place \<Rightarrow> bool" where
  "is_user (Uva a) = True"
| "is_user (Kva a) = False"
| "is_user (Var bs) = False"

lemma is_user_advance [simp]: "is_user (advance m dst) = is_user dst"
  by (cases dst) simp_all

text \<open>The bytes \<open>bs\<close> have arrived: in user memory, or in the result \<open>out\<close>.\<close>

fun delivered :: "place \<Rightarrow> u8 list \<Rightarrow> kernel \<Rightarrow> u8 list \<Rightarrow> kernel \<Rightarrow> bool" where
  "delivered (Uva a) bs s out s' \<longleftrightarrow> out = [] \<and> procs s' = procs s \<and> me s' = me s
     \<and> (let root = p_pagetable (procs s (the (me s))) in ubyte (mem s') root = write_at a bs (ubyte (mem s) root))"
| "delivered (Kva a) bs s out s' \<longleftrightarrow> False"
| "delivered (Var _) bs s out s' \<longleftrightarrow> out = bs \<and> mem s' = mem s"

lemma either_copyout_spec:
  assumes "dst_ok kend dst s" and "length bs < 2 ^ 32"
  obtains r out s' k where "either_copyout kend dst bs s = Inr (r, out, s')"
    and "r = 0 \<and> k = length bs \<or> r = -1 \<and> is_user dst \<and> k < length bs" and "delivered dst (take k bs) s out s'"
    and "dst_ok kend dst s'" and "kmem.more s' = kmem.more s"
proof (cases dst)
  case (Uva a)
  obtain i lim xs where i: "me s = Some i" "user_inv kend lim (p_sz (procs s i)) s (p_pagetable (procs s i)) xs"
    using assms(1) by (auto simp: Uva)
  have l: "length bs < 2 ^ 64" using assms(2) by simp
  obtain r s' ys k where c: "copyout kend (p_sz (procs s i)) (p_pagetable (procs s i)) (p_pagetable (procs s i)) a bs s = Inr (r, s')"
    "as_step kend lim (p_pagetable (procs s i)) s xs s' ys" "r = 0 \<and> k = length bs \<or> r = -1 \<and> k < length bs"
    "ubyte (mem s') (p_pagetable (procs s i)) = write_at a (take k bs) (ubyte (mem s) (p_pagetable (procs s i)))"
    using copyout_spec [OF i(2) l, of a] by blast
  have m: "kmem.more s' = kmem.more s" using c(2) by (simp add: as_step_def)
  note u = upper_fields [OF more_same(4) [OF m]]
  have "dst_ok kend dst s'" using user_inv_step [OF i(2) c(2)] u i(1) by (auto simp: Uva)
  moreover have "either_copyout kend dst bs s = Inr (r, [], s')" using i(1) c(1) by (simp add: Uva myproc_def)
  ultimately show ?thesis using that [of r "[]" s' k] c(3,4) u i(1) m by (simp add: Uva)
next
  case (Var x)
  then show ?thesis using that [of 0 bs s "length bs"] by simp
qed (use assms in simp)

lemma delivered_append:
  assumes "delivered dst xs s o1 s1" and "delivered (advance m dst) ys s1 o2 s2" and "length xs = unat m" and "length ys < 2 ^ 32"
  shows "delivered dst (xs @ ys) s (o1 @ o2) s2"
proof (cases dst)
  case (Uva a)
  have "length xs + length ys < 2 ^ 64" using assms(3,4) unat32_less [of m] by simp
  from write_at_append [OF this, of a] show ?thesis
    using assms(1-3) by (simp add: Uva Let_def)
qed (use assms in simp_all)

lemma delivered_kmem:
  assumes "delivered dst bs s out s1" and "high s = high s0" and "high s1 = high s2"
  shows "delivered dst bs s0 out s2"
  using assms(1) high_fields [OF assms(2)] high_fields [OF assms(3)] by (cases dst) (simp_all add: Let_def)

lemma dst_ok_cong: "high s' = high s \<Longrightarrow> dst_ok kend dst s' = dst_ok kend dst s"
  using user_inv_cong [of s' s] high_fields [of s' s] by (cases dst) (simp_all only: dst_ok.simps)

lemma dst_ok_advance: "dst_ok kend dst s \<Longrightarrow> dst_ok kend (advance m dst) s"
  by (cases dst) simp_all

section \<open>One block\<close>

lemma bmap_read:
  assumes t: "txn d s L {}" and dev: "i_dev (itable s ip) = d" and bn: "unat bn < MAXFILE"
    and nz: "slot (view d s) (addrs_of s ip) (unat bn) \<noteq> 0" and sp: "card L < NBUF"
  obtains s' where "bmap ip bn s = Inr (slot (view d s) (addrs_of s ip) (unat bn), s')" and "txn d s' L {}"
    and "view d s' = view d s" and "high s' = high s"
proof (cases "unat bn < NDIRECT")
  case True
  then show ?thesis using that [of s] t nz by (simp add: bmap_def bmap_slot_def slot_direct)
next
  case False
  define j where "j = unat bn - NDIRECT"
  have j: "j < NINDIRECT" "unat bn = NDIRECT + j" using bn False by (simp_all add: j_def)
  have i: "addrs_of s ip ! NDIRECT \<noteq> 0" using nz False bn by (auto simp: slot_def split: if_splits)
  note sl = slot_indirect [OF j(1) i, of "view d s", folded j(2)]
  have nH: "addrs_of s ip ! NDIRECT \<notin> {}" and c: "card (L \<union> {}) < NBUF" using sp by simp_all
  obtain b s1 s' where p: "bread d (addrs_of s ip ! NDIRECT) s = Inr (b, s1)" "get_data b s1 = view d s (addrs_of s ip ! NDIRECT)"
    "high s1 = high s" "brelse b s1 = Inr s'" "txn d s' L {}" "view d s' = view d s" "high s' = high s"
    by (rule tx_peek [OF t nH c])
  have "bmap ip bn s = Inr (slot (view d s) (addrs_of s ip) (unat bn), s')"
    using False nz i p(1,2,4) j(1) by (simp add: bmap_def bmap_slot_def j_def [symmetric] dev sl)
  then show ?thesis using that p(5-7) by blast
qed

lemma chunk_bytes:
  assumes "length (V a) = BSIZE" and "slot V A (off div BSIZE) = a" and "a \<noteq> 0" and "off mod BSIZE + m \<le> BSIZE"
  shows "take m (drop (off mod BSIZE) (V a)) = map (fbyte V A) [off..<off + m]"
proof (rule nth_equalityI)
  fix i assume "i < length (take m (drop (off mod BSIZE) (V a)))"
  then have i: "i < m" by simp
  have d: "(off + i) div BSIZE = off div BSIZE" by (rule in_block [OF assms(4)]) (use i in simp_all)
  have "(off + i) mod BSIZE = off mod BSIZE + i"
    using d div_mult_mod_eq [of "off + i" BSIZE] div_mult_mod_eq [of off BSIZE] by linarith
  then show "take m (drop (off mod BSIZE) (V a)) ! i = map (fbyte V A) [off..<off + m] ! i"
    using i assms d by (simp add: fbyte_def)
qed (use assms in simp)

text \<open>One turn of the loop of \<^verbatim>\<open>readi\<close>.\<close>

lemma read_one:
  assumes t: "txn d s L {}" and dev: "i_dev (itable s ip) = d" and dst: "dst_ok kend dst s" and sp: "card L < NBUF"
    and nz: "slot (view d s) (addrs_of s ip) (unat off div BSIZE) \<noteq> 0" and mx: "unat off < MAXFILE * BSIZE"
    and m: "unat off mod BSIZE + m \<le> BSIZE"
  obtains s1 bp s2 r out s3 s4 k where "bmap ip (off div 1024) s = Inr (slot (view d s) (addrs_of s ip) (unat off div BSIZE), s1)"
    and "bread (i_dev (itable s1 ip)) (slot (view d s) (addrs_of s ip) (unat off div BSIZE)) s1 = Inr (bp, s2)"
    and "either_copyout kend dst (take m (drop (unat (off mod 1024)) (get_data bp s2))) s2 = Inr (r, out, s3)"
    and "brelse bp s3 = Inr s4" and "r = 0 \<and> k = m \<or> r = -1 \<and> is_user dst \<and> k < m"
    and "delivered dst (map (fbyte (view d s) (addrs_of s ip)) [unat off..<unat off + k]) s out s4"
    and "dst_ok kend dst s4" and "txn d s4 L {}" and "view d s4 = view d s" and "upper s4 = upper s"
proof -
  define a where "a = slot (view d s) (addrs_of s ip) (unat off div BSIZE)"
  have bn: "unat (off div 1024) = unat off div BSIZE" "unat (off mod 1024) = unat off mod BSIZE" by (simp_all add: unat_div unat_mod)
  have bnm: "unat (off div 1024) < MAXFILE" unfolding bn using mx by (intro less_mult_imp_div_less) simp
  obtain s1 where s1: "bmap ip (off div 1024) s = Inr (a, s1)" "txn d s1 L {}" "view d s1 = view d s" "high s1 = high s"
    using bmap_read [OF t dev bnm _ sp] nz unfolding bn a_def by metis
  have nH: "a \<notin> {}" and c: "a \<in> L \<or> card (L \<union> {}) < NBUF" using sp by simp_all
  obtain bp s2 where s2: "bread d a s1 = Inr (bp, s2)" "txn d s2 L {a}" "view d s2 = view d s1" "high s2 = high s1" "has_buf d s2 bp a"
    using tx_read [OF s1(2) nH c] by metis
  have h2: "high s2 = high s" using s2(4) s1(4) by simp
  have dat: "take m (drop (unat (off mod 1024)) (get_data bp s2)) = map (fbyte (view d s) (addrs_of s ip)) [unat off..<unat off + m]"
    using chunk_bytes [OF txnD(6) [OF t] a_def [symmetric] _ m] nz tx_data [OF s2(2,5)] s2(3) s1(3) by (simp add: bn a_def)
  have len: "length (map (fbyte (view d s) (addrs_of s ip)) [unat off..<unat off + m]) < 2 ^ 32" using m by simp
  have d2: "dst_ok kend dst s2" using dst dst_ok_cong [OF h2] by simp
  obtain r out s3 k where s3: "either_copyout kend dst (take m (drop (unat (off mod 1024)) (get_data bp s2))) s2 = Inr (r, out, s3)"
    "r = 0 \<and> k = m \<or> r = -1 \<and> is_user dst \<and> k < m"
    "delivered dst (take k (map (fbyte (view d s) (addrs_of s ip)) [unat off..<unat off + m])) s2 out s3"
    "dst_ok kend dst s3" "kmem.more s3 = kmem.more s2"
    using either_copyout_spec [OF d2 len] unfolding dat by (metis add_diff_cancel_left' length_map length_upt)
  note ms = more_same [OF s3(5)]
  have t3: "txn d s3 L {a}" "has_buf d s3 bp a" using s2(2,5) by (simp_all add: ms)
  obtain s4 where s4: "brelse bp s3 = Inr s4" "txn d s4 L {}" "view d s4 = view d s3" "high s4 = high s3"
    using tx_release [OF t3] by (metis Diff_cancel)
  have k: "take k (map (fbyte (view d s) (addrs_of s ip)) [unat off..<unat off + m]) = map (fbyte (view d s) (addrs_of s ip)) [unat off..<unat off + k]"
    using s3(2) by (auto simp: take_map)
  show ?thesis
  proof (rule that)
    show "bmap ip (off div 1024) s = Inr (slot (view d s) (addrs_of s ip) (unat off div BSIZE), s1)" using s1(1) by (simp add: a_def)
    show "bread (i_dev (itable s1 ip)) (slot (view d s) (addrs_of s ip) (unat off div BSIZE)) s1 = Inr (bp, s2)"
      using s2(1) high_fields [OF s1(4)] dev by (simp add: a_def)
    show "delivered dst (map (fbyte (view d s) (addrs_of s ip)) [unat off..<unat off + k]) s out s4"
      using delivered_kmem [OF s3(3) h2 s4(4) [symmetric]] k by simp
    show "view d s4 = view d s" using s4(3) s2(3) s1(3) ms(1) by simp
    show "upper s4 = upper s" using high_upper [OF s4(4)] ms(4) high_upper [OF h2] by simp
    show "dst_ok kend dst s4" using s3(4) dst_ok_cong [OF s4(4)] by simp
  qed (use s3 s4 in blast)+
qed

lemma readi_loop_spec:
  assumes "txn d s L {}" and "i_dev (itable s ip) = d" and "dst_ok kend dst s" and "card L < NBUF" and "tot \<le> n"
    and "unat off + (unat n - unat tot) \<le> MAXFILE * BSIZE"
    and "\<forall>i. unat off \<le> i \<and> i < unat off + (unat n - unat tot) \<longrightarrow> slot (view d s) (addrs_of s ip) (i div BSIZE) \<noteq> 0"
  shows "\<exists>r out s' k. readi_loop kend ip dst off n tot s = Inr (r, out, s') \<and> (r = n \<and> k = unat n - unat tot \<or> r = -1 \<and> is_user dst \<and> k < unat n - unat tot)
    \<and> delivered dst (map (fbyte (view d s) (addrs_of s ip)) [unat off..<unat off + k]) s out s'
    \<and> dst_ok kend dst s' \<and> txn d s' L {} \<and> view d s' = view d s \<and> upper s' = upper s"
  using assms
proof (induction "unat n - unat tot" arbitrary: dst off tot s rule: less_induct)
  case less
  note t = less.prems(1) and dev = less.prems(2) and dst = less.prems(3) and sp = less.prems(4) and tn = less.prems(5)
    and mx = less.prems(6) and nz = less.prems(7)
  show ?case
  proof (cases "tot < n")
    case False
    then have "tot = n" using tn by simp
    moreover have "delivered dst [] s [] s" using dst by (cases dst) (simp_all add: Let_def)
    ultimately show ?thesis using t dst
      by (intro exI [of _ n] exI [of _ "[] :: u8 list"] exI [of _ s] exI [of _ 0]) (simp add: readi_loop.simps [of kend ip dst off n])
  next
    case lt: True
    define len where "len = unat n - unat tot"
    define m where "m = chunk off n tot"
    note ch = chunk_bounds [OF lt, of off, folded m_def]
    have um: "unat m = min len (BSIZE - unat off mod BSIZE)" "0 < unat m" "unat m \<le> len" using ch(1,2) by (simp_all add: len_def)
    have len: "0 < len" "unat off + len \<le> MAXFILE * BSIZE" using mx um by (simp_all add: len_def)
    have om: "unat off mod BSIZE + unat m \<le> BSIZE" using um(1) by (simp add: min_def split: if_splits)
    have uo: "unat (off + m) = unat off + unat m" using um(3) len by (simp add: unat_word_ariths)
    have n0: "slot (view d s) (addrs_of s ip) (unat off div BSIZE) \<noteq> 0" using nz len(1) by (simp add: len_def)
    have o0: "unat off < MAXFILE * BSIZE" using len by simp
    obtain s1 bp s2 r out s3 s4 k where b: "bmap ip (off div 1024) s = Inr (slot (view d s) (addrs_of s ip) (unat off div BSIZE), s1)"
      "bread (i_dev (itable s1 ip)) (slot (view d s) (addrs_of s ip) (unat off div BSIZE)) s1 = Inr (bp, s2)"
      "either_copyout kend dst (take (unat m) (drop (unat (off mod 1024)) (get_data bp s2))) s2 = Inr (r, out, s3)"
      "brelse bp s3 = Inr s4" "r = 0 \<and> k = unat m \<or> r = -1 \<and> is_user dst \<and> k < unat m"
      "delivered dst (map (fbyte (view d s) (addrs_of s ip)) [unat off..<unat off + k]) s out s4"
      "dst_ok kend dst s4" "txn d s4 L {}" "view d s4 = view d s" "upper s4 = upper s"
      by (rule read_one [OF t dev dst sp n0 o0 om])
    note unf = readi_loop.simps [of kend ip dst off n tot s]
    show ?thesis
    proof (cases "r = -1")
      case True
      then have "readi_loop kend ip dst off n tot s = Inr (-1, out, s4)"
        using unf lt n0 b(1-4) by (simp add: m_def)
      then show ?thesis using True b(5-10) um(3) len_def by (intro exI [of _ "-1"] exI [of _ out] exI [of _ s4] exI [of _ k]) auto
    next
      case False
      then have k: "k = unat m" using b(5) by simp
      have ut: "unat (tot + m) = unat tot + unat m" "tot + m \<le> n" using ch(3,4) by (simp_all add: word_le_nat_alt)
      have len': "unat n - unat (tot + m) = len - unat m" by (simp add: ut(1) len_def)
      note u = upper_fields [OF b(10)]
      have "\<exists>r out' s' k'. readi_loop kend ip (advance m dst) (off + m) n (tot + m) s4 = Inr (r, out', s')
          \<and> (r = n \<and> k' = unat n - unat (tot + m) \<or> r = -1 \<and> is_user (advance m dst) \<and> k' < unat n - unat (tot + m))
          \<and> delivered (advance m dst) (map (fbyte (view d s4) (addrs_of s4 ip)) [unat (off + m)..<unat (off + m) + k']) s4 out' s'
          \<and> dst_ok kend (advance m dst) s' \<and> txn d s' L {} \<and> view d s' = view d s4 \<and> upper s' = upper s4"
        by (rule less.hyps) (use um len u dev b(7-9) sp ut(2) nz in \<open>auto simp: len' uo len_def [symmetric] intro: dst_ok_advance\<close>)
      then obtain r' out' s' k' where q: "readi_loop kend ip (advance m dst) (off + m) n (tot + m) s4 = Inr (r', out', s')"
        "r' = n \<and> k' = len - unat m \<or> r' = -1 \<and> is_user dst \<and> k' < len - unat m"
        "delivered (advance m dst) (map (fbyte (view d s) (addrs_of s ip)) [unat off + unat m..<unat off + unat m + k']) s4 out' s'"
        "dst_ok kend (advance m dst) s'" "txn d s' L {}" "view d s' = view d s" "upper s' = upper s"
        using len' uo b(9,10) u by auto
      have e: "map f [unat off..<unat off + unat m] @ map f [unat off + unat m..<unat off + unat m + k'] = map f [unat off..<unat off + (unat m + k')]"
        for f :: "nat \<Rightarrow> u8" by (metis add.assoc le_add1 map_append upt_add_eq_append)
      have "k' < 2 ^ 32" using q(2) len(2) by auto
      then have "delivered dst (map (fbyte (view d s) (addrs_of s ip)) [unat off..<unat off + (unat m + k')]) s (out @ out') s'"
        using delivered_append [OF b(6) [unfolded k] q(3)] e by simp
      moreover have "dst_ok kend dst s'" using q(4) by (cases dst) simp_all
      moreover have "readi_loop kend ip dst off n tot s = Inr (r', out @ out', s')"
        using unf lt n0 b(1-4) False q(1) by (simp add: m_def [symmetric])
      moreover have "r' = n \<and> unat m + k' = len \<or> r' = -1 \<and> is_user dst \<and> unat m + k' < len" using q(2) um(3) by auto
      ultimately show ?thesis using q(5-7) unfolding len_def [symmetric] by blast
    qed
  qed
qed

end
