(* ===== verification/FsProps.thy ===== *)
theory FsProps
  imports FsRead
begin

text \<open>
  Properties of file contents: what \<^verbatim>\<open>writei\<close> and \<^verbatim>\<open>readi\<close> do to the bytes of a file, to the other files and to the log.
\<close>

section \<open>A well-formed inode\<close>

text \<open>The inode is in range, its blocks are its own, and the file has no hole below its size.\<close>

definition inode_ok :: "u32 \<Rightarrow> nat \<Rightarrow> kernel \<Rightarrow> bool" where
  "inode_ok d ip s \<longleftrightarrow> i_dev (itable s ip) = d \<and> unat (i_inum (itable s ip)) < unat (sb_ninodes (sb s))
     \<and> file_ok (sb s) (view d s) (addrs_of s ip) \<and> unat (i_size (itable s ip)) \<le> MAXFILE * BSIZE
     \<and> (\<forall>i < unat (i_size (itable s ip)). slot (view d s) (addrs_of s ip) (i div BSIZE) \<noteq> 0)"

lemma high_upd_inode_ip:
  assumes "high s' = high (upd_inode ip f s)"
  shows "itable s' = (itable s)(ip := f (itable s ip))" and "sb s' = sb s" and "mem s' = mem s" and "procs s' = procs s" and "me s' = me s"
  using high_fields [OF assms] by simp_all

lemma writtenD:
  assumes "written d ip s off k f s' L'"
  shows "fs_ok d s' L' {}" and "sb s' = sb s" and "file_ok (sb s) (view d s') (addrs_of s' ip)"
    and "unat (i_size (itable s' ip)) = max (unat (i_size (itable s ip))) (off + k)"
    and "i < MAXFILE * BSIZE \<Longrightarrow> fbyte (view d s') (addrs_of s' ip) i = wbytes off k f (fbyte (view d s) (addrs_of s ip)) i"
    and "off \<le> i \<Longrightarrow> i < off + k \<Longrightarrow> slot (view d s') (addrs_of s' ip) (i div BSIZE) \<noteq> 0"
    and "i_dev (itable s' ip) = i_dev (itable s ip)" and "i_inum (itable s' ip) = i_inum (itable s ip)"
    and "j \<noteq> ip \<Longrightarrow> itable s' j = itable s j" and "inode_saved d ip s'"
proof -
  obtain A sz where "high s' = high (upd_inode ip (\<lambda>I. I\<lparr>i_addrs := A, i_size := sz\<rparr>) s)" using assms by (auto simp: written_def)
  note h = high_upd_inode_ip(1) [OF this]
  show "i_dev (itable s' ip) = i_dev (itable s ip)" "i_inum (itable s' ip) = i_inum (itable s ip)" "j \<noteq> ip \<Longrightarrow> itable s' j = itable s j"
    by (simp_all add: h)
qed (use assms in \<open>simp_all add: written_def\<close>)

lemma written_slot:
  assumes w: "written d ip s off k f s' L'" and f: "fs_ok d s L {}" and ok: "inode_ok d ip s" and j: "j \<le> IND"
  shows "slot ((view d s')(iblock_of s ip := view d s (iblock_of s ip))) (addrs_of s' ip) j = slot (view d s') (addrs_of s' ip) j"
  using meta_write(3) [OF fs_okD(2) [OF f] inode_blk(2,3) [OF fs_okD(2) [OF f]] writtenD(3) [OF w]] ok by (simp add: inode_ok_def)

lemma written_inode_ok:
  assumes w: "written d ip s off k f s' L'" and f: "fs_ok d s L {}" and ok: "inode_ok d ip s"
    and off: "off \<le> unat (i_size (itable s ip))" "off + k \<le> MAXFILE * BSIZE"
  shows "inode_ok d ip s'"
proof -
  note W = writtenD [OF w]
  have "slot (view d s') (addrs_of s' ip) (i div BSIZE) \<noteq> 0" if i: "i < unat (i_size (itable s' ip))" for i
  proof (cases "i < unat (i_size (itable s ip))")
    case True
    then have "slot (view d s) (addrs_of s ip) (i div BSIZE) \<noteq> 0" "i < MAXFILE * BSIZE" using ok by (auto simp: inode_ok_def)
    moreover from this(2) have j: "i div BSIZE \<le> IND" by (simp add: less_mult_imp_div_less order_less_imp_le)
    ultimately have "slot ((view d s')(iblock_of s ip := view d s (iblock_of s ip))) (addrs_of s' ip) (i div BSIZE) \<noteq> 0"
      using w by (auto simp: written_def grows_def)
    then show ?thesis using written_slot [OF w f ok j] by simp
  next
    case False
    then show ?thesis using i off(1) W(4) W(6) [of i] by simp
  qed
  then show ?thesis using ok W(2-4,7,8) off(2) by (simp add: inode_ok_def)
qed

text \<open>The budget of a write, in log blocks.\<close>

abbreviation write_budget :: "kernel \<Rightarrow> nat \<Rightarrow> u32 set \<Rightarrow> nat \<Rightarrow> nat \<Rightarrow> nat" where
  "write_budget s ip L off n \<equiv> potential (sb s) (addrs_of s ip) L + nblk off n + 1"

lemma inode_okD:
  assumes "inode_ok d ip s"
  shows "i_dev (itable s ip) = d" and "unat (i_inum (itable s ip)) < unat (sb_ninodes (sb s))"
    and "file_ok (sb s) (view d s) (addrs_of s ip)" and "unat (i_size (itable s ip)) \<le> MAXFILE * BSIZE"
    and "i < unat (i_size (itable s ip)) \<Longrightarrow> slot (view d s) (addrs_of s ip) (i div BSIZE) \<noteq> 0"
  using assms by (auto simp: inode_ok_def)

lemma readi_spec:
  assumes t: "txn d s L {}" and ok: "inode_ok d ip s" and dst: "dst_ok kend dst s" and sp: "card L < NBUF"
    and off: "off \<le> i_size (itable s ip)" "unat off + unat n < 2 ^ 32"
  defines "m \<equiv> min (unat n) (unat (i_size (itable s ip)) - unat off)"
  obtains r out s' k where "readi kend ip dst off n s = Inr (r, out, s')" and "r = of_nat m \<and> k = m \<or> r = -1 \<and> is_user dst \<and> k < m"
    and "delivered dst (map (fbyte (view d s) (addrs_of s ip)) [unat off..<unat off + k]) s out s'"
    and "txn d s' L {}" and "view d s' = view d s" and "upper s' = upper s" and "dst_ok kend dst s'"
proof -
  note I = inode_okD [OF ok]
  define n' where "n' = (if i_size (itable s ip) < off + n then i_size (itable s ip) - off else n)"
  have un: "unat (off + n) = unat off + unat n" using off(2) by (simp add: unat_word_ariths)
  have n': "unat n' = m" using off(1) un by (auto simp: n'_def m_def word_less_nat_alt word_le_nat_alt unat_sub)
  have c: "\<not> (i_size (itable s ip) < off \<or> off + n < off)" using off(1) un by (simp add: not_less word_le_nat_alt)
  have rd: "readi kend ip dst off n s = readi_loop kend ip dst off n' 0 s" using c by (simp add: readi_def n'_def)
  have b: "unat off + m \<le> unat (i_size (itable s ip))" using off(1) by (simp add: m_def word_le_nat_alt)
  have "\<exists>r out s' k. readi_loop kend ip dst off n' 0 s = Inr (r, out, s')
    \<and> (r = n' \<and> k = unat n' - unat (0 :: u32) \<or> r = -1 \<and> is_user dst \<and> k < unat n' - unat (0 :: u32))
    \<and> delivered dst (map (fbyte (view d s) (addrs_of s ip)) [unat off..<unat off + k]) s out s'
    \<and> dst_ok kend dst s' \<and> txn d s' L {} \<and> view d s' = view d s \<and> upper s' = upper s"
    by (rule readi_loop_spec [OF t I(1) dst sp]) (use b I(4,5) n' in auto)
  moreover have "n' = of_nat m" by (simp flip: n')
  ultimately show ?thesis using that rd n' by auto
qed

section \<open>Other files\<close>

lemma grows_other:
  assumes l: "layout_ok B" and g: "grows B V A V' A'" and ok: "file_ok B V F" and dj: "blocks V F \<inter> blocks V A = {}"
  shows "slot V' F j = slot V F j" and "file_ok B V' F" and "blocks V' F \<inter> blocks V' A' = {}"
    and "i < MAXFILE * BSIZE \<Longrightarrow> fbyte V' F i = fbyte V F i"
proof -
  have same: "V' k = V k" "in_use B V' k" if k: "k \<in> blocks V F" for k
  proof -
    note D = file_okD(2,3) [OF ok k]
    have "k \<notin> blocks V A" using k dj by auto
    then show "V' k = V k" using g blocks_not_bitmap [OF l ok k] D unfolding grows_def by blast
    show "in_use B V' k" using g D unfolding grows_def data_blk_def by blast
  qed
  show sl: "slot V' F j = slot V F j" for j
  proof (cases "F ! NDIRECT = 0")
    case False
    then show ?thesis using same(1) [of "F ! NDIRECT"] slot_blocks [of IND V F] by (simp add: slot_def)
  qed (simp add: slot_def)
  then have bl: "blocks V' F = blocks V F" by (simp add: blocks_def)
  show "file_ok B V' F" using ok same(2) bl sl by (simp add: file_ok_def)
  show "blocks V' F \<inter> blocks V' A' = {}"
    using bl dj g file_okD(3) [OF ok] unfolding grows_def by blast
  show "fbyte V' F i = fbyte V F i" if i: "i < MAXFILE * BSIZE"
  proof -
    have "i div BSIZE \<le> IND" using i by (simp add: less_mult_imp_div_less order_less_imp_le)
    then have "slot V F (i div BSIZE) \<noteq> 0 \<Longrightarrow> V' (slot V F (i div BSIZE)) = V (slot V F (i div BSIZE))"
      using same(1) slot_blocks by blast
    then show ?thesis by (simp add: fbyte_def Let_def sl)
  qed
qed

lemma dinode_off_other:
  assumes "i \<noteq> j" and "unat i div IPB = unat j div IPB"
  shows "dinode_off i + 64 \<le> dinode_off j \<or> dinode_off j + 64 \<le> dinode_off i"
proof -
  have "unat i \<noteq> unat j" using assms(1) by (simp add: word_unat_eq_iff)
  then have "unat i mod IPB \<noteq> unat j mod IPB" using assms(2) div_mult_mod_eq [of "unat i" IPB] div_mult_mod_eq [of "unat j" IPB] by metis
  then show ?thesis unfolding dinode_off_def by linarith
qed

text \<open>The other on-disk inodes.\<close>

lemma written_dinodes:
  assumes w: "written d ip s off k f s' L'" and fs: "fs_ok d s L {}" and ok: "inode_ok d ip s"
    and j: "j \<noteq> i_inum (itable s ip)" "unat j < unat (sb_ninodes (sb s))"
  shows "load_dinode (dinode_off j) (view d s' (IBLOCK j (sb s))) J = load_dinode (dinode_off j) (view d s (IBLOCK j (sb s))) J"
proof (cases "IBLOCK j (sb s) = iblock_of s ip")
  case True
  note D = fs_okD [OF fs]
  have "unat j div IPB = unat (i_inum (itable s ip)) div IPB"
    using unat_IBLOCK(1) [OF D(2) j(2)] unat_IBLOCK(1) [OF D(2) inode_okD(2) [OF ok]] True by simp
  note o = dinode_off_other [OF j(1) this]
  have "view d s' (iblock_of s ip) = store_dinode (dinode_off (i_inum (itable s ip))) (itable s' ip) (view d s (iblock_of s ip))"
    using w by (simp add: written_def)
  moreover have "dinode_off (i_inum (itable s ip)) + 64 \<le> length (view d s (iblock_of s ip))" using D(5) dinode_off_bound by simp
  ultimately show ?thesis
    using load_store_other [OF _ _ o] file_okD(1) [OF writtenD(3) [OF w]] True by simp
next
  case False
  note D = fs_okD [OF fs]
  note nb = inode_blk [OF D(2) j(2)]
  have "((view d s')(iblock_of s ip := view d s (iblock_of s ip))) (IBLOCK j (sb s)) = view d s (IBLOCK j (sb s))"
    using w nb(2,3) file_okD(2) [OF inode_okD(3) [OF ok]] unfolding written_def grows_def by blast
  then show ?thesis using False by simp
qed

lemma written_files:
  assumes w: "written d ip s off k f s' L'" and fs: "fs_ok d s L {}" and ok: "inode_ok d ip s"
    and F: "file_ok (sb s) (view d s) F" and dj: "blocks (view d s) F \<inter> blocks (view d s) (addrs_of s ip) = {}"
  shows "file_ok (sb s) (view d s') F" and "blocks (view d s') F \<inter> blocks (view d s') (addrs_of s' ip) = {}"
    and "i < MAXFILE * BSIZE \<Longrightarrow> fbyte (view d s') F i = fbyte (view d s) F i"
proof -
  note D = fs_okD [OF fs]
  note nb = inode_blk [OF D(2) inode_okD(2) [OF ok]]
  define V where "V = (view d s')(iblock_of s ip := view d s (iblock_of s ip))"
  have v: "view d s' = V(iblock_of s ip := view d s' (iblock_of s ip))" by (auto simp: V_def)
  have g: "grows (sb s) (view d s) (addrs_of s ip) V (addrs_of s' ip)" using w by (simp add: written_def V_def)
  note G = grows_other [OF D(2) g F dj]
  note M = meta_write [where V = V and v = "view d s' (iblock_of s ip)", OF D(2) nb(2,3), folded v]
  show "file_ok (sb s) (view d s') F" by (rule M(4) [OF G(2)])
  have "blocks (view d s') F = blocks V F" using M(3) [OF G(2)] by (simp add: blocks_def)
  moreover have "blocks (view d s') (addrs_of s' ip) = blocks V (addrs_of s' ip)"
    using written_slot [OF w fs ok, folded V_def] by (simp add: blocks_def)
  ultimately show "blocks (view d s') F \<inter> blocks (view d s') (addrs_of s' ip) = {}" using G(3) by simp
  show "fbyte (view d s') F i = fbyte (view d s) F i" if "i < MAXFILE * BSIZE" using M(5) [OF G(2) that] G(4) [OF that] by simp
qed

section \<open>Writing and reading\<close>

text \<open>C4. Writing bytes to a file and reading the same range back gives the bytes written, at any
  offset up to the end of the file and across block boundaries and the indirect block. The source is one that can be
  read (\<open>src_ok\<close>: a kernel buffer, or user memory all of whose pages are present, so that \<^verbatim>\<open>either_copyin\<close> does not fail),
  and the blocks the write may log fit into the cache. Under these hypotheses the write is short only when no block of
  the disk is free.\<close>

theorem writei_readi_roundtrip:
  assumes "fs_ok d s L {}" and "inode_ok d ip s" and "src_ok kend src (unat n) s"
    and "off \<le> i_size (itable s ip)" and "unat off + unat n \<le> MAXFILE * BSIZE"
    and "write_budget s ip L (unat off) (unat n) < NBUF"
  shows "\<exists>k s1 s2. writei kend ip src off n s = Inr (of_nat k, s1) \<and> k \<le> unat n
    \<and> (k < unat n \<longrightarrow> (\<forall>c. unat c < unat (sb_size (sb s)) \<longrightarrow> in_use (sb s) (view d s1) c))
    \<and> readi kend ip (Var []) off (of_nat k) s1 = Inr (of_nat k, map (src_byte src s) [0..<k], s2)"
proof -
  note I = inode_okD [OF assms(2)]
  have sp: "potential (sb s) (addrs_of s ip) L + nblk (unat off) (unat n) < NBUF" using assms(6) by simp
  obtain k s1 L1 where w: "writei kend ip src off n s = Inr (of_nat k, s1)" "k \<le> unat n"
    "written d ip s (unat off) k (src_byte src s) s1 L1" "card L1 \<le> write_budget s ip L (unat off) (unat n)"
    "k < unat n \<longrightarrow> (\<forall>c. unat c < unat (sb_size (sb s)) \<longrightarrow> in_use (sb s) (view d s1) c)"
    by (rule writei_spec [OF assms(1) I(1,2,3) assms(3,4,5) sp])
  note W = writtenD [OF w(3)]
  have ok: "inode_ok d ip s1"
    by (rule written_inode_ok [OF w(3) assms(1,2)]) (use assms(4,5) w(2) in \<open>simp_all add: word_le_nat_alt\<close>)
  have k: "unat (of_nat k :: u32) = k" using w(2) assms(5) by (intro unat_of_nat32) simp
  have o1: "off \<le> i_size (itable s1 ip)" "unat off + unat (of_nat k :: u32) < 2 ^ 32" "card L1 < NBUF" "dst_ok kend (Var []) s1"
    using W(4) w(2,4) assms(4-6) by (simp_all add: word_le_nat_alt k)
  have m: "min (unat (of_nat k :: u32)) (unat (i_size (itable s1 ip)) - unat off) = k" using W(4) by (simp add: k)
  obtain r out s2 k' where r: "readi kend ip (Var []) off (of_nat k) s1 = Inr (r, out, s2)" "r = of_nat k \<and> k' = k \<or> r = -1 \<and> is_user (Var []) \<and> k' < k"
    "delivered (Var []) (map (fbyte (view d s1) (addrs_of s1 ip)) [unat off..<unat off + k']) s1 out s2"
    by (rule readi_spec [OF fs_okD(1) [OF W(1)] ok o1(4,3,1,2), unfolded m])
  have "map (fbyte (view d s1) (addrs_of s1 ip)) [unat off..<unat off + k] = map (src_byte src s) [0..<k]"
    using w(2) assms(5) by (intro nth_equalityI) (simp_all add: W(5) wbytes_def)
  then show ?thesis using w(1,2,5) r by auto
qed

text \<open>C5. Writing a file disturbs nothing else: every other file (a block list with blocks of its own)
  keeps its bytes and stays disjoint from the file written, every other on-disk inode keeps its fields,
  and every other in-memory inode is unchanged; the inode written is saved on disk with its new size.\<close>

theorem writei_isolates:
  assumes "fs_ok d s L {}" and "inode_ok d ip s" and "src_ok kend src (unat n) s"
    and "off \<le> i_size (itable s ip)" and "unat off + unat n \<le> MAXFILE * BSIZE"
    and "write_budget s ip L (unat off) (unat n) < NBUF"
    and "file_ok (sb s) (view d s) F" and "blocks (view d s) F \<inter> blocks (view d s) (addrs_of s ip) = {}"
  shows "\<exists>k s1 L1. writei kend ip src off n s = Inr (of_nat k, s1) \<and> fs_ok d s1 L1 {} \<and> inode_ok d ip s1
    \<and> file_ok (sb s1) (view d s1) F \<and> blocks (view d s1) F \<inter> blocks (view d s1) (addrs_of s1 ip) = {}
    \<and> (\<forall>i < MAXFILE * BSIZE. fbyte (view d s1) F i = fbyte (view d s) F i)
    \<and> (\<forall>j J. j \<noteq> i_inum (itable s ip) \<longrightarrow> unat j < unat (sb_ninodes (sb s)) \<longrightarrow>
         load_dinode (dinode_off j) (view d s1 (IBLOCK j (sb s))) J = load_dinode (dinode_off j) (view d s (IBLOCK j (sb s))) J)
    \<and> (\<forall>j. j \<noteq> ip \<longrightarrow> itable s1 j = itable s j)
    \<and> inode_saved d ip s1 \<and> unat (i_size (itable s1 ip)) = max (unat (i_size (itable s ip))) (unat off + k)"
proof -
  note I = inode_okD [OF assms(2)]
  have sp: "potential (sb s) (addrs_of s ip) L + nblk (unat off) (unat n) < NBUF" using assms(6) by simp
  obtain k s1 L1 where w: "writei kend ip src off n s = Inr (of_nat k, s1)" "k \<le> unat n"
    "written d ip s (unat off) k (src_byte src s) s1 L1"
    by (rule writei_spec [OF assms(1) I(1,2,3) assms(3,4,5) sp])
  note W = writtenD [OF w(3)]
  have ok: "inode_ok d ip s1"
    by (rule written_inode_ok [OF w(3) assms(1,2)]) (use assms(4,5) w(2) in \<open>simp_all add: word_le_nat_alt\<close>)
  show ?thesis
    using w(1) W(1,2,4,9,10) ok written_files [OF w(3) assms(1,2,7,8)] written_dinodes [OF w(3) assms(1,2)]
    by (intro exI [of _ k] exI [of _ s1] exI [of _ L1]) simp
qed

text \<open>C26. A write of the most that \<^verbatim>\<open>filewrite\<close> puts into one transaction fits into the log: however
  the bytes lie on blocks, and even when every block, the indirect block included, is new,
  at most \<^verbatim>\<open>MAXOPBLOCKS\<close> blocks are logged (for a bitmap of up to four blocks).\<close>

theorem writei_log_bound:
  assumes "fs_ok d s {} {}" and "inode_ok d ip s" and "src_ok kend src (unat n) s"
    and "off \<le> i_size (itable s ip)" and "unat off + unat n \<le> MAXFILE * BSIZE"
    and "unat n \<le> 3072" and "unat (sb_size (sb s)) \<le> 4 * BPB"
  shows "\<exists>k s1 L1. writei kend ip src off n s = Inr (of_nat k, s1) \<and> fs_ok d s1 L1 {} \<and> int (card L1) \<le> MAXOPBLOCKS"
proof -
  note I = inode_okD [OF assms(2)] and D = fs_okD [OF assms(1)]
  have "bitmap_blks (sb s) \<subseteq> (\<lambda>q. of_nat q + sb_bmapstart (sb s)) ` {..<4}"
  proof
    fix x assume "x \<in> bitmap_blks (sb s)"
    then obtain b where b: "x = BBLOCK b (sb s)" "unat b < unat (sb_size (sb s))" by (auto simp: bitmap_blks_def)
    have "unat b div BPB < 4" using b(2) assms(7) by (intro less_mult_imp_div_less) simp
    moreover have "b div 8192 = of_nat (unat b div BPB)" by (simp add: word_arith_nat_div)
    ultimately show "x \<in> (\<lambda>q. of_nat q + sb_bmapstart (sb s)) ` {..<4}" by (auto simp: b(1) BBLOCK_def)
  qed
  then have "card (bitmap_blks (sb s)) \<le> card ((\<lambda>q. of_nat q + sb_bmapstart (sb s)) ` {..<4 :: nat})" by (intro card_mono) auto
  also have "\<dots> \<le> 4" using card_image_le [of "{..<4 :: nat}"] by (metis card_lessThan finite_lessThan)
  finally have c: "card (bitmap_blks (sb s)) \<le> 4" .
  have "potential (sb s) (addrs_of s ip) {} \<le> card (bitmap_blks (sb s)) + 1"
    using card_Un_le [of "bitmap_blks (sb s)" "{addrs_of s ip ! NDIRECT} - {0}"] by (auto simp: potential_def)
  moreover have "nblk (unat off) (unat n) \<le> 4"
    using assms(6) mod_less_divisor [of BSIZE "unat off"] by (auto simp: nblk_def intro: div_le_mono [of _ 5118 1024, simplified])
  ultimately have p: "write_budget s ip {} (unat off) (unat n) \<le> 10" using c by simp
  then have sp: "potential (sb s) (addrs_of s ip) {} + nblk (unat off) (unat n) < NBUF" by simp
  obtain k s1 L1 where w: "writei kend ip src off n s = Inr (of_nat k, s1)" "k \<le> unat n"
    "written d ip s (unat off) k (src_byte src s) s1 L1" "card L1 \<le> write_budget s ip {} (unat off) (unat n)"
    by (rule writei_spec [OF assms(1) I(1,2,3) assms(3,4,5) sp])
  then show ?thesis using writtenD(1) [OF w(3)] p by auto
qed

section \<open>Allocation of blocks\<close>

text \<open>C27. The block allocator: \<^verbatim>\<open>balloc\<close> returns the free block with the lowest number, zeroed and marked,
  and fails only when every block is in use; \<^verbatim>\<open>bfree\<close> of that block restores the set of blocks in
  use, and freeing it once more panics.\<close>

theorem balloc_bfree_roundtrip:
  assumes "fs_ok d s L {}" and "card (L \<union> bitmap_blks (sb s)) + 1 < NBUF"
  shows "\<exists>a s1. balloc d s = Inr (a, s1) \<and> (a = 0 \<longrightarrow> (\<forall>c. unat c < unat (sb_size (sb s)) \<longrightarrow> in_use (sb s) (view d s) c))
    \<and> (a \<noteq> 0 \<longrightarrow> data_blk (sb s) a \<and> \<not> in_use (sb s) (view d s) a \<and> (\<forall>c. unat c < unat a \<longrightarrow> in_use (sb s) (view d s) c)
        \<and> view d s1 a = replicate BSIZE 0 \<and> (\<forall>k. k \<notin> bitmap_blks (sb s) \<longrightarrow> k \<noteq> a \<longrightarrow> view d s1 k = view d s k)
        \<and> (\<exists>s2. bfree d a s1 = Inr s2 \<and> bfree d a s2 = Inl (Panic ''freeing free block'')
             \<and> (\<forall>c. unat c < unat (sb_size (sb s)) \<longrightarrow> in_use (sb s) (view d s2) c = in_use (sb s) (view d s) c)))"
proof -
  have sp: "card (L \<union> {} \<union> bitmap_blks (sb s)) < NBUF" and H: "{} \<inter> bitmap_blks (sb s) = {}"
    "\<forall>k \<in> {}. in_use (sb s) (view d s) k" using assms(2) by simp_all
  show ?thesis
  proof (rule balloc_spec [OF assms(1) H sp])
    fix s' assume "balloc d s = Inr (0, s')" "\<And>c. unat c < unat (sb_size (sb s)) \<Longrightarrow> in_use (sb s) (view d s) c"
    then show ?thesis by auto
  next
    fix a s1 assume r: "balloc d s = Inr (a, s1)" "fs_ok d s1 (insert a (insert (BBLOCK a (sb s)) L)) {}" "high s1 = high s"
      "fresh_blk (sb s) a (view d s) (view d s1)"
    let ?B = "sb s" let ?L = "insert a (insert (BBLOCK a (sb s)) L)"
    have a: "data_blk ?B a" "\<not> in_use ?B (view d s) a" "\<forall>c. unat c < unat a \<longrightarrow> in_use ?B (view d s) c"
      "view d s1 a = replicate BSIZE 0" using r(4) by (simp_all add: fresh_blk_def)
    have B: "sb s1 = ?B" using high_fields [OF r(3)] by simp
    note D = fs_okD [OF assms(1)] and D1 = fs_okD [OF r(2), unfolded B]
    have as: "unat a < unat (sb_size ?B)" using a(1) by (simp add: data_blk_def)
    have iu: "in_use ?B (view d s1) c = (c = a \<or> in_use ?B (view d s) c)" if "unat c < unat (sb_size ?B)" for c
      by (rule fresh_in_use [OF D(2) r(4) D(5) that])
    have "?L \<subseteq> insert a (L \<union> bitmap_blks ?B)" using bitmap_blkI [OF a(1)] by auto
    then have "card ?L \<le> card (insert a (L \<union> bitmap_blks ?B))" using txnD(3) [OF D(1)] by (intro card_mono) (auto simp: bitmap_blks_def)
    also have "\<dots> < NBUF" using assms(2) by (simp add: card_insert_if)
    finally have c1: "card (?L \<union> {}) < NBUF" by simp
    have H1: "{} \<inter> bitmap_blks (sb s1) = {}" by simp
    obtain s2 where s2: "bfree d a s1 = Inr s2" "fs_ok d s2 (insert (BBLOCK a ?B) ?L) {}" "high s2 = high s1"
      "view d s2 = clear_blk ?B a (view d s1)"
      using bfree_spec(2) [OF r(2) _ H1 c1] a(1) iu [OF as] unfolding B by blast
    have iu2: "in_use ?B (view d s2) c = in_use ?B (view d s) c" if "unat c < unat (sb_size ?B)" for c
      using in_use_clear [OF D(2) as that D1(5)] iu [OF that] a(2) by (auto simp: s2(4))
    have B2: "sb s2 = ?B" using high_fields [OF s2(3)] B by simp
    have "bfree d a s2 = Inl (Panic ''freeing free block'')"
      by (rule bfree_spec(1) [OF s2(2)]) (use a(1,2) iu2 [OF as] c1 in \<open>simp_all add: B2 insert_commute [of _ a]\<close>)
    moreover have "\<forall>k. k \<notin> bitmap_blks ?B \<longrightarrow> k \<noteq> a \<longrightarrow> view d s1 k = view d s k" using fresh_other [OF r(4)] by auto
    ultimately show ?thesis using r(1) a s2(1) iu2 fresh_nonzero [OF r(4)] by blast
  qed
qed

section \<open>A small file system to evaluate the properties at\<close>

definition demo_sb :: superblock where
  "demo_sb = \<lparr>sb_magic = 0x10203040, sb_size = 200, sb_nblocks = 164, sb_ninodes = 16, sb_nlog = 31, sb_logstart = 2,
     sb_inodestart = 33, sb_bmapstart = 35\<rparr>"

definition demo_bitmap :: "u8 list" where
  "demo_bitmap = [255, 255, 255, 255, 15] @ replicate 1019 0"

definition demo_inode :: "u32 \<Rightarrow> inode" where
  "demo_inode i = \<lparr>i_dev = 1, i_inum = i, i_ref = 1, i_lock = initsleeplock, i_valid = True, i_type = T_FILE, i_major = 0,
     i_minor = 0, i_nlink = 1, i_size = 0, i_addrs = replicate 13 0\<rparr>"

definition demo_proc :: proc where
  "demo_proc = \<lparr>p_state = RUNNING, p_chan = None, p_killed = False, p_xstate = 0, p_pid = 1, p_parent = None, p_kstack = 0,
     p_sz = 0, p_pagetable = 0, p_trapframe = 0, p_context = \<lparr>c_ra = 0, c_sp = 0\<rparr>, p_ofile = replicate 16 None, p_cwd = None, p_name = []\<rparr>"

definition demo_stats :: kstats where
  "demo_stats = \<lparr>
     file_stats_of = \<lparr>open_count = 0, close_count = 0, read_count = 0, write_count = 0, link_count = 0, unlink_count = 0,
       mkdir_count = 0, failed_ops = 0\<rparr>,
     proc_stats_of = \<lparr>exit_count = 0, getpid_count = 0, fork_count = 0, wait_count = 0, sbrk_count = 0, pause_count = 0,
       kill_count = 0, uptime_count = 0, failed_operations = 0\<rparr>,
     syscall_stats_of = \<lparr>syscall_count = replicate 22 0, total_calls = 0, failed_calls = 0\<rparr>,
     trap_stats_of = \<lparr>trap_syscall_count = 0, pagefault_count = 0, interrupt_count = 0, exception_count = 0,
       unknown_trap_count = 0\<rparr>,
     exec_stats_of = \<lparr>total_execs = 0, failed_execs = 0, security_violations = 0\<rparr>,
     recent_forks = 0, last_fork_time = 0\<rparr>"

definition demo_kernel :: kernel where
  "demo_kernel = log_state.extend
     (bcache.extend ((bcache.truncate demo_bcache)\<lparr>disk := (\<lambda>_. replicate 1024 0)(35 := demo_bitmap)\<rparr>)
       (log_state.fields 2 1 False 1 0 (replicate 30 0)))
     (kernel.fields demo_sb (\<lambda>i. demo_inode (of_nat i + 1)) (\<lambda>_. \<lparr>f_type = FD_NONE, f_ref = 0, f_readable = False, f_writable = False, f_pipe = 0,
       f_ip = None, f_off = 0, f_major = 0\<rparr>) (\<lambda>_. None) (\<lambda>_. None)
       (\<lambda>_. \<lparr>pi_data = replicate 512 0, pi_nread = 0, pi_nwrite = 0, pi_readopen = False, pi_writeopen = False\<rparr>)
       \<lparr>cons_buf = replicate 128 0, cons_r = 0, cons_w = 0, cons_e = 0\<rparr> False [] (\<lambda>_. demo_proc) (Some 0) 1 (Some 0) 0 demo_stats)"

definition demo_fs :: kernel where
  "demo_fs = binit demo_kernel"

lemma demo_kernel_fields:
  "log_start demo_kernel = 2" "outstanding demo_kernel = 1" "log_dev demo_kernel = 1"
  "lh_n demo_kernel = 0" "lh_block demo_kernel = replicate 30 0" "disk demo_kernel = (\<lambda>_. replicate 1024 0)(35 := demo_bitmap)"
  "sb demo_kernel = demo_sb" "itable demo_kernel = (\<lambda>i. demo_inode (of_nat i + 1))"
  by (simp_all add: demo_kernel_def demo_bcache_def bcache.defs log_state.defs kernel.defs)

lemma demo_bits: "n < 36 \<Longrightarrow> \<not> bit_free demo_bitmap n"
proof -
  have "list_all (\<lambda>n. \<not> bit_free demo_bitmap n) [0..<36]" by code_simp
  then show "n < 36 \<Longrightarrow> \<not> bit_free demo_bitmap n" by (simp add: list_all_iff)
qed

lemma demo_fs_ok: "fs_ok 1 demo_fs {} {}"
proof -
  have b: "binv 1 demo_fs" "bio_rest demo_fs = bio_rest demo_kernel"
    "cache_of 1 demo_fs = \<lparr>c_view = disk demo_kernel, c_disk = disk demo_kernel, c_ref = (\<lambda>_. 0), c_held = {},
      c_room = NBUF, c_trace = dtrace demo_kernel\<rparr>" unfolding demo_fs_def by (simp_all add: binit_ok [of 1 demo_kernel, simplified])
  note f = log_fields_rest [OF b(2)] and h = high_fields [OF rest_high [OF b(2)]] and dk = demo_kernel_fields
  have "disk demo_fs = disk demo_kernel" using arg_cong [OF b(3), of c_disk] by simp
  moreover have "length demo_bitmap = 1024" by (simp add: demo_bitmap_def)
  ultimately have "txn 1 demo_fs {} {}" using b f by (auto simp: txn_def tx_ok_def dk intro!: exI [of _ "[] :: u32 list"])
  moreover have "layout_ok demo_sb" by (simp add: layout_ok_def demo_sb_def data_start_def)
  moreover have "meta_used demo_sb (disk demo_kernel)"
  proof -
    have "in_use demo_sb (disk demo_kernel) b" if "unat b < 36" for b
    proof -
      have "b div 8192 = 0" using that by (simp add: word_unat_eq_iff unat_div)
      then show ?thesis using demo_bits [OF that] that by (simp add: in_use_def BBLOCK_def demo_sb_def dk)
    qed
    then show ?thesis by (simp add: meta_used_def data_start_def demo_sb_def)
  qed
  ultimately show ?thesis using f h by (simp add: fs_ok_def dk b(3) demo_sb_def)
qed

lemma demo_fields: "sb demo_fs = demo_sb" "itable demo_fs = (\<lambda>i. demo_inode (of_nat i + 1))"
  using high_fields [OF rest_high [OF binit_ok(2) [of 1 demo_kernel, simplified]]]
  by (simp_all add: demo_fs_def demo_kernel_fields)

lemma demo_inode_ok: "inode_ok 1 0 demo_fs" "blocks V (replicate 13 0) = {}" "file_ok B V (replicate 13 0)"
proof -
  have sl: "slot V (replicate 13 0) j = 0" if "j \<le> IND" for V j using that by (auto simp: slot_def)
  show b: "blocks V (replicate 13 0) = {}" for V using sl by (auto simp: blocks_def)
  show f: "file_ok B V (replicate 13 0)" for B V using b [of V] sl by (simp add: file_ok_def)
  show "inode_ok 1 0 demo_fs" using f by (simp add: inode_ok_def demo_fields demo_inode_def demo_sb_def)
qed

lemma demo_bitmap_blks: "bitmap_blks demo_sb = {35}"
proof -
  have e: "BBLOCK b demo_sb = 35" if "unat b < 200" for b
  proof -
    have "b div 8192 = 0" using that by (simp add: word_unat_eq_iff unat_div)
    then show ?thesis by (simp add: BBLOCK_def demo_sb_def)
  qed
  have "unat (sb_size demo_sb) = 200" by (simp add: demo_sb_def)
  then have "bitmap_blks demo_sb = (\<lambda>b. BBLOCK b demo_sb) ` {b. unat b < 200}" by (auto simp: bitmap_blks_def)
  also have "\<dots> = (\<lambda>b. 35) ` {b :: u32. unat b < 200}" using e by (intro image_cong) auto
  also have "\<dots> = {35}" by (auto intro!: image_eqI [of _ _ 0])
  finally show ?thesis .
qed

lemma demo_budget: "potential (sb demo_fs) (addrs_of demo_fs 0) {} = 2" "unat (sb_size (sb demo_fs)) = 200"
  by (simp_all add: potential_def demo_fields demo_inode_def demo_bitmap_blks) (simp add: demo_sb_def)

theorem writei_readi_roundtrip_witness:
  "\<exists>k s1 s2. writei 0 0 (Var [7, 8, 9]) 0 3 demo_fs = Inr (of_nat k, s1) \<and> k \<le> 3
    \<and> readi 0 0 (Var []) 0 (of_nat k) s1 = Inr (of_nat k, map ((!) [7, 8, 9]) [0..<k], s2)"
proof -
  have p: "src_ok 0 (Var [7, 8, 9]) (unat (3 :: u32)) demo_fs" "0 \<le> i_size (itable demo_fs 0)"
    "unat (0 :: u32) + unat (3 :: u32) \<le> MAXFILE * BSIZE" "write_budget demo_fs 0 {} (unat (0 :: u32)) (unat (3 :: u32)) < NBUF"
    by (simp_all add: demo_budget nblk_def)
  have e: "src_byte (Var [7, 8, 9]) demo_fs = (!) [7, 8, 9]" by (rule ext) simp
  show ?thesis using writei_readi_roundtrip [OF demo_fs_ok demo_inode_ok(1) p, unfolded e] by fastforce
qed

theorem writei_isolates_witness:
  "\<exists>k s1 L1. writei 0 0 (Var [7, 8, 9]) 0 3 demo_fs = Inr (of_nat k, s1) \<and> fs_ok 1 s1 L1 {} \<and> inode_ok 1 0 s1
    \<and> file_ok (sb s1) (view 1 s1) (addrs_of demo_fs 1) \<and> inode_saved 1 0 s1 \<and> itable s1 1 = itable demo_fs 1"
proof -
  have b: "write_budget demo_fs 0 {} (unat (0 :: u32)) (unat (3 :: u32)) < NBUF" by (simp add: demo_budget nblk_def)
  have F: "addrs_of demo_fs 1 = replicate 13 0" by (simp add: demo_fields demo_inode_def)
  have p: "src_ok 0 (Var [7, 8, 9]) (unat (3 :: u32)) demo_fs" "0 \<le> i_size (itable demo_fs 0)"
    "unat (0 :: u32) + unat (3 :: u32) \<le> MAXFILE * BSIZE" "file_ok (sb demo_fs) (view 1 demo_fs) (addrs_of demo_fs 1)"
    "blocks (view 1 demo_fs) (addrs_of demo_fs 1) \<inter> blocks (view 1 demo_fs) (addrs_of demo_fs 0) = {}"
    unfolding F using demo_inode_ok(2,3) by simp_all
  show ?thesis using writei_isolates [OF demo_fs_ok demo_inode_ok(1) p(1-3) b p(4,5)] by fastforce
qed

theorem writei_log_bound_witness:
  "\<exists>k s1 L1. writei 0 0 (Var (replicate 3072 1)) 0 3072 demo_fs = Inr (of_nat k, s1) \<and> fs_ok 1 s1 L1 {} \<and> int (card L1) \<le> 10"
proof -
  have p: "src_ok 0 (Var (replicate 3072 1)) (unat (3072 :: u32)) demo_fs" "0 \<le> i_size (itable demo_fs 0)"
    "unat (0 :: u32) + unat (3072 :: u32) \<le> MAXFILE * BSIZE" "unat (3072 :: u32) \<le> 3072" "unat (sb_size (sb demo_fs)) \<le> 4 * BPB"
    by (simp_all add: demo_budget)
  show ?thesis using writei_log_bound [OF demo_fs_ok demo_inode_ok(1) p] by simp
qed

theorem balloc_bfree_roundtrip_witness:
  "\<exists>a s1. balloc 1 demo_fs = Inr (a, s1)
    \<and> (a = 0 \<or> (\<exists>s2. bfree 1 a s1 = Inr s2 \<and> bfree 1 a s2 = Inl (Panic ''freeing free block'')))"
proof -
  have c: "card ({} \<union> bitmap_blks (sb demo_fs)) + 1 < NBUF" by (simp add: demo_fields demo_bitmap_blks)
  show ?thesis using balloc_bfree_roundtrip [OF demo_fs_ok c] by blast
qed

end
