(* ===== verification/Ring.thy ===== *)
theory Ring
  imports Kstate
begin

text \<open>
  Bounded queues. The pipe buffer and the console input buffer are arrays with counters that
  only grow and wrap around; a position is the counter modulo the size of the array. The locale \<open>fifo\<close>
  is what their users rely on. Wakeups and the copies to and from the running process are
  described as well, since every user of a queue needs them.
\<close>

section \<open>The contents of a ring buffer\<close>

definition ring_list :: "nat \<Rightarrow> 'a list \<Rightarrow> 'w::len word \<Rightarrow> 'w word \<Rightarrow> 'a list" where
  "ring_list N d r w = map (\<lambda>i. d ! ((unat r + i) mod N)) [0..<unat (w - r)]"

lemma length_ring_list [simp]: "length (ring_list N d r w) = unat (w - r)"
  by (simp add: ring_list_def)

lemma ring_list_same [simp]: "ring_list N d r r = []"
  by (simp add: ring_list_def)

lemma ring_empty_iff: "ring_list N d r w = [] \<longleftrightarrow> r = w"
proof -
  have "ring_list N d r w = [] \<longleftrightarrow> unat (w - r) = 0" by (simp add: ring_list_def)
  also have "\<dots> \<longleftrightarrow> w - r = 0" by (simp add: unat_eq_zero)
  finally show ?thesis by auto
qed

lemma ring_index:
  fixes r :: "'w::len word"
  assumes "N dvd 2 ^ LENGTH('w)"
  shows "unat (r + of_nat i) mod N = (unat r + i) mod N"
  using assms by (simp add: unat_word_ariths unat_of_nat take_bit_eq_mod mod_mod_cancel mod_add_right_eq)

lemma ring_next:
  fixes w r :: "'w::len word"
  assumes "unat (w - r) < n" and "n < 2 ^ LENGTH('w)"
  shows "unat (w + 1 - r) = unat (w - r) + 1"
proof -
  have "unat (w - r) + 1 < 2 ^ LENGTH('w)" using assms by simp
  then have "unat (w - r + 1) = unat (w - r) + 1" by (simp add: unat_word_ariths)
  then show ?thesis by (simp add: algebra_simps)
qed

lemma ring_end: "(unat r + unat (w - r)) mod N = unat w mod N" if "N dvd 2 ^ LENGTH('w)" for r w :: "'w::len word"
  using ring_index [OF that, of r "unat (w - r)"] by simp

lemma ring_put:
  fixes w r :: "'w::len word"
  assumes "N dvd 2 ^ LENGTH('w)" and "length d = N" and "unat (w - r) < N" and "N < 2 ^ LENGTH('w)"
  shows "ring_list N (d[unat w mod N := x]) r (w + 1) = ring_list N d r w @ [x]"
proof -
  note e = ring_next [OF assms(3,4)]
  have "unat w mod N \<noteq> (unat r + i) mod N" if i: "i < unat (w - r)" for i
  proof
    assume "unat w mod N = (unat r + i) mod N"
    then have "(unat r + i) mod N = (unat r + unat (w - r)) mod N" using ring_end [OF assms(1), of r w] by simp
    then have "N dvd unat (w - r) - i" using i mod_eq_dvd_iff_nat [of "unat r + i" "unat r + unat (w - r)" N] by simp
    then have "N \<le> unat (w - r) - i" using i by (intro dvd_imp_le) simp_all
    then show False using assms(3) by simp
  qed
  moreover have "unat w mod N < length d" using assms(2,3) by simp
  ultimately show ?thesis using ring_end [OF assms(1), of r w] by (simp add: ring_list_def e)
qed

lemma ring_get:
  fixes w r :: "'w::len word"
  assumes "N dvd 2 ^ LENGTH('w)" and "r \<noteq> w"
  shows "ring_list N d r w = d ! (unat r mod N) # ring_list N d (r + 1) w"
proof -
  define n where "n = unat (w - (r + 1))"
  have "unat (w - r) \<noteq> 0" using assms(2) by (simp add: unat_eq_zero)
  moreover have "w - (r + 1) = w - r - 1" by simp
  ultimately have e: "unat (w - r) = Suc n" unfolding n_def by (metis Suc_pred' neq0_conv unat_minus_one unat_0)
  have "[0..<Suc n] = 0 # map Suc [0..<n]" by (simp add: upt_conv_Cons map_Suc_upt del: upt_Suc)
  moreover have "(unat r + Suc i) mod N = (unat (r + 1) + i) mod N" for i
    using ring_index [OF assms(1), of r "Suc i"] ring_index [OF assms(1), of "r + 1" i] by (simp add: ac_simps)
  ultimately show ?thesis by (simp add: ring_list_def e n_def [symmetric] comp_def del: upt_Suc)
qed

lemma ring_drop:
  fixes w r :: "'w::len word"
  assumes "k \<le> unat (w - r)"
  shows "ring_list N d r (w - of_nat k) = take (unat (w - r) - k) (ring_list N d r w)"
proof -
  have "k < 2 ^ LENGTH('w)" using le_less_trans [OF assms unsigned_less] .
  then have k: "unat (of_nat k :: 'w word) = k" by (simp add: unat_of_nat take_bit_nat_eq_self)
  have "unat (w - of_nat k - r) = unat (w - r) - k"
    using unat_sub [of "of_nat k" "w - r"] assms k by (simp add: word_le_nat_alt algebra_simps)
  then show ?thesis by (simp add: ring_list_def take_map)
qed

section \<open>First in, first out\<close>

locale fifo =
  fixes content :: "'b \<Rightarrow> 'a list" and put :: "'a \<Rightarrow> 'b \<Rightarrow> 'b" and front :: "'b \<Rightarrow> 'a" and pop :: "'b \<Rightarrow> 'b"
    and ok :: "'b \<Rightarrow> bool" and cap :: nat
  assumes put: "ok b \<Longrightarrow> length (content b) < cap \<Longrightarrow> ok (put x b) \<and> content (put x b) = content b @ [x]"
    and get: "ok b \<Longrightarrow> content b \<noteq> [] \<Longrightarrow> ok (pop b) \<and> content b = front b # content (pop b)"
    and room: "ok b \<Longrightarrow> length (content b) \<le> cap"
begin

lemma put_all:
  "ok b \<Longrightarrow> length (content b) + length xs \<le> cap \<Longrightarrow> ok (fold put xs b) \<and> content (fold put xs b) = content b @ xs"
proof (induction xs arbitrary: b)
  case (Cons x xs)
  then show ?case using put [of b x] by simp
qed simp

text \<open>An interleaving of puts (\<open>Some x\<close>) and gets (\<open>None\<close>) that respects the bounds: what has been taken
  out, and what is left, is what was put in, in order.\<close>

fun run :: "'a option list \<Rightarrow> 'b \<Rightarrow> 'a list \<times> 'b" where
  "run [] b = ([], b)"
| "run (Some x # ops) b = (if length (content b) < cap then run ops (put x b) else run ops b)"
| "run (None # ops) b = (if content b = [] then run ops b else case run ops (pop b) of (out, b') \<Rightarrow> (front b # out, b'))"

fun accepted :: "'a option list \<Rightarrow> 'b \<Rightarrow> 'a list" where
  "accepted [] b = []"
| "accepted (Some x # ops) b = (if length (content b) < cap then x # accepted ops (put x b) else accepted ops b)"
| "accepted (None # ops) b = (if content b = [] then accepted ops b else accepted ops (pop b))"

lemma run_fifo: "ok b \<Longrightarrow> content b @ accepted ops b = fst (run ops b) @ content (snd (run ops b))"
proof (induction ops b rule: run.induct)
  case (2 x ops b)
  then show ?case using put [of b x] by simp
next
  case (3 ops b)
  then show ?case using get [of b] by (auto split: prod.splits)
qed simp

end

section \<open>Wakeups\<close>

definition woken :: "chan \<Rightarrow> nat option \<Rightarrow> nat \<Rightarrow> proc \<Rightarrow> proc" where
  "woken ch m i p =
     (if i < NPROC \<and> m \<noteq> Some i \<and> p_state p = SLEEPING \<and> p_chan p = Some ch then p\<lparr>p_state := RUNNABLE\<rparr> else p)"

lemma wakeup_procs:
  "wakeup ch s = s\<lparr>procs := \<lambda>i. woken ch (me s) i (procs s i)\<rparr>"
proof -
  define f where "f = (\<lambda>i s. if me s \<noteq> Some i \<and> p_state (procs s i) = SLEEPING \<and> p_chan (procs s i) = Some ch
                 then upd_proc i (\<lambda>p. p\<lparr>p_state := RUNNABLE\<rparr>) s else s)"
  have "fold f [0..<n] s = s\<lparr>procs := \<lambda>i. if i < n \<and> me s \<noteq> Some i \<and> p_state (procs s i) = SLEEPING \<and> p_chan (procs s i) = Some ch
      then (procs s i)\<lparr>p_state := RUNNABLE\<rparr> else procs s i\<rparr>" for n
  proof (induction n)
    case 0
    show ?case by simp
  next
    case (Suc n)
    have "fold f [0..<Suc n] s = f n (fold f [0..<n] s)" by simp
    then show ?case unfolding Suc by (auto simp: f_def upd_proc_def fun_eq_iff less_Suc_eq)
  qed
  from this [of NPROC] show ?thesis unfolding wakeup_def f_def [symmetric] by (simp add: woken_def cong: if_cong)
qed

section \<open>The address space of the running process\<close>

lemma user_inv_fields:
  fixes s s' :: kernel
  assumes "kmem.truncate s' = kmem.truncate s"
  shows "user_inv kend lim psz s' root xs = user_inv kend lim psz s root xs"
proof -
  have e: "mem s' = mem s" "freelist s' = freelist s" "free_pages s' = free_pages s" "total_allocated s' = total_allocated s"
    "total_freed s' = total_freed s" "current_allocated s' = current_allocated s"
    using assms by (simp_all add: kmem.truncate_def)
  show ?thesis by (simp only: user_inv_def as_inv_def pt_inv_def free_list_def e)
qed

text \<open>The running process \<open>p\<close> with its page table.\<close>

definition runs :: "u64 \<Rightarrow> nat \<Rightarrow> kernel \<Rightarrow> bool" where
  "runs kend p s \<longleftrightarrow> me s = Some p \<and> p_state (procs s p) = RUNNING
     \<and> (\<exists>lim xs. user_inv kend lim (p_sz (procs s p)) s (p_pagetable (procs s p)) xs)"

abbreviation root_of :: "kernel \<Rightarrow> nat \<Rightarrow> u64" where
  "root_of s p \<equiv> p_pagetable (procs s p)"

lemma more_fields:
  fixes s s' :: kernel
  assumes "kmem.more s' = kmem.more s"
  shows "procs s' = procs s" and "me s' = me s" and "pipes s' = pipes s" and "consb s' = consb s"
  using assms by (cases s rule: kernel.cases; cases s' rule: kernel.cases; simp)+

lemma runs_upd_pipe [simp]: "runs kend p (upd_pipe pi f s) = runs kend p s"
proof -
  have "kmem.truncate (upd_pipe pi f s) = kmem.truncate s" by (simp add: upd_pipe_def kmem.truncate_def)
  from user_inv_fields [OF this] show ?thesis by (simp add: runs_def) (simp add: upd_pipe_def)
qed

lemma runs_copyin:
  assumes "runs kend p s" and "len < 2 ^ 64"
  obtains r bs s' where "copyin kend (p_sz (procs s p)) (root_of s p) (root_of s p) a len s = Inr (r, bs, s')"
    and "r = 0 \<and> length bs = len \<or> r = -1 \<and> length bs < len"
    and "bs = map (\<lambda>i. ubyte (mem s) (root_of s p) (a + of_nat i)) [0..<length bs]"
    and "ubyte (mem s') (root_of s p) = ubyte (mem s) (root_of s p)" and "kmem.more s' = kmem.more s" and "runs kend p s'"
    and "(\<forall>i < len. user_ok (mem s) (root_of s p) (PGROUNDDOWN (a + of_nat i))) \<longrightarrow> r = 0"
    and "\<forall>v. user_ok (mem s) (root_of s p) v \<longrightarrow> amap (mem s') (root_of s p) v = amap (mem s) (root_of s p) v"
proof -
  obtain lim xs where u: "user_inv kend lim (p_sz (procs s p)) s (root_of s p) xs" using assms(1) by (auto simp: runs_def)
  obtain r bs s' ys where c: "copyin kend (p_sz (procs s p)) (root_of s p) (root_of s p) a len s = Inr (r, bs, s')"
    "as_step kend lim (root_of s p) s xs s' ys" "r = 0 \<and> length bs = len \<or> r = -1 \<and> length bs < len"
    "bs = map (\<lambda>i. ubyte (mem s) (root_of s p) (a + of_nat i)) [0..<length bs]"
    "ubyte (mem s') (root_of s p) = ubyte (mem s) (root_of s p)"
    "(\<forall>i < len. user_ok (mem s) (root_of s p) (PGROUNDDOWN (a + of_nat i))) \<longrightarrow> r = 0 \<and> (\<exists>f. s' = upd_stats f s)"
    "\<forall>v. user_ok (mem s) (root_of s p) v \<longrightarrow> amap (mem s') (root_of s p) v = amap (mem s) (root_of s p) v"
    using copyin_spec [OF u assms(2), of a] by blast
  have m: "kmem.more s' = kmem.more s" using c(2) by (simp add: as_step_def)
  note f = more_fields [OF m]
  have "runs kend p s'" using assms(1) user_inv_step [OF u c(2)] by (auto simp: runs_def f)
  then show ?thesis using that c m by blast
qed

lemma runs_copyout:
  assumes "runs kend p s" and "length src < 2 ^ 64"
  obtains r s' k where "copyout kend (p_sz (procs s p)) (root_of s p) (root_of s p) a src s = Inr (r, s')"
    and "r = 0 \<and> k = length src \<or> r = -1 \<and> k < length src"
    and "ubyte (mem s') (root_of s p) = write_at a (take k src) (ubyte (mem s) (root_of s p))"
    and "kmem.more s' = kmem.more s" and "runs kend p s'"
    and "(\<forall>i < length src. user_wr (mem s) (root_of s p) (PGROUNDDOWN (a + of_nat i))) \<longrightarrow> r = 0"
    and "\<forall>v. user_ok (mem s) (root_of s p) v \<longrightarrow> amap (mem s') (root_of s p) v = amap (mem s) (root_of s p) v"
proof -
  obtain lim xs where u: "user_inv kend lim (p_sz (procs s p)) s (root_of s p) xs" using assms(1) by (auto simp: runs_def)
  obtain r s' ys k where c: "copyout kend (p_sz (procs s p)) (root_of s p) (root_of s p) a src s = Inr (r, s')"
    "as_step kend lim (root_of s p) s xs s' ys" "r = 0 \<and> k = length src \<or> r = -1 \<and> k < length src"
    "ubyte (mem s') (root_of s p) = write_at a (take k src) (ubyte (mem s) (root_of s p))"
    "(\<forall>i < length src. user_wr (mem s) (root_of s p) (PGROUNDDOWN (a + of_nat i))) \<longrightarrow> r = 0"
    "\<forall>v. user_ok (mem s) (root_of s p) v \<longrightarrow> amap (mem s') (root_of s p) v = amap (mem s) (root_of s p) v"
    using copyout_spec [OF u assms(2), of a] by blast
  have m: "kmem.more s' = kmem.more s" using c(2) by (simp add: as_step_def)
  note f = more_fields [OF m]
  have "runs kend p s'" using assms(1) user_inv_step [OF u c(2)] by (auto simp: runs_def f)
  then show ?thesis using that c m by blast
qed

lemma pipes_wakeup [simp]: "pipes (wakeup ch s) = pipes s" "me (wakeup ch s) = me s" "mem (wakeup ch s) = mem s" "consb (wakeup ch s) = consb s"
  by (simp_all add: wakeup_procs)

lemma procs_wakeup: "procs (wakeup ch s) i = woken ch (me s) i (procs s i)"
  by (simp add: wakeup_procs)

lemma woken_fields [simp]: "p_pagetable (woken ch m i p) = p_pagetable p" "p_sz (woken ch m i p) = p_sz p"
  "p_killed (woken ch m i p) = p_killed p" "woken ch (Some i) i p = p" "p_chan (woken ch m i p) = p_chan p"
  by (simp_all add: woken_def)

lemma runs_wakeup:
  assumes "runs kend p s"
  shows "runs kend p (wakeup ch s)"
proof -
  have "kmem.truncate (wakeup ch s) = kmem.truncate s" by (simp add: wakeup_procs kmem.truncate_def)
  from user_inv_fields [OF this] show ?thesis using assms by (auto simp: runs_def procs_wakeup)
qed

lemma sleep_running:
  assumes "me s = Some p"
  shows "sleep ch s = Inr ((upd_proc p (\<lambda>P. P\<lparr>p_chan := Some ch, p_state := SLEEPING\<rparr>) s)\<lparr>me := None\<rparr>)"
  using assms by (simp add: sleep_def sched_def myproc_def upd_proc_def)

definition asleep :: "chan \<Rightarrow> kernel \<Rightarrow> nat \<Rightarrow> bool" where
  "asleep ch s i \<longleftrightarrow> i < NPROC \<and> p_state (procs s i) = SLEEPING \<and> p_chan (procs s i) = Some ch"

lemma woken_asleep:
  assumes "procs s' = (\<lambda>i. woken ch (me s) i (procs s i))" and "\<And>i. me s = Some i \<Longrightarrow> p_state (procs s i) = RUNNING"
  shows "\<not> asleep ch s' i" and "asleep ch' s' i \<Longrightarrow> asleep ch' s i"
  using assms by (auto simp: asleep_def woken_def split: if_splits)

end
