(* ===== verification/RunDemo.thy ===== *)
theory RunDemo
  imports Ring
begin

text \<open>
  A running process, with an empty pipe at address 7 and an idle console, to evaluate properties at.
\<close>

definition demo_pipe0 :: pipe where
  "demo_pipe0 = \<lparr>pi_data = replicate 512 0, pi_nread = 0, pi_nwrite = 0, pi_readopen = True, pi_writeopen = True\<rparr>"

definition demo_cons0 :: cons where
  "demo_cons0 = \<lparr>cons_buf = replicate 128 0, cons_r = 0, cons_w = 0, cons_e = 0\<rparr>"

definition demo_run :: "kernel \<Rightarrow> bool" where
  "demo_run s \<longleftrightarrow> runs demo_kend 0 s \<and> pipes s 7 = demo_pipe0 \<and> consb s = demo_cons0 \<and> \<not> p_killed (procs s 0)
     \<and> (\<forall>i. i \<noteq> 0 \<longrightarrow> p_state (procs s i) = UNUSED)"

text \<open>The process has one page of memory, at 0x1000.\<close>

lemma demo_runs:
  obtains s where "demo_run s" and "\<forall>j < 16. user_wr (mem s) (root_of s 0) (PGROUNDDOWN (0x1000 + of_nat j))"
proof -
  fix s :: kernel
  obtain s0 root s1 xs where b: "kinit demo_kend s = Inr s0" "uvmcreate s0 = (root, s1)"
    "user_inv demo_kend 0x100000 0x5000 s1 root xs" "amap (mem s1) root = (\<lambda>_. 0)" "3 \<le> length xs" by (rule demo_user_inv)
  have pg: "PGROUNDDOWN 0x1000 = (0x1000 :: u64)" by (simp add: PGROUNDDOWN_def)
  have l: "length (replicate 16 (0 :: u8)) < 2 ^ 64" by simp
  have "\<exists>s'. copyout demo_kend 0x5000 root root 0x1000 (replicate 16 0) s1 = Inr (0, s')"
    by (rule copyout_lazy_ok [OF b(3) _ _ _ _ b(5)]) (simp_all add: pg b(4) mapped_def)
  then obtain s2 where c: "copyout demo_kend 0x5000 root root 0x1000 (replicate 16 0) s1 = Inr (0, s2)" ..
  from copyout_spec [OF b(3) l, of "0x1000"] c obtain ys where y: "as_step demo_kend 0x100000 root s1 xs s2 ys"
    "\<forall>i < 16. user_wr (mem s2) root (PGROUNDDOWN (0x1000 + of_nat i))" by auto
  let ?p = "(procs s2 0)\<lparr>p_state := RUNNING, p_killed := False, p_sz := 0x5000, p_pagetable := root\<rparr>"
  let ?s = "s2\<lparr>me := Some 0, procs := (\<lambda>i. (procs s2 i)\<lparr>p_state := UNUSED\<rparr>)(0 := ?p), pipes := (\<lambda>_. demo_pipe0), consb := demo_cons0\<rparr>"
  have "kmem.truncate ?s = kmem.truncate s2" by (simp add: kmem.truncate_def)
  from user_inv_fields [OF this] have "runs demo_kend 0 ?s" using user_inv_step [OF b(3) y(1)] by (auto simp: runs_def)
  then show ?thesis using that [of ?s] y(2) by (simp add: demo_run_def)
qed

end
