(* ===== verification/PipeProps.thy ===== *)
theory PipeProps
  imports RunDemo Pipe
begin

text \<open>
  Pipes as queues of bytes: the ring buffer with its wrapping counters is an instance of \<open>fifo\<close>, and
  the calls move bytes between it and the memory of the running process.
\<close>

definition pipe_ok :: "pipe \<Rightarrow> bool" where
  "pipe_ok P \<longleftrightarrow> length (pi_data P) = PIPESIZE \<and> unat (pi_nwrite P - pi_nread P) \<le> PIPESIZE"

definition pipe_bytes :: "pipe \<Rightarrow> u8 list" where
  "pipe_bytes P = ring_list PIPESIZE (pi_data P) (pi_nread P) (pi_nwrite P)"

interpretation pq: fifo pipe_bytes pipe_put pipe_head pipe_advance pipe_ok PIPESIZE
proof
  fix b x assume b: "pipe_ok b" "length (pipe_bytes b) < PIPESIZE"
  have l: "unat (pi_nwrite b - pi_nread b) < PIPESIZE" "length (pi_data b) = PIPESIZE" using b by (simp_all add: pipe_bytes_def pipe_ok_def)
  have m: "unat (pi_nwrite b mod 512) = unat (pi_nwrite b) mod PIPESIZE" by (simp add: unat_mod)
  have "pipe_bytes (pipe_put x b) = pipe_bytes b @ [x]"
    using ring_put [of PIPESIZE "pi_data b" "pi_nwrite b" "pi_nread b" x] l by (simp add: pipe_bytes_def pipe_put_def m)
  moreover have "unat (pi_nwrite b + 1 - pi_nread b) = unat (pi_nwrite b - pi_nread b) + 1" by (rule ring_next [OF l(1)]) simp
  ultimately show "pipe_ok (pipe_put x b) \<and> pipe_bytes (pipe_put x b) = pipe_bytes b @ [x]"
    using l by (simp add: pipe_ok_def pipe_put_def)
next
  fix b assume b: "pipe_ok b" "pipe_bytes b \<noteq> []"
  have ne: "pi_nread b \<noteq> pi_nwrite b" using b(2) by (auto simp: pipe_bytes_def)
  have m: "unat (pi_nread b mod 512) = unat (pi_nread b) mod PIPESIZE" by (simp add: unat_mod)
  have g: "pipe_bytes b = pipe_head b # pipe_bytes (pipe_advance b)"
    using ring_get [of PIPESIZE, OF _ ne] by (simp add: pipe_bytes_def pipe_head_def pipe_advance_def m)
  have "unat (pi_nwrite b - pi_nread b) = Suc (unat (pi_nwrite b - (pi_nread b + 1)))"
    using arg_cong [OF g, of length] by (simp add: pipe_bytes_def pipe_advance_def)
  then show "pipe_ok (pipe_advance b) \<and> pipe_bytes b = pipe_head b # pipe_bytes (pipe_advance b)"
    using b(1) g by (simp add: pipe_ok_def pipe_advance_def)
qed (simp add: pipe_ok_def pipe_bytes_def)

lemma pipe_empty: "pi_nread P = pi_nwrite P \<longleftrightarrow> pipe_bytes P = []"
  by (simp add: pipe_bytes_def ring_empty_iff)

lemma pipe_full:
  assumes "pipe_ok P"
  shows "pi_nwrite P = pi_nread P + 512 \<longleftrightarrow> length (pipe_bytes P) = PIPESIZE"
proof -
  have "pi_nwrite P = pi_nread P + 512 \<longleftrightarrow> pi_nwrite P - pi_nread P = 512" by (auto simp: algebra_simps)
  also have "\<dots> \<longleftrightarrow> unat (pi_nwrite P - pi_nread P) = 512" by (simp add: word_unat_eq_iff)
  finally show ?thesis by (simp add: pipe_bytes_def)
qed

section \<open>Writing\<close>

text \<open>What a call leaves of the other pipes and of this one, besides its bytes.\<close>

definition only_pipe :: "u64 \<Rightarrow> kernel \<Rightarrow> kernel \<Rightarrow> bool" where
  "only_pipe pi s s' \<longleftrightarrow> pipe_ok (pipes s' pi) \<and> (\<forall>q. q \<noteq> pi \<longrightarrow> pipes s' q = pipes s q)
     \<and> pi_readopen (pipes s' pi) = pi_readopen (pipes s pi) \<and> pi_writeopen (pipes s' pi) = pi_writeopen (pipes s pi)"

lemma pipewrite_loop_spec:
  assumes "runs kend p s" and "pipe_ok (pipes s pi)" and "pi_readopen (pipes s pi)" and "\<not> p_killed (procs s p)"
  shows "\<exists>o' s' k. pipewrite_loop kend pi addr n j s = Inr (o', s') \<and> only_pipe pi s s'
    \<and> pipe_bytes (pipes s' pi) = pipe_bytes (pipes s pi) @ map (\<lambda>m. ubyte (mem s) (root_of s p) (addr + of_nat (j + m))) [0..<k]
    \<and> ubyte (mem s') (root_of s p) = ubyte (mem s) (root_of s p)
    \<and> (o' = Ret (int (j + k)) \<and> me s' = Some p \<and> runs kend p s' \<and> procs s' = (\<lambda>i. woken (PipeRead pi) (Some p) i (procs s i))
         \<and> (int (j + k) < n \<longrightarrow> \<not> user_ok (mem s) (root_of s p) (PGROUNDDOWN (addr + of_nat (j + k))))
       \<or> o' = Sleep (j + k) [] \<and> int (j + k) < n \<and> me s' = None \<and> length (pipe_bytes (pipes s' pi)) = PIPESIZE
         \<and> procs s' = (\<lambda>i. woken (PipeRead pi) (Some p) i (procs s i))(p := (procs s p)\<lparr>p_chan := Some (PipeWrite pi), p_state := SLEEPING\<rparr>))
    \<and> (int j \<le> n \<longrightarrow> int (j + k) \<le> n)"
  using assms
proof (induction "nat n - j" arbitrary: j s rule: less_induct)
  case less
  note r = less.prems(1) and ok = less.prems(2) and op = less.prems(3) and nk = less.prems(4)
  note unf = pipewrite_loop.simps [of kend pi addr n j s]
  have me: "me s = Some p" "p_state (procs s p) = RUNNING" using r by (simp_all add: runs_def)
  show ?case
  proof (cases "int j < n")
    case False
    then have "pipewrite_loop kend pi addr n j s = Inr (Ret (int j), wakeup (PipeRead pi) s)" using unf by simp
    then show ?thesis using False r runs_wakeup [OF r] ok me
      by (intro exI [of _ "Ret (int j)"] exI [of _ "wakeup (PipeRead pi) s"] exI [of _ 0]) (simp add: only_pipe_def procs_wakeup fun_eq_iff)
  next
    case lt: True
    show ?thesis
    proof (cases "pi_nwrite (pipes s pi) = pi_nread (pipes s pi) + 512")
      case True
      let ?s = "wakeup (PipeRead pi) s"
      let ?s' = "(upd_proc p (\<lambda>P. P\<lparr>p_chan := Some (PipeWrite pi), p_state := SLEEPING\<rparr>) ?s)\<lparr>me := None\<rparr>"
      have "pipewrite_loop kend pi addr n j s = Inr (Sleep j [], ?s')"
        using unf lt op nk True me sleep_running [of ?s p] by (simp add: myproc_def killed_def)
      moreover have "procs ?s' = (\<lambda>i. woken (PipeRead pi) (Some p) i (procs s i))(p := (procs s p)\<lparr>p_chan := Some (PipeWrite pi), p_state := SLEEPING\<rparr>)"
        using me by (simp add: upd_proc_def procs_wakeup fun_eq_iff)
      ultimately show ?thesis using lt True ok me pipe_full [OF ok]
        by (intro exI [of _ "Sleep j []"] exI [of _ ?s'] exI [of _ 0]) (simp add: only_pipe_def upd_proc_def)
    next
      case nf: False
      have one: "(1 :: nat) < 2 ^ 64" by simp
      obtain rr bs s1 where c: "copyin kend (p_sz (procs s p)) (root_of s p) (root_of s p) (addr + of_nat j) 1 s = Inr (rr, bs, s1)"
        "rr = 0 \<and> length bs = 1 \<or> rr = -1 \<and> length bs < 1"
        "bs = map (\<lambda>i. ubyte (mem s) (root_of s p) (addr + of_nat j + of_nat i)) [0..<length bs]"
        "ubyte (mem s1) (root_of s p) = ubyte (mem s) (root_of s p)" "kmem.more s1 = kmem.more s" "runs kend p s1"
        "(\<forall>i < 1. user_ok (mem s) (root_of s p) (PGROUNDDOWN (addr + of_nat j + of_nat i))) \<longrightarrow> rr = 0"
        "\<forall>v. user_ok (mem s) (root_of s p) v \<longrightarrow> amap (mem s1) (root_of s p) v = amap (mem s) (root_of s p) v"
        by (rule runs_copyin [OF r one])
      note m = more_fields [OF c(5)]
      show ?thesis
      proof (cases "rr = -1")
        case True
        then have "pipewrite_loop kend pi addr n j s = Inr (Ret (int j), wakeup (PipeRead pi) s1)"
          using unf lt op nk nf me c(1) by (simp add: myproc_def killed_def)
        moreover have "\<not> user_ok (mem s) (root_of s p) (PGROUNDDOWN (addr + of_nat j))" using c(7) True by simp
        ultimately show ?thesis using True c(4) runs_wakeup [OF c(6)] ok me lt
          by (intro exI [of _ "Ret (int j)"] exI [of _ "wakeup (PipeRead pi) s1"] exI [of _ 0]) (simp add: only_pipe_def procs_wakeup fun_eq_iff m)
      next
        case False
        then have bs: "bs = [ubyte (mem s) (root_of s p) (addr + of_nat j)]" using c(2,3) by simp
        define s2 where "s2 = upd_pipe pi (pipe_put (hd bs)) s1"
        have st: "pipewrite_loop kend pi addr n j s = pipewrite_loop kend pi addr n (j + 1) s2"
          using unf lt op nk nf me c(1) False by (simp add: myproc_def killed_def s2_def)
        have lb: "length (pipe_bytes (pipes s pi)) < PIPESIZE" using nf pipe_full [OF ok] pq.room [OF ok] by simp
        have p2: "pipe_ok (pipes s2 pi)" "pipe_bytes (pipes s2 pi) = pipe_bytes (pipes s pi) @ bs"
          using pq.put [OF ok lb] bs by (simp_all add: s2_def upd_pipe_def m)
        have f2: "procs s2 = procs s" "me s2 = Some p" "mem s2 = mem s1" "pi_readopen (pipes s2 pi)" "runs kend p s2"
          "\<And>q. q \<noteq> pi \<Longrightarrow> pipes s2 q = pipes s q" "pi_readopen (pipes s2 pi) = pi_readopen (pipes s pi)"
          "pi_writeopen (pipes s2 pi) = pi_writeopen (pipes s pi)"
          using me op c(6) by (simp_all add: s2_def m) (simp_all add: upd_pipe_def pipe_put_def m)
        have nk2: "\<not> p_killed (procs s2 p)" using nk f2(1) by simp
        have d: "nat n - (j + 1) < nat n - j" using lt by linarith
        from less.hyps [OF d f2(5) p2(1) f2(4) nk2] obtain o' s' k
          where q: "pipewrite_loop kend pi addr n (j + 1) s2 = Inr (o', s')" "only_pipe pi s2 s'"
          "pipe_bytes (pipes s' pi) = pipe_bytes (pipes s2 pi) @ map (\<lambda>m. ubyte (mem s2) (root_of s2 p) (addr + of_nat (j + 1 + m))) [0..<k]"
          "ubyte (mem s') (root_of s2 p) = ubyte (mem s2) (root_of s2 p)"
          "o' = Ret (int (j + 1 + k)) \<and> me s' = Some p \<and> runs kend p s' \<and> procs s' = (\<lambda>i. woken (PipeRead pi) (Some p) i (procs s2 i))
             \<and> (int (j + 1 + k) < n \<longrightarrow> \<not> user_ok (mem s2) (root_of s2 p) (PGROUNDDOWN (addr + of_nat (j + 1 + k))))
           \<or> o' = Sleep (j + 1 + k) [] \<and> int (j + 1 + k) < n \<and> me s' = None \<and> length (pipe_bytes (pipes s' pi)) = PIPESIZE
             \<and> procs s' = (\<lambda>i. woken (PipeRead pi) (Some p) i (procs s2 i))(p := (procs s2 p)\<lparr>p_chan := Some (PipeWrite pi), p_state := SLEEPING\<rparr>)"
          "int (j + 1) \<le> n \<longrightarrow> int (j + 1 + k) \<le> n" by blast
        have bb: "bs @ map (\<lambda>m. ubyte (mem s) (root_of s p) (addr + of_nat (j + 1 + m))) [0..<k]
            = map (\<lambda>m. ubyte (mem s) (root_of s p) (addr + of_nat (j + m))) [0..<Suc k]"
          by (simp add: bs upt_conv_Cons map_Suc_upt [symmetric] ac_simps del: upt_Suc)
        have nu: "\<not> user_ok (mem s) (root_of s p) v" if "\<not> user_ok (mem s1) (root_of s p) v" for v
          using that c(8) by (auto simp: user_ok_def)
        have "only_pipe pi s s'" using q(2) f2(6-8) by (simp add: only_pipe_def)
        moreover have "pipe_bytes (pipes s' pi) = pipe_bytes (pipes s pi) @ map (\<lambda>m. ubyte (mem s) (root_of s p) (addr + of_nat (j + m))) [0..<Suc k]"
          using q(3) by (simp only: p2(2) f2(1,3) c(4) append_assoc bb)
        moreover have "ubyte (mem s') (root_of s p) = ubyte (mem s) (root_of s p)" using q(4) f2 c(4) by simp
        moreover have "j + 1 + k = j + Suc k" "int j \<le> n \<longrightarrow> int (j + Suc k) \<le> n" using q(6) lt by simp_all
        ultimately show ?thesis using st q(1,5) nu unfolding f2(1,3) by (intro exI [of _ o'] exI [of _ s'] exI [of _ "Suc k"]) auto
      qed
    qed
  qed
qed

section \<open>Reading\<close>

text \<open>A failing copy loses the byte it was about to deliver.\<close>

lemma piperead_loop_spec:
  assumes "runs kend p s" and "pipe_ok (pipes s pi)" and "nat n - j < 2 ^ 32"
  shows "\<exists>s' k lost. piperead_loop kend pi addr n j s = Inr (Ret (int (j + k)), s') \<and> only_pipe pi s s' \<and> runs kend p s'
    \<and> pipe_bytes (pipes s pi) = take k (pipe_bytes (pipes s pi)) @ lost @ pipe_bytes (pipes s' pi)
    \<and> k \<le> length (pipe_bytes (pipes s pi)) \<and> k \<le> nat n - j \<and> length lost \<le> 1
    \<and> ubyte (mem s') (root_of s p) = write_at (addr + of_nat j) (take k (pipe_bytes (pipes s pi))) (ubyte (mem s) (root_of s p))
    \<and> procs s' = (\<lambda>i. woken (PipeWrite pi) (Some p) i (procs s i))
    \<and> ((\<forall>i < nat n - j. user_wr (mem s) (root_of s p) (PGROUNDDOWN (addr + of_nat j + of_nat i))) \<longrightarrow>
         lost = [] \<and> k = min (nat n - j) (length (pipe_bytes (pipes s pi))))"
  using assms
proof (induction "nat n - j" arbitrary: j s rule: less_induct)
  case less
  note r = less.prems(1) and ok = less.prems(2) and bnd = less.prems(3)
  note unf = piperead_loop.simps [of kend pi addr n j s]
  have me: "me s = Some p" using r by (simp add: runs_def)
  show ?case
  proof (cases "int j < n \<and> pipe_bytes (pipes s pi) \<noteq> []")
    case False
    then have "piperead_loop kend pi addr n j s = Inr (Ret (int j), wakeup (PipeWrite pi) s)" using unf by (simp add: pipe_empty)
    then show ?thesis using False runs_wakeup [OF r] ok me
      by (intro exI [of _ "wakeup (PipeWrite pi) s"] exI [of _ 0] exI [of _ "[]"]) (auto simp: only_pipe_def procs_wakeup fun_eq_iff)
  next
    case lt: True
    define c where "c = pipe_head (pipes s pi)"
    define s0 where "s0 = upd_pipe pi pipe_advance s"
    have g: "pipe_ok (pipe_advance (pipes s pi))" "pipe_bytes (pipes s pi) = c # pipe_bytes (pipe_advance (pipes s pi))"
      using pq.get [OF ok] lt by (simp_all add: c_def)
    have f0: "procs s0 = procs s" "me s0 = Some p" "mem s0 = mem s" "runs kend p s0" "pipes s0 = (pipes s)(pi := pipe_advance (pipes s pi))"
      using me r by (simp_all add: s0_def) (simp_all add: upd_pipe_def)
    have one: "length [c] < 2 ^ 64" by simp
    obtain rr s1 k1 where o1: "copyout kend (p_sz (procs s0 p)) (root_of s0 p) (root_of s0 p) (addr + of_nat j) [c] s0 = Inr (rr, s1)"
      "rr = 0 \<and> k1 = length [c] \<or> rr = -1 \<and> k1 < length [c]"
      "ubyte (mem s1) (root_of s0 p) = write_at (addr + of_nat j) (take k1 [c]) (ubyte (mem s0) (root_of s0 p))"
      "kmem.more s1 = kmem.more s0" "runs kend p s1"
      "(\<forall>i < length [c]. user_wr (mem s0) (root_of s0 p) (PGROUNDDOWN (addr + of_nat j + of_nat i))) \<longrightarrow> rr = 0"
      "\<forall>v. user_ok (mem s0) (root_of s0 p) v \<longrightarrow> amap (mem s1) (root_of s0 p) v = amap (mem s0) (root_of s0 p) v"
      by (rule runs_copyout [OF f0(4) one])
    note m = more_fields [OF o1(4)]
    have pa: "pi_readopen (pipe_advance P) = pi_readopen P" "pi_writeopen (pipe_advance P) = pi_writeopen P" for P by (simp_all add: pipe_advance_def)
    have ne: "pi_nread (pipes s pi) \<noteq> pi_nwrite (pipes s pi)" using lt by (simp add: pipe_empty)
    show ?thesis
    proof (cases "rr = -1")
      case True
      then have "piperead_loop kend pi addr n j s = Inr (Ret (int j), wakeup (PipeWrite pi) s1)"
        using unf lt ne me o1(1) f0(1,2) by (simp add: myproc_def s0_def c_def [symmetric])
      moreover have "\<not> (\<forall>i < nat n - j. user_wr (mem s) (root_of s p) (PGROUNDDOWN (addr + of_nat j + of_nat i)))"
      proof
        assume "\<forall>i < nat n - j. user_wr (mem s) (root_of s p) (PGROUNDDOWN (addr + of_nat j + of_nat i))"
        from this [rule_format, of 0] show False using o1(6) True lt f0 by (auto simp: zless_nat_eq_int_zless)
      qed
      ultimately show ?thesis using True runs_wakeup [OF o1(5)] g o1(2,3) me f0
        by (intro exI [of _ "wakeup (PipeWrite pi) s1"] exI [of _ 0] exI [of _ "[c]"]) (auto simp: only_pipe_def procs_wakeup fun_eq_iff m pa)
    next
      case False
      then have k1: "k1 = 1" using o1(2) by auto
      have st: "piperead_loop kend pi addr n j s = piperead_loop kend pi addr n (j + 1) s1"
        using unf lt ne me o1(1) f0(1,2) False by (simp add: myproc_def s0_def c_def [symmetric])
      have d: "nat n - (j + 1) < nat n - j" using lt by linarith
      have ok1: "pipe_ok (pipes s1 pi)" "pipe_bytes (pipes s pi) = c # pipe_bytes (pipes s1 pi)" using g by (simp_all add: m f0)
      have b1: "nat n - (j + 1) < 2 ^ 32" using bnd d by simp
      from less.hyps [OF d o1(5) ok1(1) b1] obtain s' k lost
        where q: "piperead_loop kend pi addr n (j + 1) s1 = Inr (Ret (int (j + 1 + k)), s')" "only_pipe pi s1 s'" "runs kend p s'"
        "pipe_bytes (pipes s1 pi) = take k (pipe_bytes (pipes s1 pi)) @ lost @ pipe_bytes (pipes s' pi)"
        "k \<le> length (pipe_bytes (pipes s1 pi))" "k \<le> nat n - (j + 1)" "length lost \<le> 1"
        "ubyte (mem s') (root_of s1 p) = write_at (addr + of_nat (j + 1)) (take k (pipe_bytes (pipes s1 pi))) (ubyte (mem s1) (root_of s1 p))"
        "procs s' = (\<lambda>i. woken (PipeWrite pi) (Some p) i (procs s1 i))"
        "(\<forall>i < nat n - (j + 1). user_wr (mem s1) (root_of s1 p) (PGROUNDDOWN (addr + of_nat (j + 1) + of_nat i))) \<longrightarrow>
           lost = [] \<and> k = min (nat n - (j + 1)) (length (pipe_bytes (pipes s1 pi)))" by blast
      have e: "procs s1 = procs s" by (simp add: m f0)
      have "only_pipe pi s s'" using q(2) by (simp add: only_pipe_def m f0 pa)
      moreover have "ubyte (mem s') (root_of s p) = write_at (addr + of_nat j) (c # take k (pipe_bytes (pipes s1 pi))) (ubyte (mem s) (root_of s p))"
        using q(8) o1(3) write_at_append [of "[c]" "take k (pipe_bytes (pipes s1 pi))" "addr + of_nat j"] q(6) bnd
        by (simp add: e k1 f0 ac_simps)
      moreover have "lost = [] \<and> k = min (nat n - (j + 1)) (length (pipe_bytes (pipes s1 pi)))"
        if wr: "\<forall>i < nat n - j. user_wr (mem s) (root_of s p) (PGROUNDDOWN (addr + of_nat j + of_nat i))"
      proof -
        have "user_wr (mem s1) (root_of s1 p) (PGROUNDDOWN (addr + of_nat (j + 1) + of_nat i))" if "i < nat n - (j + 1)" for i
        proof -
          have "user_wr (mem s) (root_of s p) (PGROUNDDOWN (addr + of_nat j + of_nat (i + 1)))" using wr [rule_format, of "i + 1"] that by simp
          then show ?thesis using o1(7) by (simp add: e f0 user_ok_def ac_simps)
        qed
        then show ?thesis using q(10) by blast
      qed
      ultimately show ?thesis using st q(1,3,4,5,6,7,9) lt ok1(2)
        by (intro exI [of _ s'] exI [of _ "Suc k"] exI [of _ lost]) (auto simp: e)
    qed
  qed
qed

section \<open>First in, first out\<close>

text \<open>The bytes a call has moved when it returns or sleeps.\<close>

fun moved :: "nat \<Rightarrow> int outcome \<Rightarrow> nat" where
  "moved j (Ret r) = nat r - j"
| "moved j (Sleep i bs) = i - j"

text \<open>The history of the pipe \<open>pi\<close>: \<open>W\<close> are the bytes written to it and \<open>R\<close> the reads, each with the bytes that stand in the
  memory of the reader when the call returns, and whether the reader may write all of the buffer it gave. Any process may
  start a call or go on with one that slept, in any order, and the kernel may do anything else in between that leaves this pipe alone.\<close>

definition buffer_ok :: "kernel \<Rightarrow> nat \<Rightarrow> u64 \<Rightarrow> int \<Rightarrow> bool" where
  "buffer_ok s p addr n \<longleftrightarrow> (\<forall>i < nat n. user_wr (mem s) (root_of s p) (PGROUNDDOWN (addr + of_nat i)))"

inductive pipe_hist :: "u64 \<Rightarrow> u64 \<Rightarrow> kernel \<Rightarrow> u8 list \<Rightarrow> (u8 list \<times> bool) list \<Rightarrow> bool" for kend pi where
  init: "pipe_ok (pipes s pi) \<Longrightarrow> pipe_bytes (pipes s pi) = [] \<Longrightarrow> pipe_hist kend pi s [] []"
| wr: "pipe_hist kend pi s W R \<Longrightarrow> runs kend p s \<Longrightarrow> pipewrite_loop kend pi addr n j s = Inr (r, s') \<Longrightarrow>
    pipe_hist kend pi s' (W @ map (\<lambda>m. ubyte (mem s) (root_of s p) (addr + of_nat (j + m))) [0..<moved j r]) R"
| rd: "pipe_hist kend pi s W R \<Longrightarrow> runs kend p s \<Longrightarrow> nat n < 2 ^ 32 \<Longrightarrow> piperead kend pi addr n s = Inr (r, s') \<Longrightarrow>
    pipe_hist kend pi s' W (R @ [(map (\<lambda>m. ubyte (mem s') (root_of s p) (addr + of_nat m)) [0..<moved 0 r], buffer_ok s p addr n)])"
| cl: "pipe_hist kend pi s W R \<Longrightarrow> pipeclose kend pi w s = Inr s' \<Longrightarrow> pipe_hist kend pi s' W R"
| env: "pipe_hist kend pi s W R \<Longrightarrow> pipes s' pi = pipes s pi \<Longrightarrow> pipe_hist kend pi s' W R"

text \<open>The bytes that the reads \<open>R\<close> took from the pipe when they lost the bytes \<open>L\<close>: a read loses at most one byte, and none
  with a good buffer.\<close>

definition consumed :: "(u8 list \<times> bool) list \<Rightarrow> u8 list list \<Rightarrow> u8 list" where
  "consumed R L = concat (map2 (\<lambda>(d, _) l. d @ l) R L)"

definition losses :: "(u8 list \<times> bool) list \<Rightarrow> u8 list list \<Rightarrow> bool" where
  "losses R L \<longleftrightarrow> list_all2 (\<lambda>(_, ok) l. length l \<le> 1 \<and> (ok \<longrightarrow> l = [])) R L"

lemma losses_snoc:
  assumes "losses R L" and "length l \<le> 1" and "ok \<longrightarrow> l = []"
  shows "losses (R @ [(d, ok)]) (L @ [l])" and "consumed (R @ [(d, ok)]) (L @ [l]) = consumed R L @ d @ l"
  using assms list_all2_lengthD by (fastforce simp: losses_def consumed_def list_all2_appendI)+

lemma kfree_more:
  assumes "kfree kend pa s = Inr s'"
  shows "kmem.more s' = kmem.more s"
proof (cases "pa = 0")
  case False
  then have "valid_kalloc_ptr kend pa" using assms by (auto simp: kfree_def valid_kalloc_ptr_def split: if_splits)
  then obtain s'' where "kfree kend pa s = Inr s''" "kmem.more s'' = kmem.more s" by (rule kfree_valid)
  then show ?thesis using assms by simp
qed (use assms in \<open>simp add: kfree_def\<close>)

lemma pipeclose_spec:
  assumes "pipeclose kend pi w s = Inr s'"
  shows "pipe_ok (pipes s' pi) = pipe_ok (pipes s pi)" and "pipe_bytes (pipes s' pi) = pipe_bytes (pipes s pi)"
    and "pi_writeopen (pipes s' pi) = (pi_writeopen (pipes s pi) \<and> \<not> w)" and "pi_readopen (pipes s' pi) = (pi_readopen (pipes s pi) \<and> w)"
    and "procs s' = (\<lambda>i. woken (if w then PipeRead pi else PipeWrite pi) (me s) i (procs s i))" and "me s' = me s"
proof -
  define s1 where "s1 = (if w then wakeup (PipeRead pi) (upd_pipe pi (\<lambda>P. P\<lparr>pi_writeopen := False\<rparr>) s)
                else wakeup (PipeWrite pi) (upd_pipe pi (\<lambda>P. P\<lparr>pi_readopen := False\<rparr>) s))"
  have "(if \<not> pi_readopen (pipes s1 pi) \<and> \<not> pi_writeopen (pipes s1 pi) then kfree kend pi s1 else Inr s1) = Inr s'"
    using assms unfolding pipeclose_def Let_def s1_def by simp
  then have "kmem.more s' = kmem.more s1" by (auto split: if_splits dest: kfree_more)
  note m = more_fields [OF this]
  show "pipe_ok (pipes s' pi) = pipe_ok (pipes s pi)" "pipe_bytes (pipes s' pi) = pipe_bytes (pipes s pi)"
    "pi_writeopen (pipes s' pi) = (pi_writeopen (pipes s pi) \<and> \<not> w)" "pi_readopen (pipes s' pi) = (pi_readopen (pipes s pi) \<and> w)"
    "procs s' = (\<lambda>i. woken (if w then PipeRead pi else PipeWrite pi) (me s) i (procs s i))" "me s' = me s"
    by (simp_all add: m s1_def upd_pipe_def pipe_ok_def pipe_bytes_def procs_wakeup fun_eq_iff)
qed

lemma pipewrite_bytes:
  assumes "runs kend p s" and "pipe_ok (pipes s pi)" and "pipewrite_loop kend pi addr n j s = Inr (r, s')"
  shows "pipe_ok (pipes s' pi)" and "pipe_bytes (pipes s' pi)
    = pipe_bytes (pipes s pi) @ map (\<lambda>m. ubyte (mem s) (root_of s p) (addr + of_nat (j + m))) [0..<moved j r]"
proof -
  have me: "me s = Some p" using assms(1) by (simp add: runs_def)
  have "pipe_ok (pipes s' pi) \<and> pipe_bytes (pipes s' pi)
    = pipe_bytes (pipes s pi) @ map (\<lambda>m. ubyte (mem s) (root_of s p) (addr + of_nat (j + m))) [0..<moved j r]"
  proof (cases "int j < n \<and> (\<not> pi_readopen (pipes s pi) \<or> p_killed (procs s p))")
    case True
    then have "r = Ret (-1)" "s' = s" using assms(3) me pipewrite_loop.simps [of kend pi addr n j s] by (auto simp: myproc_def killed_def)
    then show ?thesis using assms(2) by simp
  next
    case False
    show ?thesis
    proof (cases "int j < n")
      case True
      then have "pi_readopen (pipes s pi)" "\<not> p_killed (procs s p)" using False by auto
      from pipewrite_loop_spec [OF assms(1,2) this, of addr n j] obtain r1 s1 k
        where q: "pipewrite_loop kend pi addr n j s = Inr (r1, s1)" "only_pipe pi s s1"
        "pipe_bytes (pipes s1 pi) = pipe_bytes (pipes s pi) @ map (\<lambda>m. ubyte (mem s) (root_of s p) (addr + of_nat (j + m))) [0..<k]"
        "r1 = Ret (int (j + k)) \<or> r1 = Sleep (j + k) []" by blast
      have "moved j r = k" using q(1,4) assms(3) by (auto simp del: of_nat_add)
      then show ?thesis using q assms(3) by (simp add: only_pipe_def)
    next
      case nl: False
      then have "r = Ret (int j)" "s' = wakeup (PipeRead pi) s" using assms(3) pipewrite_loop.simps [of kend pi addr n j s] by auto
      then show ?thesis using assms(2) by simp
    qed
  qed
  then show "pipe_ok (pipes s' pi)" "pipe_bytes (pipes s' pi)
    = pipe_bytes (pipes s pi) @ map (\<lambda>m. ubyte (mem s) (root_of s p) (addr + of_nat (j + m))) [0..<moved j r]" by auto
qed

lemma piperead_sleeps:
  assumes "me s = Some p" and "pipe_bytes (pipes s pi) = []" and "pi_writeopen (pipes s pi)"
  shows "piperead kend pi addr n s = Inr (if p_killed (procs s p) then (Ret (-1), s)
    else (Sleep 0 [], (upd_proc p (\<lambda>P. P\<lparr>p_chan := Some (PipeRead pi), p_state := SLEEPING\<rparr>) s)\<lparr>me := None\<rparr>))"
  using assms sleep_running [of s p] by (simp add: piperead_def pipe_empty [symmetric] myproc_def killed_def)

lemma piperead_bytes:
  assumes "runs kend p s" and "pipe_ok (pipes s pi)" and "nat n < 2 ^ 32" and "piperead kend pi addr n s = Inr (r, s')"
  obtains lost where "pipe_ok (pipes s' pi)" and "length lost \<le> 1" and "buffer_ok s p addr n \<longrightarrow> lost = []"
    and "pipe_bytes (pipes s pi)
      = map (\<lambda>m. ubyte (mem s') (root_of s p) (addr + of_nat m)) [0..<moved 0 r] @ lost @ pipe_bytes (pipes s' pi)"
proof (cases "pipe_bytes (pipes s pi) = [] \<and> pi_writeopen (pipes s pi)")
  case True
  then have "r = Ret (-1) \<and> s' = s \<or> r = Sleep 0 [] \<and> pipes s' = pipes s"
    using assms(1,4) piperead_sleeps [of s p pi] by (auto simp: runs_def upd_proc_def split: if_splits)
  then show ?thesis using that [of "[]"] True assms(2) by auto
next
  case False
  then have l: "piperead_loop kend pi addr n 0 s = Inr (r, s')" using assms(4) by (auto simp: piperead_def pipe_empty)
  have b: "nat n - 0 < 2 ^ 32" using assms(3) by simp
  from piperead_loop_spec [OF assms(1,2) b, of addr] l obtain k lost
    where k: "r = Ret (int k)" "only_pipe pi s s'" "pipe_bytes (pipes s pi) = take k (pipe_bytes (pipes s pi)) @ lost @ pipe_bytes (pipes s' pi)"
    "ubyte (mem s') (root_of s p) = write_at addr (take k (pipe_bytes (pipes s pi))) (ubyte (mem s) (root_of s p))"
    "k \<le> length (pipe_bytes (pipes s pi))" "length lost \<le> 1" "buffer_ok s p addr n \<longrightarrow> lost = []" by (auto simp: buffer_ok_def)
  have "k \<le> PIPESIZE" using k(5) pq.room [OF assms(2)] by simp
  then have "ubyte (mem s') (root_of s p) (addr + of_nat m) = pipe_bytes (pipes s pi) ! m" if "m < k" for m
    using that k(5) by (simp add: k(4) write_at_def unat_of_nat take_bit_nat_eq_self)
  then have "map (\<lambda>m. ubyte (mem s') (root_of s p) (addr + of_nat m)) [0..<k] = take k (pipe_bytes (pipes s pi))"
    using k(5) by (intro nth_equalityI) simp_all
  then show ?thesis using that [OF _ k(6,7)] k(1-3) by (simp add: only_pipe_def)
qed

text \<open>C7. A pipe delivers bytes once and in order: however calls of any number of readers and writers
  interleave, sleep and are continued, with counters that wrap around and a buffer that fills and
  empties, the bytes written so far are the bytes the reads took, in the order of the reads, followed by the contents of the pipe.
  What a read took is what it delivered to its buffer, and after it at most one byte that is lost; no byte is lost when
  the reader may write all of the buffer it gave.\<close>

theorem pipe_fifo:
  assumes "pipe_hist kend pi s W R"
  shows "(\<exists>L. losses R L \<and> W = consumed R L @ pipe_bytes (pipes s pi)) \<and> length (pipe_bytes (pipes s pi)) \<le> PIPESIZE"
proof -
  have "pipe_ok (pipes s pi) \<and> (\<exists>L. losses R L \<and> W = consumed R L @ pipe_bytes (pipes s pi))"
    using assms
  proof (induction rule: pipe_hist.induct)
    case (init s)
    then show ?case by (auto simp: losses_def consumed_def)
  next
    case (wr s W R p addr n j r s')
    then show ?case using pipewrite_bytes [of kend p s pi addr n j r s'] by auto
  next
    case (rd s W R p n addr r s')
    then obtain L where L: "losses R L" "W = consumed R L @ pipe_bytes (pipes s pi)" "pipe_ok (pipes s pi)" by blast
    from rd.hyps(2) L(3) rd.hyps(3,4) obtain l where l: "pipe_ok (pipes s' pi)" "length l \<le> 1" "buffer_ok s p addr n \<longrightarrow> l = []"
      "pipe_bytes (pipes s pi) = map (\<lambda>m. ubyte (mem s') (root_of s p) (addr + of_nat m)) [0..<moved 0 r] @ l @ pipe_bytes (pipes s' pi)"
      by (rule piperead_bytes)
    note c = losses_snoc [OF L(1) l(2,3), where d = "map (\<lambda>m. ubyte (mem s') (root_of s p) (addr + of_nat m)) [0..<moved 0 r]"]
    have "W = consumed (R @ [(map (\<lambda>m. ubyte (mem s') (root_of s p) (addr + of_nat m)) [0..<moved 0 r], buffer_ok s p addr n)]) (L @ [l])
        @ pipe_bytes (pipes s' pi)" unfolding c(2) L(2) l(4) by simp
    then show ?case using l(1) c(1) by blast
  next
    case (cl s W R w s')
    then show ?case using pipeclose_spec [OF cl.hyps(2)] by simp
  qed auto
  then show ?thesis using pq.room by auto
qed

section \<open>Sleeping and waking\<close>

text \<open>A reader sleeps only on an empty pipe that can still be written, a writer only on a full one that can still be read.\<close>

definition pipe_wait :: "u64 \<Rightarrow> kernel \<Rightarrow> bool" where
  "pipe_wait pi s \<longleftrightarrow> pipe_ok (pipes s pi)
     \<and> (\<forall>i. asleep (PipeRead pi) s i \<longrightarrow> pipe_bytes (pipes s pi) = [] \<and> pi_writeopen (pipes s pi))
     \<and> (\<forall>i. asleep (PipeWrite pi) s i \<longrightarrow> length (pipe_bytes (pipes s pi)) = PIPESIZE \<and> pi_readopen (pipes s pi))
     \<and> (\<forall>i. me s = Some i \<longrightarrow> p_state (procs s i) = RUNNING)"

lemma pipe_waitD:
  assumes "pipe_wait pi s"
  shows "pipe_ok (pipes s pi)" and "asleep (PipeRead pi) s i \<Longrightarrow> pipe_bytes (pipes s pi) = [] \<and> pi_writeopen (pipes s pi)"
    and "asleep (PipeWrite pi) s i \<Longrightarrow> length (pipe_bytes (pipes s pi)) = PIPESIZE \<and> pi_readopen (pipes s pi)"
    and "me s = Some i \<Longrightarrow> p_state (procs s i) = RUNNING"
  using assms unfolding pipe_wait_def by blast+

text \<open>The steps: calls on the pipe, closing an end, and everything else, which neither touches the pipe nor
  puts a process to sleep on it.\<close>

inductive pipe_step :: "u64 \<Rightarrow> u64 \<Rightarrow> kernel \<Rightarrow> kernel \<Rightarrow> bool" for kend pi where
  wr: "runs kend p s \<Longrightarrow> pipewrite_loop kend pi addr n j s = Inr (r, s') \<Longrightarrow> pipe_step kend pi s s'"
| rd: "runs kend p s \<Longrightarrow> nat n < 2 ^ 32 \<Longrightarrow> piperead kend pi addr n s = Inr (r, s') \<Longrightarrow> pipe_step kend pi s s'"
| cl: "pipeclose kend pi w s = Inr s' \<Longrightarrow> pipe_step kend pi s s'"
| env: "pipes s' pi = pipes s pi \<Longrightarrow> (\<And>i ch. ch \<in> {PipeRead pi, PipeWrite pi} \<Longrightarrow> asleep ch s' i \<Longrightarrow> asleep ch s i) \<Longrightarrow>
    (\<And>i. me s' = Some i \<Longrightarrow> p_state (procs s' i) = RUNNING) \<Longrightarrow> pipe_step kend pi s s'"

lemma wait_write:
  assumes w: "pipe_wait pi s" and r: "runs kend p s" and c: "pipewrite_loop kend pi addr n j s = Inr (r, s')"
  shows "pipe_wait pi s'"
proof (cases "int j < n \<and> (\<not> pi_readopen (pipes s pi) \<or> p_killed (procs s p))")
  case True
  then have "s' = s" using c r pipewrite_loop.simps [of kend pi addr n j s] by (auto simp: myproc_def killed_def runs_def)
  then show ?thesis using w by simp
next
  case False
  have me: "me s = Some p" "\<And>i. me s = Some i \<Longrightarrow> p_state (procs s i) = RUNNING" using r by (auto simp: runs_def)
  have ok: "pipe_ok (pipes s pi)" using w by (simp add: pipe_wait_def)
  show ?thesis
  proof (cases "int j < n")
    case lt: False
    then have s': "s' = wakeup (PipeRead pi) s" using c pipewrite_loop.simps [of kend pi addr n j s] by auto
    have "procs s' = (\<lambda>i. woken (PipeRead pi) (me s) i (procs s i))" by (simp add: s' wakeup_procs)
    note a = woken_asleep [OF this me(2)]
    show ?thesis unfolding pipe_wait_def using pipe_waitD [OF w] a me(2) by (simp add: s' procs_wakeup) (metis woken_fields(4))
  next
    case True
    then have op: "pi_readopen (pipes s pi)" "\<not> p_killed (procs s p)" using False by auto
    from pipewrite_loop_spec [OF r ok this, of addr n j] c obtain k where q: "only_pipe pi s s'"
      "pipe_bytes (pipes s' pi) = pipe_bytes (pipes s pi) @ map (\<lambda>m. ubyte (mem s) (root_of s p) (addr + of_nat (j + m))) [0..<k]"
      "me s' = Some p \<and> procs s' = (\<lambda>i. woken (PipeRead pi) (Some p) i (procs s i))
       \<or> me s' = None \<and> length (pipe_bytes (pipes s' pi)) = PIPESIZE
         \<and> procs s' = (\<lambda>i. woken (PipeRead pi) (Some p) i (procs s i))(p := (procs s p)\<lparr>p_chan := Some (PipeWrite pi), p_state := SLEEPING\<rparr>)"
      by fastforce
    have nr: "\<not> asleep (PipeRead pi) s' i" for i
      using q(3) me by (auto simp: asleep_def woken_def split: if_splits)
    have full: "length (pipe_bytes (pipes s' pi)) = PIPESIZE" if "asleep (PipeWrite pi) s' i" for i
    proof (cases "asleep (PipeWrite pi) s i")
      case True
      then have "length (pipe_bytes (pipes s pi)) = PIPESIZE" using w by (auto simp: pipe_wait_def)
      then show ?thesis using q(1,2) pq.room [of "pipes s' pi"] by (simp add: only_pipe_def)
    next
      case False
      then show ?thesis using q(3) that me by (auto simp: asleep_def woken_def split: if_splits)
    qed
    show ?thesis using nr full q(1,3) op(1) me by (auto simp: pipe_wait_def only_pipe_def)
  qed
qed

lemma wait_read:
  assumes w: "pipe_wait pi s" and r: "runs kend p s" and n: "nat n < 2 ^ 32" and c: "piperead kend pi addr n s = Inr (r, s')"
  shows "pipe_wait pi s'"
proof (cases "pipe_bytes (pipes s pi) = [] \<and> pi_writeopen (pipes s pi)")
  case True
  have me: "me s = Some p" using r by (simp add: runs_def)
  show ?thesis
  proof (cases "p_killed (procs s p)")
    case False
    let ?s = "(upd_proc p (\<lambda>P. P\<lparr>p_chan := Some (PipeRead pi), p_state := SLEEPING\<rparr>) s)\<lparr>me := None\<rparr>"
    have "s' = ?s" using c piperead_sleeps [OF me] True False by simp
    then show ?thesis using w True by (auto simp: pipe_wait_def upd_proc_def asleep_def split: if_splits)
  qed (use w c piperead_sleeps [OF me] True in simp)
next
  case False
  have me: "me s = Some p" "\<And>i. me s = Some i \<Longrightarrow> p_state (procs s i) = RUNNING" using r by (auto simp: runs_def)
  have ok: "pipe_ok (pipes s pi)" and b: "nat n - 0 < 2 ^ 32" using w n by (simp_all add: pipe_wait_def)
  have l: "piperead_loop kend pi addr n 0 s = Inr (r, s')" using c False by (auto simp: piperead_def pipe_empty)
  from piperead_loop_spec [OF r ok b, of addr] l obtain k lost
    where q: "only_pipe pi s s'" "pipe_bytes (pipes s pi) = take k (pipe_bytes (pipes s pi)) @ lost @ pipe_bytes (pipes s' pi)"
    "procs s' = (\<lambda>i. woken (PipeWrite pi) (me s) i (procs s i))" "runs kend p s'" by (auto simp: me)
  note a = woken_asleep [OF q(3) me(2)]
  have "\<not> asleep (PipeRead pi) s' i" for i using a(2) [of "PipeRead pi" i] w False by (auto simp: pipe_wait_def)
  then show ?thesis using a(1) q(1,4) by (auto simp: pipe_wait_def only_pipe_def runs_def)
qed

lemma wait_close:
  assumes w: "pipe_wait pi s" and c: "pipeclose kend pi wr s = Inr s'"
  shows "pipe_wait pi s'"
proof -
  note p = pipeclose_spec [OF c]
  have me: "\<And>i. me s = Some i \<Longrightarrow> p_state (procs s i) = RUNNING" using w by (auto simp: pipe_wait_def)
  note a = woken_asleep [OF p(5) me]
  show ?thesis
    unfolding pipe_wait_def p(1,2,6) using pipe_waitD [OF w] a me p(3,4)
    by (cases wr) (simp_all add: p(5) woken_def, blast+)
qed

text \<open>C10. No lost wakeup on a pipe: after any interleaving of calls, a process that sleeps in \<^verbatim>\<open>piperead\<close> faces an
  empty pipe with an open write end, and one that sleeps in \<^verbatim>\<open>pipewrite\<close> a full pipe with an open read end. So a reader
  and a writer never sleep on the same pipe at once, and nobody waits for bytes or room that is there.\<close>

theorem pipe_no_lost_wakeup:
  assumes "(pipe_step kend pi)\<^sup>*\<^sup>* s s'" and "pipe_wait pi s"
  shows "pipe_wait pi s' \<and> (\<forall>i j. \<not> (asleep (PipeRead pi) s' i \<and> asleep (PipeWrite pi) s' j))"
proof -
  have "pipe_wait pi s'"
    using assms
  proof (induction rule: rtranclp_induct)
    case (step t u)
    note w = step.IH [OF step.prems]
    from step.hyps(2) show ?case
    proof (cases rule: pipe_step.cases)
      case (wr p addr n j r)
      then show ?thesis by (rule wait_write [OF w])
    next
      case (rd p n addr r)
      then show ?thesis by (rule wait_read [OF w])
    next
      case (cl w')
      then show ?thesis by (rule wait_close [OF w])
    next
      case env
      then show ?thesis using pipe_waitD [OF w] by (simp add: pipe_wait_def) blast
    qed
  qed simp
  then show ?thesis by (auto simp: pipe_wait_def)
qed

section \<open>A process with a pipe to evaluate the properties at\<close>

lemma demo_pipe: "pipe_ok demo_pipe0" "pipe_bytes demo_pipe0 = []" "pi_readopen demo_pipe0" "pi_writeopen demo_pipe0"
  by (simp_all add: pipe_ok_def pipe_bytes_def demo_pipe0_def)

theorem pipe_fifo_witness:
  "\<exists>s p r s' W. runs demo_kend p s \<and> pipewrite demo_kend 7 0x1000 3 s = Inr (r, s') \<and> pipe_hist demo_kend 7 s' W []
    \<and> W = map (\<lambda>m. ubyte (mem s) (root_of s p) (0x1000 + of_nat m)) [0..<moved 0 r] \<and> W = pipe_bytes (pipes s' 7)"
proof -
  obtain s1 where s1: "runs demo_kend 0 s1" "pipes s1 7 = demo_pipe0" "\<not> p_killed (procs s1 0)" using demo_runs by (metis demo_run_def)
  have ok: "pipe_ok (pipes s1 7)" "pi_readopen (pipes s1 7)" "pipe_bytes (pipes s1 7) = []" using s1(2) demo_pipe by simp_all
  obtain r s' where w: "pipewrite_loop demo_kend 7 0x1000 3 0 s1 = Inr (r, s')"
    using pipewrite_loop_spec [OF s1(1) ok(1,2) s1(3), of "0x1000" 3 0] by blast
  let ?W = "map (\<lambda>m. ubyte (mem s1) (root_of s1 0) (0x1000 + of_nat m)) [0..<moved 0 r]"
  have h: "pipe_hist demo_kend 7 s' ?W []"
    using pipe_hist.wr [OF pipe_hist.init [OF ok(1,3)] s1(1) w] by simp
  have "?W = pipe_bytes (pipes s' 7)" using pipe_fifo [OF h] by (simp add: losses_def consumed_def)
  then show ?thesis using h s1(1) w
    by (intro exI [of _ s1] exI [of _ 0] exI [of _ r] exI [of _ s'] exI [of _ ?W]) (simp add: pipewrite_def)
qed

theorem pipe_no_lost_wakeup_witness:
  "\<exists>s r s'. piperead demo_kend 7 0x1000 3 s = Inr (r, s') \<and> asleep (PipeRead 7) s' 0 \<and> pipe_wait 7 s'
    \<and> (\<forall>i j. \<not> (asleep (PipeRead 7) s' i \<and> asleep (PipeWrite 7) s' j))"
proof -
  obtain s1 where s1: "runs demo_kend 0 s1" "pipes s1 7 = demo_pipe0" "\<not> p_killed (procs s1 0)"
    "\<And>i. i \<noteq> 0 \<Longrightarrow> p_state (procs s1 i) = UNUSED" using demo_runs by (metis demo_run_def)
  have ok: "pipe_ok (pipes s1 7)" "pi_writeopen (pipes s1 7)" "pipe_bytes (pipes s1 7) = []" using s1(2) demo_pipe by simp_all
  have me: "me s1 = Some 0" "p_state (procs s1 0) = RUNNING" using s1(1) by (simp_all add: runs_def)
  have na: "\<not> asleep ch s1 i" for ch i using s1(4) [of i] me by (cases "i = 0") (simp_all add: asleep_def)
  let ?s = "(upd_proc 0 (\<lambda>P. P\<lparr>p_chan := Some (PipeRead 7), p_state := SLEEPING\<rparr>) s1)\<lparr>me := None\<rparr>"
  have rd: "piperead demo_kend 7 0x1000 3 s1 = Inr (Sleep 0 [], ?s)" using piperead_sleeps [OF me(1) ok(3,2)] s1(3) by simp
  have n3: "nat 3 < 2 ^ 32" by simp
  have st: "(pipe_step demo_kend 7)\<^sup>*\<^sup>* s1 ?s" by (rule r_into_rtranclp) (rule pipe_step.rd [OF s1(1) n3 rd])
  have "pipe_wait 7 s1" using ok na me by (auto simp: pipe_wait_def)
  note f = pipe_no_lost_wakeup [OF st this]
  have "asleep (PipeRead 7) ?s 0" by (simp add: asleep_def upd_proc_def)
  then show ?thesis using f rd by blast
qed

end
