(* ===== verification/ConsoleProps.thy ===== *)
theory ConsoleProps
  imports RunDemo Console
begin

text \<open>
  The console as a line discipline: lines that are ready to be read, and the line that is being edited.
\<close>

section \<open>The two parts of the input buffer\<close>

lemma ring_split:
  fixes r w e :: "'w::len word"
  assumes "N dvd 2 ^ LENGTH('w)" and "unat (w - r) \<le> unat (e - r)"
  shows "ring_list N d r e = ring_list N d r w @ ring_list N d w e"
proof -
  define n where "n = unat (e - w)"
  have "e - w = (e - r) - (w - r)" by simp
  then have n: "unat (e - r) = unat (w - r) + n" using assms(2) unat_sub [of "w - r" "e - r"] by (simp add: n_def word_le_nat_alt)
  have e: "(unat w + i) mod N = (unat r + (unat (w - r) + i)) mod N" for i
    using ring_end [OF assms(1), of r w] by (metis add.assoc mod_add_left_eq)
  show ?thesis
  proof (rule nth_equalityI)
    fix i assume i: "i < length (ring_list N d r e)"
    show "ring_list N d r e ! i = (ring_list N d r w @ ring_list N d w e) ! i"
    proof (cases "i < unat (w - r)")
      case False
      then have "i - unat (w - r) < n" using i n by simp
      then show ?thesis using False i e [of "i - unat (w - r)"] by (simp add: ring_list_def nth_append n_def [symmetric])
    qed (use i in \<open>simp add: ring_list_def nth_append\<close>)
  qed (simp add: n n_def)
qed

definition cons_ready :: "cons \<Rightarrow> u8 list" where
  "cons_ready C = ring_list 128 (cons_buf C) (cons_r C) (cons_w C)"

definition cons_edit :: "cons \<Rightarrow> u8 list" where
  "cons_edit C = ring_list 128 (cons_buf C) (cons_w C) (cons_e C)"

definition cons_ok :: "cons \<Rightarrow> bool" where
  "cons_ok C \<longleftrightarrow> length (cons_buf C) = 128 \<and> unat (cons_e C - cons_r C) \<le> 128 \<and> unat (cons_w C - cons_r C) \<le> unat (cons_e C - cons_r C)
     \<and> 10 \<notin> set (cons_edit C) \<and> 4 \<notin> set (cons_edit C)"

lemma cons_all: "cons_ok C \<Longrightarrow> ring_list 128 (cons_buf C) (cons_r C) (cons_e C) = cons_ready C @ cons_edit C"
  by (simp add: cons_ok_def cons_ready_def cons_edit_def ring_split)

lemma cons_lengths:
  assumes "cons_ok C"
  shows "length (cons_ready C) + length (cons_edit C) = unat (cons_e C - cons_r C)"
  using arg_cong [OF cons_all [OF assms], of length] by simp

section \<open>The line discipline\<close>

text \<open>What a key does to the ready bytes and the edited line.\<close>

definition key :: "u8 \<Rightarrow> u8 list \<times> u8 list \<Rightarrow> u8 list \<times> u8 list" where
  "key c t =
     (let (P, E) = t; c' = (if c = 13 then 10 else c)
      in if c = 16 \<or> c = 0 then (P, E)
         else if c = 21 then (P, [])
         else if c = 8 \<or> c = 127 then (P, butlast E)
         else if length P + length E < 128
         then if c' = 10 \<or> c' = 4 \<or> length P + length E = 127 then (P @ E @ [c'], []) else (P, E @ [c'])
         else (P, E))"

abbreviation tty :: "cons \<Rightarrow> u8 list \<times> u8 list" where
  "tty C \<equiv> (cons_ready C, cons_edit C)"

lemma cons_consputc [simp]: "consb (consputc c s) = consb s" "procs (consputc c s) = procs s" "me (consputc c s) = me s"
  by (cases c; simp add: uartputc_sync_def)+

declare consputc.simps [simp del]

lemma consb_upd [simp]: "consb (upd_cons f s) = f (consb s)" "procs (upd_cons f s) = procs s" "me (upd_cons f s) = me s"
  by (simp_all add: upd_cons_def)

lemma erase_one:
  assumes "cons_ok C" and "cons_e C \<noteq> cons_w C"
  shows "cons_ok (C\<lparr>cons_e := cons_e C - 1\<rparr>)" and "cons_edit (C\<lparr>cons_e := cons_e C - 1\<rparr>) = butlast (cons_edit C)"
    and "cons_ready (C\<lparr>cons_e := cons_e C - 1\<rparr>) = cons_ready C" and "cons_edit C \<noteq> []"
    and "cons_buf C ! unat ((cons_e C - 1) mod 128) = last (cons_edit C)"
proof -
  let ?E = "cons_edit C"
  have ne: "?E \<noteq> []" using assms(2) by (auto simp: cons_edit_def ring_empty_iff)
  then show "?E \<noteq> []" .
  have l: "length ?E = unat (cons_e C - cons_w C)" by (simp add: cons_edit_def)
  have ge: "1 \<le> unat (cons_e C - cons_w C)" using ne l by (cases ?E) simp_all
  show ed: "cons_edit (C\<lparr>cons_e := cons_e C - 1\<rparr>) = butlast ?E"
    using ring_drop [OF ge, of 128 "cons_buf C"] l by (simp add: cons_edit_def butlast_conv_take)
  show "cons_ready (C\<lparr>cons_e := cons_e C - 1\<rparr>) = cons_ready C" by (simp add: cons_ready_def)
  have gr: "1 \<le> unat (cons_e C - cons_r C)" using cons_lengths [OF assms(1)] ge l by simp
  have e1: "unat (cons_e C - 1 - cons_r C) = unat (cons_e C - cons_r C) - 1"
    using arg_cong [OF ring_drop [OF gr, of 128 "cons_buf C"], of length] by simp
  have "unat (cons_w C - cons_r C) \<le> unat (cons_e C - cons_r C) - 1"
    using cons_lengths [OF assms(1)] ge l by (simp add: cons_ready_def)
  then show "cons_ok (C\<lparr>cons_e := cons_e C - 1\<rparr>)"
    using assms(1) e1 by (auto simp: cons_ok_def ed dest: in_set_butlastD)
  have "cons_e C - 1 = cons_w C + of_nat (unat (cons_e C - cons_w C) - 1)" using ge by (simp add: of_nat_diff)
  then have "unat (cons_e C - 1) mod 128 = (unat (cons_w C) + (unat (cons_e C - cons_w C) - 1)) mod 128"
    using ring_index [of 128 "cons_w C"] by simp
  then show "cons_buf C ! unat ((cons_e C - 1) mod 128) = last ?E"
    using ge by (simp add: cons_edit_def ring_list_def last_map unat_mod)
qed

lemma kill_line_spec:
  assumes "cons_ok (consb s)" and "k = unat (cons_e (consb s) - cons_w (consb s))"
  shows "cons_ok (consb (kill_line k s)) \<and> tty (consb (kill_line k s)) = (cons_ready (consb s), [])
    \<and> procs (kill_line k s) = procs s \<and> me (kill_line k s) = me s"
  using assms
proof (induction k arbitrary: s)
  case 0
  then have "cons_edit (consb s) = []" by (simp add: cons_edit_def ring_list_def)
  then show ?case using 0 by simp
next
  case (Suc k)
  let ?C = "consb s"
  have ne: "cons_e ?C \<noteq> cons_w ?C" using Suc.prems(2) by auto
  note e = erase_one [OF Suc.prems(1) ne]
  have "last (cons_edit ?C) \<in> set (cons_edit ?C)" using e(4) by simp
  then have nl: "last (cons_edit ?C) \<noteq> 10" using Suc.prems(1) by (auto simp: cons_ok_def)
  define s1 where "s1 = consputc Backspace (upd_cons (\<lambda>C. C\<lparr>cons_e := cons_e C - 1\<rparr>) s)"
  have "length (cons_edit (?C\<lparr>cons_e := cons_e ?C - 1\<rparr>)) = k" using Suc.prems(2) e(2) by (simp add: cons_edit_def)
  then have k: "k = unat (cons_e (consb s1) - cons_w (consb s1))" by (simp add: s1_def cons_edit_def)
  have "kill_line (Suc k) s = kill_line k s1" using ne nl e(5) by (simp add: s1_def)
  then show ?case using Suc.IH [OF _ k] e by (simp add: s1_def)
qed

lemma store_key:
  fixes c :: u8
  assumes "cons_ok C" and "unat (cons_e C - cons_r C) < 128"
  defines "C' \<equiv> C\<lparr>cons_buf := (cons_buf C)[unat (cons_e C mod 128) := c], cons_e := cons_e C + 1\<rparr>"
  shows "cons_ready C' = cons_ready C" and "cons_edit C' = cons_edit C @ [c]"
    and "unat (cons_e C' - cons_r C') = unat (cons_e C - cons_r C) + 1" and "length (cons_buf C') = 128"
    and "unat (cons_w C' - cons_r C') \<le> unat (cons_e C' - cons_r C')" and "ring_list 128 (cons_buf C') (cons_r C') (cons_e C') = cons_ready C @ cons_edit C @ [c]"
proof -
  have l: "length (cons_buf C) = 128" "unat (cons_w C - cons_r C) \<le> unat (cons_e C - cons_r C)" using assms(1) by (simp_all add: cons_ok_def)
  have m: "unat (cons_e C mod 128) = unat (cons_e C) mod 128" by (simp add: unat_mod)
  show n: "unat (cons_e C' - cons_r C') = unat (cons_e C - cons_r C) + 1"
    using ring_next [OF assms(2)] by (simp add: C'_def)
  show "length (cons_buf C') = 128" using l by (simp add: C'_def)
  show le: "unat (cons_w C' - cons_r C') \<le> unat (cons_e C' - cons_r C')" using l n by (simp add: C'_def)
  show all: "ring_list 128 (cons_buf C') (cons_r C') (cons_e C') = cons_ready C @ cons_edit C @ [c]"
    using ring_put [of 128 "cons_buf C" "cons_e C" "cons_r C" c] assms(2) l cons_all [OF assms(1)] by (simp add: C'_def m)
  have "ring_list 128 (cons_buf C') (cons_r C') (cons_e C') = cons_ready C' @ cons_edit C'"
    using ring_split [OF _ le, of 128 "cons_buf C'"] by (simp add: cons_ready_def cons_edit_def)
  moreover have "length (cons_ready C') = length (cons_ready C)" by (simp add: cons_ready_def C'_def)
  ultimately show "cons_ready C' = cons_ready C" "cons_edit C' = cons_edit C @ [c]" using all by (simp_all add: append_eq_append_conv)
qed

text \<open>One interrupt of the keyboard.\<close>

lemma consoleintr_spec:
  assumes ok: "cons_ok (consb s)"
  shows "cons_ok (consb (consoleintr c s)) \<and> tty (consb (consoleintr c s)) = key c (tty (consb s)) \<and> me (consoleintr c s) = me s
    \<and> (procs (consoleintr c s) = procs s \<and> cons_ready (consb (consoleintr c s)) = cons_ready (consb s)
       \<or> procs (consoleintr c s) = (\<lambda>i. woken ConsRead (me s) i (procs s i)))"
proof -
  let ?C = "consb s"
  note lens = cons_lengths [OF ok]
  consider "c = 16" | "c = 21" | "c = 8 \<or> c = 127" | "c = 0" | "c \<notin> {16, 21, 8, 127, 0}" by auto
  then show ?thesis
  proof cases
    case 1
    then show ?thesis using ok by (simp add: consoleintr_def key_def)
  next
    case 2
    then show ?thesis using kill_line_spec [OF ok refl] by (simp add: consoleintr_def key_def)
  next
    case 3
    show ?thesis
    proof (cases "cons_e ?C = cons_w ?C")
      case True
      then have "cons_edit ?C = []" by (simp add: cons_edit_def)
      then show ?thesis using 3 True ok by (auto simp: consoleintr_def key_def)
    next
      case False
      note e = erase_one [OF ok False]
      show ?thesis using 3 False e(1-3) by (auto simp: consoleintr_def key_def)
    qed
  next
    case 4
    then show ?thesis using ok by (simp add: consoleintr_def key_def)
  next
    case 5
    define c' where "c' = (if c = 13 then 10 else c)"
    have room: "cons_e ?C - cons_r ?C < INPUT_BUF_SIZE \<longleftrightarrow> length (cons_ready ?C) + length (cons_edit ?C) < 128"
      using lens by (simp add: word_less_nat_alt)
    show ?thesis
    proof (cases "cons_e ?C - cons_r ?C < INPUT_BUF_SIZE")
      case False
      then show ?thesis using 5 ok room by (simp add: consoleintr_def key_def)
    next
      case True
      then have lt: "unat (cons_e ?C - cons_r ?C) < 128" using lens room by simp
      define C' where "C' = ?C\<lparr>cons_buf := (cons_buf ?C)[unat (cons_e ?C mod 128) := c'], cons_e := cons_e ?C + 1\<rparr>"
      note st = store_key [OF ok lt, of c', folded C'_def]
      define s2 where "s2 = upd_cons (\<lambda>C. C\<lparr>cons_buf := (cons_buf C)[unat (cons_e C mod 128) := c'], cons_e := cons_e C + 1\<rparr>) (consputc (Char c') s)"
      have b2: "consb s2 = C'" by (simp add: s2_def C'_def)
      have r2: "cons_e C' - cons_r C' = INPUT_BUF_SIZE \<longleftrightarrow> length (cons_ready ?C) + length (cons_edit ?C) = 127"
        using st(3) lens by (simp add: word_unat_eq_iff)
      have unf: "consoleintr c s = (if c' = 10 \<or> c' = 4 \<or> cons_e C' - cons_r C' = INPUT_BUF_SIZE
          then wakeup ConsRead (upd_cons (\<lambda>C. C\<lparr>cons_w := cons_e C\<rparr>) s2) else s2)"
        using 5 True unfolding b2 [symmetric] by (simp add: consoleintr_def Let_def s2_def c'_def)
      show ?thesis
      proof (cases "c' = 10 \<or> c' = 4 \<or> cons_e C' - cons_r C' = INPUT_BUF_SIZE")
        case True
        have "cons_ready (C'\<lparr>cons_w := cons_e C'\<rparr>) = cons_ready ?C @ cons_edit ?C @ [c']" "cons_edit (C'\<lparr>cons_w := cons_e C'\<rparr>) = []"
          using st(6) by (simp_all add: cons_ready_def cons_edit_def)
        moreover from this have "cons_ok (C'\<lparr>cons_w := cons_e C'\<rparr>)" using st(3,4) lt by (simp add: cons_ok_def)
        moreover have "key c (tty ?C) = (cons_ready ?C @ cons_edit ?C @ [c'], [])"
          using 5 True room lt lens r2 by (auto simp: key_def c'_def)
        ultimately show ?thesis using True b2 by (simp add: unf procs_wakeup fun_eq_iff s2_def [symmetric]) (simp add: s2_def)
      next
        case False
        have "cons_ok C'" using False st(2-5) ok lt by (auto simp: cons_ok_def)
        moreover have "key c (tty ?C) = (cons_ready ?C, cons_edit ?C @ [c'])"
          using 5 False room lt lens r2 by (auto simp: key_def c'_def)
        ultimately show ?thesis using False b2 st(1,2) by (simp add: unf) (simp add: s2_def)
      qed
    qed
  qed
qed

section \<open>Reading\<close>

text \<open>What \<^verbatim>\<open>consoleread\<close> takes of the ready bytes for a buffer of \<open>n\<close> more bytes: the bytes delivered, those left, and whether
  it has to wait for more. \<open>got\<close> tells whether some bytes were delivered before; then an end-of-file mark stays for the next call.\<close>

fun take_line :: "nat \<Rightarrow> bool \<Rightarrow> u8 list \<Rightarrow> u8 list \<times> u8 list \<times> bool" where
  "take_line 0 got P = ([], P, False)"
| "take_line (Suc n) got [] = ([], [], True)"
| "take_line (Suc n) got (c # P) =
     (if c = 4 then ([], if got then c # P else P, False)
      else if c = 10 then ([c], P, False)
      else case take_line n True P of (bs, r, w) \<Rightarrow> (c # bs, r, w))"

lemma length_take_line: "length (fst (take_line n got P)) \<le> n"
  by (induction n got P rule: take_line.induct) (auto split: prod.splits)

lemma cons_take:
  assumes "cons_ok C" and "cons_r C \<noteq> cons_w C"
  defines "C' \<equiv> C\<lparr>cons_r := cons_r C + 1\<rparr>"
  shows "cons_ready C = cons_buf C ! unat (cons_r C mod 128) # cons_ready C'" and "cons_edit C' = cons_edit C" and "cons_ok C'"
proof -
  have m: "unat (cons_r C mod 128) = unat (cons_r C) mod 128" by (simp add: unat_mod)
  have dv: "(128 :: nat) dvd 2 ^ LENGTH(32)" by simp
  show g: "cons_ready C = cons_buf C ! unat (cons_r C mod 128) # cons_ready C'"
    using ring_get [OF dv assms(2), of "cons_buf C"] by (simp add: cons_ready_def C'_def m)
  show e: "cons_edit C' = cons_edit C" by (simp add: cons_edit_def C'_def)
  have "length (cons_ready C) \<le> unat (cons_e C - cons_r C)" using cons_lengths [OF assms(1)] by simp
  then have ne: "cons_r C \<noteq> cons_e C" using g by auto
  have "unat (cons_e C - cons_r C) = Suc (unat (cons_e C - (cons_r C + 1)))"
    using arg_cong [OF ring_get [OF dv ne, of "cons_buf C"], of length] by simp
  moreover have "unat (cons_w C - cons_r C) = Suc (unat (cons_w C - (cons_r C + 1)))"
    using arg_cong [OF g, of length] by (simp add: cons_ready_def C'_def)
  ultimately show "cons_ok C'" using assms(1) e unfolding cons_ok_def by (simp add: C'_def)
qed

lemma runs_upd_cons [simp]: "runs kend p (upd_cons f s) = runs kend p s"
proof -
  have "kmem.truncate (upd_cons f s) = kmem.truncate s" by (simp add: upd_cons_def kmem.truncate_def)
  from user_inv_fields [OF this] show ?thesis by (simp add: runs_def) 
qed

lemma mem_upd_cons [simp]: "mem (upd_cons f s) = mem s"
  by (simp add: upd_cons_def)

lemma consoleread_loop_spec:
  assumes "runs kend p s" and "cons_ok (consb s)" and "\<not> p_killed (procs s p)" and "target < 2 ^ 31" and "i \<le> target"
    and "\<forall>j < target. user_wr (mem s) (root_of s p) (PGROUNDDOWN (a + of_nat j))"
  shows "\<exists>s'. case take_line (target - i) (0 < i) (cons_ready (consb s)) of (bs, r, w) \<Rightarrow>
      consoleread_loop kend (Uva a) target i s = Inr (if w then Sleep (i + length bs) [] else Ret (int (i + length bs)), s')
    \<and> cons_ok (consb s') \<and> tty (consb s') = (r, cons_edit (consb s))
    \<and> ubyte (mem s') (root_of s p) = write_at (a + of_nat i) bs (ubyte (mem s) (root_of s p))
    \<and> (if w then me s' = None \<and> procs s' = (procs s)(p := (procs s p)\<lparr>p_chan := Some ConsRead, p_state := SLEEPING\<rparr>)
       else me s' = Some p \<and> procs s' = procs s)"
  using assms
proof (induction "target - i" arbitrary: i s)
  case 0
  then have "i = target" by simp
  then show ?case using 0
    by (intro exI [of _ s])
      (simp add: consoleread_loop.simps [of kend "Uva a" target target s] runs_def)
next
  case (Suc n)
  note r = Suc.prems(1) and ok = Suc.prems(2) and nk = Suc.prems(3) and tb = Suc.prems(4) and wr = Suc.prems(6)
  note unf = consoleread_loop.simps [of kend "Uva a" target i s]
  have lt: "i < target" and d: "target - i = Suc n" using Suc.hyps(2) by simp_all
  have me: "me s = Some p" using r by (simp add: runs_def)
  let ?C = "consb s"
  show ?case
  proof (cases "cons_r ?C = cons_w ?C")
    case True
    then have e: "cons_ready ?C = []" by (simp add: cons_ready_def)
    let ?s = "(upd_proc p (\<lambda>P. P\<lparr>p_chan := Some ConsRead, p_state := SLEEPING\<rparr>) s)\<lparr>me := None\<rparr>"
    have "consoleread_loop kend (Uva a) target i s = Inr (Sleep i [], ?s)"
      using unf lt True me nk sleep_running [OF me] by (simp add: myproc_def killed_def)
    then show ?thesis using e ok
      by (intro exI [of _ ?s]) (simp add: d upd_proc_def)
  next
    case False
    note t = cons_take [OF ok False]
    define c where "c = cons_buf ?C ! unat (cons_r ?C mod 128)"
    define s1 where "s1 = upd_cons (\<lambda>C. C\<lparr>cons_r := cons_r C + 1\<rparr>) s"
    have b1: "consb s1 = ?C\<lparr>cons_r := cons_r ?C + 1\<rparr>" by (simp add: s1_def)
    have hd: "cons_ready ?C = c # cons_ready (consb s1)" using t(1) by (simp add: c_def b1)
    show ?thesis
    proof (cases "c = 4")
      case True
      have "consoleread_loop kend (Uva a) target i s = Inr (Ret (int i), if 0 < i then upd_cons (\<lambda>C. C\<lparr>cons_r := cons_r C - 1\<rparr>) s1 else s1)"
        using unf lt False True by (simp add: Let_def c_def s1_def)
      moreover have "upd_cons (\<lambda>C. C\<lparr>cons_r := cons_r C - 1\<rparr>) s1 = s" by (simp add: s1_def upd_cons_def)
      ultimately show ?thesis using True hd me ok t b1
        by (intro exI [of _ "if 0 < i then s else s1"]) (auto simp: d s1_def)
    next
      case nd: False
      have one: "length [c] < 2 ^ 64" by simp
      have r1: "runs kend p s1" using r by (simp add: s1_def)
      obtain rr s2 k where o1: "copyout kend (p_sz (procs s1 p)) (root_of s1 p) (root_of s1 p) (a + of_nat i) [c] s1 = Inr (rr, s2)"
        "rr = 0 \<and> k = length [c] \<or> rr = -1 \<and> k < length [c]"
        "ubyte (mem s2) (root_of s1 p) = write_at (a + of_nat i) (take k [c]) (ubyte (mem s1) (root_of s1 p))"
        "kmem.more s2 = kmem.more s1" "runs kend p s2"
        "(\<forall>j < length [c]. user_wr (mem s1) (root_of s1 p) (PGROUNDDOWN (a + of_nat i + of_nat j))) \<longrightarrow> rr = 0"
        "\<forall>v. user_ok (mem s1) (root_of s1 p) v \<longrightarrow> amap (mem s2) (root_of s1 p) v = amap (mem s1) (root_of s1 p) v"
        by (rule runs_copyout [OF r1 one])
      have e1: "procs s1 = procs s" "me s1 = Some p" "mem s1 = mem s" using me by (simp_all add: s1_def)
      note m = more_fields [OF o1(4)]
      have rr: "rr = 0" "k = 1" using o1(2,6) wr lt by (auto simp: e1)
      have "of_nat (unat (of_nat i :: u32)) = (ucast (of_nat i :: u32) :: u64)" by simp
      moreover have "unat (of_nat i :: u32) = i" by (rule unat_of_nat32) (use lt tb in simp)
      ultimately have ui: "(ucast (of_nat i :: u32) :: u64) = of_nat i" by (simp only:)
      have cp: "either_copyout kend (advance (of_nat i) (Uva a)) [c] s1 = Inr (0, [], s2)"
        using o1(1) rr e1 by (simp add: myproc_def ui)
      have f2: "procs s2 = procs s" "me s2 = Some p" "consb s2 = consb s1" using m e1 by simp_all
      have ub: "ubyte (mem s2) (root_of s p) = write_at (a + of_nat i) [c] (ubyte (mem s) (root_of s p))"
        using o1(3) rr by (simp add: e1)
      show ?thesis
      proof (cases "c = 10")
        case True
        have "consoleread_loop kend (Uva a) target i s = Inr (Ret (int (i + 1)), s2)"
          using unf lt False nd True cp by (simp add: Let_def c_def [symmetric] s1_def [symmetric])
        then show ?thesis using True hd ub f2 t b1
          by (intro exI [of _ s2]) (simp add: d)
      next
        case nn: False
        have st: "consoleread_loop kend (Uva a) target i s = consoleread_loop kend (Uva a) target (i + 1) s2"
          using unf lt False nd nn cp by (simp add: Let_def c_def [symmetric] s1_def [symmetric])
        have p2: "n = target - (i + 1)" "cons_ok (consb s2)" "\<not> p_killed (procs s2 p)" "i + 1 \<le> target" using d lt t(3) nk f2 b1 by simp_all
        have wr2: "\<forall>j < target. user_wr (mem s2) (root_of s2 p) (PGROUNDDOWN (a + of_nat j))"
          using wr o1(7) by (simp add: f2 e1 user_ok_def)
        obtain bs rs w where q1: "take_line (target - (i + 1)) (0 < i + 1) (cons_ready (consb s2)) = (bs, rs, w)" by (rule prod_cases3)
        from Suc.hyps(1) [OF p2(1) o1(5) p2(2,3) tb p2(4) wr2, unfolded q1 prod.case] obtain s'
          where q: "consoleread_loop kend (Uva a) target (i + 1) s2 = Inr (if w then Sleep (i + 1 + length bs) [] else Ret (int (i + 1 + length bs)), s')"
          "cons_ok (consb s')" "tty (consb s') = (rs, cons_edit (consb s2))"
          "ubyte (mem s') (root_of s2 p) = write_at (a + of_nat (i + 1)) bs (ubyte (mem s2) (root_of s2 p))"
          "if w then me s' = None \<and> procs s' = (procs s2)(p := (procs s2 p)\<lparr>p_chan := Some ConsRead, p_state := SLEEPING\<rparr>)
           else me s' = Some p \<and> procs s' = procs s2" by blast
        have tl: "take_line (target - i) (0 < i) (cons_ready ?C) = (c # bs, rs, w)"
          using q1 hd nd nn p2(1) f2 by (simp add: d)
        have "length bs \<le> n" using length_take_line [of "target - (i + 1)" True "cons_ready (consb s2)"] q1 p2(1) by simp
        then have "length [c] + length bs < 2 ^ 64" using tb d by simp
        then have "ubyte (mem s') (root_of s p) = write_at (a + of_nat i) (c # bs) (ubyte (mem s) (root_of s p))"
          using q(4) ub write_at_append [of "[c]" bs "a + of_nat i"] by (simp add: f2 ac_simps)
        then show ?thesis using tl st q(1-3,5) f2 t(2) b1
          by (intro exI [of _ s']) (auto split: if_splits)
      qed
    qed
  qed
qed

section \<open>From the keyboard to the reader\<close>

text \<open>Whoever sleeps for input finds none.\<close>

definition cons_wait :: "kernel \<Rightarrow> bool" where
  "cons_wait s \<longleftrightarrow> (\<forall>i. asleep ConsRead s i \<longrightarrow> cons_ready (consb s) = []) \<and> (\<forall>i. me s = Some i \<longrightarrow> p_state (procs s i) = RUNNING)"

lemma consoleintr_wait:
  assumes "cons_ok (consb s)" and "cons_wait s"
  shows "cons_wait (consoleintr c s)"
proof -
  let ?s = "consoleintr c s"
  have me: "\<And>i. me s = Some i \<Longrightarrow> p_state (procs s i) = RUNNING" using assms(2) by (simp add: cons_wait_def)
  note c = consoleintr_spec [OF assms(1), of c]
  show ?thesis
  proof (cases "procs ?s = procs s \<and> cons_ready (consb ?s) = cons_ready (consb s)")
    case True
    then show ?thesis using assms(2) c by (simp add: cons_wait_def asleep_def)
  next
    case False
    then have p: "procs ?s = (\<lambda>i. woken ConsRead (me s) i (procs s i))" using c by blast
    then show ?thesis using woken_asleep(1) [OF p me] me c by (auto simp: cons_wait_def)
  qed
qed

lemma keys_refine:
  assumes "cons_ok (consb s)"
  shows "cons_ok (consb (fold consoleintr ks s)) \<and> tty (consb (fold consoleintr ks s)) = fold key ks (tty (consb s))"
  using assms
proof (induction ks arbitrary: s)
  case (Cons c ks)
  then show ?case using consoleintr_spec [OF Cons.prems, of c] by simp
qed simp

lemma keys_wait: "cons_ok (consb s) \<Longrightarrow> cons_wait s \<Longrightarrow> cons_wait (fold consoleintr ks s)"
proof (induction ks arbitrary: s)
  case (Cons c ks)
  then show ?case using consoleintr_spec [OF Cons.prems(1), of c] consoleintr_wait [OF Cons.prems, of c] by simp
qed simp

text \<open>C13. The console refines its line discipline: for every sequence of keys, editing keys and a full buffer
  included, the buffer with its three wrapping counters stands for exactly the ready bytes and the edited line
  that the discipline \<open>key\<close> computes, and no process sleeps for input while bytes are ready.\<close>

theorem console_refines:
  assumes "cons_ok (consb s)" and "cons_wait s"
  shows "cons_ok (consb (uartintr idle ks s)) \<and> tty (consb (uartintr idle ks s)) = fold key ks (tty (consb s)) \<and> cons_wait (uartintr idle ks s)"
proof -
  let ?t = "if idle then wakeup TxChan (s\<lparr>tx_busy := False\<rparr>) else s"
  have "cons_ok (consb ?t)" "tty (consb ?t) = tty (consb s)" using assms(1) by simp_all
  moreover have "cons_wait ?t" using assms(2) by (auto simp: cons_wait_def asleep_def procs_wakeup woken_def split: if_splits)
  ultimately show ?thesis using keys_refine [of ?t ks] keys_wait [of ?t ks] by (simp add: uartintr_def)
qed

definition plain :: "u8 \<Rightarrow> bool" where
  "plain c \<longleftrightarrow> c \<notin> {0, 4, 8, 10, 13, 16, 21, 127}"

lemma key_plain:
  "\<forall>c \<in> set ks. plain c \<Longrightarrow> length E + length ks < 127 \<Longrightarrow> fold key ks ([], E) = ([], E @ ks)"
proof (induction ks arbitrary: E)
  case (Cons c ks)
  then have "key c ([], E) = ([], E @ [c])" by (auto simp: key_def plain_def)
  then show ?case using Cons by simp
qed simp

lemma take_line_plain:
  "\<forall>c \<in> set ks. plain c \<Longrightarrow> length ks < n \<Longrightarrow> take_line n got (ks @ [10]) = (ks @ [10], [], False)"
proof (induction ks arbitrary: n got)
  case Nil
  then obtain m where "n = Suc m" by (cases n) auto
  then show ?case by simp
next
  case (Cons c ks)
  then obtain m where n: "n = Suc m" "length ks < m" by (cases n) auto
  have "c \<noteq> 4" "c \<noteq> 10" using Cons.prems(1) by (auto simp: plain_def)
  then show ?case using Cons.IH [OF _ n(2), of True] Cons.prems(1) by (simp add: n(1))
qed

lemma kill_line_trunc: "kmem.truncate (kill_line k s) = kmem.truncate s"
  by (induction k arbitrary: s) (simp_all add: upd_cons_def consputc.simps uartputc_sync_def kmem.truncate_def)

lemma consoleintr_trunc: "kmem.truncate (consoleintr c s) = kmem.truncate s"
  by (simp add: consoleintr_def kill_line_trunc Let_def upd_cons_def consputc.simps uartputc_sync_def wakeup_procs)
    (simp add: kmem.truncate_def)

lemma consoleintr_me: "cons_ok (consb s) \<Longrightarrow> me s = Some p \<Longrightarrow> procs (consoleintr c s) p = procs s p \<and> me (consoleintr c s) = Some p"
  using consoleintr_spec [of s c] by (auto simp: fun_eq_iff)

lemma keys_runs:
  assumes "cons_ok (consb s)" and "runs kend p s"
  shows "runs kend p (fold consoleintr ks s) \<and> procs (fold consoleintr ks s) p = procs s p \<and> mem (fold consoleintr ks s) = mem s"
  using assms
proof (induction ks arbitrary: s)
  case (Cons c ks)
  have me: "me s = Some p" using Cons.prems(2) by (simp add: runs_def)
  note m = consoleintr_me [OF Cons.prems(1) me, of c]
  have "runs kend p (consoleintr c s)"
    using Cons.prems(2) m user_inv_fields [OF consoleintr_trunc, of kend _ _ c s] by (simp add: runs_def)
  moreover have "mem (consoleintr c s) = mem s" using consoleintr_trunc [of c s] by (simp add: kmem.truncate_def)
  ultimately show ?case using Cons.IH [of "consoleintr c s"] consoleintr_spec [OF Cons.prems(1), of c] m by simp
qed simp

text \<open>C28. A line that is typed reaches the reader: on an idle console, after the keys of a line of up to 126 ordinary characters and
  Enter, a process that reads into a large enough buffer gets exactly the line with its newline, and the
  console is empty again.\<close>

theorem console_line_delivered:
  assumes "runs kend p s" and "\<not> p_killed (procs s p)" and "cons_ok (consb s)" and "tty (consb s) = ([], [])"
    and "\<forall>c \<in> set ks. plain c" and "length ks < 127" and "int (length ks) < n" and "n < 2 ^ 31"
    and "\<forall>j < nat n. user_wr (mem s) (root_of s p) (PGROUNDDOWN (a + of_nat j))"
  shows "\<exists>s'. consoleread kend (Uva a) n (uartintr False (ks @ [13]) s) = Inr (Ret (int (length ks) + 1), s')
    \<and> ubyte (mem s') (root_of s p) = write_at a (ks @ [10]) (ubyte (mem s) (root_of s p)) \<and> tty (consb s') = ([], [])"
proof -
  define t where "t = fold consoleintr (ks @ [13]) s"
  have t: "uartintr False (ks @ [13]) s = t" by (simp add: uartintr_def t_def)
  have "fold key (ks @ [13]) ([], []) = (ks @ [10], [])"
    using key_plain [OF assms(5), of "[]"] assms(6) by (simp add: key_def)
  then have ok: "cons_ok (consb t)" "tty (consb t) = (ks @ [10], [])"
    using keys_refine [OF assms(3), of "ks @ [13]"] assms(4) by (simp_all add: t_def)
  have r: "runs kend p t" "procs t p = procs s p" "mem t = mem s" using keys_runs [OF assms(3,1), of "ks @ [13]"] by (simp_all add: t_def)
  have ln: "length ks < nat n" using assms(7) by linarith
  have tl: "take_line (nat n - 0) (0 < (0 :: nat)) (cons_ready (consb t)) = (ks @ [10], [], False)"
    using take_line_plain [OF assms(5) ln, of False] ok(2) by simp
  have p: "\<not> p_killed (procs t p)" "nat n < 2 ^ 31" "0 \<le> nat n" "\<forall>j < nat n. user_wr (mem t) (root_of t p) (PGROUNDDOWN (a + of_nat j))"
    using assms(2,8,9) r by simp_all
  from consoleread_loop_spec [OF r(1) ok(1) p, unfolded tl prod.case] show ?thesis
    using assms(7) ok(2) by (auto simp: t consoleread_def r)
qed

section \<open>Typing on an idle console\<close>

lemma demo_console: "cons_ok demo_cons0" "tty demo_cons0 = ([], [])"
  by (simp_all add: cons_ok_def cons_ready_def cons_edit_def demo_cons0_def)

theorem console_refines_witness:
  "\<exists>s. demo_run s \<and> tty (consb (uartintr True [104, 120, 127, 105, 13] s)) = ([104, 105, 10], [])"
proof -
  obtain s where s: "demo_run s" by (rule demo_runs)
  have ok: "cons_ok (consb s)" and t: "tty (consb s) = ([], [])" using s demo_console by (simp_all add: demo_run_def)
  have na: "\<not> asleep ConsRead s i" for i using s by (cases "i = 0") (auto simp: demo_run_def asleep_def runs_def)
  have w: "cons_wait s" using s na by (auto simp: cons_wait_def demo_run_def runs_def)
  have "fold key [104, 120, 127, 105, 13] ([], []) = ([104, 105, 10], [])" by (simp add: key_def)
  then show ?thesis using s console_refines [OF ok w, of True "[104, 120, 127, 105, 13]"] t by auto
qed

theorem console_line_delivered_witness:
  "\<exists>s s'. demo_run s \<and> consoleread demo_kend (Uva 0x1000) 16 (uartintr False ([104, 105] @ [13]) s) = Inr (Ret 3, s')
    \<and> ubyte (mem s') (root_of s 0) = write_at 0x1000 [104, 105, 10] (ubyte (mem s) (root_of s 0))"
proof -
  obtain s where s: "demo_run s" "\<forall>j < 16. user_wr (mem s) (root_of s 0) (PGROUNDDOWN (0x1000 + of_nat j))" by (rule demo_runs)
  have p: "runs demo_kend 0 s" "\<not> p_killed (procs s 0)" "cons_ok (consb s)" "tty (consb s) = ([], [])"
    "\<forall>c \<in> set [104, 105]. plain c" "length [104 :: u8, 105] < 127" "int (length [104 :: u8, 105]) < 16" "16 < (2 :: int) ^ 31"
    "\<forall>j < nat 16. user_wr (mem s) (root_of s 0) (PGROUNDDOWN (0x1000 + of_nat j))"
    using s demo_console by (simp_all add: demo_run_def plain_def)
  have e: "int (length [104 :: u8, 105]) + 1 = 3" "[104, 105] @ [10] = [104, 105, 10 :: u8]" by simp_all
  show ?thesis using console_line_delivered [OF p, unfolded e] s(1) by blast
qed

end
