(* ===== verification/VirtioProps.thy ===== *)
theory VirtioProps
  imports Virtio RunDemo
begin

text \<open>
  The disk driver and a device that follows the virtio specification, with any number of requests in
  flight. The descriptors are split between the free ones and three for every call in progress; the
  heads of the chains that the device has not yet returned are, in this order, in the
  available ring, in the device and in the used ring. The device may fail a request. From this follow
  that the driver panics only on a failed request, that a request that succeeds is the transfer \<open>disk_rw\<close> that the buffer cache
  relies on, and that no wakeup is lost. All this holds until a call gives up waiting for a chain that the device still has,
  which the last property is about.
\<close>

section \<open>The driver and the device together\<close>

text \<open>\<open>last_avail\<close> and \<open>taken\<close> belong to the device: how far it has read the available ring, and the chains
  it is working on. \<open>calls\<close> are the calls of \<^verbatim>\<open>virtio_disk_rw\<close> that wait for the device, by the first descriptor of the
  chain.\<close>

record vsys =
  vd :: vdisk
  ks :: kernel
  last_avail :: u16
  taken :: "nat list"
  calls :: "nat \<rightharpoonup> nat \<times> bool"

definition second :: "vdisk \<Rightarrow> nat \<Rightarrow> nat" where
  "second v i = unat (d_next (desc v ! i))"

definition owned_by :: "vdisk \<Rightarrow> nat \<Rightarrow> nat set" where
  "owned_by v i = {i, second v i, second v (second v i)}"

text \<open>What the specification asks of a chain for a read or write of one block.\<close>

definition chain_ok :: "vdisk \<Rightarrow> nat \<Rightarrow> nat \<Rightarrow> nat \<Rightarrow> nat \<Rightarrow> bool" where
  "chain_ok v i k b j \<longleftrightarrow>
     (let D0 = desc v ! i; D1 = desc v ! second v i; D2 = desc v ! second v (second v i)
      in d_addr D0 = OpsOf k \<and> d_len D0 = 16 \<and> d_flags D0 = VRING_DESC_F_NEXT
         \<and> d_addr D1 = DataOf b \<and> d_len D1 = 1024
         \<and> d_flags D1 = (if r_type (ops v ! k) = VIRTIO_BLK_T_OUT then 0 else VRING_DESC_F_WRITE) OR VRING_DESC_F_NEXT
         \<and> d_addr D2 = StatusOf j \<and> d_len D2 = 1 \<and> d_flags D2 = VRING_DESC_F_WRITE)"

definition block_of :: "vdisk \<Rightarrow> nat \<Rightarrow> u32" where
  "block_of v k = ucast (r_sector (ops v ! k) div 2)"

definition transfer :: "bool \<Rightarrow> u32 \<Rightarrow> nat \<Rightarrow> kernel \<Rightarrow> kernel" where
  "transfer out blk b s =
     (if out then s\<lparr>disk := (disk s)(blk := b_data (bufs s b)), dtrace := dtrace s @ [(blk, b_data (bufs s b))]\<rparr>
      else upd_buf b (\<lambda>B. B\<lparr>b_data := disk s blk\<rparr>) s)"

text \<open>The device reads the next entry of the available ring; or it finishes a chain: it writes a status
  byte and returns the head in the used ring. Status 0 means that it has moved the block; with another status a write
  may have left anything in its block, and a read anything in its buffer. What the device does with a chain that is not
  well formed is not specified.\<close>

definition botched :: "bool \<Rightarrow> u32 \<Rightarrow> nat \<Rightarrow> kernel \<Rightarrow> kernel \<Rightarrow> bool" where
  "botched out blk b s s' \<longleftrightarrow>
     (if out then \<exists>x tr. s' = s\<lparr>disk := (disk s)(blk := x), dtrace := tr\<rparr>
      else \<exists>x. s' = upd_buf b (\<lambda>B. B\<lparr>b_data := x\<rparr>) s)"

definition answers :: "u8 \<Rightarrow> bool \<Rightarrow> u32 \<Rightarrow> nat \<Rightarrow> kernel \<Rightarrow> kernel \<Rightarrow> bool" where
  "answers e out blk b s s' \<longleftrightarrow> (if e = 0 then s' = transfer out blk b s else botched out blk b s s')"

definition takes :: "vsys \<Rightarrow> vsys \<Rightarrow> bool" where
  "takes y y' \<longleftrightarrow> last_avail y \<noteq> avail_idx (vd y)
     \<and> y' = y\<lparr>last_avail := last_avail y + 1,
              taken := taken y @ [unat (avail_ring (vd y) ! (unat (last_avail y) mod NUM))]\<rparr>"

definition serves :: "nat \<Rightarrow> u8 \<Rightarrow> vsys \<Rightarrow> vsys \<Rightarrow> bool" where
  "serves i e y y' \<longleftrightarrow> i \<in> set (taken y)
     \<and> (\<forall>k b j. chain_ok (vd y) i k b j \<longrightarrow>
          (\<exists>s'. answers e (r_type (ops (vd y) ! k) = VIRTIO_BLK_T_OUT) (block_of (vd y) k) b (ks y) s'
             \<and> y' = y\<lparr>ks := s',
                      vd := (vd y)\<lparr>info_status := (info_status (vd y))[j := e],
                                   used_ring := (used_ring (vd y))[unat (used_ring_idx (vd y)) mod NUM := of_nat i],
                                   used_ring_idx := used_ring_idx (vd y) + 1\<rparr>,
                      taken := remove1 i (taken y)\<rparr>))"

definition conforming :: "(vsys \<Rightarrow> vsys \<Rightarrow> bool) \<Rightarrow> bool" where
  "conforming dev \<longleftrightarrow> (\<forall>y y'. dev y y' \<longrightarrow> takes y y' \<or> (\<exists>i e. serves i e y y'))"

section \<open>The invariant\<close>

definition formatted :: "vdisk \<Rightarrow> kernel \<Rightarrow> nat \<Rightarrow> nat \<Rightarrow> bool \<Rightarrow> bool" where
  "formatted v s i b wr \<longleftrightarrow>
     (let i1 = second v i; i2 = second v i1
      in i < NUM \<and> i1 < NUM \<and> i2 < NUM \<and> distinct [i, i1, i2]
         \<and> desc v ! i = \<lparr>d_addr = OpsOf i, d_len = 16, d_flags = VRING_DESC_F_NEXT, d_next = of_nat i1\<rparr>
         \<and> desc v ! i1 = \<lparr>d_addr = DataOf b, d_len = 1024,
              d_flags = (if wr then 0 else VRING_DESC_F_WRITE) OR VRING_DESC_F_NEXT, d_next = of_nat i2\<rparr>
         \<and> desc v ! i2 = \<lparr>d_addr = StatusOf i, d_len = 1, d_flags = VRING_DESC_F_WRITE, d_next = 0\<rparr>
         \<and> ops v ! i = \<lparr>r_type = (if wr then VIRTIO_BLK_T_OUT else VIRTIO_BLK_T_IN), r_reserved = 0,
              r_sector = sector_of (b_blockno (bufs s b))\<rparr>
         \<and> info_b v ! i = Some b)"

definition pending :: "vdisk \<Rightarrow> u16 \<Rightarrow> nat list" where
  "pending v la = map unat (ring_list NUM (avail_ring v) la (avail_idx v))"

definition completed :: "vdisk \<Rightarrow> nat list" where
  "completed v = map unat (ring_list NUM (used_ring v) (used_idx v) (used_ring_idx v))"

definition sizes :: "vdisk \<Rightarrow> bool" where
  "sizes v \<longleftrightarrow> length (desc v) = NUM \<and> length (avail_ring v) = NUM \<and> length (used_ring v) = NUM \<and> length (free v) = NUM
     \<and> length (info_b v) = NUM \<and> length (info_status v) = NUM \<and> length (ops v) = NUM"

definition chains :: "vdisk \<Rightarrow> kernel \<Rightarrow> (nat \<rightharpoonup> nat \<times> bool) \<Rightarrow> bool" where
  "chains v s cs \<longleftrightarrow> sizes v
     \<and> (\<forall>i b wr. cs i = Some (b, wr) \<longrightarrow> formatted v s i b wr)
     \<and> (\<forall>i j. i \<in> dom cs \<longrightarrow> j \<in> dom cs \<longrightarrow> i \<noteq> j \<longrightarrow> owned_by v i \<inter> owned_by v j = {})
     \<and> (\<forall>k < NUM. free v ! k \<longleftrightarrow> (\<forall>i \<in> dom cs. k \<notin> owned_by v i))
     \<and> (\<forall>i j. i \<in> dom cs \<longrightarrow> j \<in> dom cs \<longrightarrow> fst (the (cs i)) = fst (the (cs j)) \<longrightarrow> i = j)"

definition with_device :: "vdisk \<Rightarrow> u16 \<Rightarrow> nat list \<Rightarrow> nat list" where
  "with_device v la tk = pending v la @ tk @ completed v"

definition vinv :: "vdisk \<Rightarrow> kernel \<Rightarrow> u16 \<Rightarrow> nat list \<Rightarrow> (nat \<rightharpoonup> nat \<times> bool) \<Rightarrow> bool" where
  "vinv v s la tk cs \<longleftrightarrow> chains v s cs
     \<and> distinct (with_device v la tk) \<and> set (with_device v la tk) \<subseteq> dom cs
     \<and> (\<forall>i b wr. cs i = Some (b, wr) \<longrightarrow> b_disk (bufs s b) = (i \<in> set (with_device v la tk)))"

lemma formatted_owned:
  assumes "formatted v s i b wr"
  shows "owned_by v i \<subseteq> {..<NUM}" and "card (owned_by v i) = 3" and "i \<in> owned_by v i"
  using assms by (auto simp: formatted_def owned_by_def Let_def)

lemma chainsD:
  assumes "chains v s cs"
  shows "sizes v" and "cs i = Some (b, wr) \<Longrightarrow> formatted v s i b wr" and "dom cs \<subseteq> {..<NUM}" and "finite (dom cs)"
    and "i \<in> dom cs \<Longrightarrow> j \<in> dom cs \<Longrightarrow> i \<noteq> j \<Longrightarrow> owned_by v i \<inter> owned_by v j = {}"
    and "k < NUM \<Longrightarrow> free v ! k \<longleftrightarrow> (\<forall>i \<in> dom cs. k \<notin> owned_by v i)"
proof -
  show "sizes v" and "cs i = Some (b, wr) \<Longrightarrow> formatted v s i b wr"
    and "i \<in> dom cs \<Longrightarrow> j \<in> dom cs \<Longrightarrow> i \<noteq> j \<Longrightarrow> owned_by v i \<inter> owned_by v j = {}"
    and "k < NUM \<Longrightarrow> free v ! k \<longleftrightarrow> (\<forall>i \<in> dom cs. k \<notin> owned_by v i)"
    using assms unfolding chains_def by blast+
  show s: "dom cs \<subseteq> {..<NUM}" using assms formatted_owned(1,3) unfolding chains_def by fastforce
  show "finite (dom cs)" by (rule finite_subset [OF s]) simp
qed

text \<open>With three descriptors for each call, two calls at most are in progress.\<close>

lemma few_calls:
  assumes "chains v s cs"
  shows "3 * card (dom cs) \<le> NUM"
proof -
  note D = chainsD [OF assms]
  have c: "card (owned_by v i) = 3" and f: "owned_by v i \<subseteq> {..<NUM}" if "i \<in> dom cs" for i
    using that formatted_owned [OF D(2)] by (auto simp: dom_def)
  have "card (\<Union>i \<in> dom cs. owned_by v i) = (\<Sum>i \<in> dom cs. card (owned_by v i))"
    by (rule card_UN_disjoint) (use D(4,5) in \<open>auto simp: owned_by_def\<close>)
  also have "\<dots> = 3 * card (dom cs)" using c by simp
  finally have "3 * card (dom cs) = card (\<Union>i \<in> dom cs. owned_by v i)" by simp
  also have "\<dots> \<le> card {..<NUM}" by (rule card_mono) (use f in auto)
  finally show ?thesis by simp
qed

lemma with_device_few:
  assumes "vinv v s la tk cs"
  shows "length (with_device v la tk) \<le> 2" and "unat (avail_idx v - la) < NUM" and "unat (used_ring_idx v - used_idx v) < NUM"
proof -
  have "chains v s cs" "distinct (with_device v la tk)" "set (with_device v la tk) \<subseteq> dom cs"
    using assms unfolding vinv_def by blast+
  then have "length (with_device v la tk) \<le> card (dom cs)"
    by (metis card_mono chainsD(4) distinct_card)
  then show l: "length (with_device v la tk) \<le> 2" using few_calls [OF \<open>chains v s cs\<close>] by simp
  show "unat (avail_idx v - la) < NUM" "unat (used_ring_idx v - used_idx v) < NUM"
    using l by (simp_all add: with_device_def pending_def completed_def)
qed


text \<open>The running process is not asleep, and a process waits for a buffer only while the disk has it for a call in
  progress.\<close>

definition waits_ok :: "kernel \<Rightarrow> (nat \<rightharpoonup> nat \<times> bool) \<Rightarrow> bool" where
  "waits_ok s cs \<longleftrightarrow> (\<forall>p. me s = Some p \<longrightarrow> p_state (procs s p) = RUNNING)
     \<and> (\<forall>q b. asleep (DiskBuf b) s q \<longrightarrow> b_disk (bufs s b) \<and> (\<exists>i wr. cs i = Some (b, wr)))"

section \<open>Steps of the device\<close>

lemma formatted_cong:
  assumes "formatted v s i b wr" and "\<And>k. k \<in> owned_by v i \<Longrightarrow> desc v' ! k = desc v ! k"
    and "ops v' ! i = ops v ! i" and "info_b v' ! i = info_b v ! i" and "b_blockno (bufs s' b) = b_blockno (bufs s b)"
  shows "formatted v' s' i b wr" and "owned_by v' i = owned_by v i"
proof -
  have e: "desc v' ! i = desc v ! i" "desc v' ! second v i = desc v ! second v i"
    "desc v' ! second v (second v i) = desc v ! second v (second v i)"
    using assms(2) by (simp_all add: owned_by_def)
  have s: "second v' i = second v i" "second v' (second v i) = second v (second v i)"
    using e by (simp_all add: second_def)
  show "formatted v' s' i b wr" using assms(1) by (simp add: formatted_def s e assms(3-5))
  show "owned_by v' i = owned_by v i" by (simp add: owned_by_def s)
qed

lemma chains_cong:
  assumes "chains v s cs" and "sizes v'" and "ops v' = ops v" and "info_b v' = info_b v" and "free v' = free v"
    and "\<And>i k. i \<in> dom cs \<Longrightarrow> k \<in> owned_by v i \<Longrightarrow> desc v' ! k = desc v ! k"
    and "\<And>i b wr. cs i = Some (b, wr) \<Longrightarrow> b_blockno (bufs s' b) = b_blockno (bufs s b)"
  shows "chains v' s' cs"
proof -
  have f: "formatted v' s' i b wr" and o: "owned_by v' i = owned_by v i" if "cs i = Some (b, wr)" for i b wr
  proof -
    have "desc v' ! k = desc v ! k" if "k \<in> owned_by v i" for k using assms(6) [of i k] that \<open>cs i = Some (b, wr)\<close> by auto
    from formatted_cong [OF chainsD(2) [OF assms(1) that] this] show "formatted v' s' i b wr" "owned_by v' i = owned_by v i"
      using assms(3,4,7) that by simp_all
  qed
  have o': "owned_by v' i = owned_by v i" if "i \<in> dom cs" for i using that o by (auto simp: dom_def)
  show ?thesis using assms(1,2) f o' unfolding chains_def assms(5) by simp
qed

lemma vinvD:
  assumes "vinv v s la tk cs"
  shows "chains v s cs" and "distinct (with_device v la tk)" and "set (with_device v la tk) \<subseteq> dom cs"
    and "cs i = Some (b, wr) \<Longrightarrow> b_disk (bufs s b) = (i \<in> set (with_device v la tk))"
    and "i \<in> set (with_device v la tk) \<Longrightarrow> \<exists>b wr. cs i = Some (b, wr) \<and> formatted v s i b wr"
proof -
  show c: "chains v s cs" and "distinct (with_device v la tk)" and d: "set (with_device v la tk) \<subseteq> dom cs"
    and "cs i = Some (b, wr) \<Longrightarrow> b_disk (bufs s b) = (i \<in> set (with_device v la tk))"
    using assms unfolding vinv_def by blast+
  assume "i \<in> set (with_device v la tk)"
  then obtain b wr where "cs i = Some (b, wr)" using d by fastforce
  then show "\<exists>b wr. cs i = Some (b, wr) \<and> formatted v s i b wr" using chainsD(2) [OF c] by blast
qed

abbreviation vinv_of :: "vsys \<Rightarrow> bool" where
  "vinv_of y \<equiv> vinv (vd y) (ks y) (last_avail y) (taken y) (calls y)"

lemma takes_inv:
  assumes "vinv_of y" and "takes y y'"
  shows "vinv_of y'" and "ks y' = ks y" and "calls y' = calls y"
proof -
  define v where "v = vd y"
  define h where "h = unat (avail_ring v ! (unat (last_avail y) mod NUM))"
  have y': "y' = y\<lparr>last_avail := last_avail y + 1, taken := taken y @ [h]\<rparr>" and ne: "last_avail y \<noteq> avail_idx v"
    using assms(2) by (simp_all add: takes_def h_def v_def)
  have p: "pending v (last_avail y) = h # pending v (last_avail y + 1)"
    using ring_get [OF _ ne, of NUM "avail_ring v"] by (simp add: pending_def h_def)
  show "vinv_of y'" using assms(1) unfolding vinv_def by (auto simp: y' with_device_def v_def [symmetric] p)
  show "ks y' = ks y" and "calls y' = calls y" by (simp_all add: y')
qed

lemma formatted_chain_ok: "formatted v s i b wr \<Longrightarrow> chain_ok v i i b i"
  by (auto simp: formatted_def chain_ok_def Let_def VIRTIO_BLK_T_OUT_def VIRTIO_BLK_T_IN_def)

text \<open>The sector number is computed in 32 bits, so that the device sees the block number without its highest bit.\<close>

lemma sector_block: "(ucast (sector_of blk div 2) :: u32) = take_bit 31 blk"
proof (rule bit_word_eqI)
  fix n assume n: "n < LENGTH(32)"
  have s: "sector_of blk div 2 = drop_bit 1 (ucast (push_bit 1 blk))"
    by (simp add: sector_of_def drop_bit_eq_div push_bit_eq_mult mult.commute)
  show "bit (ucast (sector_of blk div 2) :: u32) n = bit (take_bit 31 blk) n"
    using n unfolding s by (auto simp: bit_simps simp del: push_bit_Suc push_bit_of_1)
qed

lemma low_block: "unat (blk :: u32) < 2 ^ 31 \<Longrightarrow> take_bit 31 blk = blk"
  by (rule word_unat_eq_iff [THEN iffD2]) (simp add: unsigned_take_bit_eq take_bit_nat_eq_self)

lemma answers_kernel:
  assumes "answers e out blk b s s'"
  shows "b_disk (bufs s' k) = b_disk (bufs s k)" and "b_blockno (bufs s' k) = b_blockno (bufs s k)"
    and "procs s' = procs s" and "me s' = me s"
  using assms by (auto simp: answers_def botched_def transfer_def upd_buf_def split: if_splits)

lemma transfer_disk_rw: "transfer wr (b_blockno (bufs s b)) b s = disk_rw b wr s"
  by (simp add: transfer_def disk_rw_def Let_def upd_buf_def)

lemma serves_inv:
  assumes "vinv_of y" and "serves i e y y'"
  obtains b wr where "calls y i = Some (b, wr)" and "vinv_of y'" and "calls y' = calls y"
    and "answers e wr (take_bit 31 (b_blockno (bufs (ks y) b))) b (ks y) (ks y')" and "info_status (vd y') ! i = e"
    and "i \<in> set (completed (vd y'))"
proof -
  define v where "v = vd y"
  note D = vinvD [OF assms(1)]
  have i: "i \<in> set (taken y)" using assms(2) by (simp add: serves_def)
  then obtain b wr where c: "calls y i = Some (b, wr)" and f: "formatted v (ks y) i b wr"
    using D(5) [of i] by (auto simp: with_device_def v_def)
  define v' where "v' = v\<lparr>info_status := (info_status v)[i := e],
       used_ring := (used_ring v)[unat (used_ring_idx v) mod NUM := of_nat i], used_ring_idx := used_ring_idx v + 1\<rparr>"
  have o: "(r_type (ops v ! i) = VIRTIO_BLK_T_OUT) = wr"
    using f by (simp add: formatted_def Let_def VIRTIO_BLK_T_OUT_def VIRTIO_BLK_T_IN_def)
  obtain s' where a: "answers e wr (block_of v i) b (ks y) s'" and y': "y' = y\<lparr>ks := s', vd := v', taken := remove1 i (taken y)\<rparr>"
    using assms(2) formatted_chain_ok [OF f] o unfolding serves_def v'_def v_def by blast
  note k = answers_kernel [OF a]
  have blk: "block_of v i = take_bit 31 (b_blockno (bufs (ks y) b))"
    using f sector_block by (simp add: block_of_def formatted_def Let_def)
  have sz: "sizes v" using chainsD(1) [OF D(1)] by (simp add: v_def)
  have i8: "i < NUM" using f by (simp add: formatted_def Let_def)
  have u: "completed v' = completed v @ [i]"
    using ring_put [of NUM "used_ring v" "used_ring_idx v" "used_idx v" "of_nat i"] with_device_few(3) [OF assms(1)] sz i8
    by (simp add: completed_def v'_def v_def [symmetric] sizes_def unat_of_nat take_bit_nat_eq_self)
  have p: "pending v' (last_avail y) = pending v (last_avail y)" by (simp add: pending_def v'_def)
  have ch: "chains v' s' (calls y)"
    by (rule chains_cong [OF D(1)]) (use sz in \<open>simp_all add: v'_def v_def sizes_def k\<close>)
  have dt: "distinct (taken y)" and sp: "i \<notin> set (pending v (last_avail y))" "i \<notin> set (completed v)"
    using D(2) i by (auto simp: with_device_def v_def)
  have w: "set (with_device v' (last_avail y) (remove1 i (taken y))) = set (with_device v (last_avail y) (taken y))"
    "distinct (with_device v' (last_avail y) (remove1 i (taken y)))"
    using D(2) i dt sp by (auto simp: with_device_def u p v_def [symmetric])
  have "vinv_of y'" unfolding vinv_def using ch w D(3,4) by (simp add: y' k v_def)
  moreover have "info_status v' ! i = e" using i8 sz by (simp add: v'_def sizes_def)
  ultimately show ?thesis using that [OF c] a blk u by (simp add: y')
qed


section \<open>Steps of the driver\<close>

text \<open>Statistics, timing and register writes do not matter.\<close>

definition vcore :: "vdisk \<Rightarrow> _" where
  "vcore v = (desc v, ops v, info_b v, free v, avail_ring v, avail_idx v, used_ring v, used_ring_idx v, used_idx v, info_status v)"

lemma vcore_simps [simp]:
  "vcore (upd_vstats f v) = vcore v" "vcore (safe_write_reg r x v) = vcore v"
  "vcore (v\<lparr>start_time := a\<rparr>) = vcore v" "vcore (v\<lparr>total_time := t, operation_count := n\<rparr>) = vcore v"
  by (simp_all add: vcore_def upd_vstats_def safe_write_reg_def)

lemma vinv_cong:
  assumes "vinv v s la tk cs" and "vcore v' = vcore v"
    and "\<And>i b wr. cs i = Some (b, wr) \<Longrightarrow> b_blockno (bufs s' b) = b_blockno (bufs s b) \<and> b_disk (bufs s' b) = b_disk (bufs s b)"
  shows "vinv v' s' la tk cs"
proof -
  have e: "desc v' = desc v" "ops v' = ops v" "info_b v' = info_b v" "free v' = free v" "avail_ring v' = avail_ring v"
    "avail_idx v' = avail_idx v" "used_ring v' = used_ring v" "used_ring_idx v' = used_ring_idx v" "used_idx v' = used_idx v"
    "info_status v' = info_status v"
    using assms(2) by (simp_all add: vcore_def)
  have "sizes v'" using chainsD(1) [OF vinvD(1) [OF assms(1)]] by (simp add: sizes_def e)
  then have "chains v' s' cs" by (rule chains_cong [OF vinvD(1) [OF assms(1)]]) (use e assms(3) in simp_all)
  moreover have "pending v' la = pending v la" "completed v' = completed v" by (simp_all add: pending_def completed_def e)
  ultimately show ?thesis
    using assms(1) unfolding vinv_def with_device_def by (simp add: e) (meson assms(3))
qed

lemma bufs_wakeup [simp]: "bufs (wakeup ch s) = bufs s" "disk (wakeup ch s) = disk s" "dtrace (wakeup ch s) = dtrace s"
  by (simp_all add: wakeup_procs)

lemma bufs_after_upd: "bufs (upd_buf b f s) k = (if k = b then f (bufs s b) else bufs s k)"
  by (simp add: upd_buf_def)

text \<open>One entry of the used ring.\<close>

lemma intr_one:
  assumes "vinv v s la tk cs" and "used_idx v \<noteq> used_ring_idx v"
  defines "ident \<equiv> used_ring v ! unat (used_idx v mod 8)"
  obtains b wr where "cs (unat ident) = Some (b, wr)" and "sint ident = int (unat ident)" and "unat ident < NUM"
    and "completed v = unat ident # completed (v\<lparr>used_idx := used_idx v + 1\<rparr>)" and "info_b v ! unat ident = Some b"
    and "vinv (v\<lparr>used_idx := used_idx v + 1\<rparr>) (wakeup (DiskBuf b) (upd_buf b (\<lambda>B. B\<lparr>b_disk := False\<rparr>) s)) la tk cs"
proof -
  note D = vinvD [OF assms(1)]
  define i where "i = unat ident"
  define v' where "v' = v\<lparr>used_idx := used_idx v + 1\<rparr>"
  have "unat (used_idx v mod 8) = unat (used_idx v) mod NUM" by (simp add: unat_mod)
  then have c: "completed v = i # completed v'"
    using ring_get [OF _ assms(2), of NUM "used_ring v"] by (simp add: completed_def v'_def i_def ident_def)
  then have "i \<in> set (with_device v la tk)" by (simp add: with_device_def)
  then obtain b wr where b: "cs i = Some (b, wr)" "formatted v s i b wr" using D(5) by blast
  have i8: "i < NUM" "info_b v ! i = Some b" using b(2) by (simp_all add: formatted_def Let_def)
  define s' where "s' = wakeup (DiskBuf b) (upd_buf b (\<lambda>B. B\<lparr>b_disk := False\<rparr>) s)"
  have p: "pending v' la = pending v la" by (simp add: pending_def v'_def)
  have "chains v' s' cs"
    by (rule chains_cong [OF D(1)])
      (use chainsD(1) [OF D(1)] in \<open>simp_all add: v'_def sizes_def s'_def bufs_after_upd\<close>)
  moreover have ds: "distinct (with_device v' la tk)" "i \<notin> set (with_device v' la tk)"
    "set (with_device v la tk) = insert i (set (with_device v' la tk))"
    using D(2) by (auto simp: with_device_def c p)
  moreover have "b_disk (bufs s' b') = (j \<in> set (with_device v' la tk))" if j: "cs j = Some (b', wr')" for j b' wr'
  proof (cases "j = i")
    case True
    then show ?thesis using j b(1) ds(2) by (simp add: s'_def bufs_after_upd)
  next
    case False
    have "\<forall>i j. i \<in> dom cs \<longrightarrow> j \<in> dom cs \<longrightarrow> fst (the (cs i)) = fst (the (cs j)) \<longrightarrow> i = j"
      using D(1) unfolding chains_def by blast
    then have "b' \<noteq> b" using j b(1) False by (metis domI fst_conv option.sel)
    then show ?thesis using D(4) [OF j] ds(3) False by (simp add: s'_def bufs_after_upd)
  qed
  ultimately have "vinv v' s' la tk cs"
    using D(3) ds(3) c unfolding vinv_def by (auto simp: v'_def)
  moreover have "sint ident = int i" using i8(1) sint_small [of ident] by (simp add: i_def)
  ultimately show ?thesis using that b(1) i8 c unfolding i_def v'_def s'_def by simp
qed

definition only_woken :: "chan \<Rightarrow> kernel \<Rightarrow> kernel \<Rightarrow> bool" where
  "only_woken ch s s' \<longleftrightarrow> me s' = me s \<and> (\<forall>q. procs s' q = procs s q
     \<or> p_state (procs s q) = SLEEPING \<and> p_chan (procs s q) = Some ch \<and> p_state (procs s' q) = RUNNABLE)"

lemma only_woken_simps [simp]: "only_woken ch s s" "only_woken ch s (wakeup ch s)" "only_woken ch s (wakeup ch (wakeup ch s))"
  "only_woken ch s (wakeup ch (wakeup ch (wakeup ch s)))"
  by (auto simp: only_woken_def wakeup_procs woken_def)

lemma waits_ok_intr:
  assumes "waits_ok s cs"
  shows "waits_ok (wakeup (DiskBuf b) (upd_buf b (\<lambda>B. B\<lparr>b_disk := False\<rparr>) s)) cs"
  using assms unfolding waits_ok_def wakeup_procs
  by (auto simp: asleep_def woken_def upd_buf_def split: if_splits)

lemma waits_ok_woken:
  assumes "waits_ok s cs" and "only_woken DiskFree s s'" and "bufs s' = bufs s"
  shows "waits_ok s' cs"
  using assms unfolding waits_ok_def only_woken_def asleep_def
  by (metis procstate.distinct)

lemma waits_ok_drop:
  assumes "waits_ok s cs" and "cs i = Some (b, wr)" and "\<not> b_disk (bufs s b)"
  shows "waits_ok s (cs(i := None))"
  unfolding waits_ok_def
proof (intro conjI allI impI)
  show "p_state (procs s p) = RUNNING" if "me s = Some p" for p using assms(1) that by (simp add: waits_ok_def)
  show "b_disk (bufs s b')" if "asleep (DiskBuf b') s q" for q b' using assms(1) that by (auto simp: waits_ok_def)
  show "\<exists>j wr'. (cs(i := None)) j = Some (b', wr')" if a: "asleep (DiskBuf b') s q" for q b'
  proof -
    obtain j wr' where "cs j = Some (b', wr')" "b_disk (bufs s b')" using assms(1) a unfolding waits_ok_def by blast
    then show ?thesis using assms(2,3) by (intro exI [of _ j] exI [of _ wr']) auto
  qed
qed

lemma waits_ok_sleep:
  assumes "waits_ok s cs" and "procs s1 = procs s" and "i \<notin> dom cs"
    and "procs s' = (procs s1)(p := (procs s1 p)\<lparr>p_chan := Some (DiskBuf b), p_state := SLEEPING\<rparr>)" and "me s' = None"
    and "\<And>k. b_disk (bufs s' k) = (k = b \<or> b_disk (bufs s k))"
  shows "waits_ok s' (cs(i \<mapsto> (b, wr)))"
  unfolding waits_ok_def
proof (intro conjI allI impI)
  show "p_state (procs s' q) = RUNNING" if "me s' = Some q" for q using that assms(5) by simp
next
  fix q k assume "asleep (DiskBuf k) s' q"
  then have a: "k = b \<or> asleep (DiskBuf k) s q" using assms(2,4) by (auto simp: asleep_def split: if_splits)
  then show "b_disk (bufs s' k)" using assms(1,6) by (auto simp: waits_ok_def)
  from a show "\<exists>j w. (cs(i \<mapsto> (b, wr))) j = Some (k, w)"
  proof
    assume "asleep (DiskBuf k) s q"
    then obtain j w where "cs j = Some (k, w)" using assms(1) unfolding waits_ok_def by blast
    then show ?thesis using assms(3) by (intro exI [of _ j] exI [of _ w]) auto
  qed auto
qed

text \<open>The loop of the interrupt handler goes through all of the used ring: it panics exactly when the device
  has reported a failure.\<close>

lemma intr_loop_inv:
  assumes "vinv v s la tk cs" and "waits_ok s cs" and "n + length (completed v) \<le> NUM"
  shows "if \<forall>i \<in> set (completed v). info_status v ! i = 0
    then \<exists>v' s'. intr_loop n (v, s) = Inr (v', s') \<and> vinv v' s' la tk cs \<and> waits_ok s' cs
      \<and> with_device v' la tk = pending v la @ tk
    else intr_loop n (v, s) = Inl (Panic ''virtio_disk_intr status'')"
  using assms
proof (induction "length (completed v)" arbitrary: n v s)
  case 0
  then have "completed v = []" by simp
  then have "used_idx v = used_ring_idx v" by (simp add: completed_def ring_empty_iff del: length_0_conv)
  then show ?case using 0 by (simp add: intr_loop.simps [of n] with_device_def)
next
  case (Suc l)
  have ne: "used_idx v \<noteq> used_ring_idx v" using Suc.hyps(2) by (auto simp: completed_def)
  define ident where "ident = used_ring v ! unat (used_idx v mod 8)"
  define v1 where "v1 = v\<lparr>used_idx := used_idx v + 1\<rparr>"
  from Suc.prems(1) ne obtain b wr where b: "sint ident = int (unat ident)" "unat ident < NUM"
      "completed v = unat ident # completed v1" "info_b v ! unat ident = Some b"
      "vinv v1 (wakeup (DiskBuf b) (upd_buf b (\<lambda>B. B\<lparr>b_disk := False\<rparr>) s)) la tk cs"
    unfolding ident_def v1_def by (rule intr_one)
  have "\<not> int NUM \<le> sint ident" "\<not> sint ident < 0" using b(2) unfolding b(1) by linarith+
  moreover have "\<not> NUM < n + 1" using Suc.prems(3) b(3) by simp
  ultimately have st: "intr_loop n (v, s) = (if info_status v ! unat ident \<noteq> 0 then Inl (Panic ''virtio_disk_intr status'')
      else intr_loop (Suc n) (v1, wakeup (DiskBuf b) (upd_buf b (\<lambda>B. B\<lparr>b_disk := False\<rparr>) s)))"
    using ne b(4) by (simp add: intr_loop.simps [of n] ident_def [symmetric] v1_def)
  have l: "l = length (completed v1)" and i: "info_status v1 = info_status v" and pn: "pending v1 la = pending v la" and n: "Suc n + length (completed v1) \<le> NUM"
    using Suc.hyps(2) Suc.prems(3) b(3) by (simp_all add: v1_def pending_def)
  from Suc.hyps(1) [OF l b(5) waits_ok_intr [OF Suc.prems(2)] n] show ?case unfolding st b(3) i pn by (auto split: if_splits)
qed

lemma intr_inv:
  assumes "vinv v s la tk cs" and "waits_ok s cs"
  shows "if \<forall>i \<in> set (completed v). info_status v ! i = 0
    then \<exists>v' s'. virtio_disk_intr mmio (v, s) = Inr (v', s') \<and> vinv v' s' la tk cs \<and> waits_ok s' cs
      \<and> with_device v' la tk = pending v la @ tk
    else virtio_disk_intr mmio (v, s) = Inl (Panic ''virtio_disk_intr status'')"
proof -
  define v2 where "v2 = (let v1 = upd_vstats (\<lambda>t. t\<lparr>interrupts := interrupts t + 1\<rparr>) v
     in safe_write_reg 0x064 (safe_read_reg mmio 0x060 v1 AND 0x3) v1)"
  have c: "vcore v2 = vcore v" by (simp add: v2_def Let_def)
  then have e: "completed v2 = completed v" "info_status v2 = info_status v" by (simp_all add: vcore_def completed_def)
  have pn: "pending v2 la = pending v la" using c by (simp add: vcore_def pending_def)
  have i: "vinv v2 s la tk cs" by (rule vinv_cong [OF assms(1)]) (simp_all add: c)
  have "length (completed v2) \<le> NUM" using with_device_few(1) [OF i] by (simp add: with_device_def)
  then have "0 + length (completed v2) \<le> NUM" by simp
  from intr_loop_inv [OF i assms(2) this] have "if \<forall>i \<in> set (completed v). info_status v ! i = 0
    then \<exists>v' s'. intr_loop 0 (v2, s) = Inr (v', s') \<and> vinv v' s' la tk cs \<and> waits_ok s' cs \<and> with_device v' la tk = pending v la @ tk
    else intr_loop 0 (v2, s) = Inl (Panic ''virtio_disk_intr status'')" unfolding e pn .
  moreover have "virtio_disk_intr mmio (v, s) = intr_loop 0 (v2, s)" by (simp add: virtio_disk_intr_def v2_def Let_def)
  ultimately show ?thesis by simp
qed


definition reset :: "nat \<Rightarrow> vdisk \<Rightarrow> vdisk" where
  "reset i v = (upd_desc i (\<lambda>_. zero_desc) v)\<lparr>free := (free v)[i := True]\<rparr>"

lemma reset_fields [simp]:
  "desc (reset i v) = (desc v)[i := zero_desc]" "free (reset i v) = (free v)[i := True]" "ops (reset i v) = ops v"
  "info_b (reset i v) = info_b v" "avail_ring (reset i v) = avail_ring v" "avail_idx (reset i v) = avail_idx v"
  "used_ring (reset i v) = used_ring v" "used_ring_idx (reset i v) = used_ring_idx v" "used_idx (reset i v) = used_idx v"
  "info_status (reset i v) = info_status v"
  by (simp_all add: reset_def upd_desc_def)

lemma free_desc_ok: "i < NUM \<Longrightarrow> \<not> free v ! i \<Longrightarrow> free_desc i (v, s) = Inr (reset i v, wakeup DiskFree s)"
  by (simp add: free_desc_def reset_def)

lemma vfree_chain_three:
  assumes d: "i < NUM" "i1 < NUM" "i2 < NUM" "i \<noteq> i1" "i \<noteq> i2" "i1 \<noteq> i2" and u: "second v i = i1" "second v i1 = i2"
    and f: "d_flags (desc v ! i) AND 1 \<noteq> 0" "d_flags (desc v ! i1) AND 1 \<noteq> 0" "d_flags (desc v ! i2) AND 1 = 0"
    and n: "\<not> free v ! i" "\<not> free v ! i1" "\<not> free v ! i2"
  shows "vfree_chain i (v, s)
    = Inr (reset i2 (reset i1 (reset i v)), wakeup DiskFree (wakeup DiskFree (wakeup DiskFree s)))"
proof -
  have s3: "vfree_chain_loop 2 i2 (reset i1 (reset i v), t) = Inr (reset i2 (reset i1 (reset i v)), wakeup DiskFree t)" for t
    using d n f by (subst vfree_chain_loop.simps) (simp add: free_desc_ok)
  have s2: "vfree_chain_loop 1 i1 (reset i v, t) = vfree_chain_loop 2 i2 (reset i1 (reset i v), wakeup DiskFree t)" for t
    using d n f u by (subst vfree_chain_loop.simps) (simp add: free_desc_ok second_def numeral_2_eq_2)
  have s1: "vfree_chain_loop 0 i (v, s) = vfree_chain_loop 1 i1 (reset i v, wakeup DiskFree s)"
    using d n f u by (subst vfree_chain_loop.simps) (simp add: free_desc_ok second_def)
  show ?thesis unfolding vfree_chain_def s1 s2 s3 ..
qed

lemma owned_not_free:
  assumes "chains v s cs" and "i \<in> dom cs" and "k \<in> owned_by v i"
  shows "k < NUM" and "\<not> free v ! k"
proof -
  obtain b wr where "cs i = Some (b, wr)" using assms(2) by auto
  then show k: "k < NUM" using formatted_owned(1) [OF chainsD(2) [OF assms(1)]] assms(3) by blast
  show "\<not> free v ! k" using chainsD(6) [OF assms(1) k] assms(2,3) by blast
qed

lemma list_update_three:
  "length xs = n \<Longrightarrow> k < n \<Longrightarrow> xs[a := x, b := x, c := x] ! k = (if k \<in> {a, b, c} then x else xs ! k)"
  by (cases "k = c"; cases "k = b"; cases "k = a") simp_all

text \<open>Taking a call out of the invariant.\<close>

lemma chains_remove:
  assumes "chains v s cs" and "i \<in> dom cs" and "sizes r" and "ops r = ops v" and "info_b r = (info_b v)[i := None]"
    and "\<And>k. k < NUM \<Longrightarrow> desc r ! k = (if k \<in> owned_by v i then zero_desc else desc v ! k)"
    and "\<And>k. k < NUM \<Longrightarrow> free r ! k = (k \<in> owned_by v i \<or> free v ! k)"
    and "bufs s' = bufs s"
  shows "chains r s' (cs(i := None))"
proof -
  note C = chainsD [OF assms(1)]
  have f: "formatted r s' j b wr" and o: "owned_by r j = owned_by v j" if j: "cs j = Some (b, wr)" "j \<noteq> i" for j b wr
  proof -
    have "desc r ! k = desc v ! k" if "k \<in> owned_by v j" for k
      using assms(6) owned_not_free(1) [OF assms(1) _ that] C(5) [of i j] assms(2) j that by (auto simp: domI)
    from formatted_cong [OF C(2) [OF j(1)] this] show "formatted r s' j b wr" "owned_by r j = owned_by v j"
      using assms(4,5,8) j(2) by simp_all
  qed
  have o': "owned_by r j = owned_by v j" if "j \<in> dom cs" "j \<noteq> i" for j using that o by (auto simp: dom_def)
  have "free r ! k \<longleftrightarrow> (\<forall>j \<in> dom (cs(i := None)). k \<notin> owned_by r j)" if "k < NUM" for k
  proof -
    have "free r ! k \<longleftrightarrow> k \<in> owned_by v i \<or> (\<forall>j \<in> dom cs. k \<notin> owned_by v j)" using assms(7) [OF that] C(6) [OF that] by simp
    also have "\<dots> \<longleftrightarrow> (\<forall>j \<in> dom cs - {i}. k \<notin> owned_by v j)" using C(5) [of i] assms(2) by blast
    also have "\<dots> \<longleftrightarrow> (\<forall>j \<in> dom (cs(i := None)). k \<notin> owned_by r j)" using o' by auto
    finally show ?thesis .
  qed
  moreover have "\<forall>i j. i \<in> dom cs \<longrightarrow> j \<in> dom cs \<longrightarrow> fst (the (cs i)) = fst (the (cs j)) \<longrightarrow> i = j"
    using assms(1) unfolding chains_def by blast
  ultimately show ?thesis using assms(3) f o' C(5) unfolding chains_def by simp
qed


text \<open>The end of a call: its descriptors are free again, whether the device is done with them or not.\<close>

lemma finish_runs:
  assumes "vinv v s la tk cs" and "cs i = Some (b, wr)"
  obtains v' s' where "rw_finish i start now (v, s) = Inr (RwDone, v', s')" and "chains v' s' (cs(i := None))"
    and "with_device v' la tk = with_device v la tk" and "\<And>k. k \<in> owned_by v i \<Longrightarrow> free v' ! k"
    and "bufs s' = bufs s" and "only_woken DiskFree s s'"
proof -
  note D = vinvD [OF assms(1)]
  note C = chainsD [OF D(1)]
  define w where "w = (if start \<noteq> 0 then v\<lparr>total_time := total_time v + (now - start), operation_count := operation_count v + 1\<rparr>
     else v)\<lparr>info_b := (info_b v)[i := None]\<rparr>"
  have w: "desc w = desc v" "free w = free v" "ops w = ops v" "avail_ring w = avail_ring v" "avail_idx w = avail_idx v"
    "used_ring w = used_ring v" "used_ring_idx w = used_ring_idx v" "used_idx w = used_idx v" "info_status w = info_status v"
    "info_b w = (info_b v)[i := None]"
    by (simp_all add: w_def)
  define i1 where "i1 = second v i"
  define i2 where "i2 = second v i1"
  define r where "r = reset i2 (reset i1 (reset i w))"
  define s' where "s' = wakeup DiskFree (wakeup DiskFree (wakeup DiskFree s))"
  define v' where "v' = upd_vstats (\<lambda>t. t\<lparr>completed_ops := completed_ops t + 1\<rparr>) r"
  have f: "formatted v s i b wr" and di: "i \<in> dom cs" using C(2) [OF assms(2)] assms(2) by auto
  have o: "owned_by v i = {i, i1, i2}" by (simp add: owned_by_def i1_def i2_def)
  have nf: "\<not> free v ! i" "\<not> free v ! i1" "\<not> free v ! i2"
    using owned_not_free(2) [OF D(1) di] unfolding o by simp_all
  have d: "i < NUM" "i1 < NUM" "i2 < NUM" "i \<noteq> i1" "i \<noteq> i2" "i1 \<noteq> i2"
    and fl: "d_flags (desc v ! i) = 1" "d_flags (desc v ! i1) = (if wr then 0 else 2) OR 1" "d_flags (desc v ! i2) = 2"
    using f unfolding formatted_def Let_def i1_def [symmetric] i2_def [symmetric] by simp_all
  have sw: "second w = second v" by (simp add: fun_eq_iff second_def w)
  have "vfree_chain i (w, s) = Inr (r, s')" unfolding r_def s'_def
    by (rule vfree_chain_three [OF d]) (simp_all add: sw i1_def [symmetric] i2_def [symmetric] w fl nf)
  then have e: "rw_finish i start now (v, s) = Inr (RwDone, v', s')"
    by (cases "start = 0") (simp_all add: rw_finish_def v'_def w_def)
  have l: "length (free v) = NUM" "length (desc v) = NUM" using C(1) by (simp_all add: sizes_def)
  have b: "bufs s' = bufs s" by (simp add: s'_def)
  have ch: "chains r s' (cs(i := None))"
    by (rule chains_remove [OF D(1) di])
      (use C(1) in \<open>auto simp: sizes_def r_def w b o list_update_three [OF l(1)] list_update_three [OF l(2)]\<close>)
  have "chains v' s' (cs(i := None))"
    by (rule chains_cong [OF ch]) (use chainsD(1) [OF ch] in \<open>simp_all add: v'_def upd_vstats_def sizes_def\<close>)
  moreover have "with_device v' la tk = with_device v la tk"
    by (simp add: with_device_def pending_def completed_def r_def w v'_def upd_vstats_def)
  moreover have "free v' ! k" if "k \<in> owned_by v i" for k
  proof -
    have "free v' = (free v)[i := True, i1 := True, i2 := True]" by (simp add: v'_def upd_vstats_def r_def w)
    moreover have "k < NUM" using that d unfolding o by auto
    ultimately show ?thesis using that list_update_three [OF l(1), of k i True i1 i2] unfolding o by simp
  qed
  moreover have "only_woken DiskFree s s'" by (simp add: s'_def)
  ultimately show ?thesis using that e b by blast
qed

text \<open>A call that the device is done with returns.\<close>

lemma finish_inv:
  assumes "vinv v s la tk cs" and "cs i = Some (b, wr)" and "\<not> b_disk (bufs s b)"
  obtains v' s' where "rw_finish i start now (v, s) = Inr (RwDone, v', s')" and "vinv v' s' la tk (cs(i := None))"
    and "waits_ok s cs \<longrightarrow> waits_ok s' (cs(i := None))"
proof -
  note D = vinvD [OF assms(1)]
  obtain v' s' where f: "rw_finish i start now (v, s) = Inr (RwDone, v', s')" "chains v' s' (cs(i := None))"
    "with_device v' la tk = with_device v la tk" "bufs s' = bufs s" "only_woken DiskFree s s'"
    by (rule finish_runs [OF assms(1,2)])
  have "i \<notin> set (with_device v la tk)" using D(4) [OF assms(2)] assms(3) by simp
  then have "vinv v' s' la tk (cs(i := None))" using f(2) D(2-4) unfolding vinv_def f(3,4) by auto
  moreover have "waits_ok s' (cs(i := None))" if "waits_ok s cs"
    by (rule waits_ok_drop [OF waits_ok_woken [OF that f(5,4)] assms(2)]) (use assms(3) f(4) in simp)
  ultimately show ?thesis using that f(1) by blast
qed

lemma alloc_desc_cases:
  obtains (Some) i where "alloc_desc v = (Some i, v\<lparr>free := (free v)[i := False]\<rparr>)" and "i < NUM" and "free v ! i"
    | (None) "alloc_desc v = (None, upd_vstats (\<lambda>t. t\<lparr>descriptor_alloc_failures := descriptor_alloc_failures t + 1\<rparr>) v)"
proof (cases "find (\<lambda>i. free v ! i) [0..<NUM]")
  case (Some i)
  then show ?thesis using that(1) [of i] find_SomeD [OF Some] by (simp add: alloc_desc_def)
next
  case None
  then show ?thesis using that(2) by (simp add: alloc_desc_def)
qed

text \<open>\<^verbatim>\<open>alloc3_desc\<close> takes three different free descriptors, or leaves the free ones as they are.\<close>

lemma alloc3_cases:
  assumes "sizes v"
  obtains (Some) i0 i1 i2 where "alloc3_desc (v, s) = Inr (Some [i0, i1, i2], v\<lparr>free := (free v)[i0 := False, i1 := False, i2 := False]\<rparr>, s)"
      and "i0 < NUM" "i1 < NUM" "i2 < NUM" and "free v ! i0" "free v ! i1" "free v ! i2" and "distinct [i0, i1, i2]"
    | (None) v' s' where "alloc3_desc (v, s) = Inr (None, v', s')" and "free v' = free v" and "bufs s' = bufs s" and "disk s' = disk s"
      and "\<And>k. k < NUM \<Longrightarrow> \<not> free v ! k \<Longrightarrow> desc v' ! k = desc v ! k" and "only_woken DiskFree s s'"
      and "vcore (v'\<lparr>desc := desc v\<rparr>) = vcore v" and "length (desc v') = NUM"
proof -
  define F where "F = (\<lambda>v. upd_vstats (\<lambda>t. t\<lparr>descriptor_alloc_failures := descriptor_alloc_failures t + 1\<rparr>) v)"
  have l: "length (free v) = NUM" "length (desc v) = NUM" using assms by (simp_all add: sizes_def)
  show ?thesis
  proof (cases v rule: alloc_desc_cases)
    case None
    then have "alloc3_desc (v, s) = Inr (None, F v, s)" by (simp add: alloc3_desc_def alloc3_loop.simps F_def)
    then show ?thesis by (rule that(2)) (simp_all add: F_def upd_vstats_def vcore_def l)
  next
    case (Some i0)
    define v1 where "v1 = v\<lparr>free := (free v)[i0 := False]\<rparr>"
    have r0: "(free v)[i0 := True] = free v" using Some(3) list_update_id [of "free v" i0] by simp
    have n0: "\<not> free (F v1) ! i0" using Some(2) l by (simp add: v1_def F_def upd_vstats_def)
    have a0: "alloc3_desc (v, s) = alloc3_loop [i0] (v1, s)" using Some by (simp add: alloc3_desc_def alloc3_loop.simps [of "[]"] v1_def)
    show ?thesis
    proof (cases v1 rule: alloc_desc_cases)
      case None
      have "alloc3_loop [i0] (v1, s) = Inr (None, reset i0 (F v1), wakeup DiskFree s)"
        using None [folded F_def] n0 Some(2) by (simp add: alloc3_loop.simps [of "[i0]"] free_desc_ok)
      then show ?thesis unfolding a0 [symmetric]
        by (rule that(2)) (use Some l r0 in \<open>auto simp: F_def upd_vstats_def vcore_def v1_def nth_list_update\<close>)
    next
      case s1: (Some i1)
      define v2 where "v2 = v1\<lparr>free := (free v1)[i1 := False]\<rparr>"
      have ne: "i1 \<noteq> i0" and f1: "free v ! i1" using s1(3) Some(2) l by (auto simp: v1_def nth_list_update split: if_splits)
      have r1: "(free v)[i0 := False, i1 := False, i0 := True, i1 := True] = free v"
        using Some(2,3) s1(2) f1 l ne by (intro nth_equalityI) (auto simp: nth_list_update)
      have n1: "\<not> free (F v2) ! i0" "\<not> free (F v2) ! i1" using Some(2) s1(2) l ne by (simp_all add: v2_def v1_def F_def upd_vstats_def)
      have a1: "alloc3_loop [i0] (v1, s) = alloc3_loop [i0, i1] (v2, s)" using s1 by (simp add: alloc3_loop.simps [of "[i0]"] v2_def)
      show ?thesis
      proof (cases v2 rule: alloc_desc_cases)
        case None
        have "alloc3_loop [i0, i1] (v2, s) = Inr (None, reset i1 (reset i0 (F v2)), wakeup DiskFree (wakeup DiskFree s))"
          using None [folded F_def] n1 Some(2) s1(2) ne by (simp add: alloc3_loop.simps [of "[i0, i1]"] free_desc_ok)
        then show ?thesis unfolding a1 [symmetric] a0 [symmetric]
          by (rule that(2)) (use Some s1 f1 ne l r1 in \<open>auto simp: F_def upd_vstats_def vcore_def v1_def v2_def nth_list_update\<close>)
      next
        case s2: (Some i2)
        have ne2: "i2 \<noteq> i0" "i2 \<noteq> i1" "free v ! i2"
          using s2(3) Some(2) s1(2) l ne by (auto simp: v1_def v2_def nth_list_update split: if_splits)
        have "alloc3_loop [i0, i1] (v2, s) = Inr (Some [i0, i1, i2], v\<lparr>free := (free v)[i0 := False, i1 := False, i2 := False]\<rparr>, s)"
          using s2 by (simp add: alloc3_loop.simps [of "[i0, i1]"] alloc3_loop.simps [of "[i0, i1, i2]"] v2_def v1_def)
        then show ?thesis using that(1) [of i0 i1 i2] Some s1 s2 ne ne2 f1 by (simp add: a0 a1)
      qed
    qed
  qed
qed


lemma vinv_free_cong:
  assumes "vinv v s la tk cs" and "\<And>k. k < NUM \<Longrightarrow> \<not> free v ! k \<Longrightarrow> desc v' ! k = desc v ! k"
    and "vcore (v'\<lparr>desc := desc v\<rparr>) = vcore v" and "length (desc v') = NUM" and "bufs s' = bufs s"
  shows "vinv v' s' la tk cs"
proof -
  have e: "ops v' = ops v" "info_b v' = info_b v" "free v' = free v" "avail_ring v' = avail_ring v"
    "avail_idx v' = avail_idx v" "used_ring v' = used_ring v" "used_ring_idx v' = used_ring_idx v" "used_idx v' = used_idx v"
    "info_status v' = info_status v"
    using assms(3) by (simp_all add: vcore_def)
  note D = vinvD [OF assms(1)]
  have "sizes v'" using chainsD(1) [OF D(1)] assms(4) by (simp add: sizes_def e)
  then have "chains v' s' cs"
    by (rule chains_cong [OF D(1)]) (use owned_not_free [OF D(1)] assms(2,5) in \<open>simp_all add: e\<close>)
  moreover have "pending v' la = pending v la" "completed v' = completed v" by (simp_all add: pending_def completed_def e)
  ultimately show ?thesis using assms(1) unfolding vinv_def with_device_def by (simp add: e assms(5))
qed

text \<open>A new request: its three descriptors were free, its buffer is not in use by another request.\<close>

lemma chains_add:
  assumes "chains v s cs" and "sizes w" and "formatted w s' i b wr" and "owned_by w i = I" and "i \<notin> dom cs"
    and "\<And>k. k \<in> I \<Longrightarrow> free v ! k" and "\<And>k. k < NUM \<Longrightarrow> k \<notin> I \<Longrightarrow> desc w ! k = desc v ! k"
    and "\<And>k. k < NUM \<Longrightarrow> free w ! k = (k \<notin> I \<and> free v ! k)"
    and "\<And>j. j \<noteq> i \<Longrightarrow> ops w ! j = ops v ! j \<and> info_b w ! j = info_b v ! j"
    and "\<And>j b' wr'. cs j = Some (b', wr') \<Longrightarrow> b' \<noteq> b \<and> b_blockno (bufs s' b') = b_blockno (bufs s b')"
  shows "chains w s' (cs(i \<mapsto> (b, wr)))"
proof -
  note C = chainsD [OF assms(1)]
  have I: "owned_by v j \<inter> I = {}" if "j \<in> dom cs" for j using owned_not_free(2) [OF assms(1) that] assms(6) by blast
  have f: "formatted w s' j b' wr'" and o: "owned_by w j = owned_by v j" if j: "cs j = Some (b', wr')" for j b' wr'
  proof -
    have ji: "j \<noteq> i" using j assms(5) by auto
    have "desc w ! k = desc v ! k" if "k \<in> owned_by v j" for k
      using assms(7) [of k] owned_not_free(1) [OF assms(1) _ that] I [of j] j that by blast
    from formatted_cong [OF C(2) [OF j] this] show "formatted w s' j b' wr'" "owned_by w j = owned_by v j"
      using assms(9) [OF ji] assms(10) [OF j] by simp_all
  qed
  have o': "owned_by w j = owned_by v j" if "j \<in> dom cs" for j using that o by (auto simp: dom_def)
  have d: "dom (cs(i \<mapsto> (b, wr))) = insert i (dom cs)" by simp
  have fr: "free w ! k \<longleftrightarrow> (\<forall>j \<in> dom (cs(i \<mapsto> (b, wr))). k \<notin> owned_by w j)" if "k < NUM" for k
    using assms(8) [OF that] C(6) [OF that] o' by (simp add: d assms(4))
  have dis: "owned_by w j \<inter> owned_by w j' = {}" if "j \<in> insert i (dom cs)" "j' \<in> insert i (dom cs)" "j \<noteq> j'" for j j'
    using that I o' C(5) [of j j'] assms(4,5) by (cases "j = i"; cases "j' = i") auto
  have inj: "\<forall>i j. i \<in> dom cs \<longrightarrow> j \<in> dom cs \<longrightarrow> fst (the (cs i)) = fst (the (cs j)) \<longrightarrow> i = j"
    using assms(1) unfolding chains_def by blast
  have ij: "j = j'" if "j \<in> insert i (dom cs)" "j' \<in> insert i (dom cs)"
      "fst (the ((cs(i \<mapsto> (b, wr))) j)) = fst (the ((cs(i \<mapsto> (b, wr))) j'))" for j j'
    using that inj assms(5,10) by (cases "j = i"; cases "j' = i") (auto, blast+)
  have fm: "formatted w s' j b' wr'" if "(cs(i \<mapsto> (b, wr))) j = Some (b', wr')" for j b' wr'
    using that assms(3) f by (auto split: if_splits)
  show ?thesis unfolding chains_def d using assms(2) fm dis fr [unfolded d] ij by blast
qed


lemma format_fields:
  "desc (format_request i0 i1 i2 b wr sc v) = (desc v)
     [i0 := \<lparr>d_addr = OpsOf i0, d_len = 16, d_flags = VRING_DESC_F_NEXT, d_next = of_nat i1\<rparr>,
      i1 := \<lparr>d_addr = DataOf b, d_len = 1024, d_flags = (if wr then 0 else VRING_DESC_F_WRITE) OR VRING_DESC_F_NEXT, d_next = of_nat i2\<rparr>,
      i2 := \<lparr>d_addr = StatusOf i0, d_len = 1, d_flags = VRING_DESC_F_WRITE, d_next = 0\<rparr>]"
  "ops (format_request i0 i1 i2 b wr sc v) =
     (ops v)[i0 := \<lparr>r_type = (if wr then VIRTIO_BLK_T_OUT else VIRTIO_BLK_T_IN), r_reserved = 0, r_sector = sc\<rparr>]"
  "info_status (format_request i0 i1 i2 b wr sc v) = (info_status v)[i0 := 0xff]"
  "info_b (format_request i0 i1 i2 b wr sc v) = info_b v" "free (format_request i0 i1 i2 b wr sc v) = free v"
  "avail_ring (format_request i0 i1 i2 b wr sc v) = avail_ring v" "avail_idx (format_request i0 i1 i2 b wr sc v) = avail_idx v"
  "used_ring (format_request i0 i1 i2 b wr sc v) = used_ring v" "used_ring_idx (format_request i0 i1 i2 b wr sc v) = used_ring_idx v"
  "used_idx (format_request i0 i1 i2 b wr sc v) = used_idx v"
  by (simp_all add: format_request_def upd_desc_def Let_def)

lemma submit_inv:
  assumes "vinv v s la tk cs" and i: "i0 < NUM" "i1 < NUM" "i2 < NUM" "distinct [i0, i1, i2]" and fr: "free v ! i0" "free v ! i1" "free v ! i2"
    and un: "\<And>j b' wr'. cs j = Some (b', wr') \<Longrightarrow> b' \<noteq> b"
  obtains w where "rw_submit [i0, i1, i2] b wr now (v\<lparr>free := (free v)[i0 := False, i1 := False, i2 := False]\<rparr>, s)
      = (w, upd_buf b (\<lambda>B. B\<lparr>b_disk := True\<rparr>) s)" and "vinv w (upd_buf b (\<lambda>B. B\<lparr>b_disk := True\<rparr>) s) la tk (cs(i0 \<mapsto> (b, wr)))"
    and "pending w la = pending v la @ [i0]" and "completed w = completed v"
proof -
  note D = vinvD [OF assms(1)]
  have sz: "sizes v" using chainsD(1) [OF D(1)] .
  define u where "u = format_request i0 i1 i2 b wr (sector_of (b_blockno (bufs s b)))
     (v\<lparr>free := (free v)[i0 := False, i1 := False, i2 := False], start_time := (start_time v)[i0 := now]\<rparr>)"
  define w where "w = safe_write_reg 0x050 0 (u\<lparr>info_b := (info_b u)[i0 := Some b],
     avail_ring := (avail_ring u)[unat (avail_idx u mod 8) := of_nat i0], avail_idx := avail_idx u + 1\<rparr>)"
  define s' where "s' = upd_buf b (\<lambda>B. B\<lparr>b_disk := True\<rparr>) s"
  have e: "rw_submit [i0, i1, i2] b wr now (v\<lparr>free := (free v)[i0 := False, i1 := False, i2 := False]\<rparr>, s) = (w, s')"
    by (simp add: rw_submit_def Let_def w_def u_def s'_def)
  have w: "desc w = desc u" "ops w = ops u" "info_status w = info_status u" "free w = free u" "used_ring w = used_ring u"
    "used_ring_idx w = used_ring_idx u" "used_idx w = used_idx u" "info_b w = (info_b u)[i0 := Some b]"
    "avail_ring w = (avail_ring u)[unat (avail_idx u mod 8) := of_nat i0]" "avail_idx w = avail_idx u + 1"
    by (simp_all add: w_def safe_write_reg_def)
  note u = format_fields [of i0 i1 i2 b wr "sector_of (b_blockno (bufs s b))"
      "v\<lparr>free := (free v)[i0 := False, i1 := False, i2 := False], start_time := (start_time v)[i0 := now]\<rparr>", folded u_def, simplified]
  have n16: "unat (of_nat k :: u16) = k" if "k < NUM" for k using that by (simp add: unat_of_nat take_bit_nat_eq_self)
  have l: "length (desc v) = NUM" "length (ops v) = NUM" "length (info_b v) = NUM" "length (free v) = NUM"
    "length (info_status v) = NUM" "length (avail_ring v) = NUM" using sz by (simp_all add: sizes_def)
  have se: "second w i0 = i1" "second w i1 = i2" using i l by (simp_all add: second_def w u n16)
  have ow: "owned_by w i0 = {i0, i1, i2}" by (simp add: owned_by_def se)
  have ndom: "i0 \<notin> dom cs" using owned_not_free(2) [OF D(1), of i0 i0] fr(1) by (auto simp: owned_by_def)
  have fm: "formatted w s' i0 b wr"
    using i l unfolding formatted_def Let_def se by (simp add: w u s'_def bufs_after_upd)
  have ch: "chains w s' (cs(i0 \<mapsto> (b, wr)))"
    by (rule chains_add [OF D(1) _ fm ow ndom])
      (use sz fr un i in \<open>auto simp: sizes_def w u s'_def bufs_after_upd list_update_three [OF l(4)] nth_list_update l\<close>)
  have m: "unat (avail_idx v mod 8) = unat (avail_idx v) mod NUM" by (simp add: unat_mod)
  have p: "pending w la = pending v la @ [i0]"
    using ring_put [of NUM "avail_ring v" "avail_idx v" la "of_nat i0"] with_device_few(2) [OF assms(1)] l n16 [OF i(1)]
    by (simp add: pending_def w u m)
  have c: "completed w = completed v" by (simp add: completed_def w u)
  have set: "set (with_device w la tk) = insert i0 (set (with_device v la tk))" by (auto simp: with_device_def p c)
  have dist: "distinct (with_device w la tk)" using D(2,3) ndom by (auto simp: with_device_def p c)
  have bd: "b_disk (bufs s' b') = (j \<in> set (with_device w la tk))" if "(cs(i0 \<mapsto> (b, wr))) j = Some (b', wr')" for j b' wr'
    using that D(4) [of j b' wr'] un [of j b' wr'] by (auto simp: set s'_def bufs_after_upd split: if_splits)
  have "vinv w s' la tk (cs(i0 \<mapsto> (b, wr)))"
    unfolding vinv_def using ch dist set D(3) bd by auto
  then show ?thesis using that e p c unfolding s'_def by blast
qed

lemma alloc_inv:
  assumes "vinv v s la tk cs" and "me s = Some p" and "\<And>j b' wr'. cs j = Some (b', wr') \<Longrightarrow> b' \<noteq> b"
  obtains (Wait) i v' s' where "rw_alloc b wr t now (v, s) = Inr (RwWait i 0 now, v', s')" and "vinv v' s' la tk (cs(i \<mapsto> (b, wr)))"
      and "waits_ok s cs \<longrightarrow> waits_ok s' (cs(i \<mapsto> (b, wr)))" and "b_blockno (bufs s' b) = b_blockno (bufs s b)" and "pending v' la = pending v la @ [i]"
      and "completed v' = completed v"
    | (Other) r v' s' where "rw_alloc b wr t now (v, s) = Inr (r, v', s')" and "vinv v' s' la tk cs" and "\<And>i k st. r \<noteq> RwWait i k st"
      and "waits_ok s cs \<longrightarrow> waits_ok s' cs"
proof -
  have sz: "sizes v" using chainsD(1) [OF vinvD(1) [OF assms(1)]] .
  from sz show ?thesis
  proof (cases rule: alloc3_cases [where v = v and s = s])
    case A: (Some i0 i1 i2)
    define s1 where "s1 = upd_buf b (\<lambda>B. B\<lparr>b_disk := True\<rparr>) s"
    obtain w where w: "rw_submit [i0, i1, i2] b wr now (v\<lparr>free := (free v)[i0 := False, i1 := False, i2 := False]\<rparr>, s) = (w, s1)"
      "vinv w s1 la tk (cs(i0 \<mapsto> (b, wr)))" "pending w la = pending v la @ [i0]" "completed w = completed v"
      unfolding s1_def by (rule submit_inv [OF assms(1) A(2-4,8,5-7) assms(3)])
    define s2 where "s2 = (upd_proc p (\<lambda>P. P\<lparr>p_chan := Some (DiskBuf b), p_state := SLEEPING\<rparr>) s1)\<lparr>me := None\<rparr>"
    have m: "me s1 = Some p" "procs s1 = procs s" "b_disk (bufs s1 b)" using assms(2) by (simp_all add: s1_def upd_buf_def)
    have e: "rw_alloc b wr t now (v, s) = Inr (RwWait i0 0 now, w, s2)"
      using A(1) w(1) sleep_running [OF m(1)] m(3) by (simp add: rw_alloc_def rw_wait_def s2_def)
    have b: "bufs s2 = bufs s1" by (simp add: s2_def upd_proc_def)
    have nd: "i0 \<notin> dom cs" using owned_not_free(2) [OF vinvD(1) [OF assms(1)], of i0 i0] A(5) by (auto simp: owned_by_def)
    have "vinv w s2 la tk (cs(i0 \<mapsto> (b, wr)))" by (rule vinv_cong [OF w(2)]) (simp_all add: b)
    moreover have "waits_ok s2 (cs(i0 \<mapsto> (b, wr)))" if "waits_ok s cs"
      by (rule waits_ok_sleep [OF that m(2) nd]) (simp_all add: b s2_def upd_proc_def, simp add: s1_def bufs_after_upd)
    ultimately show ?thesis using that(1) [OF e] w(3,4) by (simp add: b) (simp add: s1_def bufs_after_upd)
  next
    case A: (None v1 s1)
    have i: "vinv v1 s1 la tk cs" by (rule vinv_free_cong [OF assms(1)]) (use A in simp_all)
    have ok: "waits_ok s1 cs" if "waits_ok s cs" using waits_ok_woken [OF that A(6,3)] .
    show ?thesis
    proof (cases "1000 < t + 1")
      case True
      define v2 where "v2 = upd_vstats (\<lambda>t. t\<lparr>vfailed_ops := vfailed_ops t + 1\<rparr>) v1"
      have e: "rw_alloc b wr t now (v, s) = Inr (RwDone, v2, s1)" using A(1) True by (simp add: rw_alloc_def v2_def)
      have "vinv v2 s1 la tk cs" by (rule vinv_cong [OF i]) (simp_all add: v2_def)
      then show ?thesis using that(2) [OF e] ok by simp
    next
      case False
      define s2 where "s2 = (upd_proc p (\<lambda>P. P\<lparr>p_chan := Some DiskFree, p_state := SLEEPING\<rparr>) s1)\<lparr>me := None\<rparr>"
      have "me s1 = Some p" using A(6) assms(2) by (simp add: only_woken_def)
      then have e: "rw_alloc b wr t now (v, s) = Inr (RwNoDesc (t + 1), v1, s2)"
        using A(1) False sleep_running [of s1 p DiskFree] by (simp add: rw_alloc_def s2_def)
      have b: "bufs s2 = bufs s1" by (simp add: s2_def upd_proc_def)
      have "vinv v1 s2 la tk cs" by (rule vinv_cong [OF i]) (simp_all add: b)
      moreover have "waits_ok s2 cs" if "waits_ok s cs"
        using ok [OF that] unfolding waits_ok_def b by (auto simp: asleep_def s2_def upd_proc_def)
      ultimately show ?thesis using that(2) [OF e] by simp
    qed
  qed
qed

lemma resume_inv:
  assumes "vinv v s la tk cs" and "me s = Some p" and "cs i = Some (b, wr)" and "t < 10000 \<or> \<not> b_disk (bufs s b)"
  obtains (Wait) s' where "rw_resume b i t start now (v, s) = Inr (RwWait i (t + 1) start, v, s')" and "vinv v s' la tk cs"
      and "waits_ok s cs \<longrightarrow> waits_ok s' cs"
    | (Done) v' s' where "rw_resume b i t start now (v, s) = Inr (RwDone, v', s')" and "vinv v' s' la tk (cs(i := None))"
      and "waits_ok s cs \<longrightarrow> waits_ok s' (cs(i := None))"
proof (cases "b_disk (bufs s b)")
  case True
  define s' where "s' = (upd_proc p (\<lambda>P. P\<lparr>p_chan := Some (DiskBuf b), p_state := SLEEPING\<rparr>) s)\<lparr>me := None\<rparr>"
  have e: "rw_resume b i t start now (v, s) = Inr (RwWait i (t + 1) start, v, s')"
    using True assms(4) sleep_running [OF assms(2), of "DiskBuf b"] by (simp add: rw_resume_def rw_wait_def s'_def)
  have bs: "bufs s' = bufs s" by (simp add: s'_def upd_proc_def)
  have "vinv v s' la tk cs" by (rule vinv_cong [OF assms(1)]) (simp_all add: bs)
  moreover have "waits_ok s' cs" if "waits_ok s cs"
    using that True assms(3) unfolding waits_ok_def bs by (fastforce simp: asleep_def s'_def upd_proc_def split: if_splits)
  ultimately show ?thesis using that(1) [OF e] by simp
next
  case False
  define w where "w = (if 10000 < t + 1 then upd_vstats (\<lambda>t. t\<lparr>vfailed_ops := vfailed_ops t + 1\<rparr>) v else v)"
  have r: "rw_resume b i t start now (v, s) = rw_finish i start now (w, s)"
    using False by (simp add: rw_resume_def rw_wait_def w_def)
  have "vinv w s la tk cs" by (rule vinv_cong [OF assms(1)]) (simp_all add: w_def)
  then obtain v' s' where "rw_finish i start now (w, s) = Inr (RwDone, v', s')" "vinv v' s' la tk (cs(i := None))"
    "waits_ok s cs \<longrightarrow> waits_ok s' (cs(i := None))"
    using assms(3) False by (rule finish_inv)
  then show ?thesis using that(2) r by simp
qed

text \<open>A call that has been woken 10001 times gives up. When the device still has its chain, the descriptors become free
  all the same.\<close>

lemma timeout_frees_chain:
  assumes "vinv v s la tk cs" and "cs i = Some (b, wr)" and "10000 \<le> t"
  obtains v' s' where "rw_resume b i t start now (v, s) = Inr (RwDone, v', s')"
    and "with_device v' la tk = with_device v la tk" and "\<And>k. k \<in> owned_by v i \<Longrightarrow> free v' ! k" and "bufs s' = bufs s"
proof -
  define w where "w = upd_vstats (\<lambda>t. t\<lparr>vfailed_ops := vfailed_ops t + 1\<rparr>) v"
  have i: "vinv w s la tk cs" by (rule vinv_cong [OF assms(1)]) (simp_all add: w_def)
  have o: "owned_by w i = owned_by v i" "with_device w la tk = with_device v la tk"
    by (simp_all add: w_def upd_vstats_def owned_by_def second_def with_device_def pending_def completed_def)
  obtain v' s' where f: "rw_finish i start now (w, s) = Inr (RwDone, v', s')"
    "with_device v' la tk = with_device w la tk" "\<And>k. k \<in> owned_by w i \<Longrightarrow> free v' ! k" "bufs s' = bufs s"
    by (rule finish_runs [OF i assms(2)]) blast
  have "rw_resume b i t start now (v, s) = rw_finish i start now (w, s)" using assms(3) by (simp add: rw_resume_def w_def)
  then show ?thesis using that f o by simp
qed


section \<open>Every interleaving\<close>

text \<open>Calls of \<^verbatim>\<open>virtio_disk_rw\<close> begin, or try again for descriptors, on a buffer that no other call uses;
  they are woken and look at the buffer again; interrupts arrive; and the device works. The rest of the kernel does
  anything that leaves the buffers of the calls in progress alone, puts nobody to sleep for a buffer, and has the
  running process in state \<^verbatim>\<open>RUNNING\<close>. The runs end where the handler panics on a failed request and where a call gives up after
  10001 wakeups although the device still has its chain: \<open>timeout_frees_chain\<close> shows what happens then.\<close>

inductive vreach :: "(vsys \<Rightarrow> vsys \<Rightarrow> bool) \<Rightarrow> mmio \<Rightarrow> vsys \<Rightarrow> bool" for dev mmio where
  start: "sizes v \<Longrightarrow> free v = replicate NUM True \<Longrightarrow> used_idx v = used_ring_idx v \<Longrightarrow>
    (\<And>p. me s = Some p \<Longrightarrow> p_state (procs s p) = RUNNING) \<Longrightarrow> (\<And>q b. \<not> asleep (DiskBuf b) s q) \<Longrightarrow>
    vreach dev mmio \<lparr>vd = v, ks = s, last_avail = avail_idx v, taken = [], calls = Map.empty\<rparr>"
| call: "vreach dev mmio y \<Longrightarrow> me (ks y) = Some p \<Longrightarrow> (\<And>j b' wr'. calls y j = Some (b', wr') \<Longrightarrow> b' \<noteq> b) \<Longrightarrow>
    rw_alloc b wr t now (vd y, ks y) = Inr (r, v, s) \<Longrightarrow>
    vreach dev mmio (y\<lparr>vd := v, ks := s, calls := (case r of RwWait i _ _ \<Rightarrow> (calls y)(i \<mapsto> (b, wr)) | _ \<Rightarrow> calls y)\<rparr>)"
| resume: "vreach dev mmio y \<Longrightarrow> me (ks y) = Some p \<Longrightarrow> calls y i = Some (b, wr) \<Longrightarrow> t < 10000 \<or> \<not> b_disk (bufs (ks y) b) \<Longrightarrow>
    rw_resume b i t st now (vd y, ks y) = Inr (r, v, s) \<Longrightarrow>
    vreach dev mmio (y\<lparr>vd := v, ks := s, calls := (if r = RwDone then (calls y)(i := None) else calls y)\<rparr>)"
| interrupt: "vreach dev mmio y \<Longrightarrow> virtio_disk_intr mmio (vd y, ks y) = Inr (v, s) \<Longrightarrow> vreach dev mmio (y\<lparr>vd := v, ks := s\<rparr>)"
| device: "vreach dev mmio y \<Longrightarrow> dev y y' \<Longrightarrow> vreach dev mmio y'"
| kernel: "vreach dev mmio y \<Longrightarrow> (\<And>i b wr. calls y i = Some (b, wr) \<Longrightarrow> bufs s b = bufs (ks y) b) \<Longrightarrow>
    (\<And>p. me s = Some p \<Longrightarrow> p_state (procs s p) = RUNNING) \<Longrightarrow>
    (\<And>q b. asleep (DiskBuf b) s q \<Longrightarrow> asleep (DiskBuf b) (ks y) q) \<Longrightarrow> vreach dev mmio (y\<lparr>ks := s\<rparr>)"

lemma vreach_inv:
  assumes "vreach dev mmio y" and "conforming dev"
  shows "vinv_of y \<and> waits_ok (ks y) (calls y)"
  using assms(1)
proof induction
  case (start v s)
  then have "chains v s Map.empty" by (simp add: chains_def)
  moreover have "with_device v (avail_idx v) [] = []"
    using start by (simp add: with_device_def pending_def completed_def)
  ultimately show ?case using start(4,5) by (simp add: vinv_def waits_ok_def)
next
  case (call y p b wr t now r v s)
  then have i: "vinv_of y" "waits_ok (ks y) (calls y)" by simp_all
  from i(1) call(2,3) show ?case
    by (rule alloc_inv [where wr = wr and t = t and now = now]) (use call(4) i(2) in \<open>simp_all add: fun_upd_def split: rw.splits\<close>)
next
  case (resume y p i b wr t st now r v s)
  then have i: "vinv_of y" "waits_ok (ks y) (calls y)" by simp_all
  from i(1) resume(2-4) show ?case
    by (rule resume_inv [where start = st and now = now]) (use resume(5) i(2) in \<open>auto simp: fun_upd_def\<close>)
next
  case (interrupt y v s)
  then have i: "vinv_of y" "waits_ok (ks y) (calls y)" by simp_all
  from intr_inv [OF this, of mmio] interrupt(2) show ?case by (auto split: if_splits)
next
  case (device y y')
  then have i: "vinv_of y" "waits_ok (ks y) (calls y)" by simp_all
  from assms(2) device(2) consider "takes y y'" | k e where "serves k e y y'" unfolding conforming_def by blast
  then show ?case
  proof cases
    case 1
    then show ?thesis using takes_inv [OF i(1)] i(2) by simp
  next
    case (2 k e)
    obtain b wr where s: "vinv_of y'" "calls y' = calls y"
      "answers e wr (take_bit 31 (b_blockno (bufs (ks y) b))) b (ks y) (ks y')"
      by (rule serves_inv [OF i(1) 2])
    from answers_kernel [OF s(3)] show ?thesis using s(1,2) i(2) by (simp add: waits_ok_def asleep_def)
  qed
next
  case (kernel y s)
  then have i: "vinv_of y" "waits_ok (ks y) (calls y)" by simp_all
  have "vinv (vd y) s (last_avail y) (taken y) (calls y)" by (rule vinv_cong [OF i(1)]) (use kernel(2) in simp_all)
  moreover have "waits_ok s (calls y)"
    unfolding waits_ok_def using i(2) kernel(2-4) by (metis waits_ok_def)
  ultimately show ?case by simp
qed


section \<open>Properties\<close>

text \<open>C8. However requests, interrupts and completions interleave, the driver loses no descriptor and faults only
  on a failed request. The device follows the virtio specification and may fail requests. In every state reached
  before a call has given up a chain that the device still has: the interrupt handler panics exactly when the used ring has a request with a
  status other than 0; a new request, and a request that is woken for the first or for the last time, run without a fault; and a
  descriptor is free exactly when it does not belong to the chain of a call in progress.\<close>

theorem virtio_driver_safe:
  assumes "conforming dev" and "vreach dev mmio y"
  shows "(if \<forall>i \<in> set (completed (vd y)). info_status (vd y) ! i = 0 then \<exists>x. virtio_disk_intr mmio (vd y, ks y) = Inr x
      else virtio_disk_intr mmio (vd y, ks y) = Inl (Panic ''virtio_disk_intr status''))
    \<and> (\<forall>p b wr t now. me (ks y) = Some p \<longrightarrow> (\<forall>j b' wr'. calls y j = Some (b', wr') \<longrightarrow> b' \<noteq> b) \<longrightarrow>
         (\<exists>x. rw_alloc b wr t now (vd y, ks y) = Inr x))
    \<and> (\<forall>p i b wr t st now. me (ks y) = Some p \<longrightarrow> calls y i = Some (b, wr) \<longrightarrow>
         (\<exists>x. rw_resume b i t st now (vd y, ks y) = Inr x))
    \<and> (\<forall>k < NUM. free (vd y) ! k \<longleftrightarrow> (\<forall>i \<in> dom (calls y). k \<notin> owned_by (vd y) i))"
proof (intro conjI allI impI)
  have i: "vinv_of y" "waits_ok (ks y) (calls y)" using vreach_inv [OF assms(2,1)] by simp_all
  from intr_inv [OF i, of mmio]
  show "if \<forall>i \<in> set (completed (vd y)). info_status (vd y) ! i = 0 then \<exists>x. virtio_disk_intr mmio (vd y, ks y) = Inr x
    else virtio_disk_intr mmio (vd y, ks y) = Inl (Panic ''virtio_disk_intr status'')" by (auto split: if_splits)
  show "\<exists>x. rw_alloc b wr t now (vd y, ks y) = Inr x"
    if "me (ks y) = Some p" "\<forall>j b' wr'. calls y j = Some (b', wr') \<longrightarrow> b' \<noteq> b" for p b wr t now
    by (rule alloc_inv [of "vd y" "ks y" "last_avail y" "taken y" "calls y" p b wr t now]) (use i that in auto)
  show "\<exists>x. rw_resume b k t st now (vd y, ks y) = Inr x"
    if a: "me (ks y) = Some p" "calls y k = Some (b, wr)" for p k b wr t st now
  proof (cases "t < 10000")
    case True
    then show ?thesis
      by (rule_tac resume_inv [of "vd y" "ks y" "last_avail y" "taken y" "calls y" p k b wr t st now]) (use i a in auto)
  next
    case False
    then have "10000 \<le> t" by simp
    then show ?thesis by (rule timeout_frees_chain [OF i(1) a(2)]) blast
  qed
  show "free (vd y) ! k = (\<forall>i \<in> dom (calls y). k \<notin> owned_by (vd y) i)" if "k < NUM" for k
    using chainsD(6) [OF vinvD(1) [OF i(1)] that] .
qed

text \<open>C9. The driver asks the device for exactly the transfers the buffer cache relies on. Every step of a device
  that follows the virtio specification takes an entry of the available ring, or answers a call of \<^verbatim>\<open>virtio_disk_rw\<close> in
  progress. An answer with status 0 has moved the data between the buffer of that call and the block with its block
  number without the highest bit; below \<open>2\<^sup>3\<^sup>1\<close> this is the effect of \<open>disk_rw\<close>. An answer with another status has spoilt at most that
  buffer, for a read, or that block, for a write.\<close>

theorem virtio_refines_disk_rw:
  assumes "conforming dev" and "vreach dev mmio y" and "dev y y'"
  shows "takes y y' \<and> ks y' = ks y \<or> (\<exists>i b wr. calls y i = Some (b, wr) \<and> i \<in> set (completed (vd y'))
    \<and> (let blk = b_blockno (bufs (ks y) b)
       in if info_status (vd y') ! i = 0
          then ks y' = transfer wr (take_bit 31 blk) b (ks y) \<and> (unat blk < 2 ^ 31 \<longrightarrow> ks y' = disk_rw b wr (ks y))
          else botched wr (take_bit 31 blk) b (ks y) (ks y')))"
proof -
  have i: "vinv_of y" using vreach_inv [OF assms(2,1)] by simp
  from assms(1,3) consider "takes y y'" | k e where "serves k e y y'" unfolding conforming_def by blast
  then show ?thesis
  proof cases
    case 1
    then show ?thesis using takes_inv(2) [OF i 1] by simp
  next
    case (2 k e)
    obtain b wr where s: "calls y k = Some (b, wr)" "info_status (vd y') ! k = e" "k \<in> set (completed (vd y'))"
      "answers e wr (take_bit 31 (b_blockno (bufs (ks y) b))) b (ks y) (ks y')"
      by (rule serves_inv [OF i 2])
    then show ?thesis
      using transfer_disk_rw low_block by (intro disjI2 exI [of _ k] exI [of _ b] exI [of _ wr]) (auto simp: answers_def Let_def)
  qed
qed

text \<open>C11. No wakeup is lost in the driver, up to a panic or a timeout. In every reachable state a process that sleeps for a buffer
  sleeps while \<^verbatim>\<open>b->disk\<close> is set and the chain of a call for that buffer is in the available ring, at the
  device or in the used ring; and an interrupt leaves nobody asleep for a buffer whose chain was in the used
  ring.\<close>

theorem virtio_no_lost_wakeup:
  assumes "conforming dev" and "vreach dev mmio y"
  shows "(\<forall>b q. asleep (DiskBuf b) (ks y) q \<longrightarrow> b_disk (bufs (ks y) b)
      \<and> (\<exists>i wr. calls y i = Some (b, wr) \<and> i \<in> set (with_device (vd y) (last_avail y) (taken y))))
    \<and> (\<forall>v s i. virtio_disk_intr mmio (vd y, ks y) = Inr (v, s) \<longrightarrow> i \<in> set (completed (vd y)) \<longrightarrow>
      (\<exists>b wr. calls y i = Some (b, wr) \<and> \<not> b_disk (bufs s b) \<and> (\<forall>q. \<not> asleep (DiskBuf b) s q)))"
proof (rule conjI; intro allI)
  have i: "vinv_of y" "waits_ok (ks y) (calls y)" using vreach_inv [OF assms(2,1)] by simp_all
  fix b q
  show "asleep (DiskBuf b) (ks y) q \<longrightarrow> b_disk (bufs (ks y) b)
      \<and> (\<exists>i wr. calls y i = Some (b, wr) \<and> i \<in> set (with_device (vd y) (last_avail y) (taken y)))"
    using vinvD(4) [OF i(1)] i(2) unfolding waits_ok_def by blast
next
  have i: "vinv_of y" "waits_ok (ks y) (calls y)" using vreach_inv [OF assms(2,1)] by simp_all
  fix v s i
  show "virtio_disk_intr mmio (vd y, ks y) = Inr (v, s) \<longrightarrow> i \<in> set (completed (vd y)) \<longrightarrow>
      (\<exists>b wr. calls y i = Some (b, wr) \<and> \<not> b_disk (bufs s b) \<and> (\<forall>q. \<not> asleep (DiskBuf b) s q))"
  proof (intro impI)
    assume e: "virtio_disk_intr mmio (vd y, ks y) = Inr (v, s)" and c: "i \<in> set (completed (vd y))"
    from intr_inv [OF i, of mmio] e have j: "vinv v s (last_avail y) (taken y) (calls y)" "waits_ok s (calls y)"
      "with_device v (last_avail y) (taken y) = pending (vd y) (last_avail y) @ taken y"
      by (auto split: if_splits)
    have "i \<notin> set (with_device v (last_avail y) (taken y))" using vinvD(2) [OF i(1)] c unfolding j(3) by (auto simp: with_device_def)
    moreover obtain b wr where "calls y i = Some (b, wr)" using vinvD(3) [OF i(1)] c by (force simp: with_device_def)
    ultimately show "\<exists>b wr. calls y i = Some (b, wr) \<and> \<not> b_disk (bufs s b) \<and> (\<forall>q. \<not> asleep (DiskBuf b) s q)"
      using vinvD(4) [OF j(1)] j(2) unfolding waits_ok_def by blast
  qed
qed

text \<open>C12. A call that has waited too long gives up a chain that the device still has: when it is woken for the 10001st
  time while \<^verbatim>\<open>b->disk\<close> is set, it returns like a completed call, \<^verbatim>\<open>b->disk\<close> stays set, the head of the chain is still in
  one of the rings or at the device, and its three descriptors are free for the next request.\<close>

theorem virtio_timeout_frees_chain:
  assumes "conforming dev" and "vreach dev mmio y" and "calls y i = Some (b, wr)" and "b_disk (bufs (ks y) b)" and "10000 \<le> t"
  shows "\<exists>v s. rw_resume b i t st now (vd y, ks y) = Inr (RwDone, v, s) \<and> b_disk (bufs s b)
    \<and> i \<in> set (with_device v (last_avail y) (taken y)) \<and> (\<forall>k \<in> owned_by (vd y) i. free v ! k)"
proof -
  have i: "vinv_of y" using vreach_inv [OF assms(2,1)] by simp
  obtain v s where "rw_resume b i t st now (vd y, ks y) = Inr (RwDone, v, s)" "bufs s = bufs (ks y)"
    "with_device v (last_avail y) (taken y) = with_device (vd y) (last_avail y) (taken y)"
    "\<And>k. k \<in> owned_by (vd y) i \<Longrightarrow> free v ! k"
    by (rule timeout_frees_chain [OF i assms(3,5)]) blast
  then show ?thesis using vinvD(4) [OF i assms(3)] assms(4) by auto
qed

subsection \<open>A read of block 5\<close>

definition spec_dev :: "vsys \<Rightarrow> vsys \<Rightarrow> bool" where
  "spec_dev y y' \<longleftrightarrow> takes y y' \<or> (\<exists>i e. serves i e y y')"

definition demo_vdisk :: vdisk where
  "demo_vdisk = \<lparr>desc = replicate NUM zero_desc, avail_idx = 0, avail_ring = replicate NUM 0, used_ring_idx = 0,
     used_ring = replicate NUM 0, free = replicate NUM True, used_idx = 0, info_b = replicate NUM None,
     info_status = replicate NUM 0, ops = replicate NUM \<lparr>r_type = 0, r_reserved = 0, r_sector = 0\<rparr>,
     vstats = \<lparr>read_requests = 0, write_requests = 0, completed_ops = 0, vfailed_ops = 0, interrupts = 0,
       descriptor_alloc_failures = 0, total_bytes_read = 0, total_bytes_written = 0, max_queue_depth = 0, avg_response_time = 0\<rparr>,
     start_time = replicate NUM 0, total_time = 0, operation_count = 0, reg_writes = []\<rparr>"

lemma spec_conforming: "conforming spec_dev"
  by (simp add: conforming_def spec_dev_def)

lemma demo_sizes: "sizes demo_vdisk"
  by (simp add: sizes_def demo_vdisk_def)

lemma demo_read:
  obtains y where "vreach spec_dev mmio y" and "calls y = [0 \<mapsto> (3, False)]" and "pending (vd y) (last_avail y) = [0]"
    and "b_blockno (bufs (ks y) 3) = 5" and "taken y = []" and "completed (vd y) = []"
    and "asleep (DiskBuf 3) (ks y) 0"
proof -
  obtain s where s: "demo_run s" by (rule demo_runs)
  define s0 where "s0 = upd_buf 3 (\<lambda>B. B\<lparr>b_blockno := 5\<rparr>) s"
  have m: "me s0 = Some 0" and st: "p_state (procs s0 0) = RUNNING" "\<And>i. i \<noteq> 0 \<Longrightarrow> p_state (procs s0 i) = UNUSED"
    using s by (auto simp: s0_def demo_run_def runs_def upd_buf_def)
  have "p_state (procs s0 q) \<noteq> SLEEPING" for q using st by (cases "q = 0") simp_all
  then have ok: "\<not> asleep ch s0 q" for ch q by (simp add: asleep_def)
  define y where "y = \<lparr>vd = demo_vdisk, ks = s0, last_avail = avail_idx demo_vdisk, taken = [], calls = Map.empty\<rparr>"
  have r: "vreach spec_dev mmio y" unfolding y_def
    by (rule vreach.start) (use demo_sizes ok m st in \<open>simp_all add: demo_vdisk_def\<close>)
  have f: "alloc3_desc (demo_vdisk, s0)
      = Inr (Some [0, 1, 2], demo_vdisk\<lparr>free := (free demo_vdisk)[0 := False, 1 := False, 2 := False]\<rparr>, s0)"
    by (simp add: alloc3_desc_def alloc3_loop.simps alloc_desc_def demo_vdisk_def upt_rec numeral_eq_Suc)
  define s1 where "s1 = upd_buf 3 (\<lambda>B. B\<lparr>b_disk := True\<rparr>) s0"
  define s2 where "s2 = (upd_proc 0 (\<lambda>P. P\<lparr>p_chan := Some (DiskBuf 3), p_state := SLEEPING\<rparr>) s1)\<lparr>me := None\<rparr>"
  have m1: "me s1 = Some 0" "b_disk (bufs s1 3)" using m by (simp_all add: s1_def upd_buf_def)
  have "snd (rw_submit [0, 1, 2] 3 False 9 (v, s0)) = s1" for v by (simp add: rw_submit_def Let_def s1_def)
  then obtain w where w: "rw_alloc 3 False 0 9 (demo_vdisk, s0) = Inr (RwWait 0 0 9, w, s2)"
    using m1 sleep_running [OF m1(1), of "DiskBuf 3"] by (auto simp: rw_alloc_def f rw_wait_def s2_def)
  define z where "z = y\<lparr>vd := w, ks := s2, calls := [0 \<mapsto> (3, False)]\<rparr>"
  have z: "vreach spec_dev mmio z"
    using vreach.call [OF r, of 0 3 False 0 9 "RwWait 0 0 9" w s2] w m by (simp add: y_def z_def)
  have p0: "pending w 0 = [0] \<and> completed w = []"
  proof (rule alloc_inv [of demo_vdisk s0 0 "[]" Map.empty 0 3 False 0 9])
    show "vinv demo_vdisk s0 0 [] Map.empty" using vreach_inv [OF r spec_conforming] by (simp add: y_def demo_vdisk_def)
  qed (use m w in \<open>auto simp: pending_def completed_def demo_vdisk_def\<close>)
  show ?thesis
    by (rule that [OF z]) (use p0 in \<open>simp_all add: z_def y_def demo_vdisk_def\<close>,
        simp_all add: s2_def s1_def s0_def upd_proc_def upd_buf_def asleep_def)
qed

text \<open>The device takes the request and answers it with status \<open>e\<close>.\<close>

lemma demo_answer:
  obtains y y' i where "vreach spec_dev mmio y" and "spec_dev y y'" and "vreach spec_dev mmio y'" and "calls y = [i \<mapsto> (3, False)]"
    and "calls y' = [i \<mapsto> (3, False)]" and "i \<in> set (completed (vd y'))" and "info_status (vd y') ! i = e" and "b_blockno (bufs (ks y) 3) = 5"
    and "completed (vd y) = []" and "last_avail y = avail_idx (vd y)"
proof -
  define i :: nat where "i = 0"
  obtain y0 where y0: "vreach spec_dev mmio y0" "calls y0 = [i \<mapsto> (3, False)]" "pending (vd y0) (last_avail y0) = [i]"
    "b_blockno (bufs (ks y0) 3) = 5" "taken y0 = []" "completed (vd y0) = []"
    unfolding i_def by (rule demo_read)
  have ne: "last_avail y0 \<noteq> avail_idx (vd y0)" using y0(3) by (auto simp: pending_def)
  define y where "y = y0\<lparr>last_avail := last_avail y0 + 1, taken := taken y0 @ [unat (avail_ring (vd y0) ! (unat (last_avail y0) mod NUM))]\<rparr>"
  have "takes y0 y" using ne by (simp add: takes_def y_def)
  then have r: "vreach spec_dev mmio y" by (intro vreach.device [OF y0(1)]) (simp add: spec_dev_def)
  have h: "unat (avail_ring (vd y0) ! (unat (last_avail y0) mod NUM)) = i" and em: "last_avail y0 + 1 = avail_idx (vd y0)"
    using ring_get [OF _ ne, of NUM "avail_ring (vd y0)"] y0(3) by (simp_all add: pending_def ring_empty_iff)
  have c: "calls y i = Some (3, False)" "i \<in> set (taken y)" using y0(2) h by (simp_all add: y_def)
  have v: "vinv_of y" using vreach_inv [OF r spec_conforming] by simp
  have f: "formatted (vd y) (ks y) i 3 False" using chainsD(2) [OF vinvD(1) [OF v] c(1)] .
  define blk where "blk = block_of (vd y) i"
  define s' where "s' = (if e = 0 then transfer False blk 3 (ks y) else upd_buf 3 (\<lambda>B. B\<lparr>b_data := []\<rparr>) (ks y))"
  have a: "answers e (r_type (ops (vd y) ! i) = VIRTIO_BLK_T_OUT) blk 3 (ks y) s'"
    using f by (auto simp: answers_def botched_def s'_def formatted_def Let_def VIRTIO_BLK_T_OUT_def VIRTIO_BLK_T_IN_def)
  have u: "k = i \<and> b' = 3 \<and> j = i" if "chain_ok (vd y) i k b' j" for k b' j
    using that f by (simp add: chain_ok_def formatted_def Let_def)
  define y' where "y' = y\<lparr>ks := s', vd := (vd y)\<lparr>info_status := (info_status (vd y))[i := e],
      used_ring := (used_ring (vd y))[unat (used_ring_idx (vd y)) mod NUM := of_nat i],
      used_ring_idx := used_ring_idx (vd y) + 1\<rparr>, taken := remove1 i (taken y)\<rparr>"
  have s: "serves i e y y'"
    unfolding serves_def
  proof (intro conjI allI impI c(2))
    fix k b' j assume "chain_ok (vd y) i k b' j"
    from u [OF this] a show "\<exists>s'. answers e (r_type (ops (vd y) ! k) = VIRTIO_BLK_T_OUT) (block_of (vd y) k) b' (ks y) s'
        \<and> y' = y\<lparr>ks := s', vd := (vd y)\<lparr>info_status := (info_status (vd y))[j := e],
             used_ring := (used_ring (vd y))[unat (used_ring_idx (vd y)) mod NUM := of_nat i],
             used_ring_idx := used_ring_idx (vd y) + 1\<rparr>, taken := remove1 i (taken y)\<rparr>"
      by (intro exI [of _ s']) (simp add: y'_def blk_def)
  qed
  then have d: "spec_dev y y'" by (auto simp: spec_dev_def)
  obtain b wr where w: "calls y' = calls y" "info_status (vd y') ! i = e" "i \<in> set (completed (vd y'))"
    by (rule serves_inv [OF v s])
  show ?thesis
    by (rule that [OF r d vreach.device [OF r d] _ _ w(3,2)]) (use y0 em w(1) in \<open>simp_all add: y_def\<close>)
qed

theorem virtio_driver_safe_witness:
  "(\<exists>y. vreach spec_dev (\<lambda>_ _. 0) y \<and> calls y \<noteq> Map.empty \<and> (\<exists>x. virtio_disk_intr (\<lambda>_ _. 0) (vd y, ks y) = Inr x))
   \<and> (\<exists>y. vreach spec_dev (\<lambda>_ _. 0) y \<and> virtio_disk_intr (\<lambda>_ _. 0) (vd y, ks y) = Inl (Panic ''virtio_disk_intr status''))"
proof
  obtain y y' i where y: "vreach spec_dev (\<lambda>_ _. 0) y" "calls y = [i \<mapsto> (3, False)]" "completed (vd y) = []"
    by (rule demo_answer [of "\<lambda>_ _. 0" 0]) blast
  from virtio_driver_safe [OF spec_conforming y(1)] y
  show "\<exists>y. vreach spec_dev (\<lambda>_ _. 0) y \<and> calls y \<noteq> Map.empty \<and> (\<exists>x. virtio_disk_intr (\<lambda>_ _. 0) (vd y, ks y) = Inr x)"
    by (intro exI [of _ y]) auto
next
  obtain y y' i where y: "vreach spec_dev (\<lambda>_ _. 0) y'" "i \<in> set (completed (vd y'))" "info_status (vd y') ! i = 1"
    by (rule demo_answer [of "\<lambda>_ _. 0" 1]) blast
  then have "\<not> (\<forall>i \<in> set (completed (vd y')). info_status (vd y') ! i = 0)" by (metis one_neq_zero)
  with virtio_driver_safe [OF spec_conforming y(1)] y(1)
  show "\<exists>y. vreach spec_dev (\<lambda>_ _. 0) y \<and> virtio_disk_intr (\<lambda>_ _. 0) (vd y, ks y) = Inl (Panic ''virtio_disk_intr status'')"
    by (intro exI [of _ y']) simp
qed

theorem virtio_refines_disk_rw_witness:
  "\<exists>y y'. vreach spec_dev (\<lambda>_ _. 0) y \<and> spec_dev y y' \<and> b_blockno (bufs (ks y) 3) = 5 \<and> ks y' = disk_rw 3 False (ks y)"
proof -
  obtain y y' i where y: "vreach spec_dev (\<lambda>_ _. 0) y" "spec_dev y y'" "calls y = [i \<mapsto> (3, False)]" "info_status (vd y') ! i = 0"
    "b_blockno (bufs (ks y) 3) = 5" "last_avail y = avail_idx (vd y)"
    by (rule demo_answer [of "\<lambda>_ _. 0" 0]) blast
  have "\<not> takes y y'" using y(6) by (simp add: takes_def)
  moreover have "unat (5 :: u32) < 2 ^ 31" by simp
  ultimately have "ks y' = disk_rw 3 False (ks y)"
    using virtio_refines_disk_rw [OF spec_conforming y(1,2)] y(3-5) by (auto simp: Let_def split: if_splits)
  then show ?thesis using y by blast
qed

theorem virtio_no_lost_wakeup_witness:
  "(\<exists>y. vreach spec_dev (\<lambda>_ _. 0) y \<and> asleep (DiskBuf 3) (ks y) 0 \<and> b_disk (bufs (ks y) 3))
   \<and> (\<exists>y v s. vreach spec_dev (\<lambda>_ _. 0) y \<and> virtio_disk_intr (\<lambda>_ _. 0) (vd y, ks y) = Inr (v, s)
        \<and> completed (vd y) \<noteq> [] \<and> (\<forall>q. \<not> asleep (DiskBuf 3) s q))"
proof
  obtain y where y: "vreach spec_dev (\<lambda>_ _. 0) y" "asleep (DiskBuf 3) (ks y) 0" by (rule demo_read)
  from virtio_no_lost_wakeup [OF spec_conforming y(1)] y
  show "\<exists>y. vreach spec_dev (\<lambda>_ _. 0) y \<and> asleep (DiskBuf 3) (ks y) 0 \<and> b_disk (bufs (ks y) 3)" by blast
next
  obtain y' i where y: "vreach spec_dev (\<lambda>_ _. 0) y'" "calls y' = [i \<mapsto> (3, False)]" "i \<in> set (completed (vd y'))" "info_status (vd y') ! i = 0"
    by (rule demo_answer [of "\<lambda>_ _. 0" 0]) blast
  have v: "vinv_of y'" "waits_ok (ks y') (calls y')" using vreach_inv [OF y(1) spec_conforming] by simp_all
  have "\<forall>k \<in> set (completed (vd y')). info_status (vd y') ! k = 0"
    using vinvD(3) [OF v(1)] y(2,4) by (auto simp: with_device_def split: if_splits)
  then obtain w s where e: "virtio_disk_intr (\<lambda>_ _. 0) (vd y', ks y') = Inr (w, s)" using intr_inv [OF v, of "\<lambda>_ _. 0"] by auto
  then have "\<forall>q. \<not> asleep (DiskBuf 3) s q"
    using virtio_no_lost_wakeup [OF spec_conforming y(1)] y(2,3) by (fastforce split: if_splits)
  then show "\<exists>y v s. vreach spec_dev (\<lambda>_ _. 0) y \<and> virtio_disk_intr (\<lambda>_ _. 0) (vd y, ks y) = Inr (v, s)
        \<and> completed (vd y) \<noteq> [] \<and> (\<forall>q. \<not> asleep (DiskBuf 3) s q)"
    using y(1,3) e by (intro exI [of _ y'] exI [of _ w] exI [of _ s]) auto
qed

theorem virtio_timeout_frees_chain_witness:
  "\<exists>y v s. vreach spec_dev (\<lambda>_ _. 0) y \<and> b_disk (bufs (ks y) 3) \<and> rw_resume 3 0 10000 9 9 (vd y, ks y) = Inr (RwDone, v, s)
     \<and> 0 \<in> set (with_device v (last_avail y) (taken y)) \<and> free v ! 0"
proof -
  obtain y where y: "vreach spec_dev (\<lambda>_ _. 0) y" "calls y = [0 \<mapsto> (3, False)]" "asleep (DiskBuf 3) (ks y) 0" by (rule demo_read)
  have "b_disk (bufs (ks y) 3)" using vreach_inv [OF y(1) spec_conforming] y(3) by (auto simp: waits_ok_def)
  moreover have "(0 :: nat) \<in> owned_by (vd y) 0" by (simp add: owned_by_def)
  moreover have "calls y 0 = Some (3, False)" using y(2) by simp
  ultimately show ?thesis
    using virtio_timeout_frees_chain [OF spec_conforming y(1), of 0 3 False 10000 9 9] y(1) by blast
qed

end
