(* ===== verification/Grep.thy ===== *)
theory Grep
  imports Prelude
begin

text \<open>
  Pattern search, \<^verbatim>\<open>src/grep.c\<close>: the matcher of Kernighan and Pike, \<^verbatim>\<open>match\<close>, \<^verbatim>\<open>matchhere\<close> and
  \<^verbatim>\<open>matchstar\<close>; the loop that cuts the input into lines and \<^verbatim>\<open>main\<close> are not modelled. A \<^verbatim>\<open>char *\<close> is the list of bytes from the pointer on;
  \<open>ch p\<close> reads \<^verbatim>\<open>*p\<close>, which is the terminating zero at the end of the list. The matcher is proved
  equivalent to membership in the language that the pattern denotes.
\<close>

section \<open>C strings\<close>

definition ch :: "u8 list \<Rightarrow> u8" where
  "ch p = (case p of [] \<Rightarrow> 0 | c # _ \<Rightarrow> c)"

abbreviation cstr :: "u8 list \<Rightarrow> u8 list" where
  "cstr \<equiv> takeWhile (\<lambda>c. c \<noteq> 0)"

abbreviation c_newline :: u8 where "c_newline \<equiv> 10"
abbreviation c_dollar :: u8 where "c_dollar \<equiv> 36"
abbreviation c_star :: u8 where "c_star \<equiv> 42"
abbreviation c_dot :: u8 where "c_dot \<equiv> 46"
abbreviation c_hat :: u8 where "c_hat \<equiv> 94"

lemma ch_simps [simp]: "ch [] = 0" "ch (c # p) = c"
  by (simp_all add: ch_def)

lemma ch_nonzero: "ch p \<noteq> 0 \<longleftrightarrow> (\<exists>c q. p = c # q \<and> c \<noteq> 0)"
  by (cases p) auto

lemma ch_cstr [simp]: "ch (cstr p) = ch p"
  by (cases p) auto

lemma tl_cstr: "ch p \<noteq> 0 \<Longrightarrow> tl (cstr p) = cstr (tl p)"
  by (cases p) auto

section \<open>The matcher\<close>

function matchhere :: "u8 list \<Rightarrow> u8 list \<Rightarrow> bool" and matchstar :: "u8 \<Rightarrow> u8 list \<Rightarrow> u8 list \<Rightarrow> bool" where
  "matchhere re text =
     (if ch re = 0 then True
      else if ch (tl re) = c_star then matchstar (ch re) (tl (tl re)) text
      else if ch re = c_dollar \<and> ch (tl re) = 0 then ch text = 0
      else if ch text \<noteq> 0 \<and> (ch re = c_dot \<or> ch re = ch text) then matchhere (tl re) (tl text)
      else False)"
| "matchstar c re text =
     (if matchhere re text then True
      else if ch text \<noteq> 0 \<and> (ch text = c \<or> c = c_dot) then matchstar c re (tl text)
      else False)"
  by pat_completeness auto
termination
  by (relation "measure (\<lambda>x. case x of Inl (re, text) \<Rightarrow> 2 * (length re + length text)
        | Inr (c, re, text) \<Rightarrow> 2 * (length re + length text) + 1)")
     (auto simp: ch_nonzero)

declare matchhere.simps [simp del] matchstar.simps [simp del]

text \<open>The loop of \<^verbatim>\<open>match\<close> tries every suffix of the text, the empty one included.\<close>

function match_loop :: "u8 list \<Rightarrow> u8 list \<Rightarrow> bool" where
  "match_loop re text =
     (if matchhere re text then True
      else if ch text \<noteq> 0 then match_loop re (tl text) else False)"
  by pat_completeness auto
termination
  by (relation "measure (\<lambda>(re, text). length text)") (auto simp: ch_nonzero)

declare match_loop.simps [simp del]

definition match :: "u8 list \<Rightarrow> u8 list \<Rightarrow> bool" where
  "match re text = (if ch re = c_hat then matchhere (tl re) text else match_loop re text)"

section \<open>The language of a pattern\<close>

text \<open>A pattern is a sequence of single characters and starred characters between two optional
  anchors. A dot stands for any character.\<close>

datatype item = One u8 | Many u8

fun items :: "u8 list \<Rightarrow> item list" where
  "items [] = []"
| "items [c] = (if c = c_dollar then [] else [One c])"
| "items (c # d # re) = (if d = c_star then Many c # items re else One c # items (d # re))"

fun ends_at_dollar :: "u8 list \<Rightarrow> bool" where
  "ends_at_dollar [] = False"
| "ends_at_dollar [c] = (c = c_dollar)"
| "ends_at_dollar (c # d # re) = (if d = c_star then ends_at_dollar re else ends_at_dollar (d # re))"

definition accepts :: "u8 \<Rightarrow> u8 \<Rightarrow> bool" where
  "accepts c x \<longleftrightarrow> c = c_dot \<or> c = x"

fun lang :: "item list \<Rightarrow> u8 list set" where
  "lang [] = {[]}"
| "lang (One c # r) = {x # u | x u. accepts c x \<and> u \<in> lang r}"
| "lang (Many c # r) = {v @ u | v u. (\<forall>x \<in> set v. accepts c x) \<and> u \<in> lang r}"

text \<open>\<open>matches_in re text\<close>: some part of the text is in the language of the pattern, at the
  beginning when the pattern starts with a hat and at the end when it ends with a dollar.\<close>

definition matches_in :: "u8 list \<Rightarrow> u8 list \<Rightarrow> bool" where
  "matches_in re text \<longleftrightarrow>
     (let body = (if ch re = c_hat then tl re else re) in
      \<exists>a u b. text = a @ u @ b \<and> u \<in> lang (items body)
        \<and> (ch re = c_hat \<longrightarrow> a = []) \<and> (ends_at_dollar body \<longrightarrow> b = []))"

definition matches_here :: "u8 list \<Rightarrow> u8 list \<Rightarrow> bool" where
  "matches_here re text \<longleftrightarrow> (\<exists>u b. text = u @ b \<and> u \<in> lang (items re) \<and> (ends_at_dollar re \<longrightarrow> b = []))"

definition matches_star :: "u8 \<Rightarrow> u8 list \<Rightarrow> u8 list \<Rightarrow> bool" where
  "matches_star c re text \<longleftrightarrow> (\<exists>v w. text = v @ w \<and> (\<forall>x \<in> set v. accepts c x) \<and> matches_here re w)"

lemma matches_here_Nil: "matches_here [] text"
  by (auto simp: matches_here_def)

lemma matches_here_star: "matches_here (c # c_star # re) text \<longleftrightarrow> matches_star c re text"
proof
  assume "matches_here (c # c_star # re) text"
  then obtain vu b where "text = vu @ b" "vu \<in> lang (Many c # items re)" "ends_at_dollar re \<longrightarrow> b = []"
    unfolding matches_here_def by (simp del: lang.simps) blast
  moreover from this obtain v u where "vu = v @ u" "\<forall>x \<in> set v. accepts c x" "u \<in> lang (items re)"
    by auto
  ultimately have "text = v @ u @ b" "\<forall>x \<in> set v. accepts c x" "u \<in> lang (items re)"
      "ends_at_dollar re \<longrightarrow> b = []"
    by simp_all
  then show "matches_star c re text" unfolding matches_star_def matches_here_def by blast
next
  assume "matches_star c re text"
  then obtain v w where "text = v @ w" "\<forall>x \<in> set v. accepts c x" "matches_here re w"
    by (auto simp: matches_star_def)
  moreover from this obtain u b where "w = u @ b" "u \<in> lang (items re)" "ends_at_dollar re \<longrightarrow> b = []"
    by (auto simp: matches_here_def)
  ultimately have "text = (v @ u) @ b" "\<forall>x \<in> set v. accepts c x" "u \<in> lang (items re)"
      "ends_at_dollar re \<longrightarrow> b = []"
    by simp_all
  then show "matches_here (c # c_star # re) text" unfolding matches_here_def
    by (intro exI [of _ "v @ u"] exI [of _ b]) auto
qed

lemma matches_here_dollar: "matches_here [c_dollar] text \<longleftrightarrow> text = []"
  by (auto simp: matches_here_def)

lemma matches_here_one:
  assumes "ch re \<noteq> c_star" and "\<not> (c = c_dollar \<and> re = [])"
  shows "matches_here (c # re) text \<longleftrightarrow> (\<exists>x w. text = x # w \<and> accepts c x \<and> matches_here re w)"
proof -
  have "items (c # re) = One c # items re" and "ends_at_dollar (c # re) = ends_at_dollar re"
    using assms by (cases re; simp)+
  then have "matches_here (c # re) text \<longleftrightarrow>
      (\<exists>x u b. text = x # u @ b \<and> accepts c x \<and> u \<in> lang (items re) \<and> (ends_at_dollar re \<longrightarrow> b = []))"
    unfolding matches_here_def by (simp only: lang.simps mem_Collect_eq) (metis append_Cons)
  also have "\<dots> \<longleftrightarrow> (\<exists>x w. text = x # w \<and> accepts c x \<and> matches_here re w)"
    unfolding matches_here_def by blast
  finally show ?thesis .
qed

lemma matches_star_step:
  "matches_star c re text \<longleftrightarrow>
     matches_here re text \<or> (\<exists>x w. text = x # w \<and> accepts c x \<and> matches_star c re w)"
proof
  assume "matches_star c re text"
  then obtain v w where "text = v @ w" "\<forall>x \<in> set v. accepts c x" "matches_here re w"
    by (auto simp: matches_star_def)
  then show "matches_here re text \<or> (\<exists>x w. text = x # w \<and> accepts c x \<and> matches_star c re w)"
    by (cases v) (auto simp: matches_star_def)
next
  assume "matches_here re text \<or> (\<exists>x w. text = x # w \<and> accepts c x \<and> matches_star c re w)"
  then show "matches_star c re text"
  proof
    assume "matches_here re text"
    then show ?thesis unfolding matches_star_def by (intro exI [of _ "[]"] exI [of _ "text"]) simp
  next
    assume "\<exists>x w. text = x # w \<and> accepts c x \<and> matches_star c re w"
    then obtain x v w where "text = (x # v) @ w" "\<forall>y \<in> set (x # v). accepts c y" "matches_here re w"
      by (auto simp: matches_star_def)
    then show ?thesis unfolding matches_star_def by blast
  qed
qed

lemma matcher_sound:
  "matchhere re text \<longleftrightarrow> matches_here (cstr re) (cstr text)"
  "matchstar c re text \<longleftrightarrow> matches_star c (cstr re) (cstr text)"
proof (induction re "text" and c re "text" rule: matchhere_matchstar.induct)
  case (1 re t)
  consider (Nil) "ch re = 0" | (Star) c r where "re = c # c_star # r" "c \<noteq> 0"
    | (Dollar) r where "re = c_dollar # r" "ch r = 0"
    | (One) c r where "re = c # r" "c \<noteq> 0" "ch r \<noteq> c_star" "\<not> (c = c_dollar \<and> ch r = 0)"
    by (cases re rule: items.cases) (auto; metis)+
  then show ?case
  proof cases
    case Nil
    then have "cstr re = []" by (cases re) auto
    with Nil show ?thesis by (simp add: matchhere.simps matches_here_Nil)
  next
    case Star
    then have "matchhere re t = matchstar c r t" by (simp add: matchhere.simps [of "c # c_star # r"])
    with Star 1(1) show ?thesis by (simp add: matches_here_star)
  next
    case Dollar
    then have "cstr re = [c_dollar]" by (cases r) auto
    moreover have "cstr t = [] \<longleftrightarrow> ch t = 0" by (cases t) auto
    ultimately show ?thesis using Dollar by (simp add: matchhere.simps [of "c_dollar # r"] matches_here_dollar)
  next
    case One
    have e: "cstr re = c # cstr r" using One by simp
    have r: "\<not> (c = c_dollar \<and> cstr r = [])" using One by (cases r) auto
    show ?thesis
    proof (cases "ch t = 0")
      case True
      then have "cstr t = []" by (cases t) auto
      with One True show ?thesis by (simp add: matchhere.simps [of "c # r"] e matches_here_one r)
    next
      case False
      then obtain x w where tt: "t = x # w" "x \<noteq> 0" by (auto simp: ch_nonzero)
      with One 1(2) show ?thesis
        by (auto simp: matchhere.simps [of "c # r"] e matches_here_one r accepts_def)
    qed
  qed
next
  case (2 c re t)
  show ?case
  proof (cases "ch t = 0")
    case True
    then have "cstr t = []" by (cases t) auto
    with True 2(1) show ?thesis by (simp add: matchstar.simps [of c re t] matches_star_step [of c "cstr re" "[]"])
  next
    case False
    then obtain x w where tt: "t = x # w" "x \<noteq> 0" by (auto simp: ch_nonzero)
    then have "matchstar c re t \<longleftrightarrow> matchhere re t \<or> accepts c x \<and> matchstar c re w"
      by (auto simp: matchstar.simps [of c re "x # w"] accepts_def)
    moreover have "accepts c x \<Longrightarrow> \<not> matchhere re t \<Longrightarrow> matchstar c re w \<longleftrightarrow> matches_star c (cstr re) (cstr w)"
      using 2(2) tt by (auto simp: accepts_def)
    moreover have "matches_star c (cstr re) (cstr t) \<longleftrightarrow>
        matches_here (cstr re) (cstr t) \<or> accepts c x \<and> matches_star c (cstr re) (cstr w)"
      using tt by (subst matches_star_step) simp
    ultimately show ?thesis using 2(1) by blast
  qed
qed

lemma match_loop_sound:
  "match_loop re text \<longleftrightarrow> (\<exists>a w. cstr text = a @ w \<and> matches_here (cstr re) w)"
proof (induction re "text" rule: match_loop.induct)
  case (1 re t)
  show ?case
  proof (cases "ch t = 0")
    case True
    then have "cstr t = []" by (cases t) auto
    with True show ?thesis by (simp add: match_loop.simps [of re t] matcher_sound)
  next
    case False
    then obtain x w where tt: "t = x # w" "x \<noteq> 0" by (auto simp: ch_nonzero)
    with 1 have "match_loop re t \<longleftrightarrow> matches_here (cstr re) (x # cstr w)
        \<or> (\<exists>a v. cstr w = a @ v \<and> matches_here (cstr re) v)"
      using match_loop.simps [of re "x # w"] by (auto simp: matcher_sound)
    also have "\<dots> \<longleftrightarrow> (\<exists>a v. x # cstr w = a @ v \<and> matches_here (cstr re) v)"
      by (auto simp: Cons_eq_append_conv)
    finally show ?thesis using tt by simp
  qed
qed

text \<open>C14. The matcher is correct: \<^verbatim>\<open>match\<close> returns 1 exactly when some part of the text belongs to the
  language of the pattern and respects its anchors.\<close>

theorem match_correct: "match re text \<longleftrightarrow> matches_in (cstr re) (cstr text)"
proof (cases "ch re = c_hat")
  case True
  then show ?thesis
    by (simp add: match_def matches_in_def matcher_sound matches_here_def tl_cstr Let_def)
next
  case False
  then show ?thesis
    by (simp add: match_def matches_in_def match_loop_sound matches_here_def Let_def) blast
qed

end
