(* ===== verification/Spec2Isabelle.thy ===== *)
theory Spec2Isabelle
  imports Boot FsProps PipeProps ConsoleProps VirtioProps Grep
begin

text \<open>
  A verification development for an xv6 kernel for RISC-V and its user programs.

  \<^bold>\<open>The program.\<close> The kernel (\<^verbatim>\<open>src/kernel/\<close>) is a Unix-like system: a page allocator, Sv39 page tables and user
  memory, a block cache over one disk, a write-ahead log, a file system on the log, pipes and a console, open
  files over inodes, pipes and devices, and a process table with a scheduler. User programs (\<^verbatim>\<open>src/*.c\<close>) run above
  its system calls, and \<^verbatim>\<open>src/mkfs/mkfs.c\<close> writes the first disk image.

  \<^bold>\<open>Conventions.\<close> Machine integers are words of their C width. A call that can panic, block or leave defined
  behaviour returns a \<open>fault + 'a\<close> (theory \<open>Prelude\<close>): \<open>Panic\<close> with the message of the code, \<open>Blocked\<close> for a taken
  sleep lock or a wait inside the log, \<open>Undef\<close> for behaviour C leaves undefined, \<open>Diverges\<close> for a loop that does not end.
  The state is one record, extended layer by layer: physical memory (\<open>mach\<close>), the allocator (\<open>kmem\<close>), the
  buffer cache and the disk (\<open>bcache\<close>), the log (\<open>log_state\<close>) and the tables of the kernel (\<open>kernel\<close>, theory \<open>Kstate\<close>).
  A pointer into a kernel table is the index of the entry, a null pointer is \<open>None\<close>; pages, page tables,
  user strings and pipes live at their addresses. A section under a spin lock is one step, as \<open>Locks\<close> shows
  that the sections of one lock exclude each other. A call that sleeps runs up to its next sleep and
  returns \<open>Sleep\<close> with what it has done so far.

  \<^bold>\<open>Theories.\<close>
  \<^item> \<open>Prelude\<close>, \<open>Memory\<close>: results, little-endian fields, byte memory.
  \<^item> \<open>Kstring\<close> (\<^verbatim>\<open>string.c\<close>): the memory and string routines, with their counters and checks. \<open>memmove\<close> is
    right for overlapping ranges; \<open>strncpy\<close> pads and agrees with \<open>strncmp\<close>.
  \<^item> \<open>Kalloc\<close> (\<^verbatim>\<open>kalloc.c\<close>): the free list in the free pages themselves, an instance of the locale \<open>page_allocator\<close>; a client that takes pages and
    gives back pages it holds never gets a page twice. That writes to pages outside the list leave it alone is \<open>free_list_frame\<close> in \<open>Pagetable\<close>.
  \<^item> \<open>Locks\<close> (\<^verbatim>\<open>spinlock.c\<close>, \<^verbatim>\<open>sleeplock.c\<close>): acquire and release at the grain of their atomic accesses, interleaved between CPUs.
  \<^item> \<open>Dll\<close>, \<open>Bio\<close> (\<^verbatim>\<open>bio.c\<close>): the LRU list as links; the cache refines an abstract cache (the locale \<open>block_cache\<close>), so that clients
    see one copy of each block.
  \<^item> \<open>Log\<close> (\<^verbatim>\<open>log.c\<close>): commit is atomic for a crash at any disk write, recovery is idempotent, and space is
    reserved for ten blocks of every operation that is under way. The one panic that remains, when a block is logged again
    in a log that is exactly full, is a branch of the theorem.
  \<^item> \<open>Pagetable\<close>, \<open>Uvm\<close>, \<open>Freewalk\<close>, \<open>Ucopy\<close> (\<^verbatim>\<open>vm.c\<close>): page tables as bytes of memory seen as a map from addresses to
    entries; mapping, growing, copying and freeing address spaces, and the copies between kernel and user memory with
    lazy allocation.
  \<^item> \<open>Kstate\<close>, \<open>Fs\<close> (\<^verbatim>\<open>fs.c\<close>): the whole file system. \<open>FsTx\<close>, \<open>FsBlock\<close>, \<open>FsFile\<close>, \<open>FsBmap\<close>, \<open>FsData\<close>, \<open>FsInode\<close>, \<open>FsRead\<close> and
    \<open>FsProps\<close> prove it over the cache and the log: \<open>view\<close> is the content of the disk as the transaction sees it, \<open>file_ok\<close> says
    that a file owns its blocks, and \<open>written\<close> is the effect of \<open>writei\<close>.
  \<^item> \<open>Pipe\<close>, \<open>Console\<close>, \<open>File\<close> (\<^verbatim>\<open>pipe.c\<close>, \<^verbatim>\<open>console.c\<close>, \<^verbatim>\<open>uart.c\<close>, \<^verbatim>\<open>file.c\<close>), \<open>Proc\<close> (\<^verbatim>\<open>proc.c\<close>). \<open>Ring\<close> has the bounded queue (the
    locale \<open>fifo\<close>) that both buffers are, \<open>RunDemo\<close> a running process to evaluate at. \<open>PipeProps\<close>: a pipe delivers the bytes written, in order, except
    for the byte a read takes out and cannot store; no sleeper is forgotten. \<open>ConsoleProps\<close>: the console is a line discipline.
  \<^item> \<open>Sysarg\<close>, \<open>Syscall\<close> (\<^verbatim>\<open>syscall.c\<close>), \<open>Exec\<close> (\<^verbatim>\<open>exec.c\<close>), \<open>Sysfile\<close> (\<^verbatim>\<open>sysfile.c\<close>), \<open>Sysproc\<close> (\<^verbatim>\<open>sysproc.c\<close>): every system
    call from its arguments in the trap frame to the result in \<^verbatim>\<open>a0\<close>.
  \<^item> \<open>Virtio\<close> (\<^verbatim>\<open>virtio_disk.c\<close>, \<^verbatim>\<open>virtio.h\<close>): the driver on its rings. \<open>VirtioProps\<close> runs it with a device that takes and
    returns the chains in any order and may fail any of them. The driver panics exactly when it meets a failed request; what succeeds is the
    transfer \<open>disk_rw\<close> that \<open>Bio\<close> starts from, and no sleeper is forgotten, until a call times out on a chain that
    the device still has: there it frees descriptors in use, which is a property of its own.
  \<^item> \<open>Trap\<close> (\<^verbatim>\<open>trap.c\<close>), \<open>Boot\<close> (\<^verbatim>\<open>start.c\<close>, \<^verbatim>\<open>main.c\<close>, \<^verbatim>\<open>plic.c\<close>, \<^verbatim>\<open>forkret\<close>): traps, interrupts and start-up.
  \<^item> \<open>Grep\<close> (\<^verbatim>\<open>grep.c\<close>): the pattern matcher decides the language of the pattern.

  \<^bold>\<open>Bounds.\<close> Loops are recursive functions with termination proofs; no fuel is used. The file-system theorems ask that
  the blocks an operation may log, counted by \<open>potential\<close> and \<open>nblk\<close>, stay below the number of buffers
  \<^verbatim>\<open>NBUF\<close>, because a logged block stays pinned until the commit; the write of \<^verbatim>\<open>filewrite\<close> is shown to stay within
  \<^verbatim>\<open>MAXOPBLOCKS\<close>.

  \<^bold>\<open>Not modelled.\<close> The assembly files (\<^verbatim>\<open>entry.S\<close>, \<^verbatim>\<open>kernelvec.S\<close>, \<^verbatim>\<open>swtch.S\<close>, \<^verbatim>\<open>trampoline.S\<close>) are
  moves between registers. Diagnostic output (\<^verbatim>\<open>printf.c\<close> and the debug messages of every file) changes no state of the model. The user library,
  the shell, the other user programs, the line loop of \<^verbatim>\<open>grep.c\<close> and the image builder \<^verbatim>\<open>mkfs.c\<close> run outside the kernel and
  reach it only through the system calls, or not at all. Devices appear as what they answer, not when. The theories \<open>File\<close>, \<open>Proc\<close>, \<open>Sysarg\<close>,
  \<open>Exec\<close>, \<open>Sysfile\<close>, \<open>Sysproc\<close>, \<open>Syscall\<close>, \<open>Trap\<close> and \<open>Boot\<close> define their parts; no property is stated about these parts themselves.
\<close>

end
